(* ===== verification/Prelude.thy ===== *)
theory Prelude
  imports Main "HOL-Library.Word" "HOL-Library.Signed_Division"
begin

text \<open>
  Shared vocabulary of the development: the machine integer types of the C code, the C
  operators on them (shifts by a variable amount, conversions of a condition to an integer),
  the collections of simplification rules the components use, and generic lemmas on words
  and lists.  The guest code (\<open>abstract-machine\<close>) is compiled for RV32, so \<open>int\<close>,
  \<open>long\<close>, \<open>size_t\<close> and pointers are 32 bits wide there and plain \<open>char\<close> is unsigned; the
  simulator (\<open>core/csrc\<close>) is a 64-bit Linux program.
\<close>

unbundle bit_operations_syntax

section \<open>Machine integers\<close>

type_synonym u8 = "8 word"
type_synonym u16 = "16 word"
type_synonym u32 = "32 word"
type_synonym u64 = "64 word"

text \<open>
  C's shifts by a word amount.  The code keeps every amount below the width; where that is
  not obvious a lemma of the component states it.
\<close>

definition shl :: "'a::len word \<Rightarrow> 'b::len word \<Rightarrow> 'a word" where
  "shl x n = push_bit (unat n) x"

definition shr :: "'a::len word \<Rightarrow> 'b::len word \<Rightarrow> 'a word" where
  "shr x n = drop_bit (unat n) x"

text \<open>The value of a C condition: 1 when it holds, 0 otherwise.\<close>

definition c_bool :: "bool \<Rightarrow> 'a::len word" where
  "c_bool b = of_bool b"

lemma c_bool_simps [simp]: "c_bool True = 1" "c_bool False = 0"
  by (simp_all add: c_bool_def)

section \<open>Collections\<close>

named_theorems unat_simps \<open>how the unsigned value of a word expression is computed\<close>

declare unat_word_ariths [unat_simps]

section \<open>Words\<close>

lemma unat_bound32: "unat (x :: u32) < 4294967296"
  using unsigned_less [of x] by simp

lemma unat_bound64: "unat (x :: u64) < 18446744073709551616"
  using unsigned_less [of x] by simp

lemma unat_take_bit_eq: "unat (take_bit n w) = unat (w :: 'a::len word) mod 2 ^ n"
proof -
  have "unat (take_bit n w) = take_bit n (unat w)"
    by (rule bit_eqI) (simp add: bit_unsigned_iff bit_take_bit_iff)
  then show ?thesis by (simp only: take_bit_eq_mod [of n "unat w"])
qed

lemma unat_ucast: "unat (ucast (x :: 'a::len word) :: 'b::len word) = unat x mod 2 ^ LENGTH('b)"
  by (simp only: unsigned_ucast_eq take_bit_eq_mod [of _ "unat x"])

lemma unat_pow2: "n < LENGTH('a) \<Longrightarrow> unat ((2 :: 'a::len word) ^ n) = 2 ^ n"
proof -
  assume "n < LENGTH('a)"
  then have "(2 :: nat) ^ n < 2 ^ LENGTH('a)" by simp
  then show ?thesis
    by (metis mod_less of_nat_numeral of_nat_power unat_of_nat)
qed

lemma unat_drop_bit: "unat (drop_bit n w) = unat (w :: 'a::len word) div 2 ^ n"
  by (simp only: unat_drop_bit_eq drop_bit_eq_div [of n "unat w"])

lemma unat_push_bit:
  "unat (push_bit n w) = (unat w * 2 ^ n) mod 2 ^ LENGTH('a)" for w :: "'a::len word"
proof -
  have "push_bit n w = w * 2 ^ n"
    by (simp add: push_bit_eq_mult)
  then have "unat (push_bit n w) = unat w * unat ((2 :: 'a word) ^ n) mod 2 ^ LENGTH('a)"
    by (simp add: unat_word_ariths)
  also have "\<dots> = unat w * (2 ^ n) mod 2 ^ LENGTH('a)"
    by (metis mod_mult_right_eq of_nat_numeral of_nat_power unat_of_nat)
  finally show ?thesis .
qed

lemma unat_shr: "unat (shr x n) = unat x div 2 ^ unat n"
  by (simp only: shr_def unat_drop_bit)

lemma unat_shl: "unat (shl x n) = (unat x * 2 ^ unat n) mod 2 ^ LENGTH('a)"
  for x :: "'a::len word"
  by (simp only: shl_def unat_push_bit)

lemma and_field_eq_0_iff:
  "x AND push_bit m (mask k) = 0 \<longleftrightarrow> (\<forall>i. m \<le> i \<and> i < m + k \<longrightarrow> \<not> bit x i)"
  for x :: "'a::len word"
proof
  assume "x AND push_bit m (mask k) = 0"
  then have *: "\<not> bit (x AND push_bit m (mask k)) i" for i
    by simp
  have "\<not> bit x i" if "m \<le> i" "i < m + k" for i
  proof
    assume "bit x i"
    then have "i < LENGTH('a)" by (rule bit_imp_le_length)
    with \<open>bit x i\<close> that * [of i] show False
      by (auto simp: bit_simps)
  qed
  then show "\<forall>i. m \<le> i \<and> i < m + k \<longrightarrow> \<not> bit x i"
    by blast
next
  assume "\<forall>i. m \<le> i \<and> i < m + k \<longrightarrow> \<not> bit x i"
  then show "x AND push_bit m (mask k) = 0"
    by (auto simp: bit_eq_iff bit_simps)
qed

lemma unat_lt_pow2_iff_bits:
  "unat x < 2 ^ m \<longleftrightarrow> (\<forall>i \<ge> m. \<not> bit x i)" for x :: "'a::len word"
proof
  assume "unat x < 2 ^ m"
  then have "take_bit m (unat x) = unat x"
    by (simp only: take_bit_nat_eq_self_iff)
  then have "\<not> bit (unat x) i" if "i \<ge> m" for i
    using that by (metis bit_take_bit_iff not_le)
  then show "\<forall>i \<ge> m. \<not> bit x i"
    by (simp add: bit_unsigned_iff)
next
  assume *: "\<forall>i \<ge> m. \<not> bit x i"
  have "take_bit m x = x"
    by (rule bit_word_eqI) (use * not_le in \<open>auto simp: bit_take_bit_iff\<close>)
  then have "unat x mod 2 ^ m = unat x"
    by (simp only: unat_take_bit_eq [symmetric])
  moreover have "unat x mod 2 ^ m < 2 ^ m" by simp
  ultimately show "unat x < 2 ^ m" by simp
qed

text \<open>
  The test \<open>(x & field) == 0\<close> on the upper half of a value that fits in twice the field's
  offset says that the value fits in the lower half.
\<close>

lemma and_high_field_eq_0_iff:
  assumes "unat x < 2 ^ (m + k)"
  shows "x AND push_bit m (mask k) = 0 \<longleftrightarrow> unat (x :: 'a::len word) < 2 ^ m"
proof -
  have "\<not> bit x i" if "i \<ge> m + k" for i
    using assms that by (auto simp: unat_lt_pow2_iff_bits)
  then show ?thesis
    by (auto simp: and_field_eq_0_iff unat_lt_pow2_iff_bits) (meson not_le)
qed

lemma and_low_mask_eq_0_iff:
  "x AND mask k = 0 \<longleftrightarrow> 2 ^ k dvd unat x" for x :: "'a::len word"
proof -
  have "x AND mask k = 0 \<longleftrightarrow> unat (take_bit k x) = 0"
    by (simp only: take_bit_eq_mask unat_eq_zero)
  then show ?thesis
    by (simp only: unat_take_bit_eq dvd_eq_mod_eq_0)
qed

section \<open>Numerals\<close>

text \<open>The decimal text of a number.\<close>

fun decimal :: "nat \<Rightarrow> string" where
  "decimal n = (if n < 10 then [char_of (48 + n)] else decimal (n div 10) @ [char_of (48 + n mod 10)])"

declare decimal.simps [simp del]

section \<open>Bytes of a word\<close>

text \<open>A little-endian word from its bytes, and the bytes of a word.\<close>

definition le_word :: "u8 \<Rightarrow> u8 \<Rightarrow> u8 \<Rightarrow> u8 \<Rightarrow> u32" where
  "le_word b0 b1 b2 b3 =
     ucast b0 OR push_bit 8 (ucast b1) OR push_bit 16 (ucast b2) OR push_bit 24 (ucast b3)"

definition byte_of :: "u32 \<Rightarrow> nat \<Rightarrow> u8" where
  "byte_of w k = ucast (drop_bit (8 * k) w)"

lemma bit_byte_of: "bit (byte_of w k) n \<longleftrightarrow> n < 8 \<and> bit w (8 * k + n)"
  by (auto simp: byte_of_def bit_simps)

lemma le_word_byte_of [simp]: "le_word (byte_of w 0) (byte_of w 1) (byte_of w 2) (byte_of w 3) = w"
proof (rule bit_word_eqI)
  fix n assume "n < LENGTH(32)"
  then consider "n < 8" | "8 \<le> n" "n < 16" | "16 \<le> n" "n < 24" | "24 \<le> n" "n < 32"
    by (simp, linarith)
  then show "bit (le_word (byte_of w 0) (byte_of w 1) (byte_of w 2) (byte_of w 3)) n = bit w n"
    by cases (auto simp: le_word_def bit_simps bit_byte_of)
qed

lemma byte_of_le_word [simp]:
  "byte_of (le_word b0 b1 b2 b3) 0 = b0" "byte_of (le_word b0 b1 b2 b3) (Suc 0) = b1"
  "byte_of (le_word b0 b1 b2 b3) 2 = b2" "byte_of (le_word b0 b1 b2 b3) 3 = b3"
  by (rule bit_word_eqI; auto simp: le_word_def bit_simps bit_byte_of dest: bit_imp_le_length)+

end
