(* ===== verification/Int64_Count.thy ===== *)
theory Int64_Count
  imports Prelude
begin

text \<open>
  The bit counting routines of \<open>abstract-machine/klib/src/int64.c\<close>: \<open>__clzsi2\<close>,
  \<open>__ctzsi2\<close>, \<open>__clzdi2\<close> and \<open>__ctzdi2\<close>.  RV32 without the bit manipulation extension
  has no instruction for them, so the compiler turns \<open>__builtin_clz\<close> and
  \<open>__builtin_ctz\<close> into calls of these functions; the division routines rest on them.
  Each 32-bit routine halves its window four times, branch free; the step lemmas below are
  shared by the four halvings.
\<close>

section \<open>The union of a double word and its halves\<close>

text \<open>\<open>udwords\<close> and \<open>dwords\<close>, little endian: \<open>all\<close> is the 64-bit word itself.\<close>

definition s_low :: "u64 \<Rightarrow> u32" where
  "s_low w = ucast w"

definition s_high :: "u64 \<Rightarrow> u32" where
  "s_high w = ucast (drop_bit 32 w)"

definition mk_dwords :: "u32 \<Rightarrow> u32 \<Rightarrow> u64" where
  "mk_dwords high low = push_bit 32 (ucast high) OR ucast low"

section \<open>The routines\<close>

definition clzsi2 :: "u32 \<Rightarrow> u32" where
  "clzsi2 a =
     (let x = a;
          t = push_bit 4 (c_bool (x AND 0xFFFF0000 = 0)) :: u32;
          x = shr x (16 - t);
          r = t;
          t = push_bit 3 (c_bool (x AND 0xFF00 = 0)) :: u32;
          x = shr x (8 - t);
          r = r + t;
          t = push_bit 2 (c_bool (x AND 0xF0 = 0)) :: u32;
          x = shr x (4 - t);
          r = r + t;
          t = push_bit 1 (c_bool (x AND 0xC = 0)) :: u32;
          x = shr x (2 - t);
          r = r + t
      in r + ((2 - x) AND - c_bool (x AND 2 = 0)))"

definition ctzsi2 :: "u32 \<Rightarrow> u32" where
  "ctzsi2 a =
     (let x = a;
          t = push_bit 4 (c_bool (x AND 0x0000FFFF = 0)) :: u32;
          x = shr x t;
          r = t;
          t = push_bit 3 (c_bool (x AND 0x00FF = 0)) :: u32;
          x = shr x t;
          r = r + t;
          t = push_bit 2 (c_bool (x AND 0x0F = 0)) :: u32;
          x = shr x t;
          r = r + t;
          t = push_bit 1 (c_bool (x AND 0x3 = 0)) :: u32;
          x = shr x t;
          x = x AND 3;
          r = r + t
      in r + ((2 - drop_bit 1 x) AND - c_bool (x AND 1 = 0)))"

definition ctzdi2 :: "u64 \<Rightarrow> u32" where
  "ctzdi2 a =
     (let f = - c_bool (s_low a = 0) :: u32
      in ctzsi2 ((s_high a AND f) OR (s_low a AND NOT f)) + (f AND 32))"

definition clzdi2 :: "u64 \<Rightarrow> u32" where
  "clzdi2 a =
     (let f = - c_bool (s_high a = 0) :: u32
      in clzsi2 ((s_high a AND NOT f) OR (s_low a AND f)) + (f AND 32))"

section \<open>Halves\<close>

lemma unat_s_low: "unat (s_low w) = unat w mod 2 ^ 32"
  by (simp add: s_low_def unat_ucast)

lemma unat_s_high: "unat (s_high w) = unat w div 2 ^ 32"
proof -
  have "unat w div 2 ^ 32 < 2 ^ 32"
    using unat_bound64 [of w] by simp
  then show ?thesis
    by (simp add: s_high_def unat_ucast unat_drop_bit)
qed

lemma mk_dwords_s [simp]: "mk_dwords (s_high w) (s_low w) = w"
  by (rule bit_word_eqI)
    (auto simp: mk_dwords_def s_low_def s_high_def bit_simps)

lemma s_high_mk_dwords [simp]: "s_high (mk_dwords h l) = h"
  by (rule bit_word_eqI)
    (auto simp: mk_dwords_def s_low_def s_high_def bit_simps dest: bit_imp_le_length)

lemma s_low_mk_dwords [simp]: "s_low (mk_dwords h l) = l"
  by (rule bit_word_eqI)
    (auto simp: mk_dwords_def s_low_def s_high_def bit_simps)

lemma unat_mk_dwords: "unat (mk_dwords h l) = unat h * 2 ^ 32 + unat l"
  using unat_s_low [of "mk_dwords h l"] unat_s_high [of "mk_dwords h l"]
  by (metis div_mod_decomp s_high_mk_dwords s_low_mk_dwords)

section \<open>Counting leading zeros\<close>

text \<open>
  A halving of \<open>clzsi2\<close> with window \<open>2 * k\<close>: the value \<open>x\<close> is \<open>a\<close> shifted right so that
  the \<open>r\<close> leading zeros found so far and the window remain.
\<close>

definition clz_window :: "u32 \<Rightarrow> nat \<Rightarrow> u32 \<Rightarrow> u32 \<Rightarrow> bool" where
  "clz_window a k x r \<longleftrightarrow>
     unat r + k \<le> 32 \<and> unat x = unat a div 2 ^ (32 - unat r - k) \<and> unat x < 2 ^ k \<and> x \<noteq> 0"

lemma clz_halve:
  assumes w: "clz_window a k2 x r" and k2: "k2 = k + k"
    and k: "k = 2 ^ j" "j \<le> 4"
    and fld: "fld = push_bit k (mask k)"
    and t: "t = push_bit j (c_bool (x AND fld = 0))"
    and n: "n = 2 ^ j"
  shows "clz_window a k (shr x (n - t)) (r + t)"
proof -
  note w = w [unfolded k2]
  have k16: "k \<le> 16" using k power_increasing [of j 4 "2::nat"] by simp
  have un: "unat n = k"
    using k n k16 by (simp add: unat_pow2)
  show ?thesis
  proof (cases "x AND fld = 0")
    case True
    with w fld have "unat x < 2 ^ k"
      by (simp add: clz_window_def and_high_field_eq_0_iff)
    moreover from True t n have "t = n" by (simp add: push_bit_eq_mult)
    moreover have "unat (r + n) = unat r + k"
      using w un by (intro unat_add_lem [THEN iffD1, THEN trans])
        (auto simp: clz_window_def)
    ultimately show ?thesis
      using w by (auto simp: clz_window_def unat_shr shr_def add.assoc)
  next
    case False
    then have t0: "t = 0" using t by simp
    from False w fld have ge: "2 ^ k \<le> unat x"
      by (simp add: clz_window_def and_high_field_eq_0_iff)
    have "unat x div 2 ^ k < 2 ^ k"
      using w by (simp add: clz_window_def power_add less_mult_imp_div_less)
    moreover have "unat x div 2 ^ k \<noteq> 0"
      using ge by (simp add: div_eq_0_iff)
    moreover have "unat x div 2 ^ k = unat a div 2 ^ (32 - unat r - k)"
    proof -
      have "32 - unat r - k = 32 - unat r - (k + k) + k"
        using w by (auto simp: clz_window_def)
      then have "(2::nat) ^ (32 - unat r - k) = 2 ^ (32 - unat r - (k + k)) * 2 ^ k"
        by (simp only: power_add)
      then show ?thesis
        using w by (simp add: clz_window_def div_mult2_eq)
    qed
    moreover have "unat (shr x (n - t)) = unat x div 2 ^ k"
      using un t0 by (simp add: unat_shr)
    ultimately show ?thesis
      using w t0 by (auto simp: clz_window_def) 
  qed
qed


lemma clzsi2_window:
  assumes "a \<noteq> 0"
  obtains x r where "clz_window a 2 x r"
    and "clzsi2 a = r + ((2 - x) AND - c_bool (x AND 2 = 0))"
proof -
  define t1 where "t1 = (push_bit 4 (c_bool (a AND 0xFFFF0000 = 0)) :: u32)"
  define x1 where "x1 = shr a (16 - t1)"
  define t2 where "t2 = (push_bit 3 (c_bool (x1 AND 0xFF00 = 0)) :: u32)"
  define x2 where "x2 = shr x1 (8 - t2)"
  define t3 where "t3 = (push_bit 2 (c_bool (x2 AND 0xF0 = 0)) :: u32)"
  define x3 where "x3 = shr x2 (4 - t3)"
  define t4 where "t4 = (push_bit 1 (c_bool (x3 AND 0xC = 0)) :: u32)"
  define x4 where "x4 = shr x3 (2 - t4)"
  have "clz_window a 32 a 0"
    using assms unat_bound32 [of a] by (simp add: clz_window_def)
  then have w1: "clz_window a 16 x1 (0 + t1)"
    unfolding x1_def
    by (rule clz_halve [where j = 4, OF _ _ _ _ _ t1_def]) (simp_all add: mask_eq_exp_minus_1)
  have w2: "clz_window a 8 x2 (0 + t1 + t2)"
    unfolding x2_def
    by (rule clz_halve [where j = 3, OF w1 _ _ _ _ t2_def]) (simp_all add: mask_eq_exp_minus_1)
  have w3: "clz_window a 4 x3 (0 + t1 + t2 + t3)"
    unfolding x3_def
    by (rule clz_halve [where j = 2, OF w2 _ _ _ _ t3_def]) (simp_all add: mask_eq_exp_minus_1)
  have w4: "clz_window a 2 x4 (0 + t1 + t2 + t3 + t4)"
    unfolding x4_def
    by (rule clz_halve [where j = 1, OF w3 _ _ _ _ t4_def]) (simp_all add: mask_eq_exp_minus_1)
  show thesis
    by (rule that [OF w4])
      (simp only: clzsi2_def Let_def t1_def x1_def t2_def x2_def t3_def x3_def t4_def x4_def add_0)
qed

text \<open>The counted zeros place the value between two powers of two.\<close>

lemma clzsi2_bounds:
  assumes "a \<noteq> 0"
  shows "unat (clzsi2 a) < 32"
    and "2 ^ (31 - unat (clzsi2 a)) \<le> unat a" and "unat a < 2 ^ (32 - unat (clzsi2 a))"
proof -
  obtain x r where w: "clz_window a 2 x r"
    and c: "clzsi2 a = r + ((2 - x) AND - c_bool (x AND 2 = 0))"
    using assms by (rule clzsi2_window)
  from w have "unat x \<in> {1, 2, 3}"
    by (auto simp: clz_window_def unat_eq_zero less_Suc_eq numeral_eq_Suc)
  then have "x \<in> {1, 2, 3}"
    by (auto simp: word_unat_eq_iff)
  then have "unat (clzsi2 a) = unat r + (if unat x = 1 then 1 else 0)"
    using w c by (auto simp: clz_window_def unat_word_ariths)
  moreover have "unat x * 2 ^ (30 - unat r) \<le> unat a"
    using w by (simp add: clz_window_def)
  moreover have "unat a < (unat x + 1) * 2 ^ (30 - unat r)"
    using w by (simp add: clz_window_def dividend_less_div_times)
  moreover have "unat r \<le> 30" using w by (simp add: clz_window_def)
  moreover have "31 - unat r = Suc (30 - unat r)" "32 - unat r = Suc (Suc (30 - unat r))"
    using \<open>unat r \<le> 30\<close> by simp_all
  ultimately show "unat (clzsi2 a) < 32"
    and "2 ^ (31 - unat (clzsi2 a)) \<le> unat a" and "unat a < 2 ^ (32 - unat (clzsi2 a))"
    using \<open>unat x \<in> {1, 2, 3}\<close> by auto
qed


section \<open>Counting trailing zeros\<close>

definition ctz_window :: "u32 \<Rightarrow> nat \<Rightarrow> u32 \<Rightarrow> u32 \<Rightarrow> bool" where
  "ctz_window a k x r \<longleftrightarrow>
     unat r + k \<le> 32 \<and> unat a = unat x * 2 ^ unat r \<and> \<not> 2 ^ k dvd unat x"

lemma ctz_halve:
  assumes w: "ctz_window a k2 x r" and k2: "k2 = k + k"
    and k: "k = 2 ^ j" "j \<le> 4"
    and fld: "fld = mask k"
    and t: "t = push_bit j (c_bool (x AND fld = 0))"
  shows "ctz_window a k (shr x t) (r + t)"
proof -
  note w = w [unfolded k2]
  have k16: "k \<le> 16" using k power_increasing [of j 4 "2::nat"] by simp
  show ?thesis
  proof (cases "x AND fld = 0")
    case True
    then have t2: "t = 2 ^ j" using t by (simp add: push_bit_eq_mult)
    then have ut: "unat t = k" using k by (simp add: unat_pow2)
    from True fld have dvd: "2 ^ k dvd unat x"
      by (simp add: and_low_mask_eq_0_iff)
    then have x: "unat x = unat x div 2 ^ k * 2 ^ k" by simp
    have "unat (r + t) = unat r + k"
      using w ut by (intro unat_add_lem [THEN iffD1, THEN trans]) (auto simp: ctz_window_def)
    moreover have "\<not> 2 ^ k dvd unat x div 2 ^ k"
      using w dvd by (auto simp: ctz_window_def power_add elim!: dvdE)
    moreover have "unat a = unat x div 2 ^ k * 2 ^ (unat r + k)"
      using w x by (simp add: ctz_window_def power_add)
    ultimately show ?thesis
      using w ut by (auto simp: ctz_window_def unat_shr)
  next
    case False
    then have "t = 0" using t by simp
    moreover have "\<not> 2 ^ k dvd unat x"
      using False fld by (simp add: and_low_mask_eq_0_iff)
    ultimately show ?thesis
      using w by (auto simp: ctz_window_def shr_def)
  qed
qed

lemma ctzsi2_window:
  assumes "a \<noteq> 0"
  obtains x r where "ctz_window a 2 x r"
    and "ctzsi2 a = r + ((2 - drop_bit 1 (x AND 3)) AND - c_bool ((x AND 3) AND 1 = 0))"
proof -
  define t1 where "t1 = (push_bit 4 (c_bool (a AND 0x0000FFFF = 0)) :: u32)"
  define x1 where "x1 = shr a t1"
  define t2 where "t2 = (push_bit 3 (c_bool (x1 AND 0x00FF = 0)) :: u32)"
  define x2 where "x2 = shr x1 t2"
  define t3 where "t3 = (push_bit 2 (c_bool (x2 AND 0x0F = 0)) :: u32)"
  define x3 where "x3 = shr x2 t3"
  define t4 where "t4 = (push_bit 1 (c_bool (x3 AND 0x3 = 0)) :: u32)"
  define x4 where "x4 = shr x3 t4"
  have "0 < unat a"
    using assms by (metis neq0_conv unat_eq_zero)
  then have "\<not> 2 ^ 32 dvd unat a"
    using unat_bound32 [of a] by (auto dest!: dvd_imp_le)
  then have "ctz_window a 32 a 0"
    by (simp add: ctz_window_def)
  then have w1: "ctz_window a 16 x1 (0 + t1)"
    unfolding x1_def
    by (rule ctz_halve [where j = 4, OF _ _ _ _ _ t1_def]) (simp_all add: mask_eq_exp_minus_1)
  have w2: "ctz_window a 8 x2 (0 + t1 + t2)"
    unfolding x2_def
    by (rule ctz_halve [where j = 3, OF w1 _ _ _ _ t2_def]) (simp_all add: mask_eq_exp_minus_1)
  have w3: "ctz_window a 4 x3 (0 + t1 + t2 + t3)"
    unfolding x3_def
    by (rule ctz_halve [where j = 2, OF w2 _ _ _ _ t3_def]) (simp_all add: mask_eq_exp_minus_1)
  have w4: "ctz_window a 2 x4 (0 + t1 + t2 + t3 + t4)"
    unfolding x4_def
    by (rule ctz_halve [where j = 1, OF w3 _ _ _ _ t4_def]) (simp_all add: mask_eq_exp_minus_1)
  show thesis
    by (rule that [OF w4])
      (simp only: ctzsi2_def Let_def t1_def x1_def t2_def x2_def t3_def x3_def t4_def x4_def add_0)
qed

lemma ctzsi2_factor:
  assumes "a \<noteq> 0"
  shows "unat (ctzsi2 a) < 32" and "\<exists>m. unat a = (2 * m + 1) * 2 ^ unat (ctzsi2 a)"
proof -
  obtain x r y where w: "ctz_window a 2 x r" and y: "y = x AND 3"
    and c: "ctzsi2 a = r + ((2 - drop_bit 1 y) AND - c_bool (y AND 1 = 0))"
    using assms by (metis ctzsi2_window)
  have "y = take_bit 2 x"
    by (simp add: y take_bit_eq_mask mask_eq_exp_minus_1)
  then have u: "unat y = unat x mod 4"
    by (simp only: unat_take_bit_eq) simp
  have "unat x mod 4 \<in> {1, 2, 3}"
    using w by (auto simp: ctz_window_def dvd_eq_mod_eq_0)
  then have m: "y \<in> {1, 2, 3}"
    using u by (auto simp: word_unat_eq_iff)
  then have c': "unat (ctzsi2 a) = unat r + (if unat x mod 4 = 2 then 1 else 0)"
    using w c u by (auto simp: ctz_window_def unat_word_ariths)
  show "unat (ctzsi2 a) < 32"
    using w c' by (auto simp: ctz_window_def)
  show "\<exists>m. unat a = (2 * m + 1) * 2 ^ unat (ctzsi2 a)"
  proof (cases "unat x mod 4 = 2")
    case True
    then have "unat x = (2 * (unat x div 4) + 1) * 2"
      using div_mult_mod_eq [of "unat x" 4] by simp
    then have "unat a = (2 * (unat x div 4) + 1) * 2 * 2 ^ unat r"
      using w by (simp add: ctz_window_def)
    then show ?thesis
      using True c' by auto
  next
    case False
    with \<open>unat x mod 4 \<in> {1, 2, 3}\<close> have "odd (unat x)"
      by (elim insertE emptyE) presburger+
    then obtain m where "unat x = 2 * m + 1"
      by (auto elim: oddE)
    then show ?thesis
      using w c' False by (auto simp: ctz_window_def)
  qed
qed


section \<open>Double words\<close>

text \<open>
  The branch-free selection of the half to count in: the mask \<open>f\<close> is all ones when the
  preferred half is zero.
\<close>

lemma clzdi2_select:
  "clzdi2 a = (if s_high a = 0 then clzsi2 (s_low a) + 32 else clzsi2 (s_high a))"
  by (simp add: clzdi2_def Let_def)

lemma ctzdi2_select:
  "ctzdi2 a = (if s_low a = 0 then ctzsi2 (s_high a) + 32 else ctzsi2 (s_low a))"
  by (simp add: ctzdi2_def Let_def)

lemma unat_halves: "unat a = unat (s_high a) * 2 ^ 32 + unat (s_low a)"
  by (simp add: unat_s_high unat_s_low)

lemma s_halves_0: "s_high a = 0 \<Longrightarrow> s_low a = 0 \<Longrightarrow> a = 0"
  using unat_halves [of a] by (simp add: unat_eq_zero)

lemma unat_add_32: "unat (n :: u32) < 32 \<Longrightarrow> unat (n + 32) = unat n + 32"
  by (simp add: unat_word_ariths)

lemma high_clz_bounds:
  assumes "s_high b \<noteq> 0"
  shows "2 ^ (63 - unat (clzsi2 (s_high b))) \<le> unat b"
    and "unat b < 2 ^ (64 - unat (clzsi2 (s_high b)))"
proof -
  note h = clzsi2_bounds [OF assms]
  let ?n = "unat (clzsi2 (s_high b))"
  have "63 - ?n = 32 + (31 - ?n)" "64 - ?n = 32 + (32 - ?n)"
    using h(1) by simp_all
  then have pow: "(2::nat) ^ (63 - ?n) = 2 ^ 32 * 2 ^ (31 - ?n)"
    "(2::nat) ^ (64 - ?n) = 2 ^ 32 * 2 ^ (32 - ?n)"
    by (simp_all only: power_add)
  have "unat (s_high b) + 1 \<le> 2 ^ (32 - ?n)" using h(3) by simp
  then have "2 ^ 32 * (unat (s_high b) + 1) \<le> 2 ^ 32 * 2 ^ (32 - ?n)"
    by (rule mult_le_mono2)
  moreover have "2 ^ 32 * 2 ^ (31 - ?n) \<le> 2 ^ 32 * unat (s_high b)"
    using h(2) by (rule mult_le_mono2)
  ultimately show "2 ^ (63 - ?n) \<le> unat b" "unat b < 2 ^ (64 - ?n)"
    using unat_halves [of b] unat_bound32 [of "s_low b"] pow by simp_all
qed

text \<open>
  \<open>__clzdi2\<close>, and \<open>__clzsi2\<close> which it calls on one of the halves, count the
  leading zero bits of a nonzero argument: the count is below the width and the argument
  has its highest one bit exactly there.
\<close>

theorem clz_correct:
  assumes "b \<noteq> 0"
  shows "unat (clzdi2 b) < 64 \<and>
    2 ^ (63 - unat (clzdi2 b)) \<le> unat b \<and> unat b < 2 ^ (64 - unat (clzdi2 b))"
proof (cases "s_high b = 0")
  case True
  with assms have l: "s_low b \<noteq> 0" using s_halves_0 by blast
  from True have "unat b = unat (s_low b)" using unat_halves [of b] by simp
  then show ?thesis
    using clzsi2_bounds [OF l] True by (simp add: clzdi2_select unat_add_32)
next
  case False
  then show ?thesis
    using high_clz_bounds [OF False] clzsi2_bounds(1) [OF False] by (simp add: clzdi2_select)
qed

theorem clz_correct_witness:
  "unat (clzdi2 0xF000) = 48 \<and> 2 ^ 15 \<le> unat (0xF000 :: u64) \<and> unat (0xF000 :: u64) < 2 ^ 16"
proof -
  have "unat (clzdi2 0xF000) = 48"
    by (simp add: clzdi2_select clzsi2_def shr_def s_high_def s_low_def)
  then show ?thesis
    using clz_correct [of "0xF000"] by simp
qed

text \<open>
  \<open>__ctzdi2\<close>, and \<open>__ctzsi2\<close> which it calls on one of the halves, count the
  trailing zero bits of a nonzero argument: the argument is an odd number times that power
  of two.
\<close>

theorem ctz_correct:
  assumes "b \<noteq> 0"
  shows "unat (ctzdi2 b) < 64 \<and> (\<exists>m. unat b = (2 * m + 1) * 2 ^ unat (ctzdi2 b))"
proof (cases "s_low b = 0")
  case True
  with assms have h: "s_high b \<noteq> 0" using s_halves_0 by blast
  obtain m where m: "unat (s_high b) = (2 * m + 1) * 2 ^ unat (ctzsi2 (s_high b))"
    using ctzsi2_factor(2) [OF h] by blast
  have "unat b = (2 * m + 1) * 2 ^ (unat (ctzsi2 (s_high b)) + 32)"
    using unat_halves [of b] m True by (simp add: power_add)
  then show ?thesis
    using True ctzsi2_factor(1) [OF h] by (auto simp: ctzdi2_select unat_add_32)
next
  case False
  note n = ctzsi2_factor(1) [OF this]
  let ?n = "unat (ctzsi2 (s_low b))"
  obtain m where m: "unat (s_low b) = (2 * m + 1) * 2 ^ ?n"
    using ctzsi2_factor(2) [OF False] by blast
  have "32 = Suc (31 - ?n) + ?n" using n by simp
  then have "(2::nat) ^ 32 = 2 * 2 ^ (31 - ?n) * 2 ^ ?n"
    by (metis power_Suc power_add)
  then have "unat b = (2 * (unat (s_high b) * 2 ^ (31 - ?n) + m) + 1) * 2 ^ ?n"
    using unat_halves [of b] m by (simp add: algebra_simps)
  then have "\<exists>m. unat b = (2 * m + 1) * 2 ^ ?n"
    by (rule exI)
  moreover have "?n < 64" using n by simp
  ultimately show ?thesis
    using False by (simp only: ctzdi2_select if_False)
qed

theorem ctz_correct_witness:
  "unat (ctzdi2 0xF00000000) = 32 \<and> (\<exists>m. (0xF00000000::nat) = (2 * m + 1) * 2 ^ 32)"
proof -
  have "unat (ctzdi2 0xF00000000) = 32"
    by (simp add: ctzdi2_select ctzsi2_def shr_def s_high_def s_low_def)
  then show ?thesis
    using ctz_correct [of "0xF00000000"] by simp
qed

end
