(* ===== verification/Int64_Div.thy ===== *)
theory Int64_Div
  imports Int64_Count
begin

text \<open>
  The 64-bit division routines of \<open>abstract-machine/klib/src/int64.c\<close>.  All of them rest
  on \<open>__udivmoddi4\<close>, which dispatches on the zero halves of dividend and divisor and
  otherwise runs a restoring shift-subtract loop.  The model returns the quotient and the
  value stored through \<open>rem\<close> (a null \<open>rem\<close> drops it); \<open>None\<close> is a division by zero,
  which is undefined in C.  The central lemma relates the loop to natural number division;
  each dispatch branch is then shown to enter the loop in a state of its invariant or to
  compute the result directly.
\<close>

section \<open>The routines\<close>

text \<open>The loop over \<open>sr\<close>: shift \<open>r:q\<close> left by one, then subtract \<open>d\<close> without a branch.\<close>

fun udiv_loop :: "nat \<Rightarrow> u64 \<Rightarrow> u64 \<Rightarrow> u64 \<Rightarrow> u32 \<Rightarrow> u64 \<times> u64 \<times> u32" where
  "udiv_loop 0 d q r carry = (q, r, carry)"
| "udiv_loop (Suc sr) d q r carry =
     (let r_high = push_bit 1 (s_high r) OR drop_bit 31 (s_low r);
          r_low = push_bit 1 (s_low r) OR drop_bit 31 (s_high q);
          q_high = push_bit 1 (s_high q) OR drop_bit 31 (s_low q);
          q_low = push_bit 1 (s_low q) OR carry;
          r = mk_dwords r_high r_low;
          q = mk_dwords q_high q_low;
          s = signed_drop_bit 63 (d - r - 1);
          carry = ucast (s AND 1);
          r = r - (d AND s)
      in udiv_loop sr d q r carry)"

definition udiv_finish :: "u32 \<Rightarrow> u64 \<Rightarrow> u64 \<Rightarrow> u64 \<Rightarrow> u64 \<times> u64" where
  "udiv_finish sr d q r =
     (case udiv_loop (unat sr) d q r 0 of
        (q, r, carry) \<Rightarrow> (push_bit 1 q OR ucast carry, r))"

definition udivmoddi4 :: "u64 \<Rightarrow> u64 \<Rightarrow> (u64 \<times> u64) option" where
  "udivmoddi4 a b =
     (let n = a; d = b in
      if s_high n = 0 then
        if s_high d = 0 then
          if s_low d = 0 then None
          else Some (ucast (s_low n div s_low d), ucast (s_low n mod s_low d))
        else Some (0, ucast (s_low n))
      else if s_low d = 0 then
        if s_high d = 0 then None
        else if s_low n = 0 then
          Some (ucast (s_high n div s_high d), mk_dwords (s_high n mod s_high d) 0)
        else if s_high d AND (s_high d - 1) = 0 then
          Some (ucast (shr (s_high n) (ctzsi2 (s_high d))),
                mk_dwords (s_high n AND (s_high d - 1)) (s_low n))
        else
          let sr = clzsi2 (s_high d) - clzsi2 (s_high n) in
          if sr > 30 then Some (0, n)
          else
            let sr = sr + 1;
                q = mk_dwords (shl (s_low n) (32 - sr)) 0;
                r = mk_dwords (shr (s_high n) sr) (shl (s_high n) (32 - sr) OR shr (s_low n) sr)
            in Some (udiv_finish sr d q r)
      else if s_high d = 0 then
        if s_low d AND (s_low d - 1) = 0 then
          let rem = ucast (s_low n AND (s_low d - 1)) in
          if s_low d = 1 then Some (n, rem)
          else
            let sr = ctzsi2 (s_low d) in
            Some (mk_dwords (shr (s_high n) sr) (shl (s_high n) (32 - sr) OR shr (s_low n) sr), rem)
        else
          let sr = 1 + 32 + clzsi2 (s_low d) - clzsi2 (s_high n) in
          if sr = 32 then
            Some (udiv_finish sr d (mk_dwords (s_low n) 0) (mk_dwords 0 (s_high n)))
          else if sr < 32 then
            let q = mk_dwords (shl (s_low n) (32 - sr)) 0;
                r = mk_dwords (shr (s_high n) sr) (shl (s_high n) (32 - sr) OR shr (s_low n) sr)
            in Some (udiv_finish sr d q r)
          else
            let q = mk_dwords (shl (s_high n) (64 - sr) OR shr (s_low n) (sr - 32))
                              (shl (s_low n) (64 - sr));
                r = mk_dwords 0 (shr (s_high n) (sr - 32))
            in Some (udiv_finish sr d q r)
      else
        let sr = clzsi2 (s_high d) - clzsi2 (s_high n) in
        if sr > 31 then Some (0, n)
        else
          let sr = sr + 1 in
          if sr = 32 then
            Some (udiv_finish sr d (mk_dwords (s_low n) 0) (mk_dwords 0 (s_high n)))
          else
            let q = mk_dwords (shl (s_low n) (32 - sr)) 0;
                r = mk_dwords (shr (s_high n) sr) (shl (s_high n) (32 - sr) OR shr (s_low n) sr)
            in Some (udiv_finish sr d q r))"

text \<open>The callers; a negative operand is negated through its sign mask.\<close>

definition udivdi3 :: "u64 \<Rightarrow> u64 \<Rightarrow> u64 option" where
  "udivdi3 a b = map_option fst (udivmoddi4 a b)"

definition umoddi3 :: "u64 \<Rightarrow> u64 \<Rightarrow> u64 option" where
  "umoddi3 a b = map_option snd (udivmoddi4 a b)"

text \<open>A value of type \<open>di_int\<close>; arithmetic that leaves its range is undefined, like a division by zero.\<close>

definition di_int :: "int \<Rightarrow> u64 option" where
  "di_int i = (if - (2 ^ 63) \<le> i \<and> i < 2 ^ 63 then Some (word_of_int i) else None)"

definition divdi3 :: "u64 \<Rightarrow> u64 \<Rightarrow> u64 option" where
  "divdi3 a b =
     (let s_a = signed_drop_bit 63 a;
          s_b = signed_drop_bit 63 b
      in Option.bind (di_int (sint (a XOR s_a) - sint s_a)) (\<lambda>a.
         Option.bind (di_int (sint (b XOR s_b) - sint s_b)) (\<lambda>b.
         let s_a = s_a XOR s_b
         in map_option (\<lambda>(q, _). (q XOR s_a) - s_a) (udivmoddi4 a b))))"

definition divmoddi4 :: "u64 \<Rightarrow> u64 \<Rightarrow> (u64 \<times> u64) option" where
  "divmoddi4 a b =
     Option.bind (divdi3 a b) (\<lambda>d.
     Option.bind (di_int (sint d * sint b)) (\<lambda>p.
     Option.bind (di_int (sint a - sint p)) (\<lambda>rem. Some (d, rem))))"

definition moddi3 :: "u64 \<Rightarrow> u64 \<Rightarrow> u64 option" where
  "moddi3 a b =
     (let s = signed_drop_bit 63 b
      in Option.bind (di_int (sint (b XOR s) - sint s)) (\<lambda>b.
         let s = signed_drop_bit 63 a
         in Option.bind (di_int (sint (a XOR s) - sint s)) (\<lambda>a.
            Option.bind (udivmoddi4 a b) (\<lambda>(_, r). di_int (sint (r XOR s) - sint s)))))"

section \<open>One step of the loop\<close>

lemma sign_mask: "signed_drop_bit 63 (x :: u64) = (if 2 ^ 63 \<le> unat x then -1 else 0)"
proof -
  have "\<not> bit x i" if "\<not> bit x 63" "63 \<le> i" for i
    using that bit_imp_le_length [of x i] by (cases "i = 63") auto
  then have "bit x 63 \<longleftrightarrow> 2 ^ 63 \<le> unat x"
    using unat_lt_pow2_iff_bits [of x 63] by (metis not_le order_refl)
  moreover have "signed_drop_bit 63 x = (if bit x 63 then -1 else 0)"
  proof (rule bit_word_eqI)
    fix n assume "n < LENGTH(64)"
    then show "bit (signed_drop_bit 63 x) n = bit (if bit x 63 then -1 else 0 :: u64) n"
      by (cases n) (auto simp: bit_signed_drop_bit_iff)
  qed
  ultimately show ?thesis by simp
qed

text \<open>Shifts of a double word, composed from shifts of its halves as the code does.\<close>

lemma mk_dwords_or: "mk_dwords h (l OR c) = mk_dwords h l OR ucast c"
  by (rule bit_word_eqI) (auto simp: mk_dwords_def bit_simps)

lemma dw_shl:
  assumes "k \<le> 32"
  shows "mk_dwords (push_bit k (s_high a) OR drop_bit (32 - k) (s_low a)) (push_bit k (s_low a))
    = push_bit k a"
  using assms
  by (intro bit_word_eqI)
    (auto simp: mk_dwords_def s_low_def s_high_def bit_simps dest: bit_imp_le_length)

lemma dw_shr:
  assumes "k \<le> 32"
  shows "mk_dwords (drop_bit k (s_high a)) (push_bit (32 - k) (s_high a) OR drop_bit k (s_low a))
    = drop_bit k a"
proof (rule bit_word_eqI)
  fix n assume "n < LENGTH(64)"
  consider "n + k < 32" | "n < 32" "32 \<le> n + k" | "32 \<le> n" by linarith
  then show "bit (mk_dwords (drop_bit k (s_high a))
      (push_bit (32 - k) (s_high a) OR drop_bit k (s_low a))) n = bit (drop_bit k a) n"
    using assms
    by cases
      (auto simp: mk_dwords_def s_low_def s_high_def bit_simps ac_simps dest: bit_imp_le_length)
qed

lemma dw_shl_high: "mk_dwords (push_bit k (s_low a)) 0 = push_bit (32 + k) a"
  by (intro bit_word_eqI)
    (auto simp: mk_dwords_def s_low_def s_high_def bit_simps dest: bit_imp_le_length)

lemma dw_shr_low: "mk_dwords 0 (drop_bit k (s_high a)) = drop_bit (32 + k) a"
  by (intro bit_word_eqI)
    (auto simp: mk_dwords_def s_low_def s_high_def bit_simps ac_simps dest: bit_imp_le_length)

lemma drop_bit_high: "ucast (drop_bit 31 (s_high q)) = drop_bit 63 q"
  by (intro bit_word_eqI) (auto simp: s_high_def bit_simps ac_simps dest: bit_imp_le_length)


lemma shift_r:
  "mk_dwords (push_bit 1 (s_high r) OR drop_bit 31 (s_low r))
     (push_bit 1 (s_low r) OR drop_bit 31 (s_high q)) = push_bit 1 r OR drop_bit 63 q"
proof -
  have "mk_dwords (push_bit 1 (s_high r) OR drop_bit (32 - 1) (s_low r)) (push_bit 1 (s_low r))
      = push_bit 1 r"
    by (rule dw_shl) simp
  moreover have "32 - 1 = (31 :: nat)" by simp
  ultimately show ?thesis
    by (simp only: mk_dwords_or drop_bit_high)
qed

lemma shift_q:
  "mk_dwords (push_bit 1 (s_high q) OR drop_bit 31 (s_low q)) (push_bit 1 (s_low q) OR c)
    = push_bit 1 q OR ucast c"
proof -
  have "mk_dwords (push_bit 1 (s_high q) OR drop_bit (32 - 1) (s_low q)) (push_bit 1 (s_low q))
      = push_bit 1 q"
    by (rule dw_shl) simp
  moreover have "32 - 1 = (31 :: nat)" by simp
  ultimately show ?thesis
    by (simp only: mk_dwords_or)
qed

lemma push_bit_and_small: "unat c < 2 ^ k \<Longrightarrow> push_bit k x AND c = 0"
  for x c :: "'a::len word"
  by (auto simp: unat_lt_pow2_iff_bits bit_eq_iff bit_simps)

lemma unat_push1_or:
  assumes "unat c \<le> 1"
  shows "unat (push_bit 1 (x :: u64) OR c) = (2 * unat x + unat c) mod 2 ^ 64"
proof -
  have "unat c < 2 ^ 1" using assms by simp
  then have "push_bit 1 x AND c = 0"
    by (simp only: push_bit_and_small)
  then have "push_bit 1 x OR c = push_bit 1 x + c"
    by (simp add: disjunctive_add_eq_or)
  then have "unat (push_bit 1 x OR c) = (unat (push_bit 1 x) + unat c) mod 2 ^ 64"
    by (simp add: unat_word_ariths)
  then show ?thesis
    by (simp add: unat_word_ariths mod_simps mult.commute)
qed

text \<open>
  The body of the loop on natural numbers: the remainder takes in the dividend's next bit,
  and the subtraction is done exactly when it does not go below zero.  The sign test on
  \<open>d - r - 1\<close> is right as long as the two values are within \<open>2 ^ 63\<close> of each other.
\<close>

lemma udiv_step:
  fixes d q r :: u64 and carry :: u32
  assumes carry: "carry \<in> {0, 1}"
    and r1: "r1 = push_bit 1 r OR drop_bit 63 q"
    and s: "s = signed_drop_bit 63 (d - r1 - 1)"
    and fits: "2 * unat r + unat q div 2 ^ 63 < 2 ^ 64"
    and near: "unat d \<le> 2 * unat r + unat q div 2 ^ 63 + 2 ^ 63"
       "2 * unat r + unat q div 2 ^ 63 < unat d + 2 ^ 63"
  defines "R \<equiv> 2 * unat r + unat q div 2 ^ 63"
  shows "unat (r1 - (d AND s)) = (if unat d \<le> R then R - unat d else R)"
    and "ucast (s AND 1) = (if unat d \<le> R then 1 else 0 :: u32)"
proof -
  have "unat (drop_bit 63 q) = unat q div 2 ^ 63" by (rule unat_drop_bit)
  moreover have "unat q div 2 ^ 63 \<le> 1" using unat_bound64 [of q] by simp
  ultimately have R1: "unat r1 = R"
    using fits by (simp only: r1 unat_push1_or R_def mod_less)
  have near': "unat d \<le> R + 2 ^ 63" "R < unat d + 2 ^ 63"
    using near by (simp_all only: R_def)
  have "2 ^ 63 \<le> unat (d - r1 - 1) \<longleftrightarrow> unat d \<le> R"
  proof (cases "unat d \<le> R")
    case True
    then have "unat (d - r1 - 1) = 2 ^ 64 - (R - unat d + 1)"
      using R1 near' unat_bound64 [of d] unat_bound64 [of r1]
      by (auto simp: unat_sub_if')
    then show ?thesis using True near' by simp
  next
    case False
    then have "unat (d - r1 - 1) = unat d - R - 1"
      using R1 near' unat_bound64 [of d] unat_bound64 [of r1]
      by (auto simp: unat_sub_if')
    then show ?thesis using False near' by simp
  qed
  then have s': "s = (if unat d \<le> R then -1 else 0)"
    by (simp add: s sign_mask)
  then show "unat (r1 - (d AND s)) = (if unat d \<le> R then R - unat d else R)"
    using R1 by (simp add: unat_sub_if')
  show "ucast (s AND 1) = (if unat d \<le> R then 1 else 0 :: u32)"
    using s' by simp
qed


section \<open>The loop\<close>

text \<open>
  The invariant, with \<open>j\<close> iterations to go: the top \<open>j\<close> bits of \<open>q\<close> are dividend bits
  still to be shifted into \<open>r\<close>, the rest of \<open>q\<close> and \<open>carry\<close> are the quotient found so
  far, and \<open>r\<close> is a remainder.  For a divisor above \<open>2 ^ 63\<close> the code enters the loop for
  one iteration only, with a remainder large enough for the sign test.
\<close>

definition udiv_inv :: "nat \<Rightarrow> nat \<Rightarrow> u64 \<Rightarrow> u64 \<Rightarrow> u64 \<Rightarrow> u32 \<Rightarrow> bool" where
  "udiv_inv a j d q r carry \<longleftrightarrow>
     carry \<in> {0, 1} \<and> j \<le> 63 \<and> unat r < unat d \<and>
     a = ((2 * (unat q mod 2 ^ (64 - j)) + unat carry) * unat d + unat r) * 2 ^ j
         + unat q div 2 ^ (64 - j) \<and>
     (j = 0 \<or> unat d \<le> 2 ^ 63 \<or> j = 1 \<and> 2 ^ 62 \<le> unat r \<and> unat r < 2 ^ 63)"

text \<open>The quotient register: its top bit leaves, the carry enters at the bottom.\<close>

lemma quotient_shift:
  fixes Q :: nat
  assumes Q: "Q < 2 ^ 64" and j: "0 < j" "j \<le> 63" and c: "c \<le> 1"
    and Q1: "Q1 = (2 * Q + c) mod 2 ^ 64"
  shows "Q1 mod 2 ^ (64 - (j - 1)) = 2 * (Q mod 2 ^ (64 - j)) + c"
    and "Q1 div 2 ^ (64 - (j - 1)) = Q div 2 ^ (64 - j) mod 2 ^ (j - 1)"
    and "Q div 2 ^ 63 * 2 ^ (j - 1) + Q div 2 ^ (64 - j) mod 2 ^ (j - 1) = Q div 2 ^ (64 - j)"
proof -
  define m where "m = 64 - j"
  define L where "L = Q mod 2 ^ m"
  define T where "T = Q div 2 ^ m"
  have jm: "64 - (j - 1) = Suc m" "64 = Suc m + (j - 1)" "63 = m + (j - 1)" and "m \<le> 63"
    using j by (simp_all add: m_def)
  have Q': "Q = T * 2 ^ m + L" by (simp only: T_def L_def div_mult_mod_eq)
  have "L < 2 ^ m" by (simp add: L_def)
  then have L2: "2 * L + c < 2 ^ Suc m" using c by simp
  have "2 * Q + c = (2 * L + c) + 2 ^ Suc m * T" using Q' by simp
  then have Q1': "Q1 = 2 ^ Suc m * (T mod 2 ^ (j - 1)) + (2 * L + c)"
    using L2 by (simp only: Q1 jm(2) power_add mod_mult2_eq) simp
  show "Q1 mod 2 ^ (64 - (j - 1)) = 2 * (Q mod 2 ^ (64 - j)) + c"
    using Q1' L2 unfolding jm(1) m_def [symmetric] L_def [symmetric] by simp
  show "Q1 div 2 ^ (64 - (j - 1)) = Q div 2 ^ (64 - j) mod 2 ^ (j - 1)"
    using Q1' L2 unfolding jm(1) m_def [symmetric] T_def [symmetric] by simp
  have "Q div 2 ^ 63 = T div 2 ^ (j - 1)"
    by (simp only: jm(3) T_def power_add div_mult2_eq)
  then show "Q div 2 ^ 63 * 2 ^ (j - 1) + Q div 2 ^ (64 - j) mod 2 ^ (j - 1) = Q div 2 ^ (64 - j)"
    by (simp only: T_def [symmetric] m_def [symmetric] div_mult_mod_eq)
qed

lemma udiv_loop_inv:
  assumes "udiv_inv a j d q r carry" and "udiv_loop j d q r carry = (q', r', carry')"
  shows "udiv_inv a 0 d q' r' carry'"
  using assms
proof (induction j arbitrary: q r carry)
  case 0
  then show ?case by simp
next
  case (Suc j)
  define r1 where "r1 = push_bit 1 r OR drop_bit 63 q"
  define q1 where "q1 = push_bit 1 q OR ucast carry"
  define s where "s = signed_drop_bit 63 (d - r1 - 1)"
  define R where "R = 2 * unat r + unat q div 2 ^ 63"
  define D where "D = unat d"
  define r2 where "r2 = r1 - (d AND s)"
  define c2 where "c2 = (ucast (s AND 1) :: u32)"
  note inv = Suc.prems(1) [unfolded udiv_inv_def, folded D_def]
  have c: "carry \<in> {0, 1}" "unat carry \<le> 1" using inv by auto
  have top: "unat q div 2 ^ 63 \<le> 1" using unat_bound64 [of q] by simp
  have "D \<le> 2 ^ 63 \<or> 2 ^ 63 < D \<and> j = 0 \<and> 2 ^ 62 \<le> unat r \<and> unat r < 2 ^ 63"
    using inv by auto
  then have fits: "R < 2 ^ 64" "D \<le> R + 2 ^ 63" "R < D + 2 ^ 63" "R < 2 * D"
    and last: "D \<le> 2 ^ 63 \<or> j = 0"
    using inv top unat_bound64 [of d] by (auto simp: R_def D_def)
  note step = udiv_step [OF c(1) r1_def s_def fits(1-3) [unfolded R_def D_def],
      folded R_def D_def, folded r2_def c2_def]
  have R: "R = unat r2 + unat c2 * D" and r2: "unat r2 < D" and c2: "c2 \<in> {0, 1}"
    using step fits(4) by auto
  have Q1: "unat q1 = (2 * unat q + unat carry) mod 2 ^ 64"
  proof -
    have "unat (ucast carry :: u64) = unat carry" using c(2) by (simp add: unat_ucast)
    then show ?thesis using unat_push1_or [of "ucast carry" q] c(2) by (simp only: q1_def)
  qed
  have "unat q < 2 ^ 64" using unat_bound64 [of q] by simp
  note qs = quotient_shift [OF this _ _ c(2) Q1, of "Suc j", simplified diff_Suc_1]
  define L where "L = unat q mod 2 ^ (64 - Suc j)"
  define T where "T = unat q div 2 ^ (64 - Suc j) mod 2 ^ j"
  have j: "0 < Suc j" "Suc j \<le> 63" using inv by simp_all
  have "a = ((2 * L + unat carry) * D + unat r) * 2 ^ Suc j + (unat q div 2 ^ 63 * 2 ^ j + T)"
    using inv qs(3) [OF j] by (simp only: L_def T_def)
  then have "a = ((2 * (2 * L + unat carry) + unat c2) * D + unat r2) * 2 ^ j + T"
  proof -
    have "(2 * unat r + unat q div 2 ^ 63) * 2 ^ j = (unat r2 + unat c2 * D) * 2 ^ j"
      using R by (simp only: R_def)
    then show ?thesis
      using \<open>a = _\<close> by (simp add: algebra_simps)
  qed
  then have "udiv_inv a j d q1 r2 c2"
    using qs(1,2) [OF j] c2 r2 last j unfolding udiv_inv_def D_def [symmetric] L_def T_def
    by auto
  moreover have "udiv_loop (Suc j) d q r carry = udiv_loop j d q1 r2 c2"
    by (simp only: udiv_loop.simps Let_def shift_r shift_q r1_def q1_def s_def r2_def
        c2_def drop_bit_high)
  ultimately show ?case
    using Suc by simp
qed


text \<open>
  Entering the loop with the dividend split at bit \<open>k\<close>, as every branch that uses the loop
  does, gives the quotient and the remainder.
\<close>

lemma udiv_finish_div:
  assumes k: "unat sr = k" "0 < k" "k \<le> 63"
    and q: "q = push_bit (64 - k) n" and r: "r = drop_bit k n"
    and rd: "unat r < unat d"
    and d: "unat d \<le> 2 ^ 63 \<or> k = 1 \<and> 2 ^ 62 \<le> unat r \<and> unat r < 2 ^ 63"
  shows "udiv_finish sr d q r = (n div d, n mod d)"
proof -
  have "64 = k + (64 - k)" using k by simp
  then have pow: "(2 :: nat) ^ 64 = 2 ^ k * 2 ^ (64 - k)" by (metis power_add)
  have "unat q = unat n * 2 ^ (64 - k) mod 2 ^ 64"
    using unat_push_bit [of "64 - k" n] by (simp add: q)
  then have uq: "unat q = unat n mod 2 ^ k * 2 ^ (64 - k)"
    by (simp only: pow mod_mult_mult2)
  have ur: "unat r = unat n div 2 ^ k" by (simp only: r unat_drop_bit)
  have "udiv_inv (unat n) k d q r 0"
    unfolding udiv_inv_def using k rd d uq ur by (simp add: div_mult_mod_eq)
  moreover obtain q' r' c' where run: "udiv_loop k d q r 0 = (q', r', c')"
    by (cases "udiv_loop k d q r 0")
  ultimately have "udiv_inv (unat n) 0 d q' r' c'"
    by (rule udiv_loop_inv)
  then have c': "unat c' \<le> 1" and n: "unat n = (2 * unat q' + unat c') * unat d + unat r'"
    and r': "unat r' < unat d"
    using unat_bound64 [of q'] by (auto simp: udiv_inv_def)
  have "(2 * unat q' + unat c') * 1 \<le> (2 * unat q' + unat c') * unat d"
    using r' by (intro mult_le_mono2) simp
  then have "2 * unat q' + unat c' \<le> unat n"
    using n by (metis mult.right_neutral trans_le_add1)
  then have "2 * unat q' + unat c' < 2 ^ 64"
    using unat_bound64 [of n] by simp
  moreover have "unat (ucast c' :: u64) = unat c'" using c' by (simp add: unat_ucast)
  ultimately have "unat (push_bit 1 q' OR ucast c') = 2 * unat q' + unat c'"
    using unat_push1_or [of "ucast c'" q'] c' by simp
  moreover have "unat n div unat d = 2 * unat q' + unat c'" "unat n mod unat d = unat r'"
    using n r' by simp_all
  ultimately have "push_bit 1 q' OR ucast c' = n div d" "r' = n mod d"
    by (simp_all only: word_unat_eq_iff unat_div_distrib unat_mod_distrib)
  then show ?thesis
    using k(1) run by (simp add: udiv_finish_def)
qed


section \<open>The dispatch\<close>

text \<open>The power of two test \<open>(x & (x - 1)) == 0\<close>.\<close>

lemma pow2_test:
  assumes x: "x \<noteq> 0" and test: "x AND (x - 1) = (0 :: u32)"
  shows "x = 2 ^ unat (ctzsi2 x)"
proof -
  define n where "n = unat (ctzsi2 x)"
  obtain m where m: "unat x = (2 * m + 1) * 2 ^ n"
    using ctzsi2_factor(2) [OF x] n_def by blast
  have "unat (x - 1) = unat x - 1"
    using x by (simp add: unat_minus_one)
  also have "\<dots> = 2 ^ Suc n * m + (2 ^ n - 1)"
    using m by (simp add: algebra_simps)
  finally have "unat (x - 1) = 2 ^ Suc n * m + (2 ^ n - 1)" .
  moreover have "(2 :: nat) ^ n - 1 < 2 ^ Suc n"
    using zero_less_power [of "2 :: nat" n] by (simp only: power_Suc) linarith
  ultimately have "unat (x - 1) div 2 ^ Suc n = m"
    by (intro div_nat_eqI) simp_all
  moreover have "unat x div 2 ^ Suc n = m"
  proof -
    have "unat x = 2 ^ Suc n * m + 2 ^ n" using m by (simp add: algebra_simps)
    then show ?thesis by simp
  qed
  moreover have "unat x AND unat (x - 1) = 0"
    using test by (metis unsigned_and_eq unsigned_0)
  then have "drop_bit (Suc n) (unat x) AND drop_bit (Suc n) (unat (x - 1)) = 0"
    by (metis drop_bit_and drop_bit_of_0)
  ultimately have "m = 0"
    by (simp only: drop_bit_eq_div and.idem)
  then have "unat x = unat ((2 :: u32) ^ n)"
    using m ctzsi2_factor(1) [OF x] by (simp add: n_def unat_pow2)
  then show ?thesis
    by (simp only: word_unat_eq_iff n_def)
qed

lemma div_mod_less: "a < b \<Longrightarrow> (0, a) = (a div b, a mod b)" for a b :: u64
  by (simp add: word_less_nat_alt word_unat_eq_iff unat_div unat_mod)

lemma div_mod_pow2:
  assumes "d = 2 ^ k" and "k < LENGTH('a)"
  shows "(a :: 'a::len word) div d = drop_bit k a" and "a mod d = a AND (d - 1)"
proof -
  show "a div d = drop_bit k a"
    using assms by (simp add: drop_bit_eq_div)
  show "a mod d = a AND (d - 1)"
    using assms by (simp add: take_bit_eq_mod [symmetric] take_bit_eq_mask mask_eq_exp_minus_1)
qed


text \<open>
  Both halves of the divisor's dispatch that use the loop: the amount \<open>sr\<close> is the difference
  of the bit lengths plus one, so the part of the dividend above bit \<open>sr\<close> is one bit shorter
  than the divisor.
\<close>

lemma sub_word_le: "unat b \<le> unat a \<Longrightarrow> unat (a - b) = unat a - unat b"
  by (simp add: unat_sub word_le_nat_alt)

lemma enter_high:
  assumes n: "s_high n \<noteq> 0" and d: "s_high d \<noteq> 0"
  defines "cn \<equiv> unat (clzsi2 (s_high n))" and "cd \<equiv> unat (clzsi2 (s_high d))"
  shows "unat (clzsi2 (s_high d) - clzsi2 (s_high n)) > 31 \<Longrightarrow> unat n < unat d"
    and "unat (clzsi2 (s_high d) - clzsi2 (s_high n)) \<le> 31 \<Longrightarrow>
         cn \<le> cd \<and> unat (clzsi2 (s_high d) - clzsi2 (s_high n) + 1) = cd - cn + 1 \<and>
         unat n div 2 ^ (cd - cn + 1) < unat d \<and>
         (unat d \<le> 2 ^ 63 \<or> cd - cn + 1 = 1 \<and> 2 ^ 62 \<le> unat n div 2 ^ (cd - cn + 1)
            \<and> unat n div 2 ^ (cd - cn + 1) < 2 ^ 63)"
proof -
  have lt: "cn < 32" "cd < 32" using n d clzsi2_bounds(1) by (auto simp: cn_def cd_def)
  note nb = high_clz_bounds [OF n, folded cn_def] and db = high_clz_bounds [OF d, folded cd_def]
  let ?sr = "clzsi2 (s_high d) - clzsi2 (s_high n)"
  have le: "cn \<le> cd \<Longrightarrow> unat ?sr = cd - cn"
    unfolding cn_def cd_def by (rule sub_word_le)
  show "unat n < unat d" if "unat ?sr > 31"
  proof -
    have "cd < cn" using that le lt by (cases "cn \<le> cd") auto
    then have "(2 :: nat) ^ (64 - cn) \<le> 2 ^ (63 - cd)"
      by (intro power_increasing) auto
    then show ?thesis using nb(2) db(1) by linarith
  qed
  show "cn \<le> cd \<and> unat (?sr + 1) = cd - cn + 1 \<and> unat n div 2 ^ (cd - cn + 1) < unat d \<and>
         (unat d \<le> 2 ^ 63 \<or> cd - cn + 1 = 1 \<and> 2 ^ 62 \<le> unat n div 2 ^ (cd - cn + 1)
            \<and> unat n div 2 ^ (cd - cn + 1) < 2 ^ 63)"
    if "unat ?sr \<le> 31"
  proof -
    have "cn \<le> cd"
    proof (rule ccontr)
      assume "\<not> cn \<le> cd"
      then have "unat ?sr = 2 ^ 32 - (cn - cd)"
        by (simp add: cn_def cd_def unat_sub_if')
      then show False using that lt by simp
    qed
    define k where "k = cd - cn + 1"
    have "64 - cn = (63 - cd) + k" using lt \<open>cn \<le> cd\<close> by (simp add: k_def)
    then have "unat n < 2 ^ (63 - cd) * 2 ^ k" using nb(2) by (metis power_add)
    then have up: "unat n div 2 ^ k < 2 ^ (63 - cd)"
      by (simp add: less_mult_imp_div_less)
    have "unat (?sr + 1) = k"
      using le [OF \<open>cn \<le> cd\<close>] lt by (simp add: k_def unat_word_ariths)
    moreover have "unat d \<le> 2 ^ 63 \<or> k = 1 \<and> 2 ^ 62 \<le> unat n div 2 ^ k \<and> unat n div 2 ^ k < 2 ^ 63"
    proof (cases "cd = 0")
      case True
      then have "cn = 0" "k = 1" using \<open>cn \<le> cd\<close> by (simp_all add: k_def)
      then show ?thesis using div_le_mono [OF nb(1), of 2] up True by simp
    next
      case False
      then have "(2 :: nat) ^ (64 - cd) \<le> 2 ^ 63" by (intro power_increasing) auto
      then show ?thesis using db(2) by linarith
    qed
    ultimately show ?thesis
      using \<open>cn \<le> cd\<close> up db(1) by (auto simp: k_def)
  qed
qed


lemma enter_low:
  assumes n: "s_high n \<noteq> 0" and dh: "s_high d = 0" and dl: "s_low d \<noteq> 0"
    and np: "s_low d AND (s_low d - 1) \<noteq> 0"
  defines "k \<equiv> 33 + unat (clzsi2 (s_low d)) - unat (clzsi2 (s_high n))"
  shows "unat (1 + 32 + clzsi2 (s_low d) - clzsi2 (s_high n)) = k" and "2 \<le> k" and "k \<le> 63"
    and "unat n div 2 ^ k < unat d" and "unat d \<le> 2 ^ 63"
proof -
  define cn where "cn = unat (clzsi2 (s_high n))"
  define cd where "cd = unat (clzsi2 (s_low d))"
  have lt: "cn < 32" "cd < 32" using n dl clzsi2_bounds(1) by (auto simp: cn_def cd_def)
  have k: "k = 33 + cd - cn" by (simp add: k_def cn_def cd_def)
  have ud: "unat d = unat (s_low d)" using dh unat_halves [of d] by simp
  have "cd \<noteq> 31"
  proof
    assume "cd = 31"
    then have "unat (s_low d) = 1"
      using clzsi2_bounds(2,3) [OF dl] by (simp add: cd_def)
    then have "s_low d = 1" by (simp add: word_unat_eq_iff)
    then show False using np by simp
  qed
  then have "cd \<le> 30" using lt by simp
  show "unat (1 + 32 + clzsi2 (s_low d) - clzsi2 (s_high n)) = k"
  proof -
    have "unat (1 + 32 + clzsi2 (s_low d)) = 33 + cd"
      using lt by (simp add: cd_def unat_word_ariths)
    then show ?thesis
      using lt k by (subst sub_word_le) (simp_all add: cn_def)
  qed
  show "2 \<le> k" "k \<le> 63" using lt \<open>cd \<le> 30\<close> by (simp_all add: k)
  have "64 - cn = (31 - cd) + k" using lt \<open>cd \<le> 30\<close> by (simp add: k)
  then have "unat n < 2 ^ (31 - cd) * 2 ^ k"
    using high_clz_bounds(2) [OF n, folded cn_def] by (metis power_add)
  then have "unat n div 2 ^ k < 2 ^ (31 - cd)"
    by (simp add: less_mult_imp_div_less)
  also have "\<dots> \<le> unat d"
    using clzsi2_bounds(2) [OF dl, folded cd_def] ud by simp
  finally show "unat n div 2 ^ k < unat d" .
  show "unat d \<le> 2 ^ 63" using ud unat_bound32 [of "s_low d"] by simp
qed

text \<open>The halves of \<open>n << (64 - k)\<close> and \<open>n >> k\<close> the branches compute.\<close>

lemma q_of_shift:
  assumes "unat sr \<le> 32" and "0 < unat (sr :: u32)"
  shows "mk_dwords (shl (s_low n) (32 - sr)) 0 = push_bit (64 - unat sr) n"
    and "mk_dwords (shr (s_high n) sr) (shl (s_high n) (32 - sr) OR shr (s_low n) sr)
      = drop_bit (unat sr) n"
proof -
  have u: "unat (32 - sr) = 32 - unat sr"
    using assms sub_word_le [of sr 32] by simp
  have "64 - unat sr = 32 + (32 - unat sr)" using assms by simp
  then show "mk_dwords (shl (s_low n) (32 - sr)) 0 = push_bit (64 - unat sr) n"
    by (simp only: shl_def u dw_shl_high)
  show "mk_dwords (shr (s_high n) sr) (shl (s_high n) (32 - sr) OR shr (s_low n) sr)
      = drop_bit (unat sr) n"
    using assms(1) by (simp only: shl_def shr_def u dw_shr)
qed

lemma q_of_shift_32:
  shows "mk_dwords (s_low n) 0 = push_bit 32 n" and "mk_dwords 0 (s_high n) = drop_bit 32 n"
  using dw_shl_high [of 0 n] dw_shr_low [of 0 n] by simp_all

lemma q_of_shift_long:
  assumes "32 < unat sr" and "unat (sr :: u32) < 64"
  shows "mk_dwords (shl (s_high n) (64 - sr) OR shr (s_low n) (sr - 32)) (shl (s_low n) (64 - sr))
      = push_bit (64 - unat sr) n"
    and "mk_dwords 0 (shr (s_high n) (sr - 32)) = drop_bit (unat sr) n"
proof -
  have u: "unat (64 - sr) = 64 - unat sr" "unat (sr - 32) = unat sr - 32"
    using assms sub_word_le [of sr 64] sub_word_le [of 32 sr] by simp_all
  have "unat sr - 32 = 32 - (64 - unat sr)" using assms by simp
  moreover have "64 - unat sr \<le> 32" using assms by simp
  ultimately show "mk_dwords (shl (s_high n) (64 - sr) OR shr (s_low n) (sr - 32))
      (shl (s_low n) (64 - sr)) = push_bit (64 - unat sr) n"
    by (simp only: shl_def shr_def u dw_shl)
  have "unat sr = 32 + (unat sr - 32)" using assms by simp
  then show "mk_dwords 0 (shr (s_high n) (sr - 32)) = drop_bit (unat sr) n"
    by (simp only: shr_def u) (metis dw_shr_low)
qed


text \<open>Dividing by a divisor with a zero low half is dividing the high halves.\<close>

lemma div_mod_high:
  assumes "s_low d = 0" and "s_high d \<noteq> 0"
  shows "n div d = ucast (s_high n div s_high d)"
    and "n mod d = mk_dwords (s_high n mod s_high d) (s_low n)"
proof -
  let ?nh = "unat (s_high n)" and ?nl = "unat (s_low n)" and ?dh = "unat (s_high d)"
  have dh: "0 < ?dh" using assms(2) by (metis neq0_conv unat_eq_zero)
  have n: "unat n = ?nh * 2 ^ 32 + ?nl" and d: "unat d = ?dh * 2 ^ 32"
    using unat_halves [of n] unat_halves [of d] assms(1) by simp_all
  have nl: "?nl < 2 ^ 32" using unat_bound32 [of "s_low n"] by simp
  have "unat n div unat d = unat n div 2 ^ 32 div ?dh"
    by (simp only: d mult.commute [of ?dh] div_mult2_eq)
  also have "unat n div 2 ^ 32 = ?nh" using n nl by simp
  finally have q: "unat n div unat d = ?nh div ?dh" .
  have "unat n mod unat d = 2 ^ 32 * (unat n div 2 ^ 32 mod ?dh) + unat n mod 2 ^ 32"
    by (simp only: d mult.commute [of ?dh] mod_mult2_eq)
  also have "unat n div 2 ^ 32 = ?nh" using n nl by simp
  also have "unat n mod 2 ^ 32 = ?nl" using n nl by simp
  finally have r: "unat n mod unat d = 2 ^ 32 * (?nh mod ?dh) + ?nl" .
  have "?nh div ?dh < 2 ^ 32"
    using unat_bound32 [of "s_high n"] by (simp add: div_less_dividend le_less_trans [OF div_le_dividend])
  then have "unat (ucast (s_high n div s_high d) :: u64) = ?nh div ?dh"
    by (simp add: unat_ucast unat_div)
  then show "n div d = ucast (s_high n div s_high d)"
    using q by (simp only: word_unat_eq_iff unat_div)
  show "n mod d = mk_dwords (s_high n mod s_high d) (s_low n)"
    using r by (simp only: word_unat_eq_iff unat_mod unat_mk_dwords mult.commute)
qed

lemma div_mod_small:
  assumes "s_high n = 0" and "s_high d = 0"
  shows "ucast (s_low n div s_low d) = n div d" and "ucast (s_low n mod s_low d) = n mod d"
proof -
  have n: "unat n = unat (s_low n)" "unat d = unat (s_low d)"
    using assms unat_halves [of n] unat_halves [of d] by simp_all
  have "unat (s_low n) div unat (s_low d) < 2 ^ 32"
    "unat (s_low n) mod unat (s_low d) < 2 ^ 32"
    using unat_bound32 [of "s_low n"]
    by (simp_all add: le_less_trans [OF div_le_dividend] le_less_trans [OF mod_less_eq_dividend])
  then show "ucast (s_low n div s_low d) = n div d" "ucast (s_low n mod s_low d) = n mod d"
    by (simp_all add: word_unat_eq_iff unat_ucast unat_div unat_mod n)
qed

lemma ucast_low: "s_high n = 0 \<Longrightarrow> ucast (s_low n) = n"
  using unat_halves [of n] unat_bound32 [of "s_low n"]
  by (simp add: word_unat_eq_iff unat_ucast)

lemma mod_pow2_low:
  assumes "k < 32"
  shows "ucast (s_low n AND (2 ^ k - 1)) = n mod 2 ^ k"
proof -
  have "s_low n AND (2 ^ k - 1) = take_bit k (s_low n)"
    by (simp add: take_bit_eq_mask mask_eq_exp_minus_1)
  moreover have "(ucast (take_bit k (s_low n)) :: u64) = take_bit k n"
    using assms by (auto intro!: bit_word_eqI simp: s_low_def bit_simps)
  moreover have "n mod 2 ^ k = take_bit k n"
    by (simp add: take_bit_eq_mod)
  ultimately show ?thesis by simp
qed

text \<open>The branches with a loop.\<close>

lemma branch_high:
  assumes n: "s_high n \<noteq> 0" and d: "s_high d \<noteq> 0"
    and sr: "sr = clzsi2 (s_high d) - clzsi2 (s_high n)"
  shows "unat sr > 31 \<Longrightarrow> (0, n) = (n div d, n mod d)"
    and "unat sr \<le> 31 \<Longrightarrow> unat sr \<noteq> 31 \<Longrightarrow>
      udiv_finish (sr + 1) d (mk_dwords (shl (s_low n) (32 - (sr + 1))) 0)
        (mk_dwords (shr (s_high n) (sr + 1)) (shl (s_high n) (32 - (sr + 1)) OR shr (s_low n) (sr + 1)))
      = (n div d, n mod d)"
    and "unat sr = 31 \<Longrightarrow>
      udiv_finish (sr + 1) d (mk_dwords (s_low n) 0) (mk_dwords 0 (s_high n)) = (n div d, n mod d)"
proof -
  note enter = enter_high [OF n d, folded sr]
  show "unat sr > 31 \<Longrightarrow> (0, n) = (n div d, n mod d)"
    using enter(1) by (intro div_mod_less) (simp add: word_less_nat_alt)
  let ?k = "unat (clzsi2 (s_high d)) - unat (clzsi2 (s_high n)) + 1"
  have k: "unat (sr + 1) = ?k" "?k \<le> 63" "unat (sr + 1) = unat sr + 1" if "unat sr \<le> 31"
    using enter(2) [OF that] that clzsi2_bounds(1) [OF d] by (auto simp: unat_word_ariths)
  have r: "unat (drop_bit (unat (sr + 1)) n) = unat n div 2 ^ ?k" if "unat sr \<le> 31"
    using k [OF that] by (simp only: unat_drop_bit)
  have fin: "udiv_finish (sr + 1) d (push_bit (64 - unat (sr + 1)) n) (drop_bit (unat (sr + 1)) n)
      = (n div d, n mod d)" if "unat sr \<le> 31"
    using enter(2) [OF that] k [OF that] r [OF that]
    by (intro udiv_finish_div [OF refl _ _ refl refl]) auto
  show "udiv_finish (sr + 1) d (mk_dwords (shl (s_low n) (32 - (sr + 1))) 0)
        (mk_dwords (shr (s_high n) (sr + 1)) (shl (s_high n) (32 - (sr + 1)) OR shr (s_low n) (sr + 1)))
      = (n div d, n mod d)" if "unat sr \<le> 31" "unat sr \<noteq> 31"
    using fin q_of_shift [of "sr + 1" n] k that by simp
  show "udiv_finish (sr + 1) d (mk_dwords (s_low n) 0) (mk_dwords 0 (s_high n)) = (n div d, n mod d)"
    if "unat sr = 31"
    using fin q_of_shift_32 [of n] k(3) that by simp
qed


lemma branch_low:
  assumes n: "s_high n \<noteq> 0" and dh: "s_high d = 0" and dl: "s_low d \<noteq> 0"
    and np: "s_low d AND (s_low d - 1) \<noteq> 0"
    and sr: "sr = 1 + 32 + clzsi2 (s_low d) - clzsi2 (s_high n)"
  shows "sr = 32 \<Longrightarrow>
      udiv_finish sr d (mk_dwords (s_low n) 0) (mk_dwords 0 (s_high n)) = (n div d, n mod d)"
    and "sr < 32 \<Longrightarrow>
      udiv_finish sr d (mk_dwords (shl (s_low n) (32 - sr)) 0)
        (mk_dwords (shr (s_high n) sr) (shl (s_high n) (32 - sr) OR shr (s_low n) sr))
      = (n div d, n mod d)"
    and "\<not> sr < 32 \<Longrightarrow> sr \<noteq> 32 \<Longrightarrow>
      udiv_finish sr d
        (mk_dwords (shl (s_high n) (64 - sr) OR shr (s_low n) (sr - 32)) (shl (s_low n) (64 - sr)))
        (mk_dwords 0 (shr (s_high n) (sr - 32)))
      = (n div d, n mod d)"
proof -
  note enter = enter_low [OF n dh dl np, folded sr]
  have k: "2 \<le> unat sr" "unat sr \<le> 63" using enter(1,2,3) by simp_all
  have r: "unat (drop_bit (unat sr) n) < unat d"
    using enter(4) by (simp only: unat_drop_bit enter(1))
  have fin: "udiv_finish sr d (push_bit (64 - unat sr) n) (drop_bit (unat sr) n)
      = (n div d, n mod d)"
    using k r enter(5) by (intro udiv_finish_div [OF refl _ _ refl refl]) auto
  show "udiv_finish sr d (mk_dwords (s_low n) 0) (mk_dwords 0 (s_high n)) = (n div d, n mod d)"
    if "sr = 32"
    using fin that by (simp add: q_of_shift_32)
  show "udiv_finish sr d (mk_dwords (shl (s_low n) (32 - sr)) 0)
        (mk_dwords (shr (s_high n) sr) (shl (s_high n) (32 - sr) OR shr (s_low n) sr))
      = (n div d, n mod d)" if "sr < 32"
    using fin k that q_of_shift [of sr n] by (simp add: word_less_nat_alt)
  show "udiv_finish sr d
        (mk_dwords (shl (s_high n) (64 - sr) OR shr (s_low n) (sr - 32)) (shl (s_low n) (64 - sr)))
        (mk_dwords 0 (shr (s_high n) (sr - 32)))
      = (n div d, n mod d)" if "\<not> sr < 32" "sr \<noteq> 32"
  proof -
    have "32 < unat sr" using that by (auto simp: word_less_nat_alt word_unat_eq_iff)
    then show ?thesis using fin k q_of_shift_long [of sr n] by simp
  qed
qed

lemma clz_diff_not_31:
  assumes "s_high d \<noteq> 0" and "s_high n \<noteq> 0" and "s_high d AND (s_high d - 1) \<noteq> 0"
  shows "unat (clzsi2 (s_high d) - clzsi2 (s_high n)) \<noteq> 31"
proof
  assume *: "unat (clzsi2 (s_high d) - clzsi2 (s_high n)) = 31"
  then have "unat (clzsi2 (s_high d)) = 31"
    using enter_high(2) [OF assms(2,1)] clzsi2_bounds(1) [OF assms(1)] sub_word_le
    by (auto simp: sub_word_le)
  then have "s_high d = 1"
    using clzsi2_bounds(2,3) [OF assms(1)] by (simp add: word_unat_eq_iff)
  with assms(3) show False by simp
qed

section \<open>Correctness\<close>

text \<open>One lemma for each group of branches that can reach the loop.\<close>

lemma udivmoddi4_high:
  assumes high: "s_high a \<noteq> 0" "s_low b = 0" "s_high b \<noteq> 0"
  shows "udivmoddi4 a b = Some (a div b, a mod b)"
proof -
  define sr where "sr = clzsi2 (s_high b) - clzsi2 (s_high a)"
  have eq: "udivmoddi4 a b =
      (if s_low a = 0 then
         Some (ucast (s_high a div s_high b), mk_dwords (s_high a mod s_high b) 0)
       else if s_high b AND (s_high b - 1) = 0 then
         Some (ucast (shr (s_high a) (ctzsi2 (s_high b))),
               mk_dwords (s_high a AND (s_high b - 1)) (s_low a))
       else if sr > 30 then Some (0, a)
       else Some (udiv_finish (sr + 1) b (mk_dwords (shl (s_low a) (32 - (sr + 1))) 0)
         (mk_dwords (shr (s_high a) (sr + 1))
           (shl (s_high a) (32 - (sr + 1)) OR shr (s_low a) (sr + 1)))))"
    unfolding udivmoddi4_def Let_def sr_def using high by (simp only: if_False if_True simp_thms)
  consider "s_low a = 0" | (pow) "s_low a \<noteq> 0" "s_high b AND (s_high b - 1) = 0"
    | (loop) "s_low a \<noteq> 0" "s_high b AND (s_high b - 1) \<noteq> 0" by blast
  then show ?thesis
  proof cases
    case 1
    then show ?thesis using div_mod_high [OF high(2,3), of a] by (simp add: eq)
  next
    case pow
    note dm = div_mod_pow2 [OF pow2_test [OF high(3) pow(2)], of "s_high a"]
    have "shr (s_high a) (ctzsi2 (s_high b)) = s_high a div s_high b"
      using dm(1) ctzsi2_factor(1) [OF high(3)] by (simp add: shr_def)
    moreover have "s_high a AND (s_high b - 1) = s_high a mod s_high b"
      using dm(2) ctzsi2_factor(1) [OF high(3)] by simp
    ultimately show ?thesis
      using pow div_mod_high [OF high(2,3), of a] by (simp add: eq)
  next
    case loop
    have ne: "unat sr \<noteq> 31"
      unfolding sr_def by (rule clz_diff_not_31 [OF high(3,1) loop(2)])
    show ?thesis
    proof (cases "sr > 30")
      case True
      then have "unat sr > 31" using ne by (simp add: word_less_nat_alt)
      then show ?thesis
        using True loop branch_high(1) [OF high(1,3) sr_def] by (simp only: eq if_True if_False)
    next
      case False
      then have "unat sr \<le> 31" by (simp add: word_less_nat_alt)
      then show ?thesis
        using False loop branch_high(2) [OF high(1,3) sr_def _ ne]
        by (simp only: eq if_True if_False)
    qed
  qed
qed

lemma udivmoddi4_low:
  assumes low: "s_high a \<noteq> 0" "s_low b \<noteq> 0" "s_high b = 0"
  shows "udivmoddi4 a b = Some (a div b, a mod b)"
proof -
  define sr where "sr = 1 + 32 + clzsi2 (s_low b) - clzsi2 (s_high a)"
  define t where "t = ctzsi2 (s_low b)"
  have eq: "udivmoddi4 a b =
     (if s_low b AND (s_low b - 1) = 0 then
        if s_low b = 1 then Some (a, ucast (s_low a AND (s_low b - 1)))
        else
          Some (mk_dwords (shr (s_high a) t) (shl (s_high a) (32 - t) OR shr (s_low a) t),
            ucast (s_low a AND (s_low b - 1)))
      else if sr = 32 then
          Some (udiv_finish sr b (mk_dwords (s_low a) 0) (mk_dwords 0 (s_high a)))
      else if sr < 32 then
        Some (udiv_finish sr b (mk_dwords (shl (s_low a) (32 - sr)) 0)
          (mk_dwords (shr (s_high a) sr) (shl (s_high a) (32 - sr) OR shr (s_low a) sr)))
      else Some (udiv_finish sr b
          (mk_dwords (shl (s_high a) (64 - sr) OR shr (s_low a) (sr - 32))
            (shl (s_low a) (64 - sr)))
          (mk_dwords 0 (shr (s_high a) (sr - 32)))))"
    unfolding udivmoddi4_def Let_def sr_def t_def using low
    by (simp only: if_False if_True simp_thms)
  have b: "b = ucast (s_low b)" using low by (simp add: ucast_low)
  show ?thesis
  proof (cases "s_low b AND (s_low b - 1) = 0")
    case True
    have t32: "unat t < 32" unfolding t_def by (rule ctzsi2_factor(1) [OF low(2)])
    have lp: "s_low b = 2 ^ unat t"
      unfolding t_def by (rule pow2_test [OF low(2) True])
    have bp: "b = 2 ^ unat t"
    proof -
      have "unat b = 2 ^ unat t"
        using unat_halves [of b] low(3) lp t32 by (simp add: unat_pow2)
      then show ?thesis using t32 by (simp add: word_unat_eq_iff unat_pow2)
    qed
    have rem: "ucast (s_low a AND (s_low b - 1)) = a mod b"
      using mod_pow2_low [OF t32, of a] unfolding lp [symmetric] bp [symmetric] .
    show ?thesis
    proof (cases "s_low b = 1")
      case one: True
      then have "a div b = a" using b by simp
      then show ?thesis using True one rem unfolding eq by (simp only: refl if_True)
    next
      case False
      then have "0 < unat t" using lp by (cases "unat t") auto
      then have "mk_dwords (shr (s_high a) t) (shl (s_high a) (32 - t) OR shr (s_low a) t)
          = a div b"
        using q_of_shift(2) [of t a] t32 div_mod_pow2(1) [OF bp, of a] by simp
      then show ?thesis using True False rem by (simp only: eq refl if_True if_False)
    qed
  next
    case False
    then show ?thesis
      using branch_low [OF low(1,3,2) False sr_def] by (simp only: eq if_False) simp
  qed
qed

lemma udivmoddi4_both:
  assumes both: "s_high a \<noteq> 0" "s_low b \<noteq> 0" "s_high b \<noteq> 0"
  shows "udivmoddi4 a b = Some (a div b, a mod b)"
proof -
  define sr where "sr = clzsi2 (s_high b) - clzsi2 (s_high a)"
  have eq: "udivmoddi4 a b =
     (if sr > 31 then Some (0, a)
      else if sr + 1 = 32 then
        Some (udiv_finish (sr + 1) b (mk_dwords (s_low a) 0) (mk_dwords 0 (s_high a)))
      else Some (udiv_finish (sr + 1) b (mk_dwords (shl (s_low a) (32 - (sr + 1))) 0)
         (mk_dwords (shr (s_high a) (sr + 1))
           (shl (s_high a) (32 - (sr + 1)) OR shr (s_low a) (sr + 1)))))"
    unfolding udivmoddi4_def Let_def sr_def using both by (simp only: if_False if_True simp_thms)
  consider "unat sr > 31" | "unat sr = 31" | "unat sr < 31" by linarith
  then show ?thesis
  proof cases
    case 1
    then show ?thesis
      using branch_high(1) [OF both(1,3) sr_def] by (simp add: eq word_less_nat_alt)
  next
    case 2
    then have "sr = 31" by (simp add: word_unat_eq_iff)
    then show ?thesis
      using branch_high(3) [OF both(1,3) sr_def 2] by (simp add: eq)
  next
    case 3
    then have "\<not> sr > 31" "sr + 1 \<noteq> 32"
      by (auto simp: word_less_nat_alt word_unat_eq_iff unat_word_ariths)
    then show ?thesis
      using branch_high(2) [OF both(1,3) sr_def] 3 by (simp only: eq if_False)
  qed
qed

lemma udivmoddi4_nz:
  assumes "b \<noteq> 0"
  shows "udivmoddi4 a b = Some (a div b, a mod b)"
proof -
  consider (small) "s_high a = 0" "s_high b = 0" | (less) "s_high a = 0" "s_high b \<noteq> 0"
    | (high) "s_high a \<noteq> 0" "s_low b = 0" "s_high b \<noteq> 0"
    | (low) "s_high a \<noteq> 0" "s_low b \<noteq> 0" "s_high b = 0"
    | (both) "s_high a \<noteq> 0" "s_low b \<noteq> 0" "s_high b \<noteq> 0"
    using assms s_halves_0 by blast
  then show ?thesis
  proof cases
    case small
    then have "s_low b \<noteq> 0" using assms s_halves_0 by blast
    with small show ?thesis
      by (simp add: udivmoddi4_def div_mod_small)
  next
    case less
    have "1 \<le> unat (s_high b)"
      using less(2) by (metis less_one not_le unat_eq_zero)
    then have "unat a < unat b"
      using less(1) unat_halves [of a] unat_halves [of b] unat_bound32 [of "s_low a"] by simp
    then have "(0, a) = (a div b, a mod b)"
      by (intro div_mod_less) (simp add: word_less_nat_alt)
    with less show ?thesis
      by (simp add: udivmoddi4_def ucast_low)
  qed (simp_all add: udivmoddi4_high udivmoddi4_low udivmoddi4_both)
qed


lemma udivmoddi4_0: "udivmoddi4 a 0 = None"
  by (simp add: udivmoddi4_def s_high_def s_low_def)

lemma udivmoddi4_eq: "udivmoddi4 a b = (if b = 0 then None else Some (a div b, a mod b))"
  by (simp add: udivmoddi4_nz udivmoddi4_0)

text \<open>
  C9. \<open>__udivmoddi4\<close>, through all its dispatch branches and its shift-subtract loop,
  computes the exact 64-bit unsigned quotient and remainder for every dividend and every
  nonzero divisor, and divides by zero only when the divisor is zero.
\<close>

theorem udivmoddi4_correct:
  "udivmoddi4 a b = (if b = 0 then None else Some (a div b, a mod b))"
  by (rule udivmoddi4_eq)

section \<open>Signed division\<close>

lemma bit63_iff: "bit (x :: u64) 63 \<longleftrightarrow> 2 ^ 63 \<le> unat x"
proof -
  have "bit (signed_drop_bit 63 x) 0 \<longleftrightarrow> bit x 63"
    by (simp add: bit_signed_drop_bit_iff)
  then show ?thesis by (simp add: sign_mask split: if_splits)
qed

lemma numeral_le_unat_iff: "numeral n \<le> unat (x :: u64) \<longleftrightarrow> numeral n \<le> uint x"
proof -
  have "int (numeral n) \<le> int (unat x) \<longleftrightarrow> numeral n \<le> unat x" by (rule of_nat_le_iff)
  then show ?thesis by simp
qed

lemma sint_cases: "sint (x :: u64) = (if 2 ^ 63 \<le> uint x then uint x - 2 ^ 64 else uint x)"
proof -
  have "sint x = signed_take_bit 63 (uint x)" by (simp add: sint_uint)
  also have "\<dots> = uint x - 2 ^ 64 * of_bool (bit x 63)"
    using take_bit_int_eq_self [of "uint x" 64] uint_lt2p [of x]
    by (simp add: signed_take_bit_eq_take_bit_minus bit_uint_iff)
  finally show ?thesis by (simp add: bit63_iff numeral_le_unat_iff)
qed

lemma sint_neg_iff: "sint (x :: u64) < 0 \<longleftrightarrow> 2 ^ 63 \<le> unat x"
  using uint_lt2p [of x] by (simp add: sint_cases numeral_le_unat_iff)

text \<open>Negation through the sign mask gives the absolute value.\<close>

lemma sign_fold: "(x XOR signed_drop_bit 63 y) - signed_drop_bit 63 y = (if sint (y :: u64) < 0 then - x else x)"
proof -
  have "(x XOR - 1) + 1 = - x"
    using minus_eq_not_plus_1 [of x] by simp
  then show ?thesis by (simp add: sign_mask sint_neg_iff)
qed

lemma uint_abs: "uint (if sint (x :: u64) < 0 then - x else x) = \<bar>sint x\<bar>"
proof (cases "sint x < 0")
  case True
  then have "uint x \<noteq> 0" "sint x = uint x - 2 ^ 64"
    by (auto simp: sint_cases split: if_splits)
  moreover have "uint (- x) = (- uint x) mod 2 ^ 64" by (simp add: uint_word_ariths)
  ultimately show ?thesis using True uint_lt2p [of x] by (simp add: zmod_zminus1_eq_if)
next
  case False
  then show ?thesis using uint_lt2p [of x] by (auto simp: sint_cases split: if_splits)
qed

lemma sign_fold_xor:
  "(x XOR (signed_drop_bit 63 a XOR signed_drop_bit 63 b)) - (signed_drop_bit 63 a XOR signed_drop_bit 63 b)
    = (if (sint (a :: u64) < 0) \<noteq> (sint (b :: u64) < 0) then - x else x)"
proof -
  have "(x XOR - 1) + 1 = - x"
    using minus_eq_not_plus_1 [of x] by simp
  then show ?thesis by (simp add: sign_mask sint_neg_iff)
qed

lemma word_of_int_div_abs:
  "(x :: u64) div y = word_of_int (uint x div uint y)" "x mod y = word_of_int (uint x mod uint y)"
  by (simp_all add: word_div_def word_mod_def)

lemma di_int_sint:
  assumes "di_int i = Some w"
  shows "sint w = i"
proof -
  have i: "- (2 ^ 63) \<le> i" "i < 2 ^ 63" "w = word_of_int i" using assms by (auto simp: di_int_def split: if_splits)
  have "sint (word_of_int i :: u64) = (i + 2 ^ 63) mod 2 ^ 64 - 2 ^ 63" by (simp add: int_word_sint)
  also have "\<dots> = i" using i(1,2) by (simp add: mod_pos_pos_trivial)
  finally show ?thesis by (simp add: i(3))
qed

lemma sint_nonzero: "b \<noteq> 0 \<Longrightarrow> sint (b :: u64) \<noteq> 0"
  by (simp add: signed_eq_0_iff)

lemma sint_bounds: "- (2 ^ 63) \<le> sint (x :: u64)" "sint x < 2 ^ 63"
  using sint_ge [of x] sint_lt [of x] by simp_all

lemma sint_fold:
  "sint (x XOR signed_drop_bit 63 y) - sint (signed_drop_bit 63 y) = (if sint (y :: u64) < 0 then - sint (x :: u64) else sint x)"
proof -
  have "di_int (- sint x - 1) = Some (NOT x)"
    using sint_bounds [of x] by (simp add: di_int_def not_eq_complement)
  then have "sint (NOT x) = - sint x - 1" by (rule di_int_sint)
  then show ?thesis by (simp add: sign_mask sint_neg_iff)
qed

lemma di_int_abs:
  "di_int (if sint a < 0 then - sint a else sint a) =
     (if sint a = - (2 ^ 63) then None else Some (if sint (a :: u64) < 0 then - a else a))"
  using sint_bounds [of a] by (auto simp: di_int_def)

text \<open>
  C truncates the signed quotient towards zero and gives the remainder the sign of the
  dividend, which is \<open>sdiv\<close> and \<open>smod\<close> of the library on integers.
\<close>

text \<open>The operands the negations are defined for.\<close>

definition negatable :: "u64 \<Rightarrow> bool" where
  "negatable x \<longleftrightarrow> sint x \<noteq> - (2 ^ 63)"

lemma divdi3_eq:
  "divdi3 a b = (if negatable a \<and> negatable b \<and> b \<noteq> 0 then Some (word_of_int (sint a sdiv sint b)) else None)"
proof -
  let ?a = "if sint a < 0 then - a else a" and ?b = "if sint b < 0 then - b else b"
  have "?b = 0 \<longleftrightarrow> b = 0" by auto
  moreover have "?a div ?b = word_of_int (\<bar>sint a\<bar> div \<bar>sint b\<bar>)"
    by (simp only: word_of_int_div_abs uint_abs)
  ultimately show ?thesis
    unfolding divdi3_def Let_def sint_fold di_int_abs sign_fold_xor udivmoddi4_eq negatable_def
    by (cases "sint a < 0"; cases "sint b < 0")
      (auto simp: signed_divide_int_def sgn_if)
qed

lemma moddi3_eq:
  "moddi3 a b = (if negatable a \<and> negatable b \<and> b \<noteq> 0 then Some (word_of_int (sint a smod sint b)) else None)"
proof (cases "negatable a \<and> negatable b \<and> b \<noteq> 0")
  case True
  let ?a = "if sint a < 0 then - a else a" and ?b = "if sint b < 0 then - b else b"
  let ?r = "\<bar>sint a\<bar> mod \<bar>sint b\<bar>"
  have r: "?a mod ?b = word_of_int ?r"
    by (simp only: word_of_int_div_abs uint_abs)
  have b: "0 < \<bar>sint b\<bar>" "\<bar>sint b\<bar> < 2 ^ 63"
    using True sint_bounds [of b] sint_nonzero [of b] by (auto simp: negatable_def)
  have bound: "0 \<le> ?r" "?r < 2 ^ 63"
    using pos_mod_bound [OF b(1), of "\<bar>sint a\<bar>"] pos_mod_sign [OF b(1), of "\<bar>sint a\<bar>"] b(2) by linarith+
  define r where "r = ?r"
  have sr: "sint (word_of_int r :: u64) = r"
    using bound by (intro di_int_sint) (simp add: di_int_def r_def)
  have smod: "sint a smod sint b = (if sint a < 0 then - r else r)"
    by (simp add: signed_modulo_int_def sgn_if r_def)
  have d: "di_int (if sint a < 0 then - r else r) = Some (word_of_int (sint a smod sint b))"
    using bound unfolding smod di_int_def r_def [symmetric] by simp
  have n: "?b \<noteq> 0" using True by auto
  show ?thesis using True n d
    unfolding moddi3_def Let_def sint_fold di_int_abs udivmoddi4_eq negatable_def
    by (simp add: r [unfolded r_def [symmetric]] sr split: if_splits)
next
  case False
  then show ?thesis
    unfolding moddi3_def Let_def sint_fold di_int_abs udivmoddi4_eq negatable_def by auto
qed

text \<open>
  \<open>__divmoddi4\<close> and with it \<open>__divdi3\<close> compute the truncating signed quotient and
  the remainder with the sign of the dividend, as C's \<open>/\<close> and \<open>%\<close> on 64-bit integers; the product in
  it never overflows.  \<open>INT64_MIN\<close> as an operand is undefined already by the first negation.
\<close>

theorem divmoddi4_correct:
  "divmoddi4 a b = (if negatable a \<and> negatable b \<and> b \<noteq> 0 then
     Some (word_of_int (sint a sdiv sint b), word_of_int (sint a smod sint b)) else None)"
proof (cases "negatable a \<and> negatable b \<and> b \<noteq> 0")
  case True
  let ?q = "sint a sdiv sint b" and ?r = "sint a smod sint b"
  have a: "\<bar>sint a\<bar> < 2 ^ 63" using True sint_bounds [of a] by (auto simp: negatable_def)
  have r: "\<bar>?r\<bar> < \<bar>sint b\<bar>" using True sint_nonzero [of b] by (simp add: signed_modulo_int_def abs_mult abs_sgn_eq)
  have m: "?q * sint b + ?r = sint a" by (rule sdiv_mult_smod_eq)
  have p: "\<bar>?q * sint b\<bar> \<le> \<bar>sint a\<bar>"
  proof -
    have "\<bar>sint a\<bar> div \<bar>sint b\<bar> * \<bar>sint b\<bar> = \<bar>sint a\<bar> - \<bar>sint a\<bar> mod \<bar>sint b\<bar>"
      by (simp add: minus_mod_eq_div_mult)
    moreover have "0 \<le> \<bar>sint a\<bar> mod \<bar>sint b\<bar>" using True sint_nonzero [of b] by (intro pos_mod_sign) simp
    ultimately have "\<bar>sint a\<bar> div \<bar>sint b\<bar> * \<bar>sint b\<bar> \<le> \<bar>sint a\<bar>" by linarith
    moreover have "0 \<le> \<bar>sint a\<bar> div \<bar>sint b\<bar>" by (intro div_int_pos_iff [THEN iffD2]) simp
    ultimately show ?thesis by (simp add: signed_divide_int_def abs_mult abs_sgn_eq)
  qed
  have "\<bar>?q\<bar> * 1 \<le> \<bar>?q\<bar> * \<bar>sint b\<bar>" using True sint_nonzero [of b] by (intro mult_left_mono) auto
  then have q: "\<bar>?q\<bar> \<le> \<bar>sint a\<bar>" using p by (simp add: abs_mult)
  have "sint (word_of_int ?q :: u64) = ?q" using q a by (intro di_int_sint) (auto simp: di_int_def)
  moreover have "di_int (?q * sint b) = Some (word_of_int (?q * sint b))" using p a by (auto simp: di_int_def)
  moreover from this have "sint (word_of_int (?q * sint b) :: u64) = ?q * sint b" by (rule di_int_sint)
  moreover have "di_int ?r = Some (word_of_int ?r)" using r sint_bounds [of b] by (auto simp: di_int_def)
  moreover have "sint a - ?q * sint b = ?r" using m by simp
  ultimately show ?thesis using True by (simp add: divmoddi4_def divdi3_eq)
qed (auto simp: divmoddi4_def divdi3_eq)

text \<open>
  \<open>__moddi3\<close>, which does not use the quotient, computes the same remainder.
\<close>

theorem moddi3_correct:
  "moddi3 a b = map_option snd (divmoddi4 a b)"
  by (simp add: moddi3_eq divmoddi4_correct)

end
