(* ===== verification/Libgcc_Mul.thy ===== *)
theory Libgcc_Mul
  imports Int64_Div
begin

text \<open>
  The multiplication and shift routines of \<open>abstract-machine/am/src/riscv/npc/libgcc\<close> that
  a core without the M extension needs: \<open>__mulsi3\<close> (the assembly loop of \<open>muldi3.S\<close>, called
  \<open>__muluw3\<close> in C), \<open>__muldi3\<close> (\<open>multi3.c\<close>) and \<open>__ashldi3\<close> (\<open>ashldi3.c\<close>).  A \<open>DWunion\<close> is
  read and written through \<open>s_low\<close>, \<open>s_high\<close> and \<open>mk_dwords\<close>.  Each \<open>do ... while\<close> loop is
  a recursion on its state whose measure is the multiplier, shifted right every time.
\<close>

section \<open>The routines\<close>

function mulsi3_loop :: "u32 \<Rightarrow> u32 \<Rightarrow> u32 \<Rightarrow> u32" where
  "mulsi3_loop a0 a1 a2 =
     (let a3 = a1 AND 1;
          a0 = (if a3 = 0 then a0 else a0 + a2);
          a1 = drop_bit 1 a1;
          a2 = push_bit 1 a2
      in if a1 \<noteq> 0 then mulsi3_loop a0 a1 a2 else a0)"
  by auto

definition mulsi3 :: "u32 \<Rightarrow> u32 \<Rightarrow> u32" where
  "mulsi3 a0 a1 = mulsi3_loop 0 a1 a0"

text \<open>The state of the loop of \<open>__multi3\<close>, in the order of its declarations.\<close>

function multi3_loop :: "u32 \<Rightarrow> u32 \<Rightarrow> u32 \<Rightarrow> u32 \<Rightarrow> u32 \<Rightarrow> u32 \<times> u32" where
  "multi3_loop u_low v_low w_low w_high w_high_tmp =
     (let new_w_low = w_low + u_low;
          w_high_tmp2x = push_bit 1 w_high_tmp;
          w_high_tmp = w_high_tmp + w_high;
          (w_low, w_high) =
            (if v_low AND 1 \<noteq> 0 then
               let carry = c_bool (new_w_low < w_low) in (new_w_low, carry + w_high_tmp)
             else (w_low, w_high));
          u_low_msb = drop_bit 31 u_low;
          v_low = drop_bit 1 v_low;
          u_low = push_bit 1 u_low;
          w_high_tmp = u_low_msb OR w_high_tmp2x
      in if v_low \<noteq> 0 then multi3_loop u_low v_low w_low w_high w_high_tmp else (w_low, w_high))"
  by auto

definition muldi3 :: "u64 \<Rightarrow> u64 \<Rightarrow> u64" where
  "muldi3 u v =
     (let (w_low, w_high) = multi3_loop (s_low u) (s_low v) 0 0 0;
          w_high = (if s_high u \<noteq> 0 then w_high + mulsi3 (s_low v) (s_high u) else w_high);
          w_high = (if s_high v \<noteq> 0 then w_high + mulsi3 (s_low u) (s_high v) else w_high)
      in mk_dwords w_high w_low)"

text \<open>A C shift of a word by a signed count; out of range it is undefined.\<close>

definition c_shift :: "(nat \<Rightarrow> u32 \<Rightarrow> u32) \<Rightarrow> u32 \<Rightarrow> int \<Rightarrow> u32 option" where
  "c_shift f x n = (if 0 \<le> n \<and> n < 32 then Some (f (nat n) x) else None)"

definition ashldi3 :: "u64 \<Rightarrow> int \<Rightarrow> u64 option" where
  "ashldi3 u b =
     (if b = 0 then Some u
      else
        let bm = 32 - b in
        if bm \<le> 0 then map_option (\<lambda>high. mk_dwords high 0) (c_shift push_bit (s_low u) (- bm))
        else
          Option.bind (c_shift drop_bit (s_low u) bm) (\<lambda>carries.
          Option.bind (c_shift push_bit (s_low u) b) (\<lambda>low.
          Option.bind (c_shift push_bit (s_high u) b) (\<lambda>high.
          Some (mk_dwords (high OR carries) low)))))"

text \<open>\<open>umul_ppmm\<close> of \<open>longlong.h\<close>: the double-word product from half words.\<close>

definition ll_lowpart :: "u32 \<Rightarrow> u32" where
  "ll_lowpart t = t AND (2 ^ 16 - 1)"

definition ll_highpart :: "u32 \<Rightarrow> u32" where
  "ll_highpart t = drop_bit 16 t"

definition umul_ppmm :: "u32 \<Rightarrow> u32 \<Rightarrow> u32 \<times> u32" where
  "umul_ppmm u v =
     (let ul = ll_lowpart u;
          uh = ll_highpart u;
          vl = ll_lowpart v;
          vh = ll_highpart v;
          x0 = mulsi3 ul vl;
          x1 = mulsi3 ul vh;
          x2 = mulsi3 uh vl;
          x3 = mulsi3 uh vh;
          x1 = x1 + ll_highpart x0;
          x1 = x1 + x2;
          x3 = (if x1 < x2 then x3 + 2 ^ 16 else x3)
      in (x3 + ll_highpart x1, ll_lowpart x1 * 2 ^ 16 + ll_lowpart x0))"

section \<open>Termination\<close>

lemma half_less: "drop_bit (Suc 0) x \<noteq> 0 \<Longrightarrow> unat (drop_bit (Suc 0) x) < unat (x :: 'a::len word)"
  by (simp add: unat_drop_bit word_unat_eq_iff)

termination mulsi3_loop
  by (relation "measure (\<lambda>(_, a1, _). unat a1)") (auto dest: half_less)

termination multi3_loop
  by (relation "measure (\<lambda>(_, v_low, _). unat v_low)") (auto dest: half_less)

declare mulsi3_loop.simps [simp del] multi3_loop.simps [simp del]

section \<open>Correctness\<close>

lemma and_1_eq: "x AND 1 = (if odd x then 1 else 0)" for x :: "'a::len word"
  by (simp add: and_one_eq mod_2_eq_odd)

lemma word_half: "2 * drop_bit (Suc 0) x + (if odd x then 1 else 0) = x" for x :: "'a::len word"
  using mult_div_mod_eq [of 2 x] by (cases "odd x") (simp_all add: drop_bit_Suc mod_2_eq_odd)

lemma mulsi3_loop_eq: "mulsi3_loop a0 a1 a2 = a0 + a1 * a2"
proof (induction a0 a1 a2 rule: mulsi3_loop.induct)
  case (1 a0 a1 a2)
  define h where "h = drop_bit (Suc 0) a1"
  let ?a0 = "if a1 AND 1 = 0 then a0 else a0 + a2"
  have IH: "mulsi3_loop ?a0 h (push_bit (Suc 0) a2) = ?a0 + h * push_bit (Suc 0) a2" if "h \<noteq> 0"
    using 1 h_def that by simp
  have "mulsi3_loop a0 a1 a2 = ?a0 + h * push_bit (Suc 0) a2"
    using IH by (subst mulsi3_loop.simps) (simp add: Let_def h_def [symmetric])
  also have "\<dots> = a0 + (2 * h + (if odd a1 then 1 else 0)) * a2"
    by (simp add: and_1_eq push_bit_eq_mult algebra_simps)
  finally show ?case by (simp only: h_def word_half)
qed

lemma mulsi3_eq: "mulsi3 x y = x * y"
  by (simp add: mulsi3_def mulsi3_loop_eq mult.commute)

text \<open>Double words as sums; a sum of words that overflows is reported by the comparison.\<close>

lemma ucast_add_carry:
  "(ucast (l + k) :: u64) = ucast l + ucast k - (if l + k < l then 2 ^ 32 else 0)"
  for l k :: u32
proof -
  have "unat (l + k) = (if unat l + unat k < 2 ^ 32 then unat l + unat k else unat l + unat k - 2 ^ 32)"
    using unat_bound32 [of l] unat_bound32 [of k] by (simp add: unat_word_ariths mod_if)
  moreover have "l + k < l \<longleftrightarrow> \<not> unat l + unat k < 2 ^ 32"
    using calculation unat_bound32 [of l] unat_bound32 [of k] by (auto simp: word_less_nat_alt)
  ultimately show ?thesis
    using unat_bound32 [of l] unat_bound32 [of k]
    by (auto simp: word_unat_eq_iff unat_word_ariths unat_ucast unat_sub_if' split: if_splits)
qed

lemma mk_dwords_sum: "mk_dwords h l = 2 ^ 32 * ucast h + ucast l"
proof -
  have "unat (2 ^ 32 * ucast h + ucast l :: u64) = unat h * 2 ^ 32 + unat l"
    using unat_bound32 [of h] unat_bound32 [of l] by (simp add: unat_word_ariths unat_ucast)
  then show ?thesis by (simp add: word_unat_eq_iff unat_mk_dwords)
qed

lemma ucast_mult_pow32:
  "(2 ^ 32 :: u64) * ucast (h + g :: u32) = 2 ^ 32 * ucast h + 2 ^ 32 * ucast g"
proof -
  have "(2 ^ 32 :: u64) * 2 ^ 32 = 0" by simp
  then show ?thesis by (simp add: ucast_add_carry distrib_left right_diff_distrib)
qed

lemma two64_eq_0: "(18446744073709551616 :: u64) = 0"
  by simp

lemma of_nat_mod_pow32: "(2 ^ 32 :: u64) * of_nat (n mod 2 ^ 32) = 2 ^ 32 * of_nat n"
proof -
  have "(of_nat n :: u64) = of_nat (2 ^ 32 * (n div 2 ^ 32) + n mod 2 ^ 32)" by simp
  also have "\<dots> = 2 ^ 32 * of_nat (n div 2 ^ 32) + of_nat (n mod 2 ^ 32)"
    by (simp only: of_nat_add of_nat_mult of_nat_power of_nat_numeral)
  finally show ?thesis by (simp add: distrib_left mult.assoc [symmetric] two64_eq_0)
qed

lemma ucast_mult_pow32_prod:
  "(2 ^ 32 :: u64) * ucast (x * y :: u32) = 2 ^ 32 * (ucast x * ucast y)"
proof -
  have "(ucast (x * y) :: u64) = of_nat (unat (x * y))"
    by (simp only: of_nat_unat)
  also have "unat (x * y) = unat x * unat y mod 2 ^ 32"
    by (simp add: unat_word_ariths)
  finally have "(ucast (x * y) :: u64) = of_nat (unat x * unat y mod 2 ^ 32)" .
  then show ?thesis by (simp only: of_nat_mod_pow32 of_nat_mult of_nat_unat)
qed

lemma mk_dwords_add:
  "mk_dwords (c_bool (l + k < l) + (h + g)) (l + k) = mk_dwords g l + mk_dwords h k"
proof -
  have "(2 ^ 32 :: u64) * ucast (c_bool (l + k < l) + (h + g))
      = (if l + k < l then 2 ^ 32 else 0) + (2 ^ 32 * ucast h + 2 ^ 32 * ucast g)"
    by (simp only: ucast_mult_pow32 c_bool_def of_bool_def) simp
  then show ?thesis
    by (simp only: mk_dwords_sum ucast_add_carry) (simp add: algebra_simps)
qed

text \<open>
  One iteration of the loop of \<open>__multi3\<close>, on double words: the product so far takes in the
  shifted multiplicand \<open>w_high_tmp:u_low\<close> when the multiplier is odd.
\<close>

lemma mk_dwords_double:
  "mk_dwords (drop_bit 31 l OR push_bit 1 h) (push_bit 1 l) = 2 * mk_dwords h l"
proof -
  have "mk_dwords (push_bit 1 h OR drop_bit (32 - 1) l) (push_bit 1 l) = push_bit 1 (mk_dwords h l)"
    using dw_shl [of 1 "mk_dwords h l"] by simp
  then show ?thesis by (simp add: or.commute push_bit_eq_mult)
qed

lemma ucast_half:
  "(ucast v :: u64) = 2 * ucast (drop_bit (Suc 0) v) + (if odd v then 1 else 0)" for v :: u32
proof -
  have "unat v = 2 * (unat v div 2) + (if odd v then 1 else 0)"
    using bit_unsigned_iff [of v 0, where 'a = nat] by (auto simp: bit_0)
  then show ?thesis
    using unat_bound32 [of v]
    by (cases "odd v") (simp_all add: word_unat_eq_iff unat_word_ariths unat_ucast unat_drop_bit)
qed

lemma multi3_loop_eq:
  "multi3_loop u_low v_low w_low w_high w_high_tmp = (l, h) \<Longrightarrow>
   mk_dwords h l = mk_dwords w_high w_low + ucast v_low * mk_dwords w_high_tmp u_low"
proof (induction u_low v_low w_low w_high w_high_tmp rule: multi3_loop.induct)
  case (1 u_low v_low w_low w_high w_high_tmp)
  define hv where "hv = drop_bit (Suc 0) v_low"
  define U where "U = mk_dwords w_high_tmp u_low"
  obtain l1 h1 where lh: "(l1, h1) = (if v_low AND 1 \<noteq> 0
      then (w_low + u_low, c_bool (w_low + u_low < w_low) + (w_high_tmp + w_high))
      else (w_low, w_high))"
    by (metis surj_pair)
  have W: "mk_dwords h1 l1 = mk_dwords w_high w_low + (if odd v_low then U else 0)"
    using lh by (auto simp: and_1_eq mk_dwords_add U_def split: if_splits)
  have "mk_dwords h l = mk_dwords h1 l1 + ucast hv * (2 * U)"
  proof (cases "hv = 0")
    case True
    then have "(l, h) = (l1, h1)"
      using "1.prems" lh by (subst (asm) multi3_loop.simps) (auto simp: Let_def hv_def split: if_splits)
    then show ?thesis using True by simp
  next
    case False
    have run: "multi3_loop (push_bit 1 u_low) hv l1 h1 (drop_bit 31 u_low OR push_bit 1 w_high_tmp) = (l, h)"
      using "1.prems" lh False
      by (subst (asm) multi3_loop.simps) (simp add: Let_def hv_def split: if_splits)
    have "mk_dwords h l = mk_dwords h1 l1
        + ucast hv * mk_dwords (drop_bit 31 u_low OR push_bit 1 w_high_tmp) (push_bit 1 u_low)"
      using "1.IH" run lh False by (simp add: hv_def split: if_splits)
    then show ?thesis by (simp only: mk_dwords_double U_def)
  qed
  then have "mk_dwords h l
      = mk_dwords w_high w_low + (2 * ucast hv + (if odd v_low then 1 else 0)) * U"
    by (simp only: W distrib_right mult.assoc mult.left_commute [of 2]) simp
  then show ?case by (simp only: ucast_half [of v_low] hv_def U_def)
qed

lemma muldi3_eq: "muldi3 u v = u * v"
proof -
  obtain l h where lh: "multi3_loop (s_low u) (s_low v) 0 0 0 = (l, h)"
    by (metis surj_pair)
  then have low: "2 ^ 32 * ucast h + ucast l = (ucast (s_low v) * ucast (s_low u) :: u64)"
    using multi3_loop_eq [OF lh] by (simp add: mk_dwords_sum)
  have prod: "(2 ^ 32 :: u64) * ucast (x * y :: u32) = 2 ^ 32 * (ucast x * ucast y)" for x y
    by (rule ucast_mult_pow32_prod)
  have "muldi3 u v = 2 ^ 32 * ucast (h + s_low v * s_high u + s_low u * s_high v) + ucast l"
    using lh by (simp add: muldi3_def mulsi3_eq mk_dwords_sum)
  also have "\<dots> = (2 ^ 32 * ucast (s_high u) + ucast (s_low u)) * (2 ^ 32 * ucast (s_high v) + ucast (s_low v))"
    using low by (simp only: ucast_mult_pow32 prod) (simp add: algebra_simps two64_eq_0)
  finally show ?thesis by (simp only: mk_dwords_sum [symmetric] mk_dwords_s)
qed

lemma ashldi3_eq:
  "ashldi3 u b = (if 0 \<le> b \<and> b < 64 then Some (push_bit (nat b) u) else None)"
proof -
  have high: "mk_dwords (push_bit (nat (b - 32)) (s_low u)) 0 = push_bit (nat b) u" if "32 \<le> b"
    using dw_shl_high [of "nat (b - 32)" u] that by (simp add: nat_diff_distrib)
  have low: "mk_dwords (push_bit (nat b) (s_high u) OR drop_bit (nat (32 - b)) (s_low u))
      (push_bit (nat b) (s_low u)) = push_bit (nat b) u" if "0 \<le> b" "b < 32"
    using dw_shl [of "nat b" u] that by (simp add: nat_diff_distrib)
  show ?thesis
    using high low by (auto simp: ashldi3_def c_shift_def Let_def)
qed

lemma unat_ll_lowpart: "unat (ll_lowpart t) = unat t mod 2 ^ 16"
proof -
  have "ll_lowpart t = take_bit 16 t"
    unfolding ll_lowpart_def by (simp only: take_bit_eq_mask mask_eq_exp_minus_1)
  then show ?thesis by (simp only: unat_take_bit_eq)
qed

lemma unat_ll_highpart: "unat (ll_highpart t) = unat t div 2 ^ 16"
  by (simp only: ll_highpart_def unat_drop_bit)

lemma half_prod: "x < 2 ^ 16 \<Longrightarrow> y < 2 ^ 16 \<Longrightarrow> x * y \<le> (2 ^ 16 - 1) * (2 ^ 16 - 1)" for x y :: nat
  by (rule mult_le_mono) simp_all

lemma unat_mult_half:
  "unat x < 2 ^ 16 \<Longrightarrow> unat y < 2 ^ 16 \<Longrightarrow> unat (x * y) = unat x * unat y" for x y :: u32
  using half_prod [of "unat x" "unat y"] by (simp add: unat_word_ariths)

lemma umul_ppmm_sum:
  fixes ul uh vl vh c y2 N L u v :: nat
  assumes "N = uh * vh + c * 2 ^ 16 + y2 div 2 ^ 16" and "L = y2 mod 2 ^ 16 * 2 ^ 16 + ul * vl mod 2 ^ 16"
    and "u = uh * 2 ^ 16 + ul" "v = vh * 2 ^ 16 + vl"
    and "ul * vh + ul * vl div 2 ^ 16 + uh * vl = c * 2 ^ 32 + y2"
  shows "N * 2 ^ 32 + L = u * v"
proof -
  define q where "q = ul * vl div 2 ^ 16"
  have xl: "ul * vl = q * 2 ^ 16 + ul * vl mod 2 ^ 16" by (simp add: q_def)
  obtain h m where y2: "y2 = h * 2 ^ 16 + m" "y2 div 2 ^ 16 = h" "y2 mod 2 ^ 16 = m"
    by (metis div_mult_mod_eq)
  then have "N * 2 ^ 32 + L = uh * vh * 2 ^ 32 + (c * 2 ^ 32 + y2) * 2 ^ 16 + ul * vl mod 2 ^ 16"
    unfolding assms(1,2) y2(2,3) by (simp add: algebra_simps)
  also have "\<dots> = uh * vh * 2 ^ 32 + (ul * vh + uh * vl) * 2 ^ 16 + (q * 2 ^ 16 + ul * vl mod 2 ^ 16)"
    unfolding assms(5) [symmetric] q_def [symmetric] by (simp add: algebra_simps)
  finally show ?thesis unfolding xl [symmetric] assms(3,4) by (simp add: algebra_simps)
qed

lemma umul_ppmm_eq:
  "umul_ppmm u v = (w1, w0) \<Longrightarrow> unat w1 * 2 ^ 32 + unat w0 = unat u * unat v"
proof -
  assume w: "umul_ppmm u v = (w1, w0)"
  define ul uh vl vh where "ul = unat u mod 2 ^ 16" and "uh = unat u div 2 ^ 16"
    and "vl = unat v mod 2 ^ 16" and "vh = unat v div 2 ^ 16"
  have b: "ul < 2 ^ 16" "uh < 2 ^ 16" "vl < 2 ^ 16" "vh < 2 ^ 16"
    using unat_bound32 [of u] unat_bound32 [of v] by (simp_all add: ul_def uh_def vl_def vh_def)
  have uv: "unat u = uh * 2 ^ 16 + ul" "unat v = vh * 2 ^ 16 + vl"
    by (simp_all add: ul_def uh_def vl_def vh_def)
  define x0 x1 x2 x3 where "x0 = ll_lowpart u * ll_lowpart v" and "x1 = ll_lowpart u * ll_highpart v"
    and "x2 = ll_highpart u * ll_lowpart v" and "x3 = ll_highpart u * ll_highpart v"
  have x: "unat x0 = ul * vl" "unat x1 = ul * vh" "unat x2 = uh * vl" "unat x3 = uh * vh"
    using b by (simp_all add: x0_def x1_def x2_def x3_def unat_mult_half unat_ll_lowpart
        unat_ll_highpart ul_def uh_def vl_def vh_def)
  note le = half_prod [OF b(1,3)] half_prod [OF b(1,4)] half_prod [OF b(2,3)] half_prod [OF b(2,4)]
  define y1 where "y1 = x1 + ll_highpart x0"
  have y1: "unat y1 = ul * vh + ul * vl div 2 ^ 16"
    using le by (simp add: y1_def unat_word_ariths unat_ll_highpart x)
  define y2 where "y2 = y1 + x2"
  define c :: nat where "c = (if y2 < x2 then 1 else 0)"
  have c: "unat y1 + unat x2 = c * 2 ^ 32 + unat y2"
    using unat_bound32 [of y1] unat_bound32 [of x2]
    by (auto simp: c_def y2_def word_less_nat_alt unat_word_ariths mod_if)
  define N where "N = uh * vh + c * 2 ^ 16 + unat y2 div 2 ^ 16"
  define L where "L = unat y2 mod 2 ^ 16 * 2 ^ 16 + ul * vl mod 2 ^ 16"
  have total: "N * 2 ^ 32 + L = unat u * unat v"
    by (rule umul_ppmm_sum [OF N_def L_def uv c [unfolded y1 x]])
  have "L < 2 ^ 32"
    using mod_less_divisor [of "2 ^ 16" "unat y2"] mod_less_divisor [of "2 ^ 16" "ul * vl"]
    by (simp add: L_def del: mod_less_divisor)
  moreover have "unat u * unat v < 2 ^ 32 * 2 ^ 32"
    by (rule mult_strict_mono) (use unat_bound32 [of u] unat_bound32 [of v] in simp_all)
  then have "N < 2 ^ 32" using total by simp
  moreover have "w1 = of_nat N" "w0 = of_nat L"
  proof -
    have "umul_ppmm u v = ((if y2 < x2 then x3 + 2 ^ 16 else x3) + ll_highpart y2,
        ll_lowpart y2 * 2 ^ 16 + ll_lowpart x0)"
      by (simp add: umul_ppmm_def Let_def mulsi3_eq y2_def y1_def x0_def x1_def x2_def x3_def)
    moreover have "of_nat N = x3 + of_nat c * 2 ^ 16 + ll_highpart y2"
      by (simp only: N_def x [symmetric] unat_ll_highpart [symmetric]) simp
    moreover have "of_nat L = ll_lowpart y2 * 2 ^ 16 + ll_lowpart x0"
      by (simp only: L_def x [symmetric] unat_ll_lowpart [symmetric]) simp
    ultimately show "w1 = of_nat N" "w0 = of_nat L"
      using w by (auto simp: c_def)
  qed
  ultimately show ?thesis using total by (simp add: unat_of_nat)
qed

text \<open>
  \<open>__muldi3\<close> returns the low 64 bits of the product, for all operands.
\<close>

theorem muldi3_correct: "muldi3 u v = u * v"
  by (rule muldi3_eq)

text \<open>
  \<open>__ashldi3\<close> shifts left exactly when the count is between 0 and 63, and is undefined
  otherwise.
\<close>

theorem ashldi3_correct:
  "ashldi3 u b = (if 0 \<le> b \<and> b < 64 then Some (push_bit (nat b) u) else None)"
  by (rule ashldi3_eq)

text \<open>
  \<open>umul_ppmm\<close> splits the exact 64-bit product of two words into its two words, carries
  between the half-word products included.
\<close>

theorem umul_ppmm_correct:
  "(case umul_ppmm u v of (w1, w0) \<Rightarrow> unat w1 * 2 ^ 32 + unat w0) = unat u * unat v"
  using umul_ppmm_eq [of u v] by (cases "umul_ppmm u v") simp

end
