(* ===== verification/Words32.thy ===== *)
theory Words32
  imports Prelude
begin

text \<open>The sign bit and the signed value of a 32-bit word, and the difference of two words.\<close>

lemma bit31_iff: "bit (x :: u32) 31 \<longleftrightarrow> 2 ^ 31 \<le> uint x"
proof -
  have "bit x 31 \<longleftrightarrow> bit (uint x) 31" by (simp add: bit_uint_iff)
  also have "\<dots> \<longleftrightarrow> odd (uint x div 2 ^ 31)" by (rule bit_iff_odd)
  finally have "bit x 31 \<longleftrightarrow> odd (uint x div 2 ^ 31)" .
  moreover have "uint x div 2 ^ 31 = (if 2 ^ 31 \<le> uint x then 1 else 0)"
    using uint_lt2p [of x] by (auto simp: div_int_pos_iff intro!: div_pos_pos_trivial int_div_pos_eq [where r = "uint x - 2 ^ 31"])
  ultimately show ?thesis by simp
qed

lemma sint32_cases: "sint (x :: u32) = (if 2 ^ 31 \<le> uint x then uint x - 2 ^ 32 else uint x)"
proof -
  have "sint x = signed_take_bit 31 (uint x)" by (simp add: sint_uint)
  also have "\<dots> = uint x - 2 ^ 32 * of_bool (bit x 31)"
    using take_bit_int_eq_self [of "uint x" 32] uint_lt2p [of x]
    by (simp add: signed_take_bit_eq_take_bit_minus bit_uint_iff)
  finally show ?thesis by (simp add: bit31_iff)
qed

lemma uint_minus32: "uint (x - y :: u32) = (if uint y \<le> uint x then uint x - uint y else uint x - uint y + 2 ^ 32)"
  by (simp add: uint_sub_if')

lemma uint_bounds: obtains x where "uint (a :: u32) = x" "0 \<le> x" "x < 2 ^ 32"
  using uint_lt2p [of a] uint_ge_0 [of a] by simp

lemma unat32_split: obtains n where "unat (x :: u32) = n" "uint x = int n" "n < 2 ^ 32"
  using unat_bound32 [of x] by simp

lemma sint32_unat: "sint (x :: u32) = (if unat x < 2 ^ 31 then int (unat x) else int (unat x) - 2 ^ 32)"
proof -
  obtain n where "unat x = n" "uint x = int n" by (rule unat32_split)
  then show ?thesis by (simp add: sint32_cases)
qed

lemma sle_0_iff: "x \<le>s 0 \<longleftrightarrow> x = 0 \<or> 2 ^ 31 \<le> unat (x :: u32)"
proof -
  obtain n where n: "unat x = n" "uint x = int n" "n < 2 ^ 32" by (rule unat32_split)
  then show ?thesis by (auto simp: word_sle_eq sint32_cases word_unat_eq_iff)
qed

lemma sless_0_iff: "x <s 0 \<longleftrightarrow> 2 ^ 31 \<le> unat (x :: u32)"
proof -
  obtain n where n: "unat x = n" "uint x = int n" "n < 2 ^ 32" by (rule unat32_split)
  then show ?thesis by (auto simp: word_sless_alt sint32_cases)
qed

lemma unat_double32: "unat (x :: u32) < 2 ^ 31 \<Longrightarrow> unat (push_bit 1 x) = 2 * unat x"
  unfolding unat_push_bit by simp

end
