(* ===== verification/Libgcc_Div.thy ===== *)
theory Libgcc_Div
  imports Words32
begin

text \<open>
  The division routines of \<open>abstract-machine/am/src/riscv/npc/libgcc/div.S\<close> for 32-bit cores without
  the M extension.  The four entry points share the loop of \<open>__udivsi3\<close>, which returns the quotient
  in \<open>a0\<close> and the remainder in \<open>a1\<close>.  They are shown to return what the division instructions of
  the M extension specify, for division by zero and the quotient that overflows as well.
\<close>

section \<open>The routines\<close>

text \<open>The loop at \<open>.L1\<close> shifts the divisor up to the dividend, the loop at \<open>.L3\<close> subtracts it.\<close>

function div_shift :: "u32 \<Rightarrow> u32 \<Rightarrow> u32 \<Rightarrow> u32 \<times> u32" where
  "div_shift a1 a2 a3 =
     (if a2 \<le>s 0 then (a2, a3)
      else
        let a2 = push_bit 1 a2;
            a3 = push_bit 1 a3
        in if a2 < a1 then div_shift a1 a2 a3 else (a2, a3))"
  by auto

function div_loop :: "u32 \<Rightarrow> u32 \<Rightarrow> u32 \<Rightarrow> u32 \<Rightarrow> u32 \<times> u32" where
  "div_loop a0 a1 a2 a3 =
     (let (a0, a1) = (if a1 < a2 then (a0, a1) else (a0 OR a3, a1 - a2));
          a3 = drop_bit 1 a3;
          a2 = drop_bit 1 a2
      in if a3 \<noteq> 0 then div_loop a0 a1 a2 a3 else (a0, a1))"
  by auto

definition udivsi3 :: "u32 \<Rightarrow> u32 \<Rightarrow> u32 \<times> u32" where
  "udivsi3 a0 a1 =
     (let a2 = a1;
          a1 = a0;
          a0 = - 1
      in if a2 = 0 then (a0, a1)
         else
           let a3 = 1;
               (a2, a3) = (if a1 \<le> a2 then (a2, a3) else div_shift a1 a2 a3)
           in div_loop 0 a1 a2 a3)"

definition umodsi3 :: "u32 \<Rightarrow> u32 \<Rightarrow> u32" where
  "umodsi3 a0 a1 = snd (udivsi3 a0 a1)"

text \<open>The code at \<open>.L12\<close>, and the routine.\<close>

definition div_negate :: "u32 \<Rightarrow> u32 \<Rightarrow> u32" where
  "div_negate a0 a1 = - fst (udivsi3 a0 a1)"

definition divsi3 :: "u32 \<Rightarrow> u32 \<Rightarrow> u32" where
  "divsi3 a0 a1 =
     (if a0 <s 0 then
        let a0 = - a0
        in if 0 <s a1 then div_negate a0 a1 else let a1 = - a1 in fst (udivsi3 a0 a1)
      else if a1 <s 0 then let a1 = - a1 in div_negate a0 a1
      else fst (udivsi3 a0 a1))"

text \<open>The code at \<open>.L30\<close> and \<open>.L32\<close>, and the routine.\<close>

definition mod_plain :: "u32 \<Rightarrow> u32 \<Rightarrow> u32" where
  "mod_plain a0 a1 = snd (udivsi3 a0 a1)"

definition mod_negate :: "u32 \<Rightarrow> u32 \<Rightarrow> u32" where
  "mod_negate a0 a1 = (let a0 = - a0 in - snd (udivsi3 a0 a1))"

definition modsi3 :: "u32 \<Rightarrow> u32 \<Rightarrow> u32" where
  "modsi3 a0 a1 =
     (if a1 <s 0 then let a1 = - a1 in if 0 \<le>s a0 then mod_plain a0 a1 else mod_negate a0 a1
      else if a0 <s 0 then mod_negate a0 a1
      else mod_plain a0 a1)"

section \<open>The loops end\<close>

lemma unat_half: "unat (drop_bit 1 (a :: u32)) = unat a div 2"
  by (simp add: unat_drop_bit)

termination div_shift
proof (relation "measure (\<lambda>(a1, a2, a3). 2 ^ 32 - unat a2)")
  fix a1 a2 a3 x y :: u32
  assume "\<not> a2 \<le>s 0" "x = push_bit 1 a2"
  then have "0 < unat a2" "unat a2 < 2 ^ 31" "unat x = 2 * unat a2"
    unfolding sle_0_iff by (auto simp: unat_double32 word_unat_eq_iff [of a2] simp del: push_bit_of_1 One_nat_def)
  then show "((a1, x, y), a1, a2, a3) \<in> measure (\<lambda>(a1, a2, a3). 2 ^ 32 - unat a2)" by (simp add: diff_less_mono2)
qed simp

termination div_loop
proof (relation "measure (\<lambda>(a0, a1, a2, a3). unat a3)")
  fix a0 a1 a2 a3 x y z w :: u32 and p
  assume z: "z = drop_bit 1 a3" "z \<noteq> 0"
  have "unat z = unat a3 div 2" by (simp only: z(1) unat_half)
  moreover have "unat z \<noteq> 0" using z(2) unfolding word_unat_eq_iff by simp
  ultimately have "unat z = unat a3 div 2" "unat z \<noteq> 0" by blast+
  then have "unat z < unat a3" by linarith
  then show "((x, y, w, z), a0, a1, a2, a3) \<in> measure (\<lambda>(a0, a1, a2, a3). unat a3)" by simp
qed simp

declare div_shift.simps [simp del] div_loop.simps [simp del]

section \<open>The unsigned quotient\<close>

lemma div_shift_correct:
  assumes "0 < D" "unat a2 = D * 2 ^ k" "unat a3 = 2 ^ k" "unat a2 < unat a1"
  shows "\<exists>k' b2 b3. div_shift a1 a2 a3 = (b2, b3) \<and> unat b2 = D * 2 ^ k' \<and> unat b3 = 2 ^ k' \<and> unat a1 < D * 2 ^ Suc k'"
  using assms
proof (induction a1 a2 a3 arbitrary: k rule: div_shift.induct)
  case (1 a1 a2 a3)
  note prems = 1(2-5)
  note IH = 1(1)
  show ?case
  proof (cases "a2 \<le>s 0")
    case True
    then have "2 ^ 31 \<le> unat a2" using prems(1,2) by (auto simp: sle_0_iff)
    moreover have "D * 2 ^ Suc k = 2 * unat a2" using prems(2) by simp
    ultimately have "unat a1 < D * 2 ^ Suc k" using unat_bound32 [of a1] by simp
    then show ?thesis using True prems by (auto simp: div_shift.simps [of a1 a2 a3] intro!: exI [of _ k])
  next
    case False
    then have small: "unat a2 < 2 ^ 31" by (simp add: sle_0_iff)
    moreover have "unat a3 \<le> unat a2" using prems(1-3) by simp
    ultimately have small3: "unat a3 < 2 ^ 31" by linarith
    have d: "unat (push_bit 1 a2) = D * 2 ^ Suc k" "unat (push_bit 1 a3) = 2 ^ Suc k"
      unfolding unat_double32 [OF small] unat_double32 [OF small3] prems(2,3) by simp_all
    show ?thesis
    proof (cases "push_bit 1 a2 < a1")
      case True
      then show ?thesis
        using IH [OF False refl refl True prems(1) d] False
        by (simp add: div_shift.simps [of a1 a2 a3] Let_def word_less_nat_alt)
    next
      case f: False
      have "unat a1 \<le> D * 2 ^ Suc k" "D * 2 ^ Suc k < D * 2 ^ Suc (Suc k)"
        using f d(1) prems(1) by (simp_all add: word_less_nat_alt not_less)
      then have "unat a1 < D * 2 ^ Suc (Suc k)" by (rule le_less_trans)
      then show ?thesis using f False d
        by (auto simp: div_shift.simps [of a1 a2 a3] Let_def intro!: exI [of _ "Suc k"])
    qed
  qed
qed

lemma or_bit:
  fixes a :: u32
  assumes "take_bit (Suc k) a = 0"
  shows "a OR push_bit k 1 = a + push_bit k 1" "take_bit k (a + push_bit k 1) = 0"
proof -
  have b: "\<not> bit a i" if "i \<le> k" for i
    using assms that bit_take_bit_iff [of "Suc k" a i] by simp
  then have o: "a + push_bit k 1 = a OR push_bit k 1"
    by (intro disjunctive_add) (auto simp: bit_simps)
  then show "a OR push_bit k 1 = a + push_bit k 1" by simp
  show "take_bit k (a + push_bit k 1) = 0"
    unfolding o by (rule bit_word_eqI) (auto simp: bit_simps b)
qed

lemma div_loop_correct:
  assumes "0 < D" "unat a2 = D * 2 ^ k" "unat a3 = 2 ^ k" "unat a1 < D * 2 ^ Suc k" "take_bit (Suc k) a0 = 0"
  shows "div_loop a0 a1 a2 a3 = (a0 + of_nat (unat a1 div D), of_nat (unat a1 mod D))"
  using assms
proof (induction k arbitrary: a0 a1 a2 a3)
  case 0
  then have "a3 = 1" by (simp add: word_unat_eq_iff)
  then have a3: "a3 = 1" "drop_bit 1 a3 = 0" by simp_all
  have d: "unat a1 div D = (if unat a1 < D then 0 else 1)" "unat a1 mod D = (if unat a1 < D then unat a1 else unat a1 - D)"
    using 0 by (simp_all add: div_nat_eqI mod_if)
  have "a0 OR a3 = a0 + 1" using or_bit [of 0 a0] 0 a3(1) by simp
  moreover have "of_nat (unat a1 - D) = a1 - a2" if "\<not> a1 < a2"
  proof -
    have "a2 = of_nat D" using 0(2) by (metis mult.right_neutral power_0 of_nat_unat ucast_id)
    then show ?thesis using that 0 by (simp add: word_less_nat_alt of_nat_diff)
  qed
  ultimately show ?case using 0 a3(2)
    by (auto simp: div_loop.simps [of a0 a1 a2 a3] d word_less_nat_alt)
next
  case (Suc k)
  have "2 ^ Suc k < (2 :: nat) ^ 32" using unat_bound32 [of a3] Suc.prems(3) by simp
  then have k: "Suc k < 32" by (simp only: power_strict_increasing_iff one_less_numeral_iff semiring_norm)
  have a3n: "a3 = of_nat (2 ^ Suc k)" using Suc.prems(3) by (metis of_nat_unat ucast_id)
  then have a3: "a3 = push_bit (Suc k) 1" by (simp add: push_bit_eq_mult)
  have h: "unat (drop_bit 1 a2) = D * 2 ^ k" "unat (drop_bit 1 a3) = 2 ^ k" "drop_bit 1 a3 \<noteq> 0"
    using Suc.prems(2,3) unat_half [of a2] unat_half [of a3] by (auto simp: word_unat_eq_iff)
  let ?lt = "a1 < a2"
  let ?a0 = "if ?lt then a0 else a0 OR a3" and ?a1 = "if ?lt then a1 else a1 - a2"
  have step: "div_loop a0 a1 a2 a3 = div_loop ?a0 ?a1 (drop_bit 1 a2) (drop_bit 1 a3)"
    using h(3) by (subst div_loop.simps) simp
  have a1: "unat ?a1 = (if ?lt then unat a1 else unat a1 - D * 2 ^ Suc k)"
    using Suc.prems(2) by (auto simp: unat_sub word_le_nat_alt word_less_nat_alt not_less)
  have t: "take_bit (Suc k) a0 = 0"
    using arg_cong [OF Suc.prems(5), of "take_bit (Suc k)"] by (simp add: min_def)
  have o: "a0 OR a3 = a0 + a3" "take_bit (Suc k) ?a0 = 0"
    using or_bit [OF Suc.prems(5)] t by (auto simp: a3)
  have "unat ?a1 < D * 2 ^ Suc k"
    using a1 Suc.prems(2,4) by (auto simp: word_less_nat_alt)
  from step Suc.IH [OF Suc.prems(1) h(1,2) this o(2)]
  have r: "div_loop a0 a1 a2 a3 = (?a0 + of_nat (unat ?a1 div D), of_nat (unat ?a1 mod D))" by simp
  show ?case
  proof (cases ?lt)
    case False
    then have le: "D * 2 ^ Suc k \<le> unat a1" using Suc.prems(2) by (simp add: word_less_nat_alt)
    then obtain z where z: "unat a1 = z + D * 2 ^ Suc k" by (metis le_add_diff_inverse2)
    have "unat a1 div D = z div D + 2 ^ Suc k" "unat a1 mod D = z mod D"
      unfolding z using Suc.prems(1) by simp_all
    then show ?thesis using r False a1 o(1) z a3n by simp
  qed (use r in simp)
qed

lemma udivsi3_correct: "udivsi3 a b = (if b = 0 then (- 1, a) else (a div b, a mod b))"
proof (cases "b = 0")
  case False
  let ?D = "unat b"
  have D: "0 < ?D" using False by (simp add: unat_gt_0)
  obtain k b2 b3 where s: "(if a \<le> b then (b, 1) else div_shift a b 1) = (b2, b3)" "unat b2 = ?D * 2 ^ k" "unat b3 = 2 ^ k"
    "unat a < ?D * 2 ^ Suc k"
  proof (cases "a \<le> b")
    case True
    moreover have "unat a < ?D * 2 ^ Suc 0" using True D by (simp add: word_le_nat_alt)
    ultimately show ?thesis using that [of b 1 0] by simp
  next
    case f: False
    then obtain k b2 b3 where "div_shift a b 1 = (b2, b3)" "unat b2 = ?D * 2 ^ k" "unat b3 = 2 ^ k" "unat a < ?D * 2 ^ Suc k"
      using div_shift_correct [OF D, of b 0 1 a] by (auto simp: word_less_nat_alt not_le)
    then show ?thesis using that [of b2 b3 k] f by simp
  qed
  have "of_nat (unat a div ?D) = a div b" "of_nat (unat a mod ?D) = a mod b"
    by (simp_all add: word_unat_eq_iff unat_div unat_mod flip: unat_div unat_mod)
  then show ?thesis
    using div_loop_correct [OF D s(2,3,4), of 0] s(1) False by (simp add: udivsi3_def Let_def)
qed (simp add: udivsi3_def)

section \<open>What the M extension specifies\<close>

definition rv_divu :: "u32 \<Rightarrow> u32 \<Rightarrow> u32" where
  "rv_divu a b = (if b = 0 then - 1 else a div b)"

definition rv_remu :: "u32 \<Rightarrow> u32 \<Rightarrow> u32" where
  "rv_remu a b = (if b = 0 then a else a mod b)"

text \<open>The signed quotient is truncated; the only one that overflows is that of the least number and -1.\<close>

definition rv_div :: "u32 \<Rightarrow> u32 \<Rightarrow> u32" where
  "rv_div a b = (if b = 0 then - 1 else word_of_int (sint a sdiv sint b))"

definition rv_rem :: "u32 \<Rightarrow> u32 \<Rightarrow> u32" where
  "rv_rem a b = (if b = 0 then a else word_of_int (sint a smod sint b))"

section \<open>The signed quotient\<close>

text \<open>Quotient and remainder of the magnitudes.\<close>

definition magnitude :: "u32 \<Rightarrow> u32" where
  "magnitude a = (if a <s 0 then - a else a)"

lemma uint_magnitude: "uint (magnitude a) = \<bar>sint a\<bar>"
proof -
  obtain n where n: "unat a = n" "uint a = int n" "n < 2 ^ 32" by (rule unat32_split)
  then show ?thesis
    by (auto simp: magnitude_def sless_0_iff sint32_cases uint_word_ariths mod_if zmod_zminus1_eq_if)
qed

lemma magnitude_div: "uint (magnitude a div magnitude b) = \<bar>sint a\<bar> div \<bar>sint b\<bar>"
  by (simp add: uint_div uint_magnitude)

lemma magnitude_mod: "uint (magnitude a mod magnitude b) = \<bar>sint a\<bar> mod \<bar>sint b\<bar>"
  by (simp add: uint_mod uint_magnitude)

lemma sless_0_sint: "a <s 0 \<longleftrightarrow> sint a < 0" for a :: u32
  by (simp add: word_sless_alt)

lemma of_int_uint_magnitude: "word_of_int (- uint w) = - w" "word_of_int (uint w) = w"
  by simp_all

lemma rv_div_magnitude:
  assumes "b \<noteq> 0"
  shows "rv_div a b = (if a <s 0 \<longleftrightarrow> b <s 0 then magnitude a div magnitude b else - (magnitude a div magnitude b))"
proof -
  have "sint b \<noteq> 0" using assms by (simp add: signed_eq_0_iff)
  then have "sint a sdiv sint b = (if sint a < 0 \<longleftrightarrow> sint b < 0 then 1 else - 1) * uint (magnitude a div magnitude b)"
    unfolding magnitude_div signed_divide_int_def by (auto simp: sgn_if)
  then show ?thesis using assms by (simp add: rv_div_def sless_0_sint)
qed

lemma rv_rem_magnitude:
  assumes "b \<noteq> 0"
  shows "rv_rem a b = (if a <s 0 then - (magnitude a mod magnitude b) else magnitude a mod magnitude b)"
proof -
  have "sint a smod sint b = (if sint a < 0 then - 1 else 1) * uint (magnitude a mod magnitude b)"
    unfolding magnitude_mod signed_modulo_int_def by (auto simp: sgn_if)
  then show ?thesis using assms by (simp add: rv_rem_def sless_0_sint)
qed

text \<open>
  C22. The division routines a core without the M extension calls return, for all operands, what the
  four instructions of the extension specify: the quotient and remainder of the unsigned or
  truncating signed division, all ones and the dividend for a divisor that is 0, and the wrapped
  quotient of the least number by -1.
\<close>

theorem division_correct:
  "fst (udivsi3 a b) = rv_divu a b \<and> umodsi3 a b = rv_remu a b \<and> divsi3 a b = rv_div a b \<and> modsi3 a b = rv_rem a b"
proof (intro conjI)
  show "fst (udivsi3 a b) = rv_divu a b" by (simp add: udivsi3_correct rv_divu_def)
  show "umodsi3 a b = rv_remu a b" by (simp add: umodsi3_def udivsi3_correct rv_remu_def)
  have pos: "0 <s b \<longleftrightarrow> \<not> b <s 0 \<and> b \<noteq> 0" "0 \<le>s a \<longleftrightarrow> \<not> a <s 0"
    by (auto simp: word_sless_alt word_sle_eq signed_eq_0_iff not_less order_le_less)
  show "divsi3 a b = rv_div a b"
  proof (cases "b = 0")
    case False
    then show ?thesis
      by (auto simp: rv_div_magnitude divsi3_def div_negate_def Let_def udivsi3_correct pos magnitude_def)
  qed (auto simp: rv_div_def divsi3_def div_negate_def udivsi3_correct)
  show "modsi3 a b = rv_rem a b"
  proof (cases "b = 0")
    case False
    then show ?thesis
      by (auto simp: rv_rem_magnitude modsi3_def mod_plain_def mod_negate_def Let_def udivsi3_correct pos magnitude_def)
  qed (auto simp: rv_rem_def modsi3_def mod_plain_def mod_negate_def udivsi3_correct)
qed

end
