(* ===== verification/CMem.thy ===== *)
theory CMem
  imports Prelude
begin

text \<open>
  The byte-addressed memory of the 32-bit guest, in which the class library runs: an address
  is a \<open>u32\<close> and pointer arithmetic wraps around.  The lemmas relate blocks of bytes and
  strings in memory to single byte loads and stores.
\<close>

type_synonym gmem = "u32 \<Rightarrow> u8"
type_synonym ptr = u32

text \<open>The contents of \<open>n\<close> bytes at \<open>p\<close>, and a block of bytes written at \<open>p\<close>.\<close>

definition bytes_at :: "gmem \<Rightarrow> ptr \<Rightarrow> nat \<Rightarrow> u8 list" where
  "bytes_at m p n = map (\<lambda>i. m (p + of_nat i)) [0..<n]"

definition put_bytes :: "gmem \<Rightarrow> ptr \<Rightarrow> u8 list \<Rightarrow> gmem" where
  "put_bytes m p xs = (\<lambda>a. if unat (a - p) < length xs then xs ! unat (a - p) else m a)"

text \<open>A zero-terminated string \<open>xs\<close> at \<open>p\<close>.\<close>

definition cstr_at :: "gmem \<Rightarrow> ptr \<Rightarrow> u8 list \<Rightarrow> bool" where
  "cstr_at m p xs \<longleftrightarrow>
     length xs < 2 ^ 32 \<and> 0 \<notin> set xs \<and> bytes_at m p (length xs) = xs \<and> m (p + of_nat (length xs)) = 0"

text \<open>The two blocks of \<open>n\<close> and \<open>k\<close> bytes at \<open>p\<close> and \<open>q\<close> have no byte in common.\<close>

definition disjoint_blocks :: "ptr \<Rightarrow> nat \<Rightarrow> ptr \<Rightarrow> nat \<Rightarrow> bool" where
  "disjoint_blocks p n q k \<longleftrightarrow> (\<forall>i < n. \<forall>j < k. p + of_nat i \<noteq> q + of_nat j)"

section \<open>Blocks of bytes\<close>

lemma length_bytes_at [simp]: "length (bytes_at m p n) = n"
  by (simp add: bytes_at_def)

lemma nth_bytes_at [simp]: "i < n \<Longrightarrow> bytes_at m p n ! i = m (p + of_nat i)"
  by (simp add: bytes_at_def)

lemma bytes_at_0 [simp]: "bytes_at m p 0 = []"
  by (simp add: bytes_at_def)

lemma bytes_at_Suc: "bytes_at m p (Suc n) = bytes_at m p n @ [m (p + of_nat n)]"
  by (simp add: bytes_at_def)

lemma bytes_at_eqI:
  "length xs = n \<Longrightarrow> (\<And>i. i < n \<Longrightarrow> m (p + of_nat i) = xs ! i) \<Longrightarrow> bytes_at m p n = xs"
  by (rule nth_equalityI) simp_all

lemma bytes_at_cong:
  "(\<And>i. i < n \<Longrightarrow> m (p + of_nat i) = m' (p + of_nat i)) \<Longrightarrow> bytes_at m p n = bytes_at m' p n"
  by (rule bytes_at_eqI) simp_all

lemma take_bytes_at: "k \<le> n \<Longrightarrow> take k (bytes_at m p n) = bytes_at m p k"
  by (simp add: bytes_at_def take_map)

lemma put_bytes_Nil [simp]: "put_bytes m p [] = m"
  by (simp add: put_bytes_def)

lemma unat_offset [simp]: "i < 2 ^ 32 \<Longrightarrow> unat (p + of_nat i - p) = i" for p :: ptr
  by (simp add: unat_of_nat)

lemma put_bytes_inside [simp]:
  "i < length xs \<Longrightarrow> length xs \<le> 2 ^ 32 \<Longrightarrow> put_bytes m p xs (p + of_nat i) = xs ! i"
  by (simp add: put_bytes_def unat_of_nat)

lemma put_bytes_outside [simp]: "length xs \<le> unat (a - p) \<Longrightarrow> put_bytes m p xs a = m a"
  by (simp add: put_bytes_def)

lemma bytes_at_put_bytes [simp]:
  "length xs \<le> 2 ^ 32 \<Longrightarrow> bytes_at (put_bytes m p xs) p (length xs) = xs"
  by (rule bytes_at_eqI) simp_all

lemma put_bytes_snoc:
  assumes "length xs < 2 ^ 32"
  shows "(put_bytes m p xs)(p + of_nat (length xs) := x) = put_bytes m p (xs @ [x])"
proof
  fix a
  have "a = p + of_nat (length xs) \<longleftrightarrow> unat (a - p) = length xs"
    using assms by (auto simp: unat_of_nat) (metis diff_add_cancel add.commute of_nat_unat ucast_id)
  then show "((put_bytes m p xs)(p + of_nat (length xs) := x)) a = put_bytes m p (xs @ [x]) a"
    by (auto simp: put_bytes_def nth_append)
qed

lemma put_bytes_disjoint:
  assumes "disjoint_blocks p (length xs) q k" "j < k"
  shows "put_bytes m p xs (q + of_nat j) = m (q + of_nat j)"
proof (rule put_bytes_outside, rule leI, rule notI)
  assume lt: "unat (q + of_nat j - p) < length xs"
  have "p + of_nat (unat (q + of_nat j - p)) = q + of_nat j" by simp
  then show False using assms lt unfolding disjoint_blocks_def by blast
qed

lemma disjoint_blocks_mono:
  "disjoint_blocks p n q k \<Longrightarrow> n' \<le> n \<Longrightarrow> k' \<le> k \<Longrightarrow> disjoint_blocks p n' q k'"
  by (simp add: disjoint_blocks_def)

lemma disjoint_blocks_sym: "disjoint_blocks p n q k \<Longrightarrow> disjoint_blocks q k p n"
  by (simp add: disjoint_blocks_def) metis

section \<open>Strings\<close>

lemma cstr_at_char: "cstr_at m p xs \<Longrightarrow> i < length xs \<Longrightarrow> m (p + of_nat i) = xs ! i \<and> xs ! i \<noteq> 0"
  unfolding cstr_at_def by (metis nth_bytes_at nth_mem)

lemma cstr_at_end: "cstr_at m p xs \<Longrightarrow> m (p + of_nat (length xs)) = 0"
  by (simp add: cstr_at_def)

lemma cstr_at_length: "cstr_at m p xs \<Longrightarrow> length xs < 2 ^ 32"
  by (simp add: cstr_at_def)

lemma cstr_at_nonzero: "cstr_at m p xs \<Longrightarrow> i \<le> length xs \<Longrightarrow> m (p + of_nat i) = 0 \<longleftrightarrow> i = length xs"
  using cstr_at_char [of m p xs i] cstr_at_end [of m p xs] by (cases "i = length xs") auto

lemma cstr_at_cong:
  "cstr_at m p xs \<Longrightarrow> (\<And>i. i \<le> length xs \<Longrightarrow> m' (p + of_nat i) = m (p + of_nat i)) \<Longrightarrow> cstr_at m' p xs"
  unfolding cstr_at_def by (metis bytes_at_cong le_refl less_imp_le)

lemma cstr_at_put_bytes:
  assumes "length xs < 2 ^ 32" "0 \<notin> set xs"
  shows "cstr_at (put_bytes m p (xs @ [0])) p xs"
proof -
  have "bytes_at (put_bytes m p (xs @ [0])) p (length xs) = xs"
    using assms by (intro bytes_at_eqI) (simp_all add: nth_append)
  moreover have "put_bytes m p (xs @ [0]) (p + of_nat (length xs)) = 0"
    using assms put_bytes_inside [of "length xs" "xs @ [0]" m p] by simp
  ultimately show ?thesis using assms by (simp add: cstr_at_def)
qed

text \<open>Counting a word index up to a word bound terminates.\<close>

lemma word_count_up: "i < n \<Longrightarrow> unat (n - (i + 1)) < unat (n - i)" for i n :: "'a::len word"
  by (metis (no_types) diff_diff_eq2 diff_add_eq_diff_diff_swap less_irrefl measure_unat
      right_minus_eq add.commute)

lemma of_nat_Suc_word: "of_nat i + 1 = (of_nat (Suc i) :: 'a::len word)"
  by simp

lemma of_nat_less_iff32: "i < 2 ^ 32 \<Longrightarrow> (of_nat i :: u32) < n \<longleftrightarrow> i < unat n"
  by (simp add: word_less_nat_alt unat_of_nat)

section \<open>Words in memory\<close>

definition ld32 :: "gmem \<Rightarrow> ptr \<Rightarrow> u32" where
  "ld32 m p = le_word (m p) (m (p + 1)) (m (p + 2)) (m (p + 3))"

definition st32 :: "ptr \<Rightarrow> u32 \<Rightarrow> gmem \<Rightarrow> gmem" where
  "st32 p w m = m(p := byte_of w 0, p + 1 := byte_of w 1, p + 2 := byte_of w 2, p + 3 := byte_of w 3)"

text \<open>Two words do not overlap.\<close>

definition apart :: "ptr \<Rightarrow> ptr \<Rightarrow> bool" where
  "apart p q \<longleftrightarrow> 4 \<le> unat (p - q) \<and> 4 \<le> unat (q - p)"

lemma small_words: "(1 :: u32) \<noteq> 0" "(1 :: u32) \<noteq> 2" "(1 :: u32) \<noteq> 3" "(2 :: u32) \<noteq> 0" "(2 :: u32) \<noteq> 3" "(3 :: u32) \<noteq> 0"
  by simp_all

lemma ld32_st32 [simp]: "ld32 (st32 p w m) p = w"
  using le_word_byte_of [of w] by (simp add: ld32_def st32_def)

lemma apart_byte:
  assumes "apart p q" "i < 4" "j < 4"
  shows "p + of_nat i \<noteq> q + of_nat j"
proof
  assume eq: "p + of_nat i = q + of_nat j"
  show False
  proof (cases "i \<le> j")
    case True
    then have "p - q = of_nat (j - i)"
      using eq by (simp add: of_nat_diff algebra_simps)
    then show False using assms by (simp add: apart_def unat_of_nat) linarith
  next
    case False
    then have "q - p = of_nat (i - j)"
      using eq by (simp add: of_nat_diff algebra_simps)
    then show False using assms by (simp add: apart_def unat_of_nat) linarith
  qed
qed

lemma st32_other: "apart p q \<Longrightarrow> i < 4 \<Longrightarrow> st32 p w m (q + of_nat i) = m (q + of_nat i)"
  using apart_byte [of p q 0 i] apart_byte [of p q 1 i] apart_byte [of p q 2 i] apart_byte [of p q 3 i]
  by (simp add: st32_def eq_commute [of "q + of_nat i"])

lemma ld32_st32_apart: "apart p q \<Longrightarrow> ld32 (st32 p w m) q = ld32 m q"
  using st32_other [of p q 0 w m] st32_other [of p q 1 w m] st32_other [of p q 2 w m] st32_other [of p q 3 w m]
  by (simp add: ld32_def)

lemma apart_sym: "apart p q \<longleftrightarrow> apart q p"
  by (auto simp: apart_def)

lemma apart_offsets:
  assumes "i \<noteq> j" "i < 2 ^ 29" "j < 2 ^ 29"
  shows "apart (p + of_nat (4 * i)) (p + of_nat (4 * j))"
proof -
  have *: "4 \<le> unat (of_nat (4 * i) - of_nat (4 * j) :: u32)" if "i \<noteq> j" "i < 2 ^ 29" "j < 2 ^ 29" for i j
    using that by (simp add: unat_sub_if' unat_of_nat del: of_nat_mult) linarith
  show ?thesis using * [of i j] * [of j i] assms by (simp add: apart_def algebra_simps)
qed

text \<open>A word read from a block of bytes that was written, and one read outside it.\<close>

lemma ld32_put_bytes_zero:
  assumes "i + 4 \<le> n" "n \<le> 2 ^ 32"
  shows "ld32 (put_bytes m p (replicate n 0)) (p + of_nat i) = 0"
proof -
  have "put_bytes m p (replicate n 0) (p + of_nat (i + k)) = 0" if "k < 4" for k
    using assms that by (subst put_bytes_inside) simp_all
  from this [of 0] this [of 1] this [of 2] this [of 3] show ?thesis
    by (simp add: ld32_def le_word_def add.commute add.left_commute)
qed

end
