(* ===== verification/Klib_String.thy ===== *)
theory Klib_String
  imports CMem
begin

text \<open>
  The string and memory functions of \<open>abstract-machine/klib/src/string.c\<close>.  A function that
  writes returns its pointer and the new memory.  A loop that only a zero byte stops is a
  \<open>partial_function\<close>, with \<open>None\<close> when it runs for ever; a loop bounded by a count is total.
\<close>

section \<open>The functions\<close>

partial_function (option) strlen_loop :: "gmem \<Rightarrow> ptr \<Rightarrow> u32 \<Rightarrow> u32 option" where
  "strlen_loop m s i = (if m (s + i) \<noteq> 0 then strlen_loop m s (i + 1) else Some i)"

definition strlen :: "gmem \<Rightarrow> ptr \<Rightarrow> u32 option" where
  "strlen m s = strlen_loop m s 0"

text \<open>The copy loop of \<open>strcpy\<close>; \<open>strcat\<close> runs it too, at \<open>dst + i\<close>.\<close>

partial_function (option) strcpy_loop :: "gmem \<Rightarrow> ptr \<Rightarrow> ptr \<Rightarrow> u32 \<Rightarrow> gmem option" where
  "strcpy_loop m dst src i =
     (if m (src + i) \<noteq> 0 then strcpy_loop (m(dst + i := m (src + i))) dst src (i + 1)
      else Some (m(dst + i := 0)))"

definition strcpy :: "gmem \<Rightarrow> ptr \<Rightarrow> ptr \<Rightarrow> (ptr \<times> gmem) option" where
  "strcpy m dst src = map_option (\<lambda>m'. (dst, m')) (strcpy_loop m dst src 0)"

definition strcat :: "gmem \<Rightarrow> ptr \<Rightarrow> ptr \<Rightarrow> (ptr \<times> gmem) option" where
  "strcat m dst src =
     Option.bind (strlen_loop m dst 0) (\<lambda>i.
     map_option (\<lambda>m'. (dst, m')) (strcpy_loop m (dst + i) src 0))"

function strncpy_pad :: "gmem \<Rightarrow> ptr \<Rightarrow> u32 \<Rightarrow> u32 \<Rightarrow> gmem" where
  "strncpy_pad m dst n i = (if i < n then strncpy_pad (m(dst + i := 0)) dst n (i + 1) else m)"
  by auto
termination
  by (relation "measure (\<lambda>(_, _, n, i). unat (n - i))") (auto simp: word_count_up)

function strncpy_loop :: "gmem \<Rightarrow> ptr \<Rightarrow> ptr \<Rightarrow> u32 \<Rightarrow> u32 \<Rightarrow> u32 \<times> gmem" where
  "strncpy_loop m dst src n i =
     (if i < n \<and> m (src + i) \<noteq> 0 then strncpy_loop (m(dst + i := m (src + i))) dst src n (i + 1)
      else (i, m))"
  by auto
termination
  by (relation "measure (\<lambda>(_, _, _, n, i). unat (n - i))") (auto simp: word_count_up)

definition strncpy :: "gmem \<Rightarrow> ptr \<Rightarrow> ptr \<Rightarrow> u32 \<Rightarrow> ptr \<times> gmem" where
  "strncpy m dst src n =
     (let (i, m) = strncpy_loop m dst src n 0 in (dst, strncpy_pad m dst n i))"

text \<open>Plain \<open>char\<close> is unsigned on RISC-V, and the difference of two is an \<open>int\<close>.\<close>

definition char_diff :: "u8 \<Rightarrow> u8 \<Rightarrow> int" where
  "char_diff c d = uint c - uint d"

partial_function (option) strcmp_loop :: "gmem \<Rightarrow> ptr \<Rightarrow> ptr \<Rightarrow> u32 \<Rightarrow> int option" where
  "strcmp_loop m s1 s2 i =
     (if m (s1 + i) \<noteq> 0 \<and> m (s2 + i) \<noteq> 0 then
        if m (s1 + i) \<noteq> m (s2 + i) then Some (char_diff (m (s1 + i)) (m (s2 + i)))
        else strcmp_loop m s1 s2 (i + 1)
      else Some (char_diff (m (s1 + i)) (m (s2 + i))))"

definition strcmp :: "gmem \<Rightarrow> ptr \<Rightarrow> ptr \<Rightarrow> int option" where
  "strcmp m s1 s2 = strcmp_loop m s1 s2 0"

function strncmp_loop :: "gmem \<Rightarrow> ptr \<Rightarrow> ptr \<Rightarrow> u32 \<Rightarrow> u32 \<Rightarrow> int" where
  "strncmp_loop m s1 s2 n i =
     (if i < n \<and> m (s1 + i) \<noteq> 0 \<and> m (s2 + i) \<noteq> 0 then
        if m (s1 + i) \<noteq> m (s2 + i) then char_diff (m (s1 + i)) (m (s2 + i))
        else strncmp_loop m s1 s2 n (i + 1)
      else if i = n then 0
      else char_diff (m (s1 + i)) (m (s2 + i)))"
  by auto
termination
  by (relation "measure (\<lambda>(_, _, _, n, i). unat (n - i))") (auto simp: word_count_up)

definition strncmp :: "gmem \<Rightarrow> ptr \<Rightarrow> ptr \<Rightarrow> u32 \<Rightarrow> int" where
  "strncmp m s1 s2 n = strncmp_loop m s1 s2 n 0"

function memset_loop :: "gmem \<Rightarrow> ptr \<Rightarrow> u8 \<Rightarrow> u32 \<Rightarrow> u32 \<Rightarrow> gmem" where
  "memset_loop m s c n i = (if i < n then memset_loop (m(s + i := c)) s c n (i + 1) else m)"
  by auto
termination
  by (relation "measure (\<lambda>(_, _, _, n, i). unat (n - i))") (auto simp: word_count_up)

definition memset :: "gmem \<Rightarrow> ptr \<Rightarrow> u32 \<Rightarrow> u32 \<Rightarrow> ptr \<times> gmem" where
  "memset m s c n = (s, memset_loop m s (ucast c) n 0)"

function memcpy_loop :: "gmem \<Rightarrow> ptr \<Rightarrow> ptr \<Rightarrow> u32 \<Rightarrow> u32 \<Rightarrow> gmem" where
  "memcpy_loop m out inp n i =
     (if i < n then memcpy_loop (m(out + i := m (inp + i))) out inp n (i + 1) else m)"
  by auto
termination
  by (relation "measure (\<lambda>(_, _, _, n, i). unat (n - i))") (auto simp: word_count_up)

definition memcpy :: "gmem \<Rightarrow> ptr \<Rightarrow> ptr \<Rightarrow> u32 \<Rightarrow> ptr \<times> gmem" where
  "memcpy m out inp n = (out, memcpy_loop m out inp n 0)"

text \<open>
  The downward loop of \<open>memmove\<close> has the condition \<open>i >= 0\<close>, which holds of every \<open>size_t\<close>.
\<close>

partial_function (option) memmove_down :: "gmem \<Rightarrow> ptr \<Rightarrow> ptr \<Rightarrow> u32 \<Rightarrow> gmem option" where
  "memmove_down m dst src i =
     (if i \<ge> 0 then memmove_down (m(dst + i := m (src + i))) dst src (i - 1) else Some m)"

definition memmove :: "gmem \<Rightarrow> ptr \<Rightarrow> ptr \<Rightarrow> u32 \<Rightarrow> (ptr \<times> gmem) option" where
  "memmove m dst src n =
     (if dst < src then Some (dst, memcpy_loop m dst src n 0)
      else map_option (\<lambda>m'. (dst, m')) (memmove_down m dst src (n - 1)))"

function memcmp_loop :: "gmem \<Rightarrow> ptr \<Rightarrow> ptr \<Rightarrow> u32 \<Rightarrow> u32 \<Rightarrow> int" where
  "memcmp_loop m s1 s2 n i =
     (if i < n then
        if m (s1 + i) \<noteq> m (s2 + i) then char_diff (m (s1 + i)) (m (s2 + i))
        else memcmp_loop m s1 s2 n (i + 1)
      else 0)"
  by auto
termination
  by (relation "measure (\<lambda>(_, _, _, n, i). unat (n - i))") (auto simp: word_count_up)

definition memcmp :: "gmem \<Rightarrow> ptr \<Rightarrow> ptr \<Rightarrow> u32 \<Rightarrow> int" where
  "memcmp m s1 s2 n = memcmp_loop m s1 s2 n 0"

declare strncpy_pad.simps [simp del] strncpy_loop.simps [simp del] strncmp_loop.simps [simp del]
  memset_loop.simps [simp del] memcpy_loop.simps [simp del] memcmp_loop.simps [simp del]

section \<open>Length and copy\<close>

lemma strlen_loop_eq:
  assumes "cstr_at m s xs" "i \<le> length xs"
  shows "strlen_loop m s (of_nat i) = Some (of_nat (length xs))"
  using assms(2)
proof (induction rule: inc_induct)
  case base
  then show ?case using assms by (subst strlen_loop.simps) (simp add: cstr_at_end)
next
  case (step i)
  then have "strlen_loop m s (of_nat i) = strlen_loop m s (of_nat (Suc i))"
    using assms cstr_at_nonzero [of m s xs i] by (subst strlen_loop.simps) (simp add: add.commute)
  then show ?case using step by simp
qed

lemma strlen_eq: "cstr_at m s xs \<Longrightarrow> strlen m s = Some (of_nat (length xs))"
  using strlen_loop_eq [of m s xs 0] by (simp add: strlen_def)

lemma strcpy_loop_eq:
  assumes "cstr_at m src xs" "disjoint_blocks dst (Suc (length xs)) src (Suc (length xs))"
    and "i \<le> length xs"
  shows "strcpy_loop (put_bytes m dst (take i xs)) dst src (of_nat i)
    = Some (put_bytes m dst (xs @ [0]))"
  using assms(3)
proof (induction rule: inc_induct)
  case base
  let ?m = "put_bytes m dst xs"
  have "?m (src + of_nat (length xs)) = 0"
    using assms put_bytes_disjoint [of dst xs src "Suc (length xs)" "length xs" m]
    by (simp add: disjoint_blocks_mono cstr_at_end)
  then show ?case
    using assms cstr_at_length [of m src xs]
    by (subst strcpy_loop.simps) (simp add: put_bytes_snoc)
next
  case (step i)
  let ?m = "put_bytes m dst (take i xs)"
  have "disjoint_blocks dst i src (Suc (length xs))"
    by (rule disjoint_blocks_mono [OF assms(2)]) (use step in simp_all)
  then have "?m (src + of_nat i) = xs ! i" "xs ! i \<noteq> 0"
    using step put_bytes_disjoint [of dst "take i xs" src "Suc (length xs)" i m]
      cstr_at_char [OF assms(1), of i] by simp_all
  moreover have "?m(dst + of_nat i := xs ! i) = put_bytes m dst (take (Suc i) xs)"
    using put_bytes_snoc [of "take i xs" m dst "xs ! i"] step cstr_at_length [OF assms(1)]
    by (simp add: take_Suc_conv_app_nth)
  ultimately show ?case
    using step by (subst strcpy_loop.simps) (simp add: add.commute)
qed

lemma strcpy_eq:
  "cstr_at m src xs \<Longrightarrow> disjoint_blocks dst (Suc (length xs)) src (Suc (length xs)) \<Longrightarrow>
   strcpy m dst src = Some (dst, put_bytes m dst (xs @ [0]))"
  using strcpy_loop_eq [of m src xs dst 0] by (simp add: strcpy_def)

lemma put_bytes_append:
  "length (ys @ xs) \<le> 2 ^ 32 \<Longrightarrow>
   put_bytes m dst (ys @ xs) = put_bytes (put_bytes m dst ys) (dst + of_nat (length ys)) xs"
proof (induction xs rule: rev_induct)
  case (snoc x xs)
  then have "put_bytes m dst (ys @ xs @ [x])
      = (put_bytes m dst (ys @ xs))(dst + of_nat (length (ys @ xs)) := x)"
    using put_bytes_snoc [of "ys @ xs" m dst x] by simp
  then show ?case
    using snoc put_bytes_snoc [of xs "put_bytes m dst ys" "dst + of_nat (length ys)" x]
    by (simp add: add.assoc)
qed simp

lemma put_bytes_same: "put_bytes m p (bytes_at m p n) = m"
  by (rule ext) (simp add: put_bytes_def)

lemma strcat_eq:
  assumes "cstr_at m dst ys" "cstr_at m src xs" "length ys + length xs < 2 ^ 32"
    and "disjoint_blocks (dst + of_nat (length ys)) (Suc (length xs)) src (Suc (length xs))"
  shows "strcat m dst src = Some (dst, put_bytes m dst (ys @ xs @ [0]))"
proof -
  have "put_bytes m dst (ys @ xs @ [0]) = put_bytes m (dst + of_nat (length ys)) (xs @ [0])"
    using assms(1,3) put_bytes_append [of ys "xs @ [0]" m dst] put_bytes_same [of m dst "length ys"]
    by (simp add: cstr_at_def)
  then show ?thesis
    using strlen_loop_eq [OF assms(1), of 0] strcpy_loop_eq [OF assms(2,4), of 0]
    by (simp add: strcat_def)
qed

section \<open>Bounded fill and copy\<close>

lemma less_of_nat32:
  "i < unat n \<Longrightarrow> (of_nat i :: u32) < n" "\<not> i < unat n \<Longrightarrow> i \<le> unat n \<Longrightarrow> \<not> (of_nat i :: u32) < n"
  using unat_bound32 [of n] by (simp_all add: word_less_nat_alt unat_of_nat)

lemma memset_loop_eq:
  assumes "i \<le> unat n"
  shows "memset_loop (put_bytes m s (replicate i c)) s c n (of_nat i)
    = put_bytes m s (replicate (unat n) c)"
  using assms
proof (induction rule: inc_induct)
  case base
  then show ?case by (subst memset_loop.simps) simp
next
  case (step i)
  then have "(put_bytes m s (replicate i c))(s + of_nat i := c) = put_bytes m s (replicate (Suc i) c)"
    using put_bytes_snoc [of "replicate i c" m s c] unat_bound32 [of n]
    by (simp add: replicate_append_same)
  then show ?case
    using step by (subst memset_loop.simps) (simp add: less_of_nat32 add.commute)
qed

lemma memset_eq: "memset m s c n = (s, put_bytes m s (replicate (unat n) (ucast c)))"
  using memset_loop_eq [of 0 n m s "ucast c"] by (simp add: memset_def)

text \<open>
  The upward copy is right whenever no byte is overwritten before it is read: for disjoint
  blocks, and for overlapping ones with the destination below the source.
\<close>

definition copies_up :: "ptr \<Rightarrow> ptr \<Rightarrow> nat \<Rightarrow> bool" where
  "copies_up dst src n \<longleftrightarrow> (\<forall>i < n. \<forall>j < i. dst + of_nat j \<noteq> src + of_nat i)"

lemma copies_up_disjoint: "disjoint_blocks dst n src n \<Longrightarrow> copies_up dst src n"
  by (auto simp: copies_up_def disjoint_blocks_def)

lemma unat_plus_offset: "unat p + i < 2 ^ 32 \<Longrightarrow> unat (p + of_nat i) = unat p + i" for p :: ptr
  by (simp add: unat_word_ariths unat_of_nat)

lemma copies_up_below:
  assumes "dst < src" "unat src + n \<le> 2 ^ 32"
  shows "copies_up dst src n"
proof -
  have "unat (dst + of_nat j) < unat (src + of_nat i)" if "i < n" "j < i" for i j
    using assms that by (simp add: unat_plus_offset word_less_nat_alt)
  then show ?thesis unfolding copies_up_def by (metis less_irrefl)
qed

lemma copies_up_read:
  assumes "copies_up dst src n" "i < n" "n \<le> 2 ^ 32"
  shows "put_bytes m dst (bytes_at m src i) (src + of_nat i) = m (src + of_nat i)"
proof (rule put_bytes_outside, rule leI, rule notI)
  let ?j = "unat (src + of_nat i - dst)"
  assume "?j < length (bytes_at m src i)"
  moreover have "dst + of_nat ?j = src + of_nat i" by simp
  ultimately show False using assms unfolding copies_up_def by (metis length_bytes_at)
qed

lemma memcpy_loop_eq:
  assumes "copies_up dst src (unat n)" "i \<le> unat n"
  shows "memcpy_loop (put_bytes m dst (bytes_at m src i)) dst src n (of_nat i)
    = put_bytes m dst (bytes_at m src (unat n))"
  using assms(2)
proof (induction rule: inc_induct)
  case base
  then show ?case by (subst memcpy_loop.simps) simp
next
  case (step i)
  let ?m = "put_bytes m dst (bytes_at m src i)"
  have "?m(dst + of_nat i := ?m (src + of_nat i)) = put_bytes m dst (bytes_at m src (Suc i))"
    using step assms(1) unat_bound32 [of n] copies_up_read [of dst src "unat n" i m]
      put_bytes_snoc [of "bytes_at m src i" m dst "m (src + of_nat i)"]
    by (simp add: bytes_at_Suc)
  then show ?case
    using step by (subst memcpy_loop.simps) (simp add: less_of_nat32 add.commute)
qed

lemma memcpy_eq:
  "copies_up out inp (unat n) \<Longrightarrow>
   memcpy m out inp n = (out, put_bytes m out (bytes_at m inp (unat n)))"
  using memcpy_loop_eq [of out inp n 0 m] by (simp add: memcpy_def)

lemma memmove_down_None: "memmove_down m dst src i = None"
proof (rule option.exhaust [of "memmove_down m dst src i"])
  fix r assume "memmove_down m dst src i = Some r"
  then have False
    by (rule memmove_down.raw_induct [of "\<lambda>_ _ _ _ _. False", rotated]) auto
  then show ?thesis ..
qed simp

lemma memmove_eq:
  "dst < src \<Longrightarrow> unat src + unat n \<le> 2 ^ 32 \<Longrightarrow>
   memmove m dst src n = Some (dst, put_bytes m dst (bytes_at m src (unat n)))"
  "\<not> dst < src \<Longrightarrow> memmove m dst src n = None"
  using memcpy_loop_eq [of dst src n 0 m]
  by (simp_all add: memmove_def copies_up_below memmove_down_None)

text \<open>\<open>strncpy\<close> copies at most \<open>n\<close> bytes and fills the rest of the \<open>n\<close> with zeros.\<close>

lemma strncpy_pad_eq:
  assumes "length xs \<le> k" "k \<le> unat n"
  shows "strncpy_pad (put_bytes m dst (xs @ replicate (k - length xs) 0)) dst n (of_nat k)
      = put_bytes m dst (xs @ replicate (unat n - length xs) 0)"
  using assms(2,1)
proof (induction rule: inc_induct)
  case base
  then show ?case by (subst strncpy_pad.simps) simp
next
  case (step k)
  then have "(put_bytes m dst (xs @ replicate (k - length xs) 0))(dst + of_nat k := 0)
      = put_bytes m dst (xs @ replicate (Suc k - length xs) 0)"
    using put_bytes_snoc [of "xs @ replicate (k - length xs) 0" m dst 0] unat_bound32 [of n]
    by (simp add: Suc_diff_le replicate_append_same)
  then show ?case
    using step by (subst strncpy_pad.simps) (simp add: less_of_nat32 add.commute)
qed

lemma strncpy_loop_eq:
  assumes "cstr_at m src xs" "copies_up dst src (Suc (min (length xs) (unat n)))"
    and "i \<le> min (length xs) (unat n)"
  shows "strncpy_loop (put_bytes m dst (take i xs)) dst src n (of_nat i)
    = (of_nat (min (length xs) (unat n)), put_bytes m dst (take (min (length xs) (unat n)) xs))"
  using assms(3)
proof (induction rule: inc_induct)
  case base
  let ?k = "min (length xs) (unat n)"
  have take: "take ?k xs = bytes_at m src ?k"
    using assms(1) take_bytes_at [of ?k "length xs" m src] by (simp add: cstr_at_def)
  have "put_bytes m dst (take ?k xs) (src + of_nat ?k) = m (src + of_nat ?k)"
    unfolding take by (rule copies_up_read [OF assms(2)]) (use unat_bound32 [of n] in auto)
  moreover have "of_nat ?k < n \<Longrightarrow> m (src + of_nat ?k) = 0"
    using assms(1) by (cases "length xs < unat n") (auto simp: cstr_at_end)
  ultimately show ?case by (subst strncpy_loop.simps) auto
next
  case (step i)
  let ?m = "put_bytes m dst (take i xs)"
  have take: "take i xs = bytes_at m src i"
    using step assms(1) take_bytes_at [of i "length xs" m src] by (simp add: cstr_at_def)
  have "?m (src + of_nat i) = m (src + of_nat i)"
    unfolding take by (rule copies_up_read [OF assms(2)]) (use step unat_bound32 [of n] in auto)
  then have "?m (src + of_nat i) = xs ! i" "xs ! i \<noteq> 0"
    using step cstr_at_char [OF assms(1), of i] by simp_all
  moreover have "?m(dst + of_nat i := xs ! i) = put_bytes m dst (take (Suc i) xs)"
    using put_bytes_snoc [of "take i xs" m dst "xs ! i"] step cstr_at_length [OF assms(1)]
    by (simp add: take_Suc_conv_app_nth)
  ultimately show ?case
    using step by (subst strncpy_loop.simps) (simp add: less_of_nat32 add.commute)
qed

lemma strncpy_eq:
  assumes "cstr_at m src xs" "copies_up dst src (Suc (min (length xs) (unat n)))"
  shows "strncpy m dst src n =
    (dst, put_bytes m dst (take (unat n) xs @ replicate (unat n - length xs) 0))"
proof -
  let ?k = "min (length xs) (unat n)"
  have "take ?k xs = take (unat n) xs" by (simp add: min_def)
  then show ?thesis
    using strncpy_loop_eq [OF assms, of 0]
      strncpy_pad_eq [of "take (unat n) xs" ?k n m dst]
    by (simp add: strncpy_def min_def split: if_splits)
qed

section \<open>Comparison\<close>

text \<open>The reference order: byte strings compared lexicographically as unsigned bytes.\<close>

fun str_compare :: "u8 list \<Rightarrow> u8 list \<Rightarrow> int" where
  "str_compare [] [] = 0"
| "str_compare [] (y # ys) = - uint y"
| "str_compare (x # xs) [] = uint x"
| "str_compare (x # xs) (y # ys) = (if x = y then str_compare xs ys else char_diff x y)"

lemma char_diff_0 [simp]: "char_diff c 0 = uint c" "char_diff 0 c = - uint c"
  by (simp_all add: char_diff_def)

lemma char_diff_sign:
  "char_diff c d = 0 \<longleftrightarrow> c = d" "char_diff c d < 0 \<longleftrightarrow> c < d"
  by (auto simp: char_diff_def word_less_def word_uint_eq_iff)

lemma uint_pos [simp]: "c \<noteq> 0 \<Longrightarrow> uint c \<noteq> 0" "c \<noteq> 0 \<Longrightarrow> 0 < uint c" for c :: u8
  by (simp_all add: word_uint_eq_iff less_le)

lemma str_compare_0_iff:
  "0 \<notin> set xs \<Longrightarrow> 0 \<notin> set ys \<Longrightarrow> str_compare xs ys = 0 \<longleftrightarrow> xs = ys"
  by (induction xs ys rule: str_compare.induct) (auto simp: char_diff_sign)

lemma str_compare_less_iff:
  "0 \<notin> set xs \<Longrightarrow> 0 \<notin> set ys \<Longrightarrow> str_compare xs ys < 0 \<longleftrightarrow> ord_class.lexordp xs ys"
  by (induction xs ys rule: str_compare.induct) (auto simp: char_diff_sign not_less)

lemma str_compare_equal_length:
  "length xs = length ys \<Longrightarrow> str_compare xs ys = 0 \<longleftrightarrow> xs = ys"
  by (induction xs ys rule: str_compare.induct) (auto simp: char_diff_sign)

lemma cstr_drop:
  assumes "cstr_at m p xs" "i \<le> length xs"
  obtains "drop i xs = []" "m (p + of_nat i) = 0"
  | "drop i xs = m (p + of_nat i) # drop (Suc i) xs" "m (p + of_nat i) \<noteq> 0" "i < length xs"
proof (cases "i = length xs")
  case True
  then show ?thesis using assms that(1) by (simp add: cstr_at_end)
next
  case False
  then have "i < length xs" using assms(2) by simp
  then show ?thesis
    using cstr_at_char [OF assms(1), of i] that(2) by (simp add: Cons_nth_drop_Suc)
qed

lemma strcmp_loop_eq:
  assumes "cstr_at m s1 xs" "cstr_at m s2 ys" "i \<le> length xs" "i \<le> length ys"
  shows "strcmp_loop m s1 s2 (of_nat i) = Some (str_compare (drop i xs) (drop i ys))"
  using assms(3,4)
proof (induction "length xs - i" arbitrary: i rule: less_induct)
  case less
  have step: "of_nat i + 1 = (of_nat (Suc i) :: u32)" by simp
  show ?case
    by (rule cstr_drop [OF assms(1) less.prems(1)]; rule cstr_drop [OF assms(2) less.prems(2)])
      (subst strcmp_loop.simps, use less.hyps [of "Suc i"] in \<open>simp add: step del: of_nat_Suc\<close>)+
qed

lemma strcmp_eq:
  "cstr_at m s1 xs \<Longrightarrow> cstr_at m s2 ys \<Longrightarrow> strcmp m s1 s2 = Some (str_compare xs ys)"
  using strcmp_loop_eq [of m s1 xs s2 ys 0] by (simp add: strcmp_def)

lemma strncmp_loop_eq:
  assumes "cstr_at m s1 xs" "cstr_at m s2 ys" "i \<le> length xs" "i \<le> length ys" "i \<le> unat n"
  shows "strncmp_loop m s1 s2 n (of_nat i)
    = str_compare (take (unat n - i) (drop i xs)) (take (unat n - i) (drop i ys))"
  using assms(3-5)
proof (induction "length xs - i" arbitrary: i rule: less_induct)
  case less
  have step: "of_nat i + 1 = (of_nat (Suc i) :: u32)" by simp
  show ?case
  proof (cases "i < unat n")
    case True
    then have n: "of_nat i < n" "of_nat i \<noteq> n" "unat n - i = Suc (unat n - Suc i)"
      using less_of_nat32(1) [OF True] by auto
    show ?thesis
      by (rule cstr_drop [OF assms(1) less.prems(1)]; rule cstr_drop [OF assms(2) less.prems(2)])
        (subst strncmp_loop.simps,
          use less.hyps [of "Suc i"] True in \<open>simp add: step n del: of_nat_Suc\<close>)+
  next
    case False
    then have "unat n = i" using less.prems by simp
    then have "of_nat i = n" by auto
    then show ?thesis
      using False by (subst strncmp_loop.simps) simp
  qed
qed

lemma strncmp_eq:
  "cstr_at m s1 xs \<Longrightarrow> cstr_at m s2 ys \<Longrightarrow>
   strncmp m s1 s2 n = str_compare (take (unat n) xs) (take (unat n) ys)"
  using strncmp_loop_eq [of m s1 xs s2 ys 0 n] by (simp add: strncmp_def)

lemma bytes_at_Cons: "bytes_at m p (Suc n) = m p # bytes_at m (p + 1) n"
  by (rule bytes_at_eqI) (auto simp: nth_Cons add.assoc split: nat.split)

lemma memcmp_loop_eq:
  assumes "i \<le> unat n"
  shows "memcmp_loop m s1 s2 n (of_nat i)
    = str_compare (bytes_at m (s1 + of_nat i) (unat n - i)) (bytes_at m (s2 + of_nat i) (unat n - i))"
  using assms
proof (induction rule: inc_induct)
  case base
  then show ?case by (subst memcmp_loop.simps) simp
next
  case (step i)
  then have "unat n - i = Suc (unat n - Suc i)" by simp
  moreover have "of_nat i + 1 = (of_nat (Suc i) :: u32)" by simp
  ultimately show ?case
    using step less_of_nat32(1) [OF step(2)]
    by (subst memcmp_loop.simps) (simp add: bytes_at_Cons ac_simps)
qed

lemma memcmp_eq:
  "memcmp m s1 s2 n = str_compare (bytes_at m s1 (unat n)) (bytes_at m s2 (unat n))"
  using memcmp_loop_eq [of 0 n m s1 s2] by (simp add: memcmp_def)

section \<open>Properties\<close>

text \<open>
  \<open>strcpy\<close> of a string into a block that does not overlap it returns, and changes the
  memory exactly at the destination, which then holds the string with its terminator.
\<close>

theorem strcpy_correct:
  assumes "cstr_at m src xs" "disjoint_blocks dst (Suc (length xs)) src (Suc (length xs))"
  shows "strcpy m dst src = Some (dst, put_bytes m dst (xs @ [0]))"
  by (rule strcpy_eq [OF assms])

definition demo_mem :: gmem where
  "demo_mem = (\<lambda>_. 0)(100 := 65, 101 := 66, 200 := 65, 201 := 67)"

lemma demo_mem_strings:
  "cstr_at demo_mem 100 [65, 66]" "cstr_at demo_mem 200 [65, 67]"
  by (simp_all add: cstr_at_def demo_mem_def bytes_at_def)

theorem strcpy_correct_witness:
  "strcpy demo_mem 300 100 = Some (300, put_bytes demo_mem 300 [65, 66, 0])"
  using strcpy_correct [OF demo_mem_strings(1), of 300]
  by (auto simp: disjoint_blocks_def less_Suc_eq)

text \<open>
  \<open>strcmp\<close> returns on all strings, with a negative result exactly when the first is
  lexicographically smaller by unsigned bytes (and 0 exactly when they are equal, by
  \<open>str_compare_0_iff\<close>).
\<close>

theorem strcmp_correct:
  assumes "cstr_at m s1 xs" "cstr_at m s2 ys"
  shows "\<exists>d. strcmp m s1 s2 = Some d \<and> (d < 0 \<longleftrightarrow> ord_class.lexordp xs ys) \<and> (d = 0 \<longleftrightarrow> xs = ys)"
  using strcmp_eq [OF assms] assms by (simp add: cstr_at_def str_compare_less_iff str_compare_0_iff)

theorem strcmp_correct_witness:
  "\<exists>d. strcmp demo_mem 100 200 = Some d \<and> (d < 0 \<longleftrightarrow> ord_class.lexordp [65, 66] [65, 67 :: u8])
     \<and> (d = 0 \<longleftrightarrow> [65, 66] = [65, 67 :: u8])"
  by (rule strcmp_correct [OF demo_mem_strings])

text \<open>
  \<open>strncpy\<close> writes exactly \<open>n\<close> bytes: the string cut to \<open>n\<close> bytes, then zeros.
\<close>

theorem strncpy_correct:
  assumes "cstr_at m src xs" "copies_up dst src (Suc (min (length xs) (unat n)))"
  shows "strncpy m dst src n =
    (dst, put_bytes m dst (take (unat n) xs @ replicate (unat n - length xs) 0))"
  by (rule strncpy_eq [OF assms])

theorem strncpy_correct_witness:
  "strncpy demo_mem 300 100 4 = (300, put_bytes demo_mem 300 [65, 66, 0, 0])"
proof -
  have "copies_up 300 100 (Suc (min (length [65, 66 :: u8]) (unat (4 :: u32))))"
    by (auto simp: copies_up_def less_Suc_eq)
  moreover have "take (unat (4 :: u32)) [65, 66] @ replicate (unat (4 :: u32) - length [65, 66 :: u8]) 0
      = [65, 66, 0, 0 :: u8]"
    by code_simp
  ultimately show ?thesis
    using strncpy_correct [OF demo_mem_strings(1), of 300 4] by simp
qed

text \<open>
  C38. \<open>memmove\<close> with its destination below the source moves the block, overlapping or not;
  in every other case, equal pointers and a count of 0 included, it never returns.
\<close>

theorem memmove_correct:
  assumes "unat src + unat n \<le> 2 ^ 32"
  shows "memmove m dst src n =
    (if dst < src then Some (dst, put_bytes m dst (bytes_at m src (unat n))) else None)"
  using memmove_eq [where dst = dst and src = src and n = n and m = m] assms by simp

theorem memmove_correct_witness:
  "memmove demo_mem 99 100 2 = Some (99, put_bytes demo_mem 99 (bytes_at demo_mem 100 2))"
  using memmove_correct [of 100 2 demo_mem 99] by simp

end
