(* ===== verification/Klib_Stdio.thy ===== *)
theory Klib_Stdio
  imports CMem Result
begin

text \<open>
  Formatted output of the class library, \<open>abstract-machine/klib/src/stdio.c\<close>, for RV32.  The
  format and the arguments of \<open>%s\<close> are constant strings, given by their characters; they do not
  overlap the output buffer, which is guest memory.  The variable arguments are a list of 32-bit
  and 64-bit values and strings; reading one of the wrong kind, and an overflow of \<open>int\<close> in the
  width, are undefined.  The sum of the lengths of sign, zeros and digits is an unbounded integer; in the
  code it is an \<open>int\<close>, which a precision near \<open>2 ^ 31\<close> makes overflow.
\<close>

section \<open>The code\<close>

datatype varg = VI u32 | VL u64 | VS "string option"

definition va_int :: "varg list \<Rightarrow> (u32 \<times> varg list) result" where
  "va_int ap = (case ap of VI w # ap \<Rightarrow> Inr (w, ap) | _ \<Rightarrow> Inl (Undefined ''va_arg''))"

definition va_longlong :: "varg list \<Rightarrow> (u64 \<times> varg list) result" where
  "va_longlong ap = (case ap of VL w # ap \<Rightarrow> Inr (w, ap) | _ \<Rightarrow> Inl (Undefined ''va_arg''))"

definition va_string :: "varg list \<Rightarrow> (string option \<times> varg list) result" where
  "va_string ap = (case ap of VS s # ap \<Rightarrow> Inr (s, ap) | _ \<Rightarrow> Inl (Undefined ''va_arg''))"

definition INT_MAX :: int where "INT_MAX = 0x7fffffff"
definition INT_BUF_SIZE :: nat where "INT_BUF_SIZE = 32"

datatype length_mod = LENGTH_NONE | LENGTH_HH | LENGTH_H | LENGTH_L | LENGTH_LL | LENGTH_LONG_DOUBLE

record FormatSpec =
  left_justify :: bool
  force_sign :: bool
  space_flag :: bool
  alternate_form :: bool
  zero_pad :: bool
  fmt_width :: int
  precision :: int
  length_of :: length_mod
  specifier :: char

text \<open>The output buffer: the memory, the next byte, the bytes left and the bytes produced.\<close>

record sink =
  sk_mem :: gmem
  sk_dest :: ptr
  sk_size :: u32
  sk_count :: u32

definition append_char :: "u8 \<Rightarrow> sink \<Rightarrow> sink" where
  "append_char c s =
     (let s = (if sk_size s > 0 then
                 s\<lparr>sk_mem := (sk_mem s)(sk_dest s := c), sk_dest := sk_dest s + 1, sk_size := sk_size s - 1\<rparr>
               else s)
      in s\<lparr>sk_count := sk_count s + 1\<rparr>)"

text \<open>\<open>append_str\<close> on the characters of \<open>s\<close>, which end at its terminator.\<close>

fun append_str :: "string \<Rightarrow> nat \<Rightarrow> sink \<Rightarrow> sink" where
  "append_str [] len s = s"
| "append_str (c # cs) 0 s = s"
| "append_str (c # cs) (Suc len) s = append_str cs len (append_char (of_char c) s)"

fun append_padding :: "char \<Rightarrow> nat \<Rightarrow> sink \<Rightarrow> sink" where
  "append_padding pad 0 s = s"
| "append_padding pad (Suc len) s = append_padding pad len (append_char (of_char pad) s)"

definition isdigit :: "char \<Rightarrow> bool" where
  "isdigit c \<longleftrightarrow> c \<in> set ''0123456789''"

section \<open>Directives\<close>

fun parse_flags :: "string \<Rightarrow> FormatSpec \<Rightarrow> string \<times> FormatSpec" where
  "parse_flags [] spec = ([], spec)"
| "parse_flags (c # fmt) spec =
     (if c = CHR ''-'' then parse_flags fmt (spec\<lparr>left_justify := True\<rparr>)
      else if c = CHR ''+'' then parse_flags fmt (spec\<lparr>force_sign := True\<rparr>)
      else if c = CHR '' '' then parse_flags fmt (spec\<lparr>space_flag := True\<rparr>)
      else if c = CHR ''#'' then parse_flags fmt (spec\<lparr>alternate_form := True\<rparr>)
      else if c = CHR ''0'' then parse_flags fmt (spec\<lparr>zero_pad := True\<rparr>)
      else (c # fmt, spec))"

fun parse_number :: "int \<Rightarrow> string \<Rightarrow> (int \<times> string) result" where
  "parse_number n [] = Inr (n, [])"
| "parse_number n (c # fmt) =
     (if isdigit c then
        let n = n * 10 + (of_char c - 48) in
        if n \<le> INT_MAX then parse_number n fmt else Inl (Undefined ''int'')
      else Inr (n, c # fmt))"

definition parse_width :: "string \<Rightarrow> FormatSpec \<Rightarrow> varg list \<Rightarrow> (string \<times> FormatSpec \<times> varg list) result" where
  "parse_width fmt spec ap =
     (case fmt of
        [] \<Rightarrow> Inr (fmt, spec, ap)
      | c # rest \<Rightarrow>
          if c = CHR ''*'' then
            bindR (va_int ap) (\<lambda>(w, ap). Inr (rest, spec\<lparr>fmt_width := sint w\<rparr>, ap))
          else if isdigit c then
            bindR (parse_number 0 fmt) (\<lambda>(n, fmt). Inr (fmt, spec\<lparr>fmt_width := n\<rparr>, ap))
          else Inr (fmt, spec, ap))"

definition parse_precision :: "string \<Rightarrow> FormatSpec \<Rightarrow> varg list \<Rightarrow> (string \<times> FormatSpec \<times> varg list) result" where
  "parse_precision fmt spec ap =
     (if fmt \<noteq> [] \<and> hd fmt = CHR ''.'' then
        let fmt = tl fmt in
        if fmt \<noteq> [] \<and> hd fmt = CHR ''*'' then
          bindR (va_int ap) (\<lambda>(w, ap). Inr (tl fmt, spec\<lparr>precision := sint w\<rparr>, ap))
        else bindR (parse_number 0 fmt) (\<lambda>(n, fmt). Inr (fmt, spec\<lparr>precision := n\<rparr>, ap))
      else Inr (fmt, spec, ap))"

definition starts :: "string \<Rightarrow> string \<Rightarrow> bool" where
  "starts w fmt \<longleftrightarrow> take (length w) fmt = w"

definition parse_length :: "string \<Rightarrow> FormatSpec \<Rightarrow> string \<times> FormatSpec" where
  "parse_length fmt spec =
     (if starts ''hh'' fmt then (drop 2 fmt, spec\<lparr>length_of := LENGTH_HH\<rparr>)
      else if starts ''h'' fmt then (drop 1 fmt, spec\<lparr>length_of := LENGTH_H\<rparr>)
      else if starts ''ll'' fmt then (drop 2 fmt, spec\<lparr>length_of := LENGTH_LL\<rparr>)
      else if starts ''l'' fmt then (drop 1 fmt, spec\<lparr>length_of := LENGTH_L\<rparr>)
      else if starts ''L'' fmt then (drop 1 fmt, spec\<lparr>length_of := LENGTH_LONG_DOUBLE\<rparr>)
      else (fmt, spec))"

text \<open>
  \<open>parse_format\<close> from behind the \<open>%\<close>; a format that ends before the specifier is read beyond its
  terminator.
\<close>

definition parse_format :: "string \<Rightarrow> varg list \<Rightarrow> (string \<times> FormatSpec \<times> varg list) result" where
  "parse_format fmt ap =
     (let spec = \<lparr>left_justify = False, force_sign = False, space_flag = False, alternate_form = False,
                  zero_pad = False, fmt_width = - 1, precision = - 1, length_of = LENGTH_NONE,
                  specifier = CHR 0x00\<rparr>;
          (fmt, spec) = parse_flags fmt spec
      in bindR (parse_width fmt spec ap) (\<lambda>(fmt, spec, ap).
         bindR (parse_precision fmt spec ap) (\<lambda>(fmt, spec, ap).
         let (fmt, spec) = parse_length fmt spec in
         case fmt of
           [] \<Rightarrow> Inl (Undefined ''fmt'')
         | c # fmt \<Rightarrow> Inr (fmt, spec\<lparr>specifier := c\<rparr>, ap))))"

section \<open>Integers\<close>

text \<open>
  The digits of a number in reverse order, as the \<open>do\<close> loop stores them; the base is 8 or 10.
\<close>

function digit_loop :: "string \<Rightarrow> u64 \<Rightarrow> u64 \<Rightarrow> string" where
  "digit_loop digits base num =
     (digits ! unat (num mod base)) # (if num div base > 0 \<and> 1 < base then digit_loop digits base (num div base) else [])"
  by auto
termination
proof (relation "measure (\<lambda>(_, _, num). unat num)")
  fix base num :: u64
  assume a: "num div base > 0 \<and> 1 < base"
  then have "0 < unat num" by (auto simp: unat_gt_0)
  then have "unat num div unat base < unat num" using a by (intro div_less_dividend) (simp_all add: word_less_nat_alt)
  then show "((digits, base, num div base), (digits, base, num)) \<in> measure (\<lambda>(_, _, num). unat num)" for digits :: string
    by (simp add: unat_div)
qed simp

declare digit_loop.simps [simp del]

definition format_integer :: "FormatSpec \<Rightarrow> u64 \<Rightarrow> bool \<Rightarrow> sink \<Rightarrow> sink result" where
  "format_integer spec num is_negative s =
     (let base = (if specifier spec = CHR ''o'' then 8 else 10);
          digits = (if specifier spec = CHR ''X'' then ''0123456789ABCDEF'' else ''0123456789abcdef'');
          tmp = digit_loop digits base num;
          len = int (length tmp);
          leading_zeros = (if precision spec > len then precision spec - len else 0);
          sign = (if is_negative then Some CHR ''-'' else if force_sign spec then Some CHR ''+''
                  else if space_flag spec then Some CHR '' '' else None);
          sign_len = (if sign \<noteq> None then 1 else 0);
          total_len = sign_len + leading_zeros + len;
          padding = (if fmt_width spec > total_len then fmt_width spec - total_len else 0);
          pad_char = (if zero_pad spec \<and> \<not> left_justify spec then CHR ''0'' else CHR '' '')
      in bindR (guardR (length tmp \<le> INT_BUF_SIZE) (Undefined ''tmp'')) (\<lambda>_.
         let s = (if \<not> left_justify spec \<and> pad_char = CHR '' '' then append_padding pad_char (nat padding) s else s);
             s = (case sign of None \<Rightarrow> s | Some c \<Rightarrow> append_char (of_char c) s);
             s = (if \<not> left_justify spec \<and> pad_char = CHR ''0'' then append_padding pad_char (nat padding) s else s);
             s = append_padding CHR ''0'' (nat leading_zeros) s;
             s = foldl (\<lambda>s c. append_char (of_char c) s) s (rev tmp)
         in Inr (if left_justify spec then append_padding CHR '' '' (nat padding) s else s)))"

definition handle_integer :: "FormatSpec \<Rightarrow> varg list \<Rightarrow> sink \<Rightarrow> (varg list \<times> sink) result" where
  "handle_integer spec ap s =
     (if specifier spec \<in> {CHR ''d'', CHR ''i''} then
        bindR (case length_of spec of
                 LENGTH_HH \<Rightarrow> bindR (va_int ap) (\<lambda>(w, ap). Inr (scast (ucast w :: 8 word) :: u64, ap))
               | LENGTH_H \<Rightarrow> bindR (va_int ap) (\<lambda>(w, ap). Inr (scast (ucast w :: 16 word), ap))
               | LENGTH_LL \<Rightarrow> va_longlong ap
               | _ \<Rightarrow> bindR (va_int ap) (\<lambda>(w, ap). Inr (scast w, ap)))
        (\<lambda>(signed_num, ap).
        let is_negative = (sint signed_num < 0);
            num = (if is_negative then - signed_num else signed_num)
        in bindR (format_integer spec num is_negative s) (\<lambda>s. Inr (ap, s)))
      else if specifier spec \<in> {CHR ''u'', CHR ''o'', CHR ''x'', CHR ''X''} then
        bindR (case length_of spec of
                 LENGTH_HH \<Rightarrow> bindR (va_int ap) (\<lambda>(w, ap). Inr (ucast (ucast w :: 8 word) :: u64, ap))
               | LENGTH_H \<Rightarrow> bindR (va_int ap) (\<lambda>(w, ap). Inr (ucast (ucast w :: 16 word), ap))
               | LENGTH_LL \<Rightarrow> va_longlong ap
               | _ \<Rightarrow> bindR (va_int ap) (\<lambda>(w, ap). Inr (ucast w, ap)))
        (\<lambda>(num, ap). bindR (format_integer spec num False s) (\<lambda>s. Inr (ap, s)))
      else Inr (ap, s))"

section \<open>Strings and the main loop\<close>

definition handle_string :: "FormatSpec \<Rightarrow> varg list \<Rightarrow> sink \<Rightarrow> (varg list \<times> sink) result" where
  "handle_string spec ap s =
     bindR (va_string ap) (\<lambda>(str, ap).
     let str = (case str of None \<Rightarrow> ''(null)'' | Some t \<Rightarrow> t);
         max_len = (if precision spec \<ge> 0 then precision spec else INT_MAX);
         len = min max_len (int (length str));
         padding = (if fmt_width spec > len then fmt_width spec - len else 0);
         s = (if \<not> left_justify spec then append_padding CHR '' '' (nat padding) s else s);
         s = append_str str (nat len) s
     in Inr (ap, if left_justify spec then append_padding CHR '' '' (nat padding) s else s))"

definition directive :: "FormatSpec \<Rightarrow> varg list \<Rightarrow> sink \<Rightarrow> (varg list \<times> sink) result" where
  "directive spec ap s =
     (if specifier spec \<in> set ''diuoxX'' then handle_integer spec ap s
      else if specifier spec = CHR ''s'' then handle_string spec ap s
      else if specifier spec = CHR ''c'' then
        bindR (va_int ap) (\<lambda>(w, ap). Inr (ap, append_char (ucast w) s))
      else if specifier spec = CHR ''%'' then Inr (ap, append_char (of_char CHR ''%'') s)
      else Inr (ap, s))"

lemma parse_flags_length: "length (fst (parse_flags fmt spec)) \<le> length fmt"
proof (induction fmt arbitrary: spec)
  case (Cons c fmt)
  then show ?case by (simp add: le_SucI)
qed simp

lemma parse_number_length: "parse_number n fmt = Inr (n', fmt') \<Longrightarrow> length fmt' \<le> length fmt"
  by (induction n fmt rule: parse_number.induct) (fastforce simp: Let_def split: if_splits)+

lemma parse_length_length: "parse_length fmt spec = (fmt', spec') \<Longrightarrow> length fmt' \<le> length fmt"
  by (auto simp: parse_length_def split: if_splits)

lemma parse_width_length: "parse_width fmt spec ap = Inr (fmt', spec', ap') \<Longrightarrow> length fmt' \<le> length fmt"
  by (auto simp: parse_width_def bindR_Inr_iff simp del: parse_number.simps split: list.splits if_splits
      dest!: parse_number_length)

lemma parse_precision_length:
  "parse_precision fmt spec ap = Inr (fmt', spec', ap') \<Longrightarrow> length fmt' \<le> length fmt"
  by (cases fmt) (auto simp: parse_precision_def bindR_Inr_iff Let_def split: if_splits dest!: parse_number_length)

lemma parse_format_length: "parse_format fmt ap = Inr (fmt', spec, ap') \<Longrightarrow> length fmt' < length fmt"
proof -
  assume "parse_format fmt ap = Inr (fmt', spec, ap')"
  moreover define spec0 where "spec0 = \<lparr>left_justify = False, force_sign = False, space_flag = False,
    alternate_form = False, zero_pad = False, fmt_width = - 1, precision = - 1, length_of = LENGTH_NONE,
    specifier = CHR 0x00\<rparr>"
  obtain f0 s0 where p0: "parse_flags fmt spec0 = (f0, s0)" by (metis surj_pair)
  ultimately obtain f1 s1 a1 f2 s2 a2 where p1: "parse_width f0 s0 ap = Inr (f1, s1, a1)"
    "parse_precision f1 s1 a1 = Inr (f2, s2, a2)"
    and last: "(let (fmt, spec) = parse_length f2 s2 in
       case fmt of [] \<Rightarrow> Inl (Undefined ''fmt'') | c # fmt \<Rightarrow> Inr (fmt, spec\<lparr>specifier := c\<rparr>, a2)) = Inr (fmt', spec, ap')"
    by (auto simp: parse_format_def Let_def spec0_def [symmetric] bindR_Inr_iff simp del: parse_flags.simps)
  obtain f3 s3 where p3: "parse_length f2 s2 = (f3, s3)" by (metis surj_pair)
  then have "fmt' = tl f3" "f3 \<noteq> []" using last by (cases f3; simp)+
  moreover have "length f0 \<le> length fmt" using parse_flags_length [of fmt spec0] p0 by simp
  moreover have "length f1 \<le> length f0" "length f2 \<le> length f1" "length f3 \<le> length f2"
    using p1 p3 parse_width_length parse_precision_length parse_length_length by blast+
  ultimately show "length fmt' < length fmt" by (cases f3) auto
qed

function vsn_loop :: "string \<Rightarrow> varg list \<Rightarrow> sink \<Rightarrow> sink result" where
  "vsn_loop [] ap s = Inr s"
| "vsn_loop (c # fmt) ap s =
     (if c \<noteq> CHR ''%'' then vsn_loop fmt ap (append_char (of_char c) s)
      else
        bindR (parse_format fmt ap) (\<lambda>(fmt, spec, ap).
        bindR (directive spec ap s) (\<lambda>(ap, s).
        vsn_loop fmt ap s)))"
  by pat_completeness auto
termination
  by (relation "measure (\<lambda>(fmt, _, _). length fmt)") (auto dest: parse_format_length)

definition vsnprintf :: "ptr \<Rightarrow> u32 \<Rightarrow> string \<Rightarrow> varg list \<Rightarrow> gmem \<Rightarrow> (u32 \<times> gmem) result" where
  "vsnprintf buf n fmt ap m =
     bindR (vsn_loop fmt ap \<lparr>sk_mem = m, sk_dest = buf, sk_size = n, sk_count = 0\<rparr>) (\<lambda>s.
     let m = (if n > 0 then (sk_mem s)(sk_dest s := 0) else sk_mem s)
     in Inr (sk_count s, m))"

definition vsprintf :: "ptr \<Rightarrow> string \<Rightarrow> varg list \<Rightarrow> gmem \<Rightarrow> (u32 \<times> gmem) result" where
  "vsprintf out fmt ap m = vsnprintf out 0x7fffffff fmt ap m"

definition sprintf :: "ptr \<Rightarrow> string \<Rightarrow> varg list \<Rightarrow> gmem \<Rightarrow> (u32 \<times> gmem) result" where
  "sprintf out fmt args m = vsprintf out fmt args m"

definition snprintf :: "ptr \<Rightarrow> u32 \<Rightarrow> string \<Rightarrow> varg list \<Rightarrow> gmem \<Rightarrow> (u32 \<times> gmem) result" where
  "snprintf out n fmt args m = vsnprintf out n fmt args m"

text \<open>
  \<open>printf\<close> with its buffer of 1024 bytes at \<open>buf\<close>, which \<open>vsprintf\<close> does not bound: the return
  value, the bytes given to \<open>putch\<close> and the memory.
\<close>

definition klib_printf :: "ptr \<Rightarrow> string \<Rightarrow> varg list \<Rightarrow> gmem \<Rightarrow> (u32 \<times> u8 list \<times> gmem) result" where
  "klib_printf buf fmt args m =
     bindR (vsprintf buf fmt args m) (\<lambda>(ret, m).
     bindR (guardR (ret < 1024) (Undefined ''buf'')) (\<lambda>_.
     Inr (ret, bytes_at m buf (unat ret), m)))"

section \<open>The text produced\<close>

text \<open>
  A character sink: what is appended is produced in that order.  The loops of the library are
  iterations of one operation on it.
\<close>

locale char_sink =
  fixes put :: "'c \<Rightarrow> 's \<Rightarrow> 's"
    and produced :: "'s \<Rightarrow> 'c list \<Rightarrow> bool"
  assumes put: "produced s out \<Longrightarrow> produced (put c s) (out @ [c])"
begin

lemma put_all: "produced s out \<Longrightarrow> produced (foldl (\<lambda>s c. put c s) s cs) (out @ cs)"
proof (induction cs arbitrary: s out)
  case (Cons c cs)
  from Cons.IH [OF put [OF Cons.prems]] show ?case by simp
qed simp

end

definition emit :: "u8 list \<Rightarrow> sink \<Rightarrow> sink" where
  "emit cs s = foldl (\<lambda>s c. append_char c s) s cs"

text \<open>The sink at \<open>buf\<close> with \<open>n\<close> bytes, after the bytes \<open>out\<close>: the first \<open>n\<close> are stored.\<close>

definition sink_at :: "gmem \<Rightarrow> ptr \<Rightarrow> nat \<Rightarrow> sink \<Rightarrow> u8 list \<Rightarrow> bool" where
  "sink_at m buf n s out \<longleftrightarrow> n < 2 ^ 32 \<and> sk_mem s = put_bytes m buf (take n out) \<and>
     sk_dest s = buf + of_nat (min n (length out)) \<and> unat (sk_size s) = n - min n (length out) \<and>
     sk_count s = of_nat (length out)"

lemma sink_at_put:
  assumes "sink_at m buf n s out"
  shows "sink_at m buf n (append_char c s) (out @ [c])"
proof (cases "length out < n")
  case True
  then have sz: "unat (sk_size s) = n - length out" using assms by (simp add: sink_at_def)
  then have "sk_size s \<noteq> 0" using True by auto
  then have "sk_size s > 0" "unat (sk_size s - 1) = n - Suc (length out)"
    using sz by (simp_all add: word_greater_zero_iff unat_minus_one)
  then show ?thesis
    using True assms put_bytes_snoc [of out m buf c]
    by (cases "n = Suc (length out)") (simp_all add: sink_at_def append_char_def min_def algebra_simps)
next
  case False
  then have "sk_size s = 0" using assms by (simp add: sink_at_def unat_eq_0)
  then show ?thesis using False assms by (simp add: sink_at_def append_char_def min_def)
qed

interpretation buf: char_sink append_char "sink_at m buf n" for m buf n
  by unfold_locales (rule sink_at_put)

text \<open>Each routine of the code appends its text.\<close>

lemma emit_append: "emit (xs @ ys) s = emit ys (emit xs s)"
  by (simp add: emit_def)

lemma emit_simps [simp]: "emit [] s = s" "emit (c # cs) s = emit cs (append_char c s)"
  by (simp_all add: emit_def)

lemma append_str_emit: "append_str str len s = emit (map of_char (take len str)) s"
  by (induction str len s rule: append_str.induct) simp_all

lemma append_padding_emit: "append_padding pad len s = emit (replicate len (of_char pad)) s"
  by (induction pad len s rule: append_padding.induct) simp_all

lemma append_chars_emit: "foldl (\<lambda>s c. append_char (of_char c) s) s cs = emit (map of_char cs) s"
  by (induction cs arbitrary: s) simp_all

definition sign_of :: "FormatSpec \<Rightarrow> bool \<Rightarrow> string" where
  "sign_of spec is_negative =
     (if is_negative then ''-'' else if force_sign spec then ''+'' else if space_flag spec then '' '' else '''')"

text \<open>The text of an integer: padding, sign, zeros, digits.\<close>

definition int_text :: "FormatSpec \<Rightarrow> u64 \<Rightarrow> bool \<Rightarrow> string" where
  "int_text spec num is_negative =
     (let ds = rev (digit_loop (if specifier spec = CHR ''X'' then ''0123456789ABCDEF'' else ''0123456789abcdef'')
                 (if specifier spec = CHR ''o'' then 8 else 10) num);
          lz = (if precision spec > int (length ds) then precision spec - int (length ds) else 0);
          zs = replicate (nat lz) CHR ''0'';
          sg = sign_of spec is_negative;
          total = int (length sg) + lz + int (length ds);
          pad = nat (if fmt_width spec > total then fmt_width spec - total else 0)
      in if left_justify spec then sg @ zs @ ds @ replicate pad CHR '' ''
         else if zero_pad spec then sg @ replicate pad CHR ''0'' @ zs @ ds
         else replicate pad CHR '' '' @ sg @ zs @ ds)"

definition str_text :: "FormatSpec \<Rightarrow> string \<Rightarrow> string" where
  "str_text spec str =
     (let t = take (nat (if precision spec \<ge> 0 then precision spec else INT_MAX)) str;
          pad = replicate (nat (fmt_width spec - int (length t))) CHR '' ''
      in if left_justify spec then t @ pad else pad @ t)"

lemma digit_loop_length:
  assumes "base = 8 \<or> base = 10" "unat num < 8 ^ k" "0 < k"
  shows "length (digit_loop digits base num) \<le> k"
  using assms(2,3)
proof (induction k arbitrary: num)
  case (Suc k)
  have small: "num div base = 0" if "k = 0"
  proof -
    have "unat (num div base) = 0" using Suc.prems(1) that assms(1) by (auto simp: unat_div)
    then show ?thesis by (simp add: unat_eq_0)
  qed
  have "unat (num div base) < 8 ^ k"
  proof -
    have "unat (num div base) \<le> unat num div 8"
      using assms(1) by (auto simp: unat_div intro: div_le_mono2)
    also have "\<dots> < 8 ^ k" using Suc.prems(1) by (simp add: less_mult_imp_div_less mult.commute)
    finally show ?thesis .
  qed
  then show ?case
    using Suc.IH [of "num div base"] small by (cases "k = 0"; subst digit_loop.simps) auto
qed simp

lemma digit_loop_fits:
  assumes "base = 8 \<or> base = 10"
  shows "length (digit_loop digits base num) \<le> INT_BUF_SIZE"
proof -
  have "unat num < 2 ^ LENGTH(64)" by (rule unsigned_less)
  then have "unat num < 8 ^ 22" by simp
  from digit_loop_length [OF assms this, of digits] show ?thesis by (simp add: INT_BUF_SIZE_def)
qed

lemma format_integer_emit:
  "format_integer spec num is_negative s = Inr (emit (map of_char (int_text spec num is_negative)) s)"
proof -
  define ds where "ds = digit_loop (if specifier spec = CHR ''X'' then ''0123456789ABCDEF'' else ''0123456789abcdef'')
    (if specifier spec = CHR ''o'' then 8 else 10) num"
  have len: "length ds \<le> INT_BUF_SIZE" unfolding ds_def by (rule digit_loop_fits) simp
  define sign where "sign = (if is_negative then Some CHR ''-'' else if force_sign spec then Some CHR ''+''
    else if space_flag spec then Some CHR '' '' else None)"
  have sign: "sign_of spec is_negative = (case sign of None \<Rightarrow> [] | Some c \<Rightarrow> [c])"
    by (simp add: sign_def sign_of_def)
  have sign_len: "int (length (sign_of spec is_negative)) = (if sign \<noteq> None then 1 else 0)"
    by (simp add: sign split: option.split)
  note fold = ds_def [symmetric] sign_def [symmetric]
  show ?thesis
    unfolding format_integer_def int_text_def Let_def fold sign_len append_padding_emit append_chars_emit length_rev
    using len
    by (cases "left_justify spec"; cases "zero_pad spec"; cases sign)
      (simp_all only: sign guardR_simps bindR_simps emit_append map_append map_replicate if_True if_False
        simp_thms option.case list.map emit_simps char.inject not_False_eq_True append_Nil option.simps)
qed

lemma handle_string_emit:
  "handle_string spec ap s = bindR (va_string ap) (\<lambda>(str, ap).
     Inr (ap, emit (map of_char (str_text spec (case str of None \<Rightarrow> ''(null)'' | Some t \<Rightarrow> t))) s))"
proof (cases "va_string ap")
  case (Inr p)
  obtain str ap' where p: "p = (str, ap')" by (cases p)
  define t where "t = (case str of None \<Rightarrow> ''(null)'' | Some t \<Rightarrow> t)"
  define k where "k = (if precision spec \<ge> 0 then precision spec else INT_MAX)"
  have k: "0 \<le> k" by (simp add: k_def INT_MAX_def)
  have len: "take (nat (min k (int (length t)))) t = take (nat k) t"
    "int (length (take (nat k) t)) = min k (int (length t))"
    using k by (auto simp: min_def)
  have pad: "nat (if w > l then w - l else 0) = nat (w - l)" for w l :: int by simp
  show ?thesis
    unfolding handle_string_def str_text_def Inr p bindR_simps prod.case t_def [symmetric] k_def [symmetric]
      Let_def append_padding_emit append_str_emit len pad
    by (simp add: emit_append)
qed (simp add: handle_string_def)

text \<open>The arguments and the text of an integer directive.\<close>

definition int_arg :: "FormatSpec \<Rightarrow> varg list \<Rightarrow> ((u64 \<times> bool) \<times> varg list) result" where
  "int_arg spec ap =
     (if specifier spec \<in> {CHR ''d'', CHR ''i''} then
        bindR (case length_of spec of
                 LENGTH_HH \<Rightarrow> bindR (va_int ap) (\<lambda>(w, ap). Inr (scast (ucast w :: 8 word) :: u64, ap))
               | LENGTH_H \<Rightarrow> bindR (va_int ap) (\<lambda>(w, ap). Inr (scast (ucast w :: 16 word), ap))
               | LENGTH_LL \<Rightarrow> va_longlong ap
               | _ \<Rightarrow> bindR (va_int ap) (\<lambda>(w, ap). Inr (scast w, ap)))
          (\<lambda>(x, ap). Inr ((if sint x < 0 then - x else x, sint x < 0), ap))
      else
        bindR (case length_of spec of
                 LENGTH_HH \<Rightarrow> bindR (va_int ap) (\<lambda>(w, ap). Inr (ucast (ucast w :: 8 word) :: u64, ap))
               | LENGTH_H \<Rightarrow> bindR (va_int ap) (\<lambda>(w, ap). Inr (ucast (ucast w :: 16 word), ap))
               | LENGTH_LL \<Rightarrow> va_longlong ap
               | _ \<Rightarrow> bindR (va_int ap) (\<lambda>(w, ap). Inr (ucast w, ap)))
          (\<lambda>(x, ap). Inr ((x, False), ap)))"

definition directive_text :: "FormatSpec \<Rightarrow> varg list \<Rightarrow> (varg list \<times> u8 list) result" where
  "directive_text spec ap =
     (if specifier spec \<in> set ''diuoxX'' then
        bindR (int_arg spec ap) (\<lambda>((num, neg), ap). Inr (ap, map of_char (int_text spec num neg)))
      else if specifier spec = CHR ''s'' then
        bindR (va_string ap) (\<lambda>(str, ap).
        Inr (ap, map of_char (str_text spec (case str of None \<Rightarrow> ''(null)'' | Some t \<Rightarrow> t))))
      else if specifier spec = CHR ''c'' then bindR (va_int ap) (\<lambda>(w, ap). Inr (ap, [ucast w]))
      else if specifier spec = CHR ''%'' then Inr (ap, [of_char CHR ''%''])
      else Inr (ap, []))"

lemma bindR_prod: "bindR (bindR m (\<lambda>(x, y). f x y)) (\<lambda>(x, y). g x y) = bindR m (\<lambda>(x, y). bindR (f x y) (\<lambda>(x, y). g x y))"
  by (cases m) auto

lemma handle_integer_emit:
  assumes "specifier spec \<in> set ''diuoxX''"
  shows "handle_integer spec ap s =
    bindR (int_arg spec ap) (\<lambda>((num, neg), ap). Inr (ap, emit (map of_char (int_text spec num neg)) s))"
  using assms
  by (auto simp: handle_integer_def int_arg_def format_integer_emit bindR_prod Let_def split: length_mod.split
      intro!: bindR_cong)

lemma directive_emit:
  "directive spec ap s = bindR (directive_text spec ap) (\<lambda>(ap, t). Inr (ap, emit t s))"
proof -
  have 1: "bindR (bindR m (\<lambda>((a, b), c). Inr (c, f a b))) (\<lambda>(c, t). Inr (c, emit t s)) =
      bindR m (\<lambda>((a, b), c). Inr (c, emit (f a b) s))" for m :: "((u64 \<times> bool) \<times> varg list) result" and f
    by (cases m) auto
  have 2: "bindR (bindR m (\<lambda>(a, c). Inr (c, f a))) (\<lambda>(c, t). Inr (c, emit t s)) =
      bindR m (\<lambda>(a, c). Inr (c, emit (f a) s))" for m :: "('a \<times> varg list) result" and f
    by (cases m) auto
  show ?thesis
    by (auto simp: directive_def directive_text_def handle_integer_emit handle_string_emit 1 2 bindR_assoc
        simp del: of_char_Char intro!: bindR_cong)
qed

section \<open>Refinement\<close>

text \<open>The text of a format with its arguments, without any buffer.\<close>

function vsn_text :: "string \<Rightarrow> varg list \<Rightarrow> u8 list result" where
  "vsn_text [] ap = Inr []"
| "vsn_text (c # fmt) ap =
     (if c \<noteq> CHR ''%'' then bindR (vsn_text fmt ap) (\<lambda>t. Inr (of_char c # t))
      else
        bindR (parse_format fmt ap) (\<lambda>(fmt, spec, ap).
        bindR (directive_text spec ap) (\<lambda>(ap, t).
        bindR (vsn_text fmt ap) (\<lambda>t'. Inr (t @ t')))))"
  by pat_completeness auto
termination
  by (relation "measure (\<lambda>(fmt, _). length fmt)") (auto dest: parse_format_length)

lemma vsn_loop_emit: "vsn_loop fmt ap s = bindR (vsn_text fmt ap) (\<lambda>t. Inr (emit t s))"
proof (induction fmt ap s rule: vsn_loop.induct)
  case (2 c fmt ap s)
  show ?case
  proof (cases "c = CHR ''%''")
    case False
    then show ?thesis using 2(1) by (simp add: bindR_assoc)
  next
    case True
    show ?thesis
    proof (cases "parse_format fmt ap")
      case (Inr p)
      obtain fmt' spec ap' where p: "p = (fmt', spec, ap')" by (cases p)
      show ?thesis
      proof (cases "directive_text spec ap'")
        case d: (Inr q)
        obtain ap'' t where q: "q = (ap'', t)" by (cases q)
        have "vsn_loop fmt' ap'' (emit t s) = bindR (vsn_text fmt' ap'') (\<lambda>u. Inr (emit u (emit t s)))"
          by (rule 2(2)) (use True Inr p d q in \<open>auto simp: directive_emit\<close>)
        then show ?thesis using True Inr p d q by (simp add: directive_emit bindR_assoc emit_append)
      qed (use True Inr p in \<open>simp add: directive_emit\<close>)
    qed (use True in simp)
  qed
qed simp

lemma vsnprintf_eq:
  "vsnprintf buf n fmt ap m = bindR (vsn_text fmt ap) (\<lambda>t.
     Inr (of_nat (length t), put_bytes m buf (take (unat n) t @ (if n > 0 then [0] else []))))"
proof (cases "vsn_text fmt ap")
  case (Inr t)
  let ?s = "\<lparr>sk_mem = m, sk_dest = buf, sk_size = n, sk_count = 0\<rparr>"
  have n: "unat n < 2 ^ 32" using unsigned_less [of n, where 'a = nat] by simp
  then have "sink_at m buf (unat n) ?s []" by (simp add: sink_at_def)
  from buf.put_all [OF this, of t] have "sink_at m buf (unat n) (emit t ?s) t" by (simp add: emit_def)
  moreover have len: "length (take (unat n) t) < 2 ^ 32" using n by (simp add: min_def)
  note put_bytes_snoc [OF len, of m buf 0]
  ultimately show ?thesis
    using Inr by (simp add: vsnprintf_def vsn_loop_emit sink_at_def min.commute)
qed (simp add: vsnprintf_def vsn_loop_emit)

text \<open>Numbers in decimal.\<close>

definition int_string :: "int \<Rightarrow> string" where
  "int_string i = (if i < 0 then CHR ''-'' # decimal (nat (- i)) else decimal (nat i))"

lemma digit_nth:
  assumes "d < 10" "digits = ''0123456789ABCDEF'' \<or> digits = ''0123456789abcdef''"
  shows "char_of (48 + d) = digits ! d"
proof -
  have "d = 0 \<or> d = 1 \<or> d = 2 \<or> d = 3 \<or> d = 4 \<or> d = 5 \<or> d = 6 \<or> d = 7 \<or> d = 8 \<or> d = 9"
    using assms(1) by arith
  then show ?thesis using assms(2) by (elim disjE) (simp_all add: char_of_eq_iff)
qed

lemma digit_loop_decimal:
  assumes "digits = ''0123456789ABCDEF'' \<or> digits = ''0123456789abcdef''"
  shows "rev (digit_loop digits 10 num) = decimal (unat num)"
proof (induction "unat num" arbitrary: num rule: less_induct)
  case less
  have d: "digits ! unat (num mod 10) = char_of (48 + unat num mod 10)"
    using digit_nth [of "unat num mod 10" digits] assms by (simp add: unat_mod)
  show ?case
  proof (cases "unat num < 10")
    case True
    then have "num div 10 = 0" by (simp add: unat_eq_0 [symmetric] unat_div)
    then show ?thesis using True d by (subst digit_loop.simps, subst decimal.simps) simp
  next
    case False
    then have u: "unat (num div 10) = unat num div 10" "0 < num div 10" "unat (num div 10) < unat num"
      by (simp_all add: unat_div word_greater_zero_iff unat_eq_0 [symmetric])
    show ?thesis
      using False d u less(1) [OF u(3)] by (subst digit_loop.simps, subst decimal.simps) simp
  qed
qed

lemma decimal_length:
  assumes "n < 2 ^ 64"
  shows "length (decimal n) \<le> 32"
proof -
  have "unat (of_nat n :: u64) = n" using assms by (simp add: unat_of_nat)
  then show ?thesis
    using digit_loop_decimal [of "''0123456789abcdef''" "of_nat n"]
      digit_loop_fits [of 10 "''0123456789abcdef''" "of_nat n"]
    by (metis INT_BUF_SIZE_def length_rev)
qed

text \<open>A directive without flags, width and precision.\<close>

lemma parse_plain:
  assumes "c \<in> set ''diuxXsc''"
  shows "parse_format (c # fmt) ap = Inr (fmt, \<lparr>left_justify = False, force_sign = False, space_flag = False,
    alternate_form = False, zero_pad = False, fmt_width = - 1, precision = - 1, length_of = LENGTH_NONE,
    specifier = c\<rparr>, ap)"
  using assms
  by (auto simp: parse_format_def parse_width_def parse_precision_def parse_length_def starts_def isdigit_def)

lemma int_text_plain:
  assumes "specifier spec \<noteq> CHR ''o''" "\<not> left_justify spec" "\<not> zero_pad spec" "\<not> force_sign spec"
    "\<not> space_flag spec" "fmt_width spec = - 1" "precision spec = - 1"
  shows "int_text spec num neg = (if neg then ''-'' else '''') @ decimal (unat num)"
  using assms by (simp add: int_text_def sign_of_def digit_loop_decimal Let_def)

lemma sprintf_text:
  assumes "vsn_text fmt ap = Inr t" "length t \<le> 64"
  shows "sprintf out fmt ap m = Inr (of_nat (length t), put_bytes m out (t @ [0]))"
  using assms by (simp add: sprintf_def vsprintf_def vsnprintf_eq)

lemma unat_abs: "unat (if sint x < 0 then - x else x) = nat \<bar>sint x\<bar>" for x :: u64
proof -
  have b: "- (2 ^ 63) \<le> sint x" "sint x < 2 ^ 63"
    using sint_greater_eq [of x] sint_less [of x] by simp_all
  have "unat (word_of_int k :: u64) = nat k" if "0 \<le> k" "k \<le> 2 ^ 63" for k
    using that by (simp add: unsigned_of_int take_bit_int_eq_self)
  from this [of "\<bar>sint x\<bar>"] b show ?thesis
    by (auto simp: abs_if simp flip: word_of_int_minus)
qed

lemma int_string_abs: "(if i < 0 then ''-'' else '''') @ decimal (nat \<bar>i\<bar>) = int_string i"
  by (simp add: int_string_def)

lemma sint_scast: "sint (scast w :: u64) = sint w" for w :: u32
  by (simp add: signed_scast_eq signed_take_bit_int_eq_self_iff)
     (use sint_greater_eq [of w] sint_less [of w] in simp)

lemma int_string_length: "\<bar>i\<bar> < 2 ^ 64 \<Longrightarrow> length (int_string i) \<le> 33"
  using decimal_length [of "nat \<bar>i\<bar>"] by (auto simp: int_string_def abs_if nat_less_iff split: if_splits)

lemma vsn_text_int: "vsn_text ''%d'' [VI w] = Inr (map of_char (int_string (sint w)))"
proof -
  have "int_string (sint w) = (if sint w < 0 then ''-'' else '''') @ decimal (nat \<bar>sint w\<bar>)"
    by (simp only: int_string_abs)
  then show ?thesis
    using unat_abs [of "scast w"]
    by (simp add: parse_plain directive_text_def int_arg_def va_int_def int_text_plain sint_scast)
qed

lemma vsn_text_hex:
  assumes "c \<in> {CHR ''x'', CHR ''X'', CHR ''u''}"
  shows "vsn_text [CHR ''%'', c] [VI w] = Inr (map of_char (decimal (unat w)))"
proof -
  have "unat (ucast w :: u64) = unat w"
    using unsigned_less [of w, where 'a = nat] by (simp add: unat_ucast)
  then show ?thesis
    using assms by (auto simp: parse_plain directive_text_def int_arg_def va_int_def int_text_plain)
qed

lemma decimal_u32: "length (decimal (unat w)) \<le> 32" for w :: u32
  using unsigned_less [of w, where 'a = nat] by (intro decimal_length) simp

section \<open>Properties\<close>

text \<open>
  C11. \<open>vsnprintf\<close> refines the concatenation of the texts of its directives: it returns the length
  of the whole text, stores the first \<open>n\<close> bytes of it and, unless \<open>n\<close> is 0, a terminator behind
  them.  When the text has \<open>n\<close> bytes or more the terminator is the byte \<open>n\<close>, one beyond the
  buffer.
\<close>

theorem vsnprintf_refines:
  "vsnprintf buf n fmt ap m = bindR (vsn_text fmt ap) (\<lambda>t.
     Inr (of_nat (length t), put_bytes m buf (take (unat n) t @ (if n > 0 then [0] else []))))"
  by (rule vsnprintf_eq)

text \<open>
  \<open>sprintf\<close> with \<open>''%d''\<close> writes the decimal text of every 32-bit integer, the smallest one
  included, and its terminator, and returns its length.
\<close>

theorem sprintf_decimal:
  "sprintf out ''%d'' [VI w] m = Inr (of_nat (length (int_string (sint w))),
     put_bytes m out (map of_char (int_string (sint w)) @ [0]))"
proof -
  have "\<bar>sint w\<bar> < 2 ^ 64" using sint_greater_eq [of w] sint_less [of w] by auto
  then show ?thesis
    using sprintf_text [OF vsn_text_int, of w out m] int_string_length [of "sint w"] by simp
qed

text \<open>
  The directives \<open>x\<close> and \<open>X\<close> do not print hexadecimal: they print the same decimal text as
  \<open>u\<close>.
\<close>

theorem sprintf_hex_is_decimal:
  assumes "c \<in> {CHR ''x'', CHR ''X'', CHR ''u''}"
  shows "sprintf out [CHR ''%'', c] [VI w] m =
    Inr (of_nat (length (decimal (unat w))), put_bytes m out (map of_char (decimal (unat w)) @ [0]))"
  using sprintf_text [OF vsn_text_hex [OF assms], of w out m] decimal_u32 [of w] by simp

theorem sprintf_hex_is_decimal_witness:
  "sprintf 0x100 ''%x'' [VI 16] (\<lambda>_. 0) = Inr (2, put_bytes (\<lambda>_. 0) 0x100 [0x31, 0x36, 0])"
proof -
  have "decimal 16 = ''16''" by (simp add: decimal.simps [of 16] decimal.simps [of "Suc 0"] char_of_eq_iff)
  then show ?thesis using sprintf_hex_is_decimal [of "CHR ''x''" "0x100" 16 "\<lambda>_. 0"] by simp
qed

end
