(* ===== verification/Am_Types.thy ===== *)
theory Am_Types
  imports CMem Result
begin

text \<open>
  The interface of the abstract machine, \<open>am/include/am.h\<close> and \<open>amdev.h\<close>, with the macros of
  \<open>klib-macros.h\<close> the platforms use: memory areas, events, the device registers and the
  structures passed through them, the key codes, and the table of handlers by which every
  platform dispatches an access to a device register.
\<close>

section \<open>Memory areas, protection and events (\<open>am.h\<close>)\<close>

definition MMAP_NONE :: u32 where "MMAP_NONE = 0"
definition MMAP_READ :: u32 where "MMAP_READ = 1"
definition MMAP_WRITE :: u32 where "MMAP_WRITE = 2"

record Area =
  area_start :: ptr
  area_end :: ptr

datatype event =
  EVENT_NULL | EVENT_YIELD | EVENT_SYSCALL | EVENT_PAGEFAULT | EVENT_ERROR | EVENT_IRQ_TIMER
| EVENT_IRQ_IODEV

record Event =
  event :: event
  cause :: u32
  ref_of :: u32
  msg :: string

record AddrSpace =
  as_pgsize :: u32
  as_area :: Area
  as_ptr :: ptr

definition ROUNDUP :: "u32 \<Rightarrow> u32 \<Rightarrow> u32" where
  "ROUNDUP a sz = (a + sz - 1) AND NOT (sz - 1)"

definition ROUNDDOWN :: "u32 \<Rightarrow> u32 \<Rightarrow> u32" where
  "ROUNDDOWN a sz = a AND NOT (sz - 1)"

definition RANGE :: "u32 \<Rightarrow> u32 \<Rightarrow> Area" where
  "RANGE st ed = \<lparr>area_start = st, area_end = ed\<rparr>"

definition IN_RANGE :: "ptr \<Rightarrow> Area \<Rightarrow> bool" where
  "IN_RANGE p area \<longleftrightarrow> area_start area \<le> p \<and> p < area_end area"

section \<open>Device registers (\<open>amdev.h\<close>)\<close>

datatype devreg =
  AM_UART_CONFIG | AM_UART_TX | AM_UART_RX | AM_TIMER_CONFIG | AM_TIMER_RTC | AM_TIMER_UPTIME
| AM_INPUT_CONFIG | AM_INPUT_KEYBRD | AM_GPU_CONFIG | AM_GPU_STATUS | AM_GPU_FBDRAW
| AM_GPU_MEMCPY | AM_GPU_RENDER | AM_AUDIO_CONFIG | AM_AUDIO_CTRL | AM_AUDIO_STATUS
| AM_AUDIO_PLAY | AM_DISK_CONFIG | AM_DISK_STATUS | AM_DISK_BLKIO | AM_NET_CONFIG
| AM_NET_STATUS | AM_NET_TX | AM_NET_RX

primrec reg_id :: "devreg \<Rightarrow> nat" where
  "reg_id AM_UART_CONFIG = 1" | "reg_id AM_UART_TX = 2" | "reg_id AM_UART_RX = 3"
| "reg_id AM_TIMER_CONFIG = 4" | "reg_id AM_TIMER_RTC = 5" | "reg_id AM_TIMER_UPTIME = 6"
| "reg_id AM_INPUT_CONFIG = 7" | "reg_id AM_INPUT_KEYBRD = 8" | "reg_id AM_GPU_CONFIG = 9"
| "reg_id AM_GPU_STATUS = 10" | "reg_id AM_GPU_FBDRAW = 11" | "reg_id AM_GPU_MEMCPY = 12"
| "reg_id AM_GPU_RENDER = 13" | "reg_id AM_AUDIO_CONFIG = 14" | "reg_id AM_AUDIO_CTRL = 15"
| "reg_id AM_AUDIO_STATUS = 16" | "reg_id AM_AUDIO_PLAY = 17" | "reg_id AM_DISK_CONFIG = 18"
| "reg_id AM_DISK_STATUS = 19" | "reg_id AM_DISK_BLKIO = 20" | "reg_id AM_NET_CONFIG = 21"
| "reg_id AM_NET_STATUS = 22" | "reg_id AM_NET_TX = 23" | "reg_id AM_NET_RX = 24"

text \<open>
  The structure \<open>AM_<reg>_T\<close> of each register.  A handler gets a pointer to such a structure
  as \<open>void *\<close> and reads or fills it.
\<close>

datatype io_data =
  UART_CONFIG_T bool
| UART_TX_T u8
| UART_RX_T u8
| TIMER_CONFIG_T bool bool
| TIMER_RTC_T u32 u32 u32 u32 u32 u32
| TIMER_UPTIME_T u64
| INPUT_CONFIG_T bool
| INPUT_KEYBRD_T bool u32
| GPU_CONFIG_T bool bool u32 u32 u32
| GPU_STATUS_T bool
| GPU_FBDRAW_T u32 u32 ptr u32 u32 bool
| GPU_MEMCPY_T u32 ptr u32
| GPU_RENDER_T u32
| AUDIO_CONFIG_T bool u32
| AUDIO_CTRL_T u32 u32 u32
| AUDIO_STATUS_T u32
| AUDIO_PLAY_T Area
| DISK_CONFIG_T bool u32 u32
| DISK_STATUS_T bool
| DISK_BLKIO_T bool ptr u32 u32
| NET_CONFIG_T bool
| NET_STATUS_T u32 u32
| NET_TX_T Area
| NET_RX_T Area

text \<open>The register a structure belongs to.\<close>

primrec buf_reg :: "io_data \<Rightarrow> devreg" where
  "buf_reg (UART_CONFIG_T a) = AM_UART_CONFIG" | "buf_reg (UART_TX_T a) = AM_UART_TX"
| "buf_reg (UART_RX_T a) = AM_UART_RX" | "buf_reg (TIMER_CONFIG_T a b) = AM_TIMER_CONFIG"
| "buf_reg (TIMER_RTC_T a b c d e f) = AM_TIMER_RTC" | "buf_reg (TIMER_UPTIME_T a) = AM_TIMER_UPTIME"
| "buf_reg (INPUT_CONFIG_T a) = AM_INPUT_CONFIG" | "buf_reg (INPUT_KEYBRD_T a b) = AM_INPUT_KEYBRD"
| "buf_reg (GPU_CONFIG_T a b c d e) = AM_GPU_CONFIG" | "buf_reg (GPU_STATUS_T a) = AM_GPU_STATUS"
| "buf_reg (GPU_FBDRAW_T a b c d e f) = AM_GPU_FBDRAW" | "buf_reg (GPU_MEMCPY_T a b c) = AM_GPU_MEMCPY"
| "buf_reg (GPU_RENDER_T a) = AM_GPU_RENDER" | "buf_reg (AUDIO_CONFIG_T a b) = AM_AUDIO_CONFIG"
| "buf_reg (AUDIO_CTRL_T a b c) = AM_AUDIO_CTRL" | "buf_reg (AUDIO_STATUS_T a) = AM_AUDIO_STATUS"
| "buf_reg (AUDIO_PLAY_T a) = AM_AUDIO_PLAY" | "buf_reg (DISK_CONFIG_T a b c) = AM_DISK_CONFIG"
| "buf_reg (DISK_STATUS_T a) = AM_DISK_STATUS" | "buf_reg (DISK_BLKIO_T a b c d) = AM_DISK_BLKIO"
| "buf_reg (NET_CONFIG_T a) = AM_NET_CONFIG" | "buf_reg (NET_STATUS_T a b) = AM_NET_STATUS"
| "buf_reg (NET_TX_T a) = AM_NET_TX" | "buf_reg (NET_RX_T a) = AM_NET_RX"

text \<open>The keys in the order of \<open>AM_KEYS\<close>; their codes count from 1.\<close>

definition AM_KEYS :: "string list" where
  "AM_KEYS =
    [''ESCAPE'', ''F1'', ''F2'', ''F3'', ''F4'', ''F5'', ''F6'', ''F7'', ''F8'', ''F9'', ''F10'', ''F11'', ''F12'',
     ''GRAVE'', ''1'', ''2'', ''3'', ''4'', ''5'', ''6'', ''7'', ''8'', ''9'', ''0'', ''MINUS'', ''EQUALS'', ''BACKSPACE'',
     ''TAB'', ''Q'', ''W'', ''E'', ''R'', ''T'', ''Y'', ''U'', ''I'', ''O'', ''P'', ''LEFTBRACKET'', ''RIGHTBRACKET'', ''BACKSLASH'',
     ''CAPSLOCK'', ''A'', ''S'', ''D'', ''F'', ''G'', ''H'', ''J'', ''K'', ''L'', ''SEMICOLON'', ''APOSTROPHE'', ''RETURN'',
     ''LSHIFT'', ''Z'', ''X'', ''C'', ''V'', ''B'', ''N'', ''M'', ''COMMA'', ''PERIOD'', ''SLASH'', ''RSHIFT'',
     ''LCTRL'', ''APPLICATION'', ''LALT'', ''SPACE'', ''RALT'', ''RCTRL'',
     ''UP'', ''DOWN'', ''LEFT'', ''RIGHT'', ''INSERT'', ''DELETE'', ''HOME'', ''END'', ''PAGEUP'', ''PAGEDOWN'']"

definition AM_KEY_NONE :: nat where "AM_KEY_NONE = 0"

definition AM_KEY :: "string \<Rightarrow> nat" where
  "AM_KEY k = length (takeWhile (\<lambda>n. n \<noteq> k) AM_KEYS) + 1"

section \<open>The registers as an ordered type\<close>

lemma reg_id_inj: "reg_id a = reg_id b \<longleftrightarrow> a = b"
  by (cases a; cases b) simp_all

instantiation devreg :: linorder
begin

definition less_eq_devreg :: "devreg \<Rightarrow> devreg \<Rightarrow> bool" where
  "less_eq_devreg a b \<longleftrightarrow> reg_id a \<le> reg_id b"

definition less_devreg :: "devreg \<Rightarrow> devreg \<Rightarrow> bool" where
  "less_devreg a b \<longleftrightarrow> reg_id a < reg_id b"

instance
  by standard (auto simp: less_eq_devreg_def less_devreg_def reg_id_inj)

end

lemma reg_id_bounds: "1 \<le> reg_id r \<and> reg_id r \<le> 24"
  by (cases r) simp_all

lemma reg_id_less: "reg_id r < 128"
  using reg_id_bounds [of r] by linarith

section \<open>Handler tables\<close>

text \<open>
  A handler works on the structure and the state of the machine; \<open>None\<close> is a wait that never
  ends.  \<open>lut\<close> is an array of 128 pointers with designated initializers, whose null entries
  \<open>ioe_init\<close> replaces by \<open>fail\<close>; \<open>ioe_read\<close> and \<open>ioe_write\<close> call the entry of the register.
\<close>

type_synonym 's handler_t = "io_data \<Rightarrow> 's \<Rightarrow> (io_data \<times> 's) result option"

definition lut_entries :: "(devreg \<times> 'h) list \<Rightarrow> 'h option list" where
  "lut_entries es = map (map_of (map (\<lambda>(r, h). (reg_id r, h)) es)) [0..<128]"

definition fill_lut :: "'h \<Rightarrow> 'h option list \<Rightarrow> 'h option list" where
  "fill_lut fail lut = map (\<lambda>h. if h = None then Some fail else h) lut"

definition call_lut :: "('h \<Rightarrow> 's handler_t) \<Rightarrow> 'h option list \<Rightarrow> u32 \<Rightarrow> 's handler_t" where
  "call_lut run lut reg buf s =
     (if unat reg < length lut then
        (case lut ! unat reg of
           None \<Rightarrow> Some (Inl (Undefined ''call of a null pointer''))
         | Some h \<Rightarrow> run h buf s)
      else Some (Inl (Undefined ''lut'')))"

definition io_fail :: "'s handler_t" where
  "io_fail buf s = Some (Inl (Panic ''access nonexist register''))"

text \<open>
  The handlers take a \<open>void *\<close>.  The model tags the structure it points to with the register it belongs to;
  a handler that gets the structure of another register would read and write foreign bytes, and this
  is undefined here.  The tags are part of the model, not of the code: no property rests on them.
\<close>

definition wrong_buf :: "('a result) option" where
  "wrong_buf = Some (Inl (Undefined ''buf''))"

text \<open>Every platform has such a table: the entries, the code of its handlers, and \<open>fail\<close>.\<close>

locale io_table =
  fixes entries :: "(devreg \<times> 'h) list"
    and fail :: 'h
    and run :: "'h \<Rightarrow> 's handler_t"
  assumes run_fail: "run fail = io_fail"
begin

definition io :: "u32 \<Rightarrow> 's handler_t" where
  "io = call_lut run (fill_lut fail (lut_entries entries))"

lemma lut_nth:
  "i < 128 \<Longrightarrow> fill_lut fail (lut_entries entries) ! i =
     Some (case map_of (map (\<lambda>(r, h). (reg_id r, h)) entries) i of None \<Rightarrow> fail | Some h \<Rightarrow> h)"
  by (auto simp: fill_lut_def lut_entries_def split: option.splits)

lemma map_of_reg: "map_of (map (\<lambda>(r, h). (reg_id r, h)) es) (reg_id r) = map_of es r"
  by (induction es) (auto simp: reg_id_inj)

lemma map_of_other:
  assumes "\<And>r. reg_id r \<noteq> i"
  shows "map_of (map (\<lambda>(r, h). (reg_id r, h)) es) i = None"
  using assms by (induction es) (simp_all add: case_prod_beta not_sym)

text \<open>A register of the interface reaches its handler, or fails.\<close>

lemma io_reg:
  "io (of_nat (reg_id r)) buf s = (case map_of entries r of None \<Rightarrow> io_fail buf s | Some h \<Rightarrow> run h buf s)"
  using reg_id_less [of r]
  by (simp add: io_def call_lut_def unat_of_nat lut_nth map_of_reg run_fail fill_lut_def lut_entries_def split: option.splits)

lemma io_no_reg:
  "unat i < 128 \<Longrightarrow> (\<And>r. reg_id r \<noteq> unat i) \<Longrightarrow> io i buf s = io_fail buf s"
  by (simp add: io_def call_lut_def lut_nth map_of_other run_fail) (simp add: fill_lut_def lut_entries_def)

text \<open>No access to a number below 128 calls a null pointer.\<close>

lemma io_no_null:
  assumes "unat i < 128"
  shows "io i buf s = io_fail buf s \<or> (\<exists>h. h \<in> snd ` set entries \<and> io i buf s = run h buf s)"
proof (cases "\<exists>r. reg_id r = unat i")
  case True
  then obtain r where "reg_id r = unat i" by blast
  then have "i = of_nat (reg_id r)" by simp
  then show ?thesis using io_reg [of r buf s] by (auto split: option.splits dest!: map_of_SomeD) force
next
  case False
  then show ?thesis using io_no_reg [OF assms] by blast
qed

end

text \<open>
  A table is typed when each of its handlers takes the structure of its register and returns one.
\<close>

locale typed_io_table = io_table +
  assumes run_typed: "(r, h) \<in> set entries \<Longrightarrow> run h buf s = Some (Inr (buf', s')) \<Longrightarrow> buf_reg buf = r \<and> buf_reg buf' = r"
begin

lemma io_typed:
  assumes "io i buf s = Some (Inr (buf', s'))"
  shows "reg_id (buf_reg buf) = unat i \<and> buf_reg buf' = buf_reg buf"
proof -
  have i: "unat i < 128"
    using assms by (simp add: io_def call_lut_def fill_lut_def lut_entries_def split: if_splits)
  show ?thesis
  proof (cases "\<exists>r. reg_id r = unat i")
    case True
    then obtain r where r: "reg_id r = unat i" by blast
    then have "i = of_nat (reg_id r)" by simp
    then obtain h where "map_of entries r = Some h" "run h buf s = Some (Inr (buf', s'))"
      using assms io_reg [of r buf s] by (auto simp: io_fail_def split: option.splits)
    then show ?thesis using r run_typed [of r h] by (auto dest: map_of_SomeD)
  next
    case False
    then show ?thesis using assms io_no_reg [OF i] by (simp add: io_fail_def)
  qed
qed

end

lemma am_key_distinct: "distinct AM_KEYS"
  by (simp add: AM_KEYS_def)

end
