(* ===== verification/Klib_Stdlib.thy ===== *)
theory Klib_Stdlib
  imports Klib_Stdio Am_Types
begin

text \<open>
  The rest of the class library, \<open>abstract-machine/klib/src/stdlib.c\<close>, for RV32, where \<open>int\<close>,
  \<open>long\<close> and pointers have 32 bits: random numbers, \<open>abs\<close>, \<open>atoi\<close> and the allocator.
\<close>

section \<open>The code\<close>

definition rand :: "u32 \<Rightarrow> u32 \<times> u32" where
  "rand next' = (let next' = next' * 1103515245 + 12345 in ((next' div 65536) mod 32768, next'))"

definition srand :: "u32 \<Rightarrow> u32" where
  "srand seed = seed"

text \<open>The negation of the smallest \<open>int\<close> overflows.\<close>

definition c_abs :: "u32 \<Rightarrow> u32 result" where
  "c_abs x = (if sint x < 0 then (if sint x = - (2 ^ 31) then Inl (Undefined ''int'') else Inr (- x)) else Inr x)"

text \<open>\<open>atoi\<close>: skip spaces, then digits; the sum is formed from left to right.\<close>

partial_function (option) skip_spaces :: "gmem \<Rightarrow> ptr \<Rightarrow> ptr option" where
  "skip_spaces m nptr = (if m nptr = 32 then skip_spaces m (nptr + 1) else Some nptr)"

partial_function (option) atoi_loop :: "gmem \<Rightarrow> ptr \<Rightarrow> int \<Rightarrow> int result option" where
  "atoi_loop m nptr x =
     (if m nptr \<ge> 48 \<and> m nptr \<le> 57 then
        (if x * 10 + int (unat (m nptr)) \<le> INT_MAX then
           atoi_loop m (nptr + 1) (x * 10 + int (unat (m nptr)) - 48)
         else Some (Inl (Undefined ''int'')))
      else Some (Inr x))"

definition atoi :: "gmem \<Rightarrow> ptr \<Rightarrow> int result option" where
  "atoi m nptr = Option.bind (skip_spaces m nptr) (\<lambda>p. atoi_loop m p 0)"

text \<open>The allocator never reuses memory, so its state is the next address.\<close>

record allocator =
  next_addr :: ptr
  malloc_initialized :: bool

definition malloc :: "Area \<Rightarrow> u32 \<Rightarrow> allocator \<Rightarrow> ptr \<times> allocator" where
  "malloc heap sz s =
     (let s = (if \<not> malloc_initialized s then s\<lparr>next_addr := area_start heap, malloc_initialized := True\<rparr> else s)
      in if sz = 0 then (0, s)
         else
           let aligned_size = ROUNDUP sz 8; p = next_addr s in
           if p > area_end heap then (0, s)
           else (p, s\<lparr>next_addr := next_addr s + aligned_size\<rparr>))"

definition free :: "ptr \<Rightarrow> allocator \<Rightarrow> allocator" where
  "free p s = s"

section \<open>Numbers\<close>

lemma skip_spaces_stop: "m p \<noteq> 32 \<Longrightarrow> skip_spaces m p = Some p"
  by (subst skip_spaces.simps) simp

definition digits_val :: "int \<Rightarrow> string \<Rightarrow> int" where
  "digits_val x ds = foldl (\<lambda>n c. n * 10 + (of_char c - 48)) x ds"

definition digit_string :: "string \<Rightarrow> bool" where
  "digit_string ds \<longleftrightarrow> (\<forall>c \<in> set ds. 48 \<le> (of_char c :: nat) \<and> (of_char c :: nat) \<le> 57)"

lemma unat_of_char: "unat (of_char c :: u8) = of_char c"
proof -
  have "(of_char c :: u8) = of_nat (of_char c)" by (simp add: of_nat_of_char)
  then have "unat (of_char c :: u8) = unat (of_nat (of_char c) :: u8)" by simp
  also have "\<dots> = of_char c" by (simp add: unat_of_nat)
  finally show ?thesis .
qed

lemma int_of_char: "(of_char c :: int) = int (of_char c)"
  by (simp add: of_nat_of_char)

lemma digits_val_simps [simp]:
  "digits_val x [] = x" "digits_val x (c # ds) = digits_val (x * 10 + (of_char c - 48)) ds"
  by (simp_all add: digits_val_def)

lemma digits_val_ge: "digit_string ds \<Longrightarrow> 0 \<le> x \<Longrightarrow> x \<le> digits_val x ds"
proof (induction ds arbitrary: x)
  case (Cons c ds)
  have "48 \<le> (of_char c :: nat)" using Cons.prems(1) by (simp add: digit_string_def)
  then have "48 \<le> (of_char c :: int)" by (simp add: int_of_char)
  then have "x \<le> x * 10 + (of_char c - 48)" using Cons.prems(2) by linarith
  also have "\<dots> \<le> digits_val (x * 10 + (of_char c - 48)) ds"
    using Cons \<open>48 \<le> (of_char c :: int)\<close> by (intro Cons.IH) (simp_all add: digit_string_def)
  finally show ?case by simp
qed simp

lemma atoi_loop_digits:
  assumes "\<And>i. i < length ds \<Longrightarrow> m (p + of_nat i) = of_char (ds ! i)" "m (p + of_nat (length ds)) = 0"
    and "digit_string ds" "digits_val x ds \<le> INT_MAX - 48" "0 \<le> x"
  shows "atoi_loop m p x = Some (Inr (digits_val x ds))"
  using assms
proof (induction ds arbitrary: p x)
  case Nil
  then show ?case by (subst atoi_loop.simps) simp
next
  case (Cons c ds)
  have c: "m p = of_char c" using Cons.prems(1) [of 0] by simp
  have cn: "48 \<le> (of_char c :: nat)" "(of_char c :: nat) \<le> 57" using Cons.prems(3) by (auto simp: digit_string_def)
  then have digit: "m p \<ge> 48 \<and> m p \<le> 57" by (simp add: c word_le_nat_alt unat_of_char)
  have ci: "int (unat (m p)) = of_char c" "48 \<le> (of_char c :: int)"
    using cn by (simp_all add: c unat_of_char int_of_char)
  have ds: "digit_string ds" using Cons.prems(3) by (simp add: digit_string_def)
  let ?x = "x * 10 + (of_char c - 48)"
  have x: "0 \<le> ?x" using ci Cons.prems(5) by linarith
  have fits: "x * 10 + int (unat (m p)) \<le> INT_MAX"
    using digits_val_ge [OF ds x] Cons.prems(4) ci(1) by simp
  have "m (p + 1 + of_nat i) = of_char (ds ! i)" if "i < length ds" for i
    using Cons.prems(1) [of "Suc i"] that by (simp add: add.assoc)
  moreover have "m (p + 1 + of_nat (length ds)) = 0" using Cons.prems(2) by (simp add: add.assoc)
  ultimately have "atoi_loop m (p + 1) ?x = Some (Inr (digits_val ?x ds))"
    using Cons.prems(4) ds x by (intro Cons.IH) simp_all
  then show ?case using digit fits ci(1) by (subst atoi_loop.simps) (simp add: algebra_simps)
qed

lemma decimal_chars: "digit_string (decimal n) \<and> decimal n \<noteq> [] \<and> digits_val 0 (decimal n) = int n"
proof (induction n rule: decimal.induct)
  case (1 n)
  have c: "(of_char (char_of (48 + d)) :: nat) = 48 + d" "(of_char (char_of (48 + d)) :: int) = 48 + int d"
    if "d < 10" for d :: nat
    using that by (simp_all add: int_of_char)
  show ?case
  proof (cases "n < 10")
    case True
    then show ?thesis using c [of n] by (subst (1 2 3) decimal.simps) (simp add: digit_string_def)
  next
    case False
    have "int (n div 10) * 10 + int (n mod 10) = int n"
      by (metis div_mult_mod_eq of_nat_add of_nat_mult of_nat_numeral)
    then show ?thesis
      using False 1 c [of "n mod 10"] by (subst (1 2 3) decimal.simps) (auto simp: digit_string_def digits_val_def)
  qed
qed

lemma atoi_decimal:
  assumes "cstr_at m p (map of_char (decimal n))" "int n \<le> INT_MAX - 48"
  shows "atoi m p = Some (Inr (int n))"
proof -
  note d = decimal_chars [of n]
  have at: "m (p + of_nat i) = of_char (decimal n ! i)" if "i < length (decimal n)" for i
    using cstr_at_char [OF assms(1), of i] that by simp
  have "m p = of_char (hd (decimal n))" using at [of 0] d by (simp add: hd_conv_nth)
  moreover have "48 \<le> (of_char (hd (decimal n)) :: nat)" using d by (simp add: digit_string_def)
  ultimately have "48 \<le> unat (m p)" by (simp add: unat_of_char)
  then have "m p \<noteq> 32" by auto
  then show ?thesis
    using at cstr_at_end [OF assms(1)] d assms(2) atoi_loop_digits [of "decimal n" m p 0]
    by (simp add: atoi_def skip_spaces_stop)
qed

section \<open>The allocator\<close>

lemma and_not_7: "x AND NOT 7 = push_bit 3 (drop_bit 3 x)" for x :: u32
proof -
  have "x AND NOT (mask 3) = push_bit 3 (drop_bit 3 x)"
    by (rule bit_word_eqI) (auto simp: bit_simps not_less)
  moreover have "(7 :: u32) = mask 3" by (simp add: mask_eq_exp_minus_1)
  ultimately show ?thesis by (simp only:)
qed

lemma unat_ROUNDUP:
  assumes "unat z + 7 < 2 ^ 32"
  shows "unat (ROUNDUP z 8) = (unat z + 7) div 8 * 8"
proof -
  have "unat (z + 7) = unat z + 7" using assms by (simp add: unat_plus_if_size word_size)
  moreover have "unat (push_bit 3 (drop_bit 3 x)) = unat x div 8 * 8" for x :: u32
  proof -
    have "unat x div 8 * 8 \<le> unat x" by (rule div_times_less_eq_dividend)
    then have "unat x div 8 * 8 < 2 ^ 32" using unsigned_less [of x, where 'a = nat] by simp
    then show ?thesis unfolding unat_push_bit unat_drop_bit by simp
  qed
  moreover have "ROUNDUP z 8 = (z + 7) AND NOT 7" by (simp add: ROUNDUP_def add.commute)
  ultimately show ?thesis by (simp only: and_not_7)
qed

text \<open>The blocks that a sequence of calls has returned, with their sizes.\<close>

fun malloc_all :: "Area \<Rightarrow> u32 list \<Rightarrow> allocator \<Rightarrow> (ptr \<times> u32) list" where
  "malloc_all heap [] s = []"
| "malloc_all heap (z # zs) s =
     (let (p, s1) = malloc heap z s in if p = 0 then malloc_all heap zs s1 else (p, z) # malloc_all heap zs s1)"

definition block_ok :: "Area \<Rightarrow> nat \<Rightarrow> ptr \<times> u32 \<Rightarrow> bool" where
  "block_ok heap a = (\<lambda>(p, z). a \<le> unat p \<and> 8 dvd unat p \<and> p \<le> area_end heap \<and> z \<noteq> 0)"

definition before :: "ptr \<times> u32 \<Rightarrow> ptr \<times> u32 \<Rightarrow> bool" where
  "before = (\<lambda>(p, z) (q, _). unat p + unat z \<le> unat q)"

lemma malloc_all_blocks:
  assumes "malloc_initialized s" "8 dvd unat (next_addr s)" "next_addr s \<noteq> 0"
    and "unat (next_addr s) + sum_list (map (\<lambda>z. unat z + 7) zs) < 2 ^ 32"
  shows "sorted_wrt before (malloc_all heap zs s) \<and>
    (\<forall>b \<in> set (malloc_all heap zs s). block_ok heap (unat (next_addr s)) b)"
  using assms
proof (induction zs arbitrary: s)
  case (Cons z zs)
  let ?a = "next_addr s"
  show ?case
  proof (cases "z = 0 \<or> ?a > area_end heap")
    case True
    then have "malloc heap z s = (0, s)" using Cons.prems(1) by (auto simp: malloc_def Let_def)
    then show ?thesis using Cons by simp
  next
    case False
    let ?s = "s\<lparr>next_addr := ?a + ROUNDUP z 8\<rparr>"
    have m: "malloc heap z s = (?a, ?s)" using Cons.prems(1) False by (simp add: malloc_def Let_def)
    have r: "unat (ROUNDUP z 8) = (unat z + 7) div 8 * 8"
      using Cons.prems(4) by (intro unat_ROUNDUP) simp
    have le: "unat z \<le> (unat z + 7) div 8 * 8" "(unat z + 7) div 8 * 8 \<le> unat z + 7"
      by presburger (rule div_times_less_eq_dividend)
    have next': "unat (?a + ROUNDUP z 8) = unat ?a + (unat z + 7) div 8 * 8"
    proof -
      have "unat ?a + unat (ROUNDUP z 8) < 2 ^ 32" using Cons.prems(4) le(2) unfolding r by simp
      then show ?thesis using r by (simp add: unat_plus_if_size word_size)
    qed
    have "sorted_wrt before (malloc_all heap zs ?s) \<and> (\<forall>b \<in> set (malloc_all heap zs ?s). block_ok heap (unat (?a + ROUNDUP z 8)) b)"
    proof -
      have "?a + ROUNDUP z 8 \<noteq> 0" using next' Cons.prems(3) by (metis add_is_0 unat_eq_0)
      moreover have "8 dvd unat (?a + ROUNDUP z 8)" using next' Cons.prems(2) by simp
      ultimately show ?thesis
        using Cons.IH [of ?s] Cons.prems(1,4) le(2) next' by simp
    qed
    then show ?thesis
      using m False Cons.prems(2,3) next' le(1)
      by (fastforce simp: before_def block_ok_def)
  qed
qed simp

section \<open>Properties\<close>

text \<open>
  C31. What \<open>sprintf\<close> prints with \<open>''%d''\<close> the library reads back with \<open>atoi\<close>, for every
  non-negative integer up to 2147483599; the larger ones overflow in the sum of \<open>atoi\<close>.
\<close>

theorem sprintf_atoi_roundtrip:
  assumes "0 \<le> sint w" "sint w \<le> 2147483599"
  shows "\<exists>n m'. sprintf out ''%d'' [VI w] m = Inr (n, m') \<and> atoi m' out = Some (Inr (sint w))"
proof -
  let ?t = "int_string (sint w)"
  have t: "?t = decimal (nat (sint w))" using assms(1) by (simp add: int_string_def)
  have len: "length ?t \<le> 33" using assms by (intro int_string_length) simp
  have "0 \<notin> set (map of_char ?t :: u8 list)"
  proof
    assume "0 \<in> set (map of_char ?t :: u8 list)"
    then obtain c where "c \<in> set ?t" "(of_char c :: u8) = 0" by auto
    then show False using decimal_chars [of "nat (sint w)"] unat_of_char [of c] t
      by (auto simp: digit_string_def)
  qed
  then have "cstr_at (put_bytes m out (map of_char ?t @ [0])) out (map of_char (decimal (nat (sint w))))"
    using len t by (simp add: cstr_at_put_bytes)
  then have "atoi (put_bytes m out (map of_char ?t @ [0])) out = Some (Inr (sint w))"
    using assms atoi_decimal [of _ out "nat (sint w)"] by (simp add: INT_MAX_def)
  moreover have "sprintf out ''%d'' [VI w] m = Inr (of_nat (length ?t), put_bytes m out (map of_char ?t @ [0]))"
    using sprintf_text [OF vsn_text_int, of w out m] len by simp
  ultimately show ?thesis by blast
qed

theorem sprintf_atoi_roundtrip_witness:
  "\<exists>n m'. sprintf 0x100 ''%d'' [VI 2147483599] (\<lambda>_. 0) = Inr (n, m') \<and> atoi m' 0x100 = Some (Inr 2147483599)"
proof -
  have "sint (2147483599 :: u32) = 2147483599" by simp
  then show ?thesis using sprintf_atoi_roundtrip [of 2147483599 "0x100" "\<lambda>_. 0"] by simp
qed

text \<open>
  The blocks of a sequence of \<open>malloc\<close> calls start at multiples of 8 and follow one another
  without overlap, as long as the addresses do not wrap around.  Each starts at or before the end
  of the heap; whether it also ends there is not checked.
\<close>

theorem malloc_blocks:
  assumes "\<not> malloc_initialized s" "8 dvd unat (area_start heap)" "area_start heap \<noteq> 0"
    and "unat (area_start heap) + sum_list (map (\<lambda>z. unat z + 7) zs) < 2 ^ 32"
  shows "sorted_wrt before (malloc_all heap zs s) \<and>
    (\<forall>b \<in> set (malloc_all heap zs s). block_ok heap (unat (area_start heap)) b)"
proof (cases zs)
  case (Cons z zs')
  let ?s = "s\<lparr>next_addr := area_start heap, malloc_initialized := True\<rparr>"
  have "malloc heap z s = malloc heap z ?s" using assms(1) by (simp add: malloc_def Let_def)
  then have "malloc_all heap zs s = malloc_all heap zs ?s" by (simp add: Cons)
  then show ?thesis using malloc_all_blocks [of ?s zs heap] assms(2-4) by simp
qed simp

theorem malloc_blocks_witness:
  "malloc_all \<lparr>area_start = 0x1000, area_end = 0x1008\<rparr> [5, 100, 1] \<lparr>next_addr = 0, malloc_initialized = False\<rparr>
     = [(0x1000, 5), (0x1008, 100)] \<and>
   sorted_wrt before [(0x1000, 5), (0x1008, 100)]"
proof -
  let ?h = "\<lparr>area_start = 0x1000, area_end = 0x1008\<rparr>" and ?s = "\<lparr>next_addr = 0, malloc_initialized = False\<rparr>"
  have m: "malloc_all ?h [5, 100, 1] ?s = [(0x1000, 5), (0x1008, 100)]"
    by (simp add: malloc_def ROUNDUP_def Let_def)
  have "8 dvd (4096 :: nat)" by simp
  then show ?thesis using malloc_blocks [of ?s ?h "[5, 100, 1]"] m by simp
qed

text \<open>
  \<open>rand\<close> stays below 32768 and depends on the seed alone, through the 32-bit linear
  congruence.
\<close>

theorem rand_range:
  "unat (fst (rand x)) < 32768 \<and> unat (snd (rand x)) = (unat x * 1103515245 + 12345) mod 2 ^ 32"
proof -
  have "unat (snd (rand x)) = (unat x * 1103515245 + 12345) mod 2 ^ 32"
    by (simp add: rand_def Let_def unat_word_ariths mod_simps)
  moreover have "unat (fst (rand x)) < 32768" by (simp add: rand_def Let_def unat_mod)
  ultimately show ?thesis by simp
qed

end
