(* ===== verification/Npc_Device.thy ===== *)
theory Npc_Device
  imports Result
begin

text \<open>
  The devices of the simulator, \<open>core/csrc/device\<close>: the timer (\<open>timer.c\<close>), the UART
  (\<open>uart.c\<close>) and the address decoding of the memory-mapped region (\<open>mmio.c\<close>, \<open>device.h\<close>).
  The host's clock, standard input and standard error are fields of the state: \<open>clock i\<close> is
  the result of the \<open>i\<close>-th \<open>clock_gettime\<close>, in seconds and nanoseconds.
\<close>

record dev =
  boot_time :: u64
  clock :: "nat \<Rightarrow> u64 \<times> u64"
  clock_reads :: nat
  stdin_bytes :: "u8 list"
  stderr_bytes :: "u8 list"
  last_simtime :: int
  skip_difftest :: u8

section \<open>Addresses\<close>

definition UART_BASE :: u32 where "UART_BASE = 0x10000000"
definition UART_TX :: u32 where "UART_TX = UART_BASE + 0"
definition UART_RX :: u32 where "UART_RX = UART_BASE + 0"
definition UART_STATUS :: u32 where "UART_STATUS = UART_BASE + 1"
definition CLINT_BASE :: u32 where "CLINT_BASE = 0x02000000"
definition RTC_ADDR :: u32 where "RTC_ADDR = CLINT_BASE + 0x48"

lemmas mmio_addr_defs = UART_BASE_def UART_TX_def UART_RX_def UART_STATUS_def CLINT_BASE_def RTC_ADDR_def

section \<open>Timer\<close>

definition get_time_internal :: "dev \<Rightarrow> u64 \<times> dev" where
  "get_time_internal d =
     (let (tv_sec, tv_nsec) = clock d (clock_reads d);
          us = tv_sec * 1000000 + tv_nsec div 1000
      in (us, d\<lparr>clock_reads := clock_reads d + 1\<rparr>))"

definition get_time :: "dev \<Rightarrow> u64 \<times> dev" where
  "get_time d =
     (let d = (if boot_time d = 0 then
                 let (t, d) = get_time_internal d in d\<lparr>boot_time := t\<rparr>
               else d);
          (t, d) = get_time_internal d
      in (t - boot_time d, d))"

section \<open>UART\<close>

text \<open>\<open>getchar\<close> gives the next byte, or \<open>EOF\<close> (-1).\<close>

definition getchar :: "dev \<Rightarrow> u32 \<times> dev" where
  "getchar d =
     (case stdin_bytes d of
        [] \<Rightarrow> (- 1, d)
      | b # bs \<Rightarrow> (ucast b, d\<lparr>stdin_bytes := bs\<rparr>))"

definition uart_read :: "u32 \<Rightarrow> dev \<Rightarrow> (u32 \<times> dev) result" where
  "uart_read addr d =
     (if addr - UART_BASE = 0 then Inr (getchar d)
      else if addr - UART_BASE = 1 then Inr (0x11, d)
      else Inl (Panic ''[UART] Invalid read address''))"

definition uart_write :: "u32 \<Rightarrow> u32 \<Rightarrow> dev \<Rightarrow> dev result" where
  "uart_write addr data d =
     (let byte_data = ucast (data AND 0xFF) in
      if addr - UART_BASE = 0 then Inr (d\<lparr>stderr_bytes := stderr_bytes d @ [byte_data]\<rparr>)
      else if addr - UART_BASE = 1 then Inl (Panic ''[UART] Status register is not writable'')
      else Inr d)"

section \<open>Dispatch\<close>

definition skip_ref :: "dev \<Rightarrow> dev" where
  "skip_ref d = d\<lparr>skip_difftest := 1\<rparr>"

definition in_mmio :: "u32 \<Rightarrow> bool" where
  "in_mmio addr \<longleftrightarrow>
     addr = UART_TX \<or> addr = UART_STATUS \<or> (addr \<ge> RTC_ADDR \<and> addr < RTC_ADDR + 8)"

definition mmio_read :: "u32 \<Rightarrow> dev \<Rightarrow> (u32 \<times> dev) result" where
  "mmio_read addr d =
     (let d = skip_ref d in
      if addr = UART_RX \<or> addr = UART_STATUS then uart_read addr d
      else if addr \<ge> RTC_ADDR \<and> addr < RTC_ADDR + 8 then
        let offset = addr - RTC_ADDR in
        bindR (guardR (offset = 0 \<or> offset = 4) (Panic ''RTC offset'')) (\<lambda>_.
        if offset = 0 then
          let (t, d) = get_time d in Inr (ucast t, d)
        else
          let (t, d) = get_time d in Inr (ucast (drop_bit 32 t), d))
      else Inr (0, d))"

text \<open>\<open>sim_time\<close> is the counter of the wave manager, which never leaves the range of \<open>int\<close>.\<close>

definition mmio_write :: "int \<Rightarrow> u32 \<Rightarrow> u32 \<Rightarrow> dev \<Rightarrow> dev result" where
  "mmio_write sim_time addr data d =
     (let d = skip_ref d in
      if sim_time - last_simtime d < 3 then Inr d
      else
        let d = d\<lparr>last_simtime := sim_time\<rparr> in
        if addr = UART_TX \<or> addr = UART_STATUS then uart_write addr data d
        else if addr \<ge> RTC_ADDR \<and> addr < RTC_ADDR + 8 then Inr d
        else Inl (Panic ''MMIO write to unknown address''))"

section \<open>Lemmas\<close>

lemma in_mmio_cases:
  assumes "in_mmio addr"
  obtains "addr = UART_BASE" | "addr = UART_BASE + 1"
  | k where "addr = RTC_ADDR + of_nat k" "k < 8"
proof -
  have "\<exists>k < 8. addr = RTC_ADDR + of_nat k" if "addr \<ge> RTC_ADDR" "addr < RTC_ADDR + 8"
  proof (intro exI conjI)
    show "unat (addr - RTC_ADDR) < 8"
      using that by (simp add: mmio_addr_defs word_less_nat_alt word_le_nat_alt unat_sub_if')
    show "addr = RTC_ADDR + of_nat (unat (addr - RTC_ADDR))" by simp
  qed
  then show ?thesis using assms that by (auto simp: in_mmio_def UART_TX_def UART_STATUS_def)
qed

text \<open>The time since boot, from the first and the last reading of the clock.\<close>

definition micros :: "u64 \<times> u64 \<Rightarrow> u64" where
  "micros ts = fst ts * 1000000 + snd ts div 1000"

lemma get_time_internal_eq:
  "get_time_internal d = (micros (clock d (clock_reads d)), d\<lparr>clock_reads := clock_reads d + 1\<rparr>)"
  by (simp add: get_time_internal_def micros_def split: prod.split)

lemma get_time_first:
  "boot_time d = 0 \<Longrightarrow> get_time d =
     (micros (clock d (clock_reads d + 1)) - micros (clock d (clock_reads d)),
      d\<lparr>boot_time := micros (clock d (clock_reads d)), clock_reads := clock_reads d + 2\<rparr>)"
  by (simp add: get_time_def get_time_internal_eq)

lemma get_time_later:
  "boot_time d \<noteq> 0 \<Longrightarrow> get_time d =
     (micros (clock d (clock_reads d)) - boot_time d, d\<lparr>clock_reads := clock_reads d + 1\<rparr>)"
  by (simp add: get_time_def get_time_internal_eq)

lemma uart_addr_neq: "UART_STATUS \<noteq> UART_TX" "UART_RX = UART_TX"
  by (simp_all add: mmio_addr_defs)

lemma rtc_not_uart: "addr \<ge> RTC_ADDR \<Longrightarrow> addr < RTC_ADDR + 8 \<Longrightarrow> addr \<noteq> UART_TX \<and> addr \<noteq> UART_STATUS"
  by (auto simp: mmio_addr_defs)

lemma uart_write_TX [simp]:
  "uart_write UART_TX data d = Inr (d\<lparr>stderr_bytes := stderr_bytes d @ [ucast data]\<rparr>)"
proof -
  have "(ucast (data AND 0xFF) :: u8) = ucast data"
  proof (rule bit_word_eqI)
    fix n assume "n < LENGTH(8)"
    moreover have "(0xFF :: u32) = mask 8" by (simp add: mask_eq_exp_minus_1)
    ultimately show "bit (ucast (data AND 0xFF) :: u8) n = bit (ucast data :: u8) n"
      by (simp only: bit_simps) auto
  qed
  then show ?thesis by (simp add: uart_write_def UART_TX_def)
qed

lemma uart_write_STATUS [simp]:
  "uart_write UART_STATUS data d = Inl (Panic ''[UART] Status register is not writable'')"
  by (simp add: uart_write_def UART_STATUS_def)

section \<open>Properties\<close>

text \<open>
  Writes to the mapped addresses: one within three time units of the last accepted write is
  dropped; otherwise a byte written to the UART's data register is appended to the output, a
  write to its status register stops the simulator, and a write to the clock is ignored.
\<close>

theorem mmio_write_cases:
  assumes "in_mmio addr"
  shows "mmio_write t addr data d =
    (if t - last_simtime d < 3 then Inr (skip_ref d)
     else if addr = UART_TX then
       Inr ((skip_ref d)\<lparr>last_simtime := t, stderr_bytes := stderr_bytes d @ [ucast data]\<rparr>)
     else if addr = UART_STATUS then Inl (Panic ''[UART] Status register is not writable'')
     else Inr ((skip_ref d)\<lparr>last_simtime := t\<rparr>))"
  using assms rtc_not_uart [of addr] uart_addr_neq
  by (auto simp: mmio_write_def in_mmio_def Let_def skip_ref_def)

theorem mmio_write_cases_witness:
  "mmio_write 10 UART_TX 65 \<lparr>boot_time = 0, clock = (\<lambda>_. (0, 0)), clock_reads = 0, stdin_bytes = [],
      stderr_bytes = [], last_simtime = 0, skip_difftest = 0\<rparr>
   = Inr \<lparr>boot_time = 0, clock = (\<lambda>_. (0, 0)), clock_reads = 0, stdin_bytes = [],
      stderr_bytes = [65], last_simtime = 10, skip_difftest = 1\<rparr>"
  by (subst mmio_write_cases) (simp_all add: in_mmio_def skip_ref_def)

text \<open>
  Once the boot time is set, successive readings of the simulated clock never decrease if
  the host's clock does not: the 64-bit subtraction of the boot time cannot wrap around.
\<close>

theorem get_time_monotone:
  assumes "boot_time d \<noteq> 0" and "\<And>i. micros (clock d i) \<le> micros (clock d (i + 1))"
    and "boot_time d \<le> micros (clock d (clock_reads d))"
    and "get_time d = (t1, d1)" "get_time d1 = (t2, d2)"
  shows "t1 \<le> t2"
proof -
  have "d1 = d\<lparr>clock_reads := clock_reads d + 1\<rparr>" "t1 = micros (clock d (clock_reads d)) - boot_time d"
    using assms(1,4) by (auto simp: get_time_later)
  moreover from this have "t2 = micros (clock d (clock_reads d + 1)) - boot_time d"
    using assms(1,5) by (auto simp: get_time_later)
  ultimately show ?thesis
    using assms(2) [of "clock_reads d"] assms(3)
    by (simp add: word_le_nat_alt unat_sub)
qed

definition demo_dev :: dev where
  "demo_dev = \<lparr>boot_time = 1, clock = (\<lambda>i. if i = 0 then (1, 1000) else (2, 1000)),
    clock_reads = 0, stdin_bytes = [], stderr_bytes = [], last_simtime = 0, skip_difftest = 0\<rparr>"

lemma demo_dev_get_time:
  "get_time demo_dev = (1000000, demo_dev\<lparr>clock_reads := 1\<rparr>)"
  "get_time (demo_dev\<lparr>clock_reads := 1\<rparr>) = (2000000, demo_dev\<lparr>clock_reads := 2\<rparr>)"
  by (simp_all add: demo_dev_def get_time_later micros_def)

lemma demo_dev_clock: "micros (clock demo_dev i) \<le> micros (clock demo_dev (i + 1))"
  by (cases i) (simp_all add: demo_dev_def micros_def)

theorem get_time_monotone_witness:
  "fst (get_time demo_dev) \<le> fst (get_time (snd (get_time demo_dev)))"
proof (rule get_time_monotone [OF _ demo_dev_clock])
  show "boot_time demo_dev \<noteq> 0" "boot_time demo_dev \<le> micros (clock demo_dev (clock_reads demo_dev))"
    by (simp_all add: demo_dev_def micros_def)
  show "get_time demo_dev = (fst (get_time demo_dev), snd (get_time demo_dev))"
    "get_time (snd (get_time demo_dev)) = (fst (get_time (snd (get_time demo_dev))),
       snd (get_time (snd (get_time demo_dev))))"
    by simp_all
qed

end
