(* ===== verification/Npc_Memory.thy ===== *)
theory Npc_Memory
  imports Npc_Device
begin

text \<open>
  The physical memory of the simulator and the DPI callbacks through which the simulated core
  reaches it (\<open>core/csrc/memory.cpp\<close>, \<open>memory.h\<close>), with the globals of \<open>cpu.cpp\<close> that the
  callbacks change.  \<open>pmem\<close> is the array as a function of its index; an index outside the
  array is undefined behaviour, an error of the model.
\<close>

datatype CPU_state = END | ABORT | QUIT | RUNNING | STOP

record CPU_reg =
  gpr :: "u32 list"
  cpu_pc :: u32
  mtvec :: u32
  mstatus :: u32
  mcause :: u32
  mepc :: u32

text \<open>Console output: the format of each \<open>printf\<close> with its arguments.\<close>

datatype parg = N u32 | S string
type_synonym msg = "string \<times> parg list"

record machine =
  pmem :: "int \<Rightarrow> u8"
  devs :: dev
  state :: CPU_state
  halt_ret :: u32
  halt_pc :: u32
  sim_time :: int
  console :: "msg list"

text \<open>The simulation time starts again at 0 when a wave file has this many steps.\<close>

definition MAX_WAVE_SIZE :: int where "MAX_WAVE_SIZE = 1000000"

definition printf :: "string \<Rightarrow> parg list \<Rightarrow> machine \<Rightarrow> machine" where
  "printf fmt args m = m\<lparr>console := console m @ [(fmt, args)]\<rparr>"

definition MSIZE :: int where "MSIZE = 0x08000000"
definition MBASE :: u32 where "MBASE = 0x80000000"
definition RESET_VECTOR :: u32 where "RESET_VECTOR = 0x80000000"

text \<open>The built-in program, and zeros behind it.\<close>

definition builtin_img :: "u8 list" where
  "builtin_img =
    [0x93, 0x00, 0x50, 0x00,  0x13, 0x81, 0xd0, 0xff,  0x93, 0x01, 0x60, 0xff,
     0x13, 0x82, 0xf1, 0x00,  0x93, 0x02, 0x00, 0x00,  0x13, 0x83, 0x42, 0x06,
     0x93, 0x03, 0xf0, 0x7f,  0x13, 0x04, 0x00, 0x80,  0x93, 0x84, 0x14, 0x00,
     0x73, 0x00, 0x10, 0x00]"

definition pmem_fill :: "u8 list \<Rightarrow> (int \<Rightarrow> u8) \<Rightarrow> int \<Rightarrow> u8" where
  "pmem_fill bs f = (\<lambda>i. if 0 \<le> i \<and> nat i < length bs then bs ! nat i else f i)"

definition pmem_init :: "int \<Rightarrow> u8" where
  "pmem_init = pmem_fill builtin_img (\<lambda>_. 0)"

section \<open>Host accesses\<close>

definition in_pmem :: "int \<Rightarrow> bool" where
  "in_pmem i \<longleftrightarrow> 0 \<le> i \<and> i < MSIZE"

text \<open>The pointer \<open>pmem + addr - MBASE\<close>, as an index into the array.\<close>

definition guest_to_host :: "u32 \<Rightarrow> int" where
  "guest_to_host addr = uint addr - uint MBASE"

definition load8 :: "machine \<Rightarrow> int \<Rightarrow> u8 result" where
  "load8 m i = bindR (guardR (in_pmem i) (Undefined ''pmem'')) (\<lambda>_. Inr (pmem m i))"

text \<open>A little-endian host load and store of an \<open>int\<close>.\<close>

definition load32 :: "machine \<Rightarrow> int \<Rightarrow> u32 result" where
  "load32 m i =
     bindR (guardR (in_pmem i \<and> in_pmem (i + 3)) (Undefined ''pmem'')) (\<lambda>_.
     Inr (le_word (pmem m i) (pmem m (i + 1)) (pmem m (i + 2)) (pmem m (i + 3))))"

definition store32 :: "int \<Rightarrow> u32 \<Rightarrow> machine \<Rightarrow> machine result" where
  "store32 i w m =
     bindR (guardR (in_pmem i \<and> in_pmem (i + 3)) (Undefined ''pmem'')) (\<lambda>_.
     Inr (m\<lparr>pmem := (pmem m)(i := byte_of w 0, i + 1 := byte_of w 1,
                               i + 2 := byte_of w 2, i + 3 := byte_of w 3)\<rparr>))"

section \<open>The callbacks\<close>

text \<open>The value tested; the message it prints is in the callers' models.\<close>

definition memory_out_of_bound :: "u32 \<Rightarrow> bool" where
  "memory_out_of_bound addr \<longleftrightarrow> addr < MBASE \<or> addr \<ge> MBASE + word_of_int MSIZE"

definition oob_abort :: "string \<Rightarrow> u32 \<Rightarrow> u32 \<Rightarrow> machine \<Rightarrow> machine" where
  "oob_abort what dut_pc addr m =
     (printf what [N dut_pc] (printf ''Memory access out of bound: addr = 0x%08x'' [N addr] m))
       \<lparr>state := ABORT\<rparr>"

text \<open>
  \<open>pmem_read\<close> and \<open>pmem_write\<close> as called by the core; \<open>dut_pc\<close> is the pc of
  \<open>get_cpu_state()\<close> in the error message.
\<close>

definition dpi_pmem_read :: "u32 \<Rightarrow> u32 \<Rightarrow> machine \<Rightarrow> (u32 \<times> machine) result" where
  "dpi_pmem_read dut_pc raddr m =
     (let addr = raddr in
      if in_mmio raddr then
        bindR (mmio_read raddr (devs m)) (\<lambda>(ret, d). Inr (ret, m\<lparr>devs := d\<rparr>))
      else if memory_out_of_bound addr then
        Inr (0, oob_abort ''read address out of bound'' dut_pc addr m)
      else
        bindR (load32 m (guest_to_host addr)) (\<lambda>ret. Inr (ret, m)))"

fun write_mask :: "nat \<Rightarrow> u8 \<Rightarrow> u32" where
  "write_mask 0 wmask = 0"
| "write_mask (Suc i) wmask =
     (if drop_bit i wmask AND 1 \<noteq> 0 then write_mask i wmask OR push_bit (i * 8) 0xff
      else write_mask i wmask)"

definition dpi_pmem_write :: "u32 \<Rightarrow> u32 \<Rightarrow> u32 \<Rightarrow> u8 \<Rightarrow> machine \<Rightarrow> machine result" where
  "dpi_pmem_write dut_pc waddr wdata wmask m =
     (let addr = waddr in
      if in_mmio addr then
        bindR (mmio_write (sim_time m) addr wdata (devs m)) (\<lambda>d. Inr (m\<lparr>devs := d\<rparr>))
      else if memory_out_of_bound addr then
        Inr (oob_abort ''write address out of bound'' dut_pc addr m)
      else
        let p = guest_to_host addr; mask = write_mask 4 wmask in
        bindR (load32 m p) (\<lambda>old.
        store32 p ((old AND NOT mask) OR (wdata AND mask)) m))"

section \<open>Accesses of the debugger\<close>

text \<open>The callers pass a \<open>len\<close> of 1 or 4, so the shift stays within the word.\<close>

definition pmem_read :: "machine \<Rightarrow> u32 \<Rightarrow> u8 result" where
  "pmem_read m addr = load8 m (guest_to_host addr)"

fun paddr_read :: "machine \<Rightarrow> u32 \<Rightarrow> nat \<Rightarrow> u32 result" where
  "paddr_read m addr 0 = Inr 0"
| "paddr_read m addr (Suc i) =
     bindR (paddr_read m addr i) (\<lambda>data.
     bindR (pmem_read m (addr + of_nat i)) (\<lambda>b.
     Inr (data OR push_bit (i * 8) (ucast b))))"

definition vaddr_read :: "machine \<Rightarrow> u32 \<Rightarrow> nat \<Rightarrow> u32 result" where
  "vaddr_read m addr len = paddr_read m addr len"

text \<open>
  \<open>load_img\<close>: no image, one that cannot be opened, or the bytes of the file.  An empty file
  makes \<open>fread\<close> return 0; one larger than the array overruns it.
\<close>

definition load_img :: "u8 list option option \<Rightarrow> machine \<Rightarrow> (int \<times> machine) result" where
  "load_img img_file m =
     (case img_file of
        None \<Rightarrow> Inr (40, printf ''No image is given. Use the default build-in image.'' [] m)
      | Some None \<Rightarrow> Inl (Panic ''Can not open image'')
      | Some (Some bytes) \<Rightarrow>
          let m = printf ''The image is given, size = %ld'' [N (of_nat (length bytes))] m in
          bindR (guardR (int (length bytes) \<le> MSIZE) (Undefined ''fread'')) (\<lambda>_.
          bindR (guardR (bytes \<noteq> []) (Panic ''ret == 1'')) (\<lambda>_.
          Inr (int (length bytes), m\<lparr>pmem := pmem_fill bytes (pmem m)\<rparr>))))"

section \<open>Lemmas on bytes\<close>

text \<open>The mask selects whole bytes.\<close>

lemma bit_write_mask:
  "n \<le> 4 \<Longrightarrow> bit (write_mask n wmask) i \<longleftrightarrow> i < 8 * n \<and> bit wmask (i div 8)"
proof (induction n)
  case (Suc n)
  have "drop_bit n wmask AND 1 \<noteq> 0 \<longleftrightarrow> bit wmask n"
    by (simp add: and_one_eq odd_iff_mod_2_eq_one [symmetric] bit_iff_odd_drop_bit)
  moreover have "bit (push_bit (n * 8) 0xff :: u32) i \<longleftrightarrow> n * 8 \<le> i \<and> i < n * 8 + 8"
  proof -
    have "(0xff :: u32) = mask 8" by (simp add: mask_eq_exp_minus_1)
    then show ?thesis
      using Suc.prems by (simp only: bit_push_bit_iff bit_mask_iff) auto
  qed
  moreover have "n * 8 \<le> i \<and> i < n * 8 + 8 \<Longrightarrow> i div 8 = n"
    by (rule div_nat_eqI) simp_all
  ultimately show ?case
    using Suc by (cases "i < 8 * n") (auto simp: bit_or_iff)
qed simp

lemma byte_of_merge:
  assumes "k < 4"
  shows "byte_of ((old AND NOT (write_mask 4 wmask)) OR (wdata AND write_mask 4 wmask)) k
    = (if bit wmask k then byte_of wdata k else byte_of old k)"
proof (rule bit_word_eqI)
  fix n assume "n < LENGTH(8)"
  then have n: "n < 8" "(8 * k + n) div 8 = k" "8 * k + n < 32" using assms by simp_all
  then show "bit (byte_of ((old AND NOT (write_mask 4 wmask)) OR (wdata AND write_mask 4 wmask)) k) n
      = bit (if bit wmask k then byte_of wdata k else byte_of old k) n"
    by (simp add: bit_byte_of bit_or_iff bit_and_iff bit_not_iff bit_write_mask)
qed

section \<open>Reads and writes inside the memory\<close>

text \<open>An access is inside when the word from \<open>addr\<close> lies in the array.\<close>

definition word_inside :: "u32 \<Rightarrow> bool" where
  "word_inside addr \<longleftrightarrow> in_pmem (guest_to_host addr) \<and> in_pmem (guest_to_host addr + 3)"

lemma word_inside_iff: "word_inside addr \<longleftrightarrow> 0x80000000 \<le> uint addr \<and> uint addr + 3 < 0x88000000"
  by (auto simp: word_inside_def in_pmem_def guest_to_host_def MBASE_def MSIZE_def)

lemma inside_not_mmio: "word_inside addr \<Longrightarrow> \<not> in_mmio addr"
  by (auto simp: word_inside_iff in_mmio_def mmio_addr_defs word_less_def word_le_def)

lemma inside_in_bound: "word_inside addr \<Longrightarrow> \<not> memory_out_of_bound addr"
  by (auto simp: word_inside_iff memory_out_of_bound_def MBASE_def MSIZE_def word_less_def word_le_def)

text \<open>The four bytes of a word in memory.\<close>

definition mem_byte :: "machine \<Rightarrow> u32 \<Rightarrow> nat \<Rightarrow> u8" where
  "mem_byte m addr k = pmem m (guest_to_host addr + int k)"

lemma dpi_read_inside:
  "word_inside addr \<Longrightarrow> dpi_pmem_read pc addr m = Inr
     (le_word (mem_byte m addr 0) (mem_byte m addr 1) (mem_byte m addr 2) (mem_byte m addr 3), m)"
  by (simp add: dpi_pmem_read_def inside_not_mmio inside_in_bound load32_def mem_byte_def)
    (simp add: word_inside_def)

text \<open>
  A write inside: byte \<open>k\<close> of the word changes exactly when bit \<open>k\<close> of \<open>wmask\<close> is set, and no
  other byte and no other part of the state changes.
\<close>

definition masked_write :: "u32 \<Rightarrow> u32 \<Rightarrow> u8 \<Rightarrow> machine \<Rightarrow> machine" where
  "masked_write addr wdata wmask m = m\<lparr>pmem := \<lambda>i.
     let k = i - guest_to_host addr in
     if 0 \<le> k \<and> k < 4 \<and> bit wmask (nat k) then byte_of wdata (nat k) else pmem m i\<rparr>"

lemma fun_upd_4:
  fixes p :: int and c :: "nat \<Rightarrow> 'a"
  shows "f(p := c 0, p + 1 := c 1, p + 2 := c 2, p + 3 := c 3)
    = (\<lambda>i. let k = i - p in if 0 \<le> k \<and> k < 4 then c (nat k) else f i)"
proof
  fix i
  consider "i = p" | "i = p + 1" | "i = p + 2" | "i = p + 3" | "i - p < 0 \<or> 4 \<le> i - p"
    by linarith
  then show "(f(p := c 0, p + 1 := c 1, p + 2 := c 2, p + 3 := c 3)) i
      = (let k = i - p in if 0 \<le> k \<and> k < 4 then c (nat k) else f i)"
    by cases (auto simp: Let_def)
qed

lemma byte_of_old:
  assumes "0 \<le> i - p" "i - p < 4"
  shows "byte_of (le_word (f p) (f (p + 1)) (f (p + 2)) (f (p + 3))) (nat (i - p)) = f (i :: int)"
proof -
  consider "i = p" | "i = p + 1" | "i = p + 2" | "i = p + 3"
    using assms by linarith
  then show ?thesis by cases simp_all
qed

lemma dpi_write_inside:
  assumes "word_inside addr"
  shows "dpi_pmem_write dpc addr wdata wmask m = Inr (masked_write addr wdata wmask m)"
proof -
  let ?p = "guest_to_host addr"
  let ?old = "le_word (pmem m ?p) (pmem m (?p + 1)) (pmem m (?p + 2)) (pmem m (?p + 3))"
  let ?w = "(?old AND NOT (write_mask 4 wmask)) OR (wdata AND write_mask 4 wmask)"
  have "(pmem m)(?p := byte_of ?w 0, ?p + 1 := byte_of ?w 1, ?p + 2 := byte_of ?w 2, ?p + 3 := byte_of ?w 3)
      = pmem (masked_write addr wdata wmask m)"
    unfolding fun_upd_4 [of "pmem m" ?p "byte_of ?w"]
    by (rule ext) (simp add: masked_write_def Let_def byte_of_merge byte_of_old nat_less_iff)
  then show ?thesis
    using assms
    by (simp add: dpi_pmem_write_def inside_not_mmio inside_in_bound load32_def store32_def Let_def
        word_inside_def [symmetric] masked_write_def)
qed

lemma mem_byte_masked_write:
  "k < 4 \<Longrightarrow> mem_byte (masked_write addr wdata wmask m) addr k
     = (if bit wmask k then byte_of wdata k else mem_byte m addr k)"
  by (simp add: mem_byte_def masked_write_def)

lemma masked_write_other [simp]:
  "devs (masked_write addr wdata wmask m) = devs m" "state (masked_write addr wdata wmask m) = state m"
  "sim_time (masked_write addr wdata wmask m) = sim_time m"
  "console (masked_write addr wdata wmask m) = console m"
  by (simp_all add: masked_write_def)

text \<open>The debugger's byte-by-byte read gives the same word.\<close>

lemma guest_to_host_offset:
  "word_inside addr \<Longrightarrow> k < 4 \<Longrightarrow> guest_to_host (addr + of_nat k) = guest_to_host addr + int k"
proof -
  assume "word_inside addr" "k < 4"
  then have "uint addr + int k < 2 ^ 32" by (simp add: word_inside_iff)
  moreover have "0 \<le> uint addr" by simp
  ultimately have "uint (addr + of_nat k) = uint addr + int k"
    using \<open>k < 4\<close> by (simp add: uint_word_ariths unsigned_of_nat take_bit_nat_eq_self)
  then show ?thesis by (simp add: guest_to_host_def)
qed

lemma pmem_read_inside: "word_inside addr \<Longrightarrow> k < 4 \<Longrightarrow> pmem_read m (addr + of_nat k) = Inr (mem_byte m addr k)"
proof -
  assume "word_inside addr" "k < 4"
  moreover from this have "in_pmem (guest_to_host addr + int k)"
    by (auto simp: word_inside_def in_pmem_def)
  ultimately show ?thesis
    by (simp add: pmem_read_def load8_def guest_to_host_offset mem_byte_def)
qed

lemma paddr_read_inside:
  assumes "word_inside addr"
  shows "paddr_read m addr 4 = Inr
     (le_word (mem_byte m addr 0) (mem_byte m addr 1) (mem_byte m addr 2) (mem_byte m addr 3))"
proof -
  note r = pmem_read_inside [OF assms, of 0 m] pmem_read_inside [OF assms, of 1 m]
    pmem_read_inside [OF assms, of 2 m] pmem_read_inside [OF assms, of 3 m]
  have 4: "(4 :: nat) = Suc (Suc (Suc (Suc 0)))" by simp
  show ?thesis
    using r unfolding 4 by (simp add: le_word_def or.assoc)
qed

section \<open>Properties\<close>

lemma demo_inside: "word_inside 0x80000100"
  by (simp add: word_inside_iff)

definition demo_machine :: machine where
  "demo_machine = \<lparr>pmem = pmem_init,
     devs = \<lparr>boot_time = 0, clock = (\<lambda>n. (of_nat n, 0)), clock_reads = 1, stdin_bytes = [],
             stderr_bytes = [], last_simtime = 0, skip_difftest = 0\<rparr>,
     state = RUNNING, halt_ret = 0, halt_pc = 0, sim_time = 0, console = []\<rparr>"

text \<open>
  C16. Memory round trip: after a write of a word through the core's port, a read of that
  address returns each byte whose mask bit was set, and the old byte elsewhere; the write
  changes nothing but those bytes of the memory.
\<close>

theorem dpi_write_read:
  assumes "word_inside addr"
  shows "bindR (dpi_pmem_write dpc addr wdata wmask m) (dpi_pmem_read dpc addr) = Inr
    (le_word (if bit wmask 0 then byte_of wdata 0 else mem_byte m addr 0)
             (if bit wmask 1 then byte_of wdata 1 else mem_byte m addr 1)
             (if bit wmask 2 then byte_of wdata 2 else mem_byte m addr 2)
             (if bit wmask 3 then byte_of wdata 3 else mem_byte m addr 3),
     masked_write addr wdata wmask m)"
  using assms by (simp add: dpi_write_inside dpi_read_inside mem_byte_masked_write)

theorem dpi_write_read_witness:
  "bindR (dpi_pmem_write 0 0x80000100 0x12345678 15 demo_machine) (dpi_pmem_read 0 0x80000100)
    = Inr (0x12345678, masked_write 0x80000100 0x12345678 15 demo_machine)"
  using dpi_write_read [OF demo_inside, of 0 "0x12345678" 15 demo_machine]
  by (simp add: le_word_byte_of [unfolded One_nat_def])

text \<open>
  C39. A read that is not memory-mapped gives the word when all its four bytes are inside the
  array, stops the simulation with \<open>ABORT\<close> when its first byte is outside, and overruns the
  array when only its last bytes are outside, which the bound check does not see.
\<close>

theorem dpi_read_cases:
  assumes "\<not> in_mmio addr"
  shows "dpi_pmem_read dpc addr m =
    (if word_inside addr then Inr
       (le_word (mem_byte m addr 0) (mem_byte m addr 1) (mem_byte m addr 2) (mem_byte m addr 3), m)
     else if addr \<ge> 0x80000000 \<and> addr < 0x88000000 then Inl (Undefined ''pmem'')
     else Inr (0, oob_abort ''read address out of bound'' dpc addr m))"
proof -
  have "memory_out_of_bound addr \<longleftrightarrow> \<not> (addr \<ge> 0x80000000 \<and> addr < 0x88000000)"
    by (auto simp: memory_out_of_bound_def MBASE_def MSIZE_def)
  moreover have "load32 m (guest_to_host addr) = Inl (Undefined ''pmem'')" if "\<not> word_inside addr"
    using that by (auto simp: load32_def word_inside_def guardR_def)
  ultimately show ?thesis
    using assms dpi_read_inside [of addr dpc m] by (auto simp: dpi_pmem_read_def)
qed

theorem dpi_read_cases_witness:
  "dpi_pmem_read 0 0x87fffffd demo_machine = Inl (Undefined ''pmem'')"
  using dpi_read_cases [of "0x87fffffd" 0 demo_machine]
  by (simp add: in_mmio_def mmio_addr_defs word_inside_iff)

text \<open>
  The debugger reads memory byte by byte and without a bound check; inside the array it
  sees the same word as the core.
\<close>

theorem paddr_read_agrees:
  assumes "word_inside addr"
  shows "bindR (dpi_pmem_read dpc addr m) (\<lambda>(w, _). Inr w) = paddr_read m addr 4"
  using assms by (simp add: dpi_read_inside paddr_read_inside)

theorem paddr_read_agrees_witness:
  "bindR (dpi_pmem_read 0 0x80000100 demo_machine) (\<lambda>(w, _). Inr w) = paddr_read demo_machine 0x80000100 4"
  by (rule paddr_read_agrees [OF demo_inside])

end
