(* ===== verification/Npc_Regs.thy ===== *)
theory Npc_Regs
  imports Npc_Memory
begin

text \<open>
  The interface of the verilated core and the register access of \<open>core/csrc/cpu.cpp\<close>.  The
  core is generated C++ that is not in the repository: its state is a type parameter and its
  functions are the fields of \<open>dut_ops\<close>.  One \<open>eval\<close> runs until it is done and calls back into
  the simulator on the way; the callbacks are the nodes of an \<open>act\<close> tree.  \<open>Rd\<close> and \<open>Wr\<close> are
  the memory ports, \<open>Ebreak\<close> the call of \<open>ebreak\<close>; each holds the core's state at the call.
\<close>

datatype 'd act =
    Done 'd
  | Rd 'd u32 "u32 \<Rightarrow> 'd act"
  | Wr 'd u32 u32 u8 "'d act"
  | Ebreak 'd "'d act"

text \<open>
  The fields of \<open>get_CSR\<close> are, in the order of its parameters, \<open>mtvec\<close>, \<open>mstatus\<close>, \<open>mepc\<close>
  and \<open>mcause\<close>.
\<close>

record 'd dut_ops =
  set_clk :: "u8 \<Rightarrow> 'd \<Rightarrow> 'd"
  set_rst :: "u8 \<Rightarrow> 'd \<Rightarrow> 'd"
  eval_dut :: "'d \<Rightarrow> 'd act"
  get_reg :: "'d \<Rightarrow> nat \<Rightarrow> u32"
  get_pc_inst :: "'d \<Rightarrow> u32 \<times> u32"
  get_validW :: "'d \<Rightarrow> u8"
  get_CSR :: "'d \<Rightarrow> u32 \<times> u32 \<times> u32 \<times> u32"

definition Cget_reg :: "'d dut_ops \<Rightarrow> 'd \<Rightarrow> nat \<Rightarrow> u32" where
  "Cget_reg ops d addr = get_reg ops d addr"

definition Cget_pc_inst :: "'d dut_ops \<Rightarrow> 'd \<Rightarrow> u32 \<times> u32" where
  "Cget_pc_inst ops d = get_pc_inst ops d"

definition Cget_validW :: "'d dut_ops \<Rightarrow> 'd \<Rightarrow> u8" where
  "Cget_validW ops d = get_validW ops d"

definition Cget_CSR :: "'d dut_ops \<Rightarrow> 'd \<Rightarrow> u32 \<times> u32 \<times> u32 \<times> u32" where
  "Cget_CSR ops d = get_CSR ops d"

definition regs :: "string list" where
  "regs =
    [''$0'', ''ra'', ''sp'', ''gp'', ''tp'', ''t0'', ''t1'', ''t2'',
     ''s0'', ''s1'', ''a0'', ''a1'', ''a2'', ''a3'', ''a4'', ''a5'',
     ''a6'', ''a7'', ''s2'', ''s3'', ''s4'', ''s5'', ''s6'', ''s7'',
     ''s8'', ''s9'', ''s10'', ''s11'', ''t3'', ''t4'', ''t5'', ''t6'']"

fun find_reg :: "string \<Rightarrow> nat \<Rightarrow> string list \<Rightarrow> nat option" where
  "find_reg s i [] = None"
| "find_reg s i (r # rs) = (if s = r then Some i else find_reg s (i + 1) rs)"

definition reg_str2val :: "'d dut_ops \<Rightarrow> 'd \<Rightarrow> string \<Rightarrow> u32" where
  "reg_str2val ops d s =
     (if s = ''pc'' then fst (Cget_pc_inst ops d)
      else case find_reg s 0 regs of Some i \<Rightarrow> Cget_reg ops d i | None \<Rightarrow> 0)"

text \<open>
  The call in \<open>get_cpu_state\<close> passes the fields in the order \<open>mtvec\<close>, \<open>mcause\<close>, \<open>mepc\<close>,
  \<open>mstatus\<close>.
\<close>

definition get_cpu_state :: "'d dut_ops \<Rightarrow> 'd \<Rightarrow> CPU_reg" where
  "get_cpu_state ops d =
     (let (csr_mtvec, csr_mstatus, csr_mepc, csr_mcause) = Cget_CSR ops d in
      \<lparr>gpr = map (Cget_reg ops d) [0..<32], cpu_pc = fst (Cget_pc_inst ops d),
       mtvec = csr_mtvec, mstatus = csr_mcause, mcause = csr_mstatus, mepc = csr_mepc\<rparr>)"

text \<open>The output of \<open>reg_display\<close>: eight rows of four registers, then the pc and the CSRs.\<close>

definition reg_cell :: "'d dut_ops \<Rightarrow> 'd \<Rightarrow> nat \<Rightarrow> nat \<Rightarrow> msg list" where
  "reg_cell ops d i j =
     (let idx = i + j in
      (''%-4s 0x%08x'', [S (regs ! idx), N (Cget_reg ops d idx)])
        # (if j < 3 \<and> i + j + 1 < 32 then [('' '', [])] else []))"

definition reg_row :: "'d dut_ops \<Rightarrow> 'd \<Rightarrow> nat \<Rightarrow> msg list" where
  "reg_row ops d i = concat (map (reg_cell ops d i) [0..<4]) @ [(''newline'', [])]"

definition reg_display :: "'d dut_ops \<Rightarrow> 'd \<Rightarrow> msg list" where
  "reg_display ops d =
     (let (csr_mtvec, csr_mstatus, csr_mepc, csr_mcause) = Cget_CSR ops d in
      [(''NPC Register Display'', []), (''Reg Value Reg Value Reg Value Reg Value'', []), (''----'', [])]
      @ concat (map (\<lambda>i. reg_row ops d (4 * i)) [0..<8])
      @ [(''PC:  0x%08x'', [N (fst (Cget_pc_inst ops d))]), (''mtvec: 0x%08x'', [N csr_mtvec]),
         (''mcause: 0x%08x'', [N csr_mcause]), (''mepc: 0x%08x'', [N csr_mepc]),
         (''mstatus: 0x%08x'', [N csr_mstatus]), (''===='', [])])"

section \<open>Lemmas\<close>

lemma length_regs [simp]: "length regs = 32"
  by (simp add: regs_def)

lemma distinct_regs: "distinct regs"
  by (simp add: regs_def)

lemma pc_not_reg: "''pc'' \<notin> set regs"
  by (simp add: regs_def)

lemma find_reg_nth: "distinct rs \<Longrightarrow> i < length rs \<Longrightarrow> find_reg (rs ! i) k rs = Some (k + i)"
proof (induction rs arbitrary: i k)
  case (Cons r rs)
  then show ?case by (cases i) (auto simp: nth_mem)
qed simp

lemma find_reg_None: "find_reg s k rs = None \<longleftrightarrow> s \<notin> set rs"
  by (induction rs arbitrary: k) auto

lemma find_reg_bound: "find_reg s k rs = Some i \<Longrightarrow> k \<le> i \<and> i < k + length rs \<and> rs ! (i - k) = s"
  by (induction rs arbitrary: k) (fastforce simp: Suc_diff_Suc split: if_splits)+

section \<open>Properties\<close>

text \<open>
  A register name selects the core's register of that number, \<open>pc\<close> its pc, and any other
  name gives 0 (never an error).
\<close>

theorem reg_str2val_correct:
  "reg_str2val ops d s =
    (if s = ''pc'' then fst (get_pc_inst ops d)
     else if \<exists>i < 32. s = regs ! i then get_reg ops d (THE i. i < 32 \<and> s = regs ! i) else 0)"
proof (cases "s \<in> set regs")
  case True
  then obtain i where i: "i < 32" "s = regs ! i" by (auto simp: in_set_conv_nth)
  then have "(THE i. i < 32 \<and> s = regs ! i) = i"
    using nth_eq_iff_index_eq [OF distinct_regs] by (intro the_equality) auto
  then show ?thesis
    using i True pc_not_reg find_reg_nth [OF distinct_regs, of i 0]
    by (auto simp: reg_str2val_def Cget_reg_def)
next
  case False
  then have "\<not> (\<exists>i < 32. s = regs ! i)" by (metis length_regs nth_mem)
  moreover have "find_reg s 0 regs = None" using False by (simp add: find_reg_None)
  ultimately show ?thesis by (auto simp: reg_str2val_def Cget_pc_inst_def)
qed

text \<open>
  The register state that differential testing compares has \<open>mcause\<close> and \<open>mstatus\<close>
  exchanged, because the call lists its out-parameters in another order; the other fields are
  right.
\<close>

theorem get_cpu_state_csrs:
  "get_CSR ops d = (t, s, e, c) \<Longrightarrow>
   get_cpu_state ops d = \<lparr>gpr = map (get_reg ops d) [0..<32], cpu_pc = fst (get_pc_inst ops d),
     mtvec = t, mstatus = c, mcause = s, mepc = e\<rparr>"
  by (simp add: get_cpu_state_def Cget_CSR_def Cget_reg_def Cget_pc_inst_def)

definition demo_ops :: "u32 dut_ops" where
  "demo_ops = \<lparr>set_clk = (\<lambda>_ d. d), set_rst = (\<lambda>_ d. d), eval_dut = Done, get_reg = (\<lambda>_ i. of_nat i),
     get_pc_inst = (\<lambda>d. (d, 0)), get_validW = (\<lambda>_. 1), get_CSR = (\<lambda>_. (1, 2, 3, 4))\<rparr>"

theorem get_cpu_state_csrs_witness:
  "mstatus (get_cpu_state demo_ops 0) = 4 \<and> mcause (get_cpu_state demo_ops 0) = 2"
proof -
  have "get_CSR demo_ops 0 = (1, 2, 3, 4)" by (simp add: demo_ops_def)
  from get_cpu_state_csrs [OF this] show ?thesis by simp
qed

end
