(* ===== verification/Trace.thy ===== *)
theory Trace
  imports Npc_Regs
begin

text \<open>
  The traces of the simulator, \<open>core/csrc/infrastructure/trace.c\<close>: the function symbols read
  from an ELF file, the call trace with its stack of names, and the ring buffer of the last
  instructions.  A \<open>Log\<close> is a message of the console.  The layout of the ELF structures is the
  one of \<open>elf.h\<close>; the mapped file is a list of bytes, and reading outside of it is an error.
\<close>

record func_symbol =
  fs_name :: string
  fs_addr :: u32
  fs_size :: u32

record iringbuf_unit =
  ir_pc :: u32
  ir_inst :: u32
  ir_valid :: u8

record trace =
  func_symtab :: "func_symbol list"
  func_num :: int
  ftrace_enable :: bool
  call_stack :: "string list"
  stack_depth :: int
  num_of_func_calls :: int
  iringbuf :: "iringbuf_unit list"
  iringbuf_ptr :: u32

definition ftrace_set :: "bool \<Rightarrow> trace \<Rightarrow> trace" where
  "ftrace_set enable t = t\<lparr>ftrace_enable := enable\<rparr>"

section \<open>Reading the symbols\<close>

definition rd8 :: "u8 list \<Rightarrow> nat \<Rightarrow> nat result" where
  "rd8 data i = bindR (guardR (i < length data) (Undefined ''mmap'')) (\<lambda>_. Inr (unat (data ! i)))"

definition rd16 :: "u8 list \<Rightarrow> nat \<Rightarrow> nat result" where
  "rd16 data i = bindR (rd8 data i) (\<lambda>a. bindR (rd8 data (i + 1)) (\<lambda>b. Inr (a + 256 * b)))"

definition rd32 :: "u8 list \<Rightarrow> nat \<Rightarrow> nat result" where
  "rd32 data i = bindR (rd16 data i) (\<lambda>a. bindR (rd16 data (i + 2)) (\<lambda>b. Inr (a + 65536 * b)))"

text \<open>A zero-terminated string in the file.\<close>

fun rd_chars :: "u8 list \<Rightarrow> string result" where
  "rd_chars [] = Inl (Undefined ''mmap'')"
| "rd_chars (b # bs) = (if b = 0 then Inr '''' else bindR (rd_chars bs) (\<lambda>s. Inr (char_of (unat b) # s)))"

definition rd_cstr :: "u8 list \<Rightarrow> nat \<Rightarrow> string result" where
  "rd_cstr data i = rd_chars (drop i data)"

text \<open>\<open>strcmp\<close> of a literal with a string in the file reads up to the first difference.\<close>

fun cstr_is :: "string \<Rightarrow> u8 list \<Rightarrow> bool result" where
  "cstr_is s [] = Inl (Undefined ''mmap'')"
| "cstr_is [] (b # bs) = Inr (b = 0)"
| "cstr_is (c # cs) (b # bs) = (if of_char c = unat b then cstr_is cs bs else Inr False)"

text \<open>The fields of \<open>Elf32_Ehdr\<close>, \<open>Elf32_Shdr\<close> and \<open>Elf32_Sym\<close>, at their offsets.\<close>

definition e_shoff :: "u8 list \<Rightarrow> nat result" where "e_shoff data = rd32 data 32"
definition e_shnum :: "u8 list \<Rightarrow> nat result" where "e_shnum data = rd16 data 48"
definition e_shstrndx :: "u8 list \<Rightarrow> nat result" where "e_shstrndx data = rd16 data 50"

definition sh_name :: "u8 list \<Rightarrow> nat \<Rightarrow> nat result" where "sh_name data p = rd32 data p"
definition sh_type :: "u8 list \<Rightarrow> nat \<Rightarrow> nat result" where "sh_type data p = rd32 data (p + 4)"
definition sh_offset :: "u8 list \<Rightarrow> nat \<Rightarrow> nat result" where "sh_offset data p = rd32 data (p + 16)"
definition sh_size :: "u8 list \<Rightarrow> nat \<Rightarrow> nat result" where "sh_size data p = rd32 data (p + 20)"
definition sh_entsize :: "u8 list \<Rightarrow> nat \<Rightarrow> nat result" where "sh_entsize data p = rd32 data (p + 36)"

definition st_name :: "u8 list \<Rightarrow> nat \<Rightarrow> nat result" where "st_name data p = rd32 data p"
definition st_value :: "u8 list \<Rightarrow> nat \<Rightarrow> nat result" where "st_value data p = rd32 data (p + 4)"
definition st_size :: "u8 list \<Rightarrow> nat \<Rightarrow> nat result" where "st_size data p = rd32 data (p + 8)"
definition st_info :: "u8 list \<Rightarrow> nat \<Rightarrow> nat result" where "st_info data p = rd8 data (p + 12)"
definition st_shndx :: "u8 list \<Rightarrow> nat \<Rightarrow> nat result" where "st_shndx data p = rd16 data (p + 14)"

text \<open>
  The loop over the section headers, from header \<open>i\<close> with \<open>k\<close> to go: the offset of the symbol
  table, its number of entries and the offset of the string table.
\<close>

fun scan_sections ::
  "u8 list \<Rightarrow> nat \<Rightarrow> nat \<Rightarrow> nat \<Rightarrow> nat \<Rightarrow> nat \<times> nat \<times> nat option \<Rightarrow> (nat \<times> nat \<times> nat option) result"
where
  "scan_sections data shoff shstrtab i 0 acc = Inr acc"
| "scan_sections data shoff shstrtab i (Suc k) (symtab, sym_num, strtab) =
     (let p = shoff + 40 * i in
      bindR (sh_type data p) (\<lambda>ty.
      if ty = 2 then
        bindR (sh_offset data p) (\<lambda>off.
        bindR (sh_size data p) (\<lambda>size.
        bindR (sh_entsize data p) (\<lambda>entsize.
        bindR (guardR (entsize \<noteq> 0) (Undefined ''division by zero'')) (\<lambda>_.
        scan_sections data shoff shstrtab (i + 1) k (off, size div entsize, strtab)))))
      else if ty = 3 then
        bindR (sh_name data p) (\<lambda>name.
        bindR (cstr_is ''.strtab'' (drop (shstrtab + name) data)) (\<lambda>eq.
        if eq then
          bindR (sh_offset data p) (\<lambda>off.
          scan_sections data shoff shstrtab (i + 1) k (symtab, sym_num, Some off))
        else scan_sections data shoff shstrtab (i + 1) k (symtab, sym_num, strtab)))
      else scan_sections data shoff shstrtab (i + 1) k (symtab, sym_num, strtab)))"

definition is_func :: "u8 list \<Rightarrow> nat \<Rightarrow> bool result" where
  "is_func data p =
     bindR (st_info data p) (\<lambda>info.
     if info mod 16 = 2 then bindR (st_shndx data p) (\<lambda>shndx. Inr (shndx \<noteq> 0)) else Inr False)"

text \<open>The two loops over the symbols: the first counts, the second fills the table.\<close>

fun count_funcs :: "u8 list \<Rightarrow> nat \<Rightarrow> nat \<Rightarrow> int \<Rightarrow> int result" where
  "count_funcs data p 0 n = Inr n"
| "count_funcs data p (Suc k) n =
     bindR (is_func data p) (\<lambda>b. count_funcs data (p + 16) k (if b then n + 1 else n))"

fun load_funcs :: "u8 list \<Rightarrow> nat option \<Rightarrow> nat \<Rightarrow> nat \<Rightarrow> func_symbol list \<Rightarrow> func_symbol list result" where
  "load_funcs data strtab p 0 tab = Inr tab"
| "load_funcs data strtab p (Suc k) tab =
     bindR (is_func data p) (\<lambda>b.
     if b then
       bindR (case strtab of None \<Rightarrow> Inl (Undefined ''NULL'') | Some off \<Rightarrow> Inr off) (\<lambda>off.
       bindR (st_name data p) (\<lambda>nm.
       bindR (rd_cstr data (off + nm)) (\<lambda>name.
       bindR (st_value data p) (\<lambda>value.
       bindR (st_size data p) (\<lambda>size.
       load_funcs data strtab (p + 16) k
         (tab @ [\<lparr>fs_name = name, fs_addr = of_nat value, fs_size = of_nat size\<rparr>]))))))
     else load_funcs data strtab (p + 16) k tab)"

definition init_trace ::
  "u8 list option option \<Rightarrow> trace \<times> machine \<Rightarrow> (trace \<times> machine) result" where
  "init_trace elf_file = (\<lambda>(t, m).
     case elf_file of
       None \<Rightarrow> Inr (ftrace_set False t, printf ''FTrace: OFF'' [] m)
     | Some None \<Rightarrow> Inl (Panic ''Can not open ELF file'')
     | Some (Some data) \<Rightarrow>
         bindR (guardR (data \<noteq> []) (Panic ''Can not mmap'')) (\<lambda>_.
         bindR (rd32 data 0) (\<lambda>magic.
         bindR (guardR (magic = 0x464c457f) (Panic ''not an ELF file'')) (\<lambda>_.
         bindR (e_shoff data) (\<lambda>shoff.
         bindR (e_shstrndx data) (\<lambda>shstrndx.
         bindR (sh_offset data (shoff + 40 * shstrndx)) (\<lambda>shstrtab.
         bindR (e_shnum data) (\<lambda>shnum.
         bindR (scan_sections data shoff shstrtab 0 shnum (0, 0, None)) (\<lambda>(symtab, sym_num, strtab).
         bindR (count_funcs data symtab sym_num (func_num t)) (\<lambda>n.
         bindR (load_funcs data strtab symtab sym_num []) (\<lambda>tab.
         let t = ftrace_set True (t\<lparr>func_num := n, func_symtab := tab\<rparr>) in
         Inr (t, printf ''Ftrace: ON - Loaded %d function symbols'' [N (of_int n)] m))))))))))))"

section \<open>The call trace\<close>

text \<open>\<open>snprintf\<close> into \<open>len\<close> bytes keeps \<open>len - 1\<close> characters.\<close>

fun find_func :: "u32 \<Rightarrow> func_symbol list \<Rightarrow> string option" where
  "find_func addr [] = None"
| "find_func addr (f # fs) =
     (if addr \<ge> fs_addr f \<and> addr < fs_addr f + fs_size f then Some (fs_name f) else find_func addr fs)"

definition where_am_I :: "u32 \<Rightarrow> nat \<Rightarrow> trace \<Rightarrow> string" where
  "where_am_I addr len t =
     take (len - 1) (case find_func addr (take (nat (func_num t)) (func_symtab t)) of
       Some name \<Rightarrow> name | None \<Rightarrow> ''???'')"

text \<open>
  The indentation of a message, three characters per call in a buffer of 256: once a piece
  starts behind the end of the buffer, the space left wraps around to a huge value and the
  buffer is overrun.
\<close>

definition indent_str :: "int \<Rightarrow> string result" where
  "indent_str n =
     bindR (guardR (3 * n \<le> 256) (Undefined ''indent'')) (\<lambda>_.
     Inr (take 255 (concat (replicate (nat n) ''|  '') @ ''+- '')))"

definition ftrace_decode :: "nat \<Rightarrow> nat \<Rightarrow> u32 \<Rightarrow> u32 \<Rightarrow> trace \<times> machine \<Rightarrow> (trace \<times> machine) result" where
  "ftrace_decode rd rs pc dnpc = (\<lambda>(t, m).
     if rd = 1 then
       let func_name = where_am_I dnpc 128 t in
       bindR (if stack_depth t < 32 then
                bindR (guardR (0 \<le> stack_depth t) (Undefined ''call_stack'')) (\<lambda>_.
                Inr (t\<lparr>call_stack := (call_stack t)[nat (stack_depth t) := take 127 func_name]\<rparr>))
              else Inr t) (\<lambda>t.
       bindR (indent_str (num_of_func_calls t)) (\<lambda>indent.
       let m = printf ''0x%08x: %s call %s@0x%08x (depth: %d)''
                 [N pc, S indent, S func_name, N dnpc, N (of_int (num_of_func_calls t + 1))] m;
           t = t\<lparr>num_of_func_calls := num_of_func_calls t + 1\<rparr>;
           t = t\<lparr>stack_depth := stack_depth t + 1\<rparr>
       in Inr (t, m)))
     else if rd = 0 \<and> rs = 1 then
       let t = t\<lparr>num_of_func_calls := num_of_func_calls t - 1\<rparr>;
           t = t\<lparr>stack_depth := stack_depth t - 1\<rparr>;
           func_name = where_am_I pc 128 t
       in bindR (indent_str (num_of_func_calls t)) (\<lambda>indent.
          let name_match = (stack_depth t \<ge> 0 \<and> stack_depth t < 32 \<and>
                call_stack t ! nat (stack_depth t) = func_name);
              m = printf ''0x%08x: %s ret %s%s (depth: %d)''
                 [N pc, S indent, S func_name, S (if name_match then '''' else '' [MISMATCH!]''),
                  N (of_int (num_of_func_calls t))] m
          in Inr (t, m))
     else Inr (t, m))"

text \<open>The macros of \<open>common.h\<close>, on the host's 64-bit integers.\<close>

definition BITS :: "u32 \<Rightarrow> nat \<Rightarrow> nat \<Rightarrow> u64" where
  "BITS x hi lo = ucast (drop_bit lo x) AND mask (hi - lo + 1)"

definition SEXT :: "u64 \<Rightarrow> nat \<Rightarrow> u64" where
  "SEXT x len = signed_drop_bit (64 - len) (push_bit (64 - len) x)"

definition jal_imm :: "u32 \<Rightarrow> u32" where
  "jal_imm inst = ucast
     (push_bit 20 (SEXT (BITS inst 31 31) 1) OR push_bit 1 (BITS inst 30 21)
      OR push_bit 11 (BITS inst 20 20) OR push_bit 12 (BITS inst 19 12))"

definition jalr_imm :: "u32 \<Rightarrow> u32" where
  "jalr_imm inst = ucast (push_bit 11 (SEXT (BITS inst 31 31) 1) OR push_bit 1 (BITS inst 30 20))"

definition ftrace ::
  "'d dut_ops \<Rightarrow> 'd \<Rightarrow> u32 \<Rightarrow> u32 \<Rightarrow> trace \<times> machine \<Rightarrow> (trace \<times> machine) result" where
  "ftrace ops d pc inst = (\<lambda>(t, m).
     if \<not> ftrace_enable t then Inr (t, m)
     else
       let is_jal = (inst AND 0x7F = 0x6F); is_jalr = (inst AND 0x7067 = 0x67) in
       if \<not> (is_jal \<or> is_jalr) then Inr (t, m)
       else if is_jal then
         let rd = unat (drop_bit 7 inst AND 0x1F); dnpc = pc + jal_imm inst
         in ftrace_decode rd 0 pc dnpc (t, m)
       else
         let rd = unat (drop_bit 7 inst AND 0x1F); rs = unat (drop_bit 15 inst AND 0x1F);
             src = Cget_reg ops d rs; dnpc = (src + jalr_imm inst) AND 0xFFFFFFFE
         in ftrace_decode rd rs pc dnpc (t, m))"

text \<open>
  \<open>display_call_stack\<close> builds its indentation with \<open>strcat\<close> in 64 bytes, which the 22nd level
  overruns.
\<close>

fun call_stack_loop :: "nat \<Rightarrow> nat \<Rightarrow> trace \<Rightarrow> machine \<Rightarrow> machine result" where
  "call_stack_loop i 0 t m = Inr m"
| "call_stack_loop i (Suc k) t m =
     bindR (guardR (3 * i + 3 < 64) (Undefined ''indent'')) (\<lambda>_.
     call_stack_loop (i + 1) k t
       (printf ''%s %s (level %d)'' [S (concat (replicate i ''|  '') @ ''+- ''), S (call_stack t ! i), N (of_nat i)] m))"

definition display_call_stack :: "trace \<times> machine \<Rightarrow> machine result" where
  "display_call_stack = (\<lambda>(t, m).
     if \<not> ftrace_enable t \<or> stack_depth t \<le> 0 then Inr m
     else
       let m = printf ''=== Current Call Stack (depth: %d) ==='' [N (of_int (stack_depth t))] m in
       bindR (call_stack_loop 0 (min (nat (stack_depth t)) 32) t m) (\<lambda>m.
       Inr (printf ''==='' [] m)))"

definition free_trace :: "trace \<times> machine \<Rightarrow> trace \<times> machine" where
  "free_trace = (\<lambda>(t, m).
     let t = t\<lparr>func_symtab := []\<rparr>;
         t = t\<lparr>num_of_func_calls := 0, stack_depth := 0, func_num := 0\<rparr>
     in (t, if ftrace_enable t then printf ''Ftrace: OFF'' [] m else m))"

section \<open>The instruction ring buffer\<close>

definition IRNGBUF_LEN :: nat where "IRNGBUF_LEN = 32"

definition write_iringbuf :: "u32 \<Rightarrow> u32 \<Rightarrow> trace \<Rightarrow> trace" where
  "write_iringbuf pc inst t =
     (let p = unat (iringbuf_ptr t) in
      t\<lparr>iringbuf := (iringbuf t)[p := \<lparr>ir_pc = pc, ir_inst = inst, ir_valid = 1\<rparr>],
        iringbuf_ptr := (iringbuf_ptr t + 1) mod of_nat IRNGBUF_LEN\<rparr>)"

text \<open>
  The buffer is displayed in the order of the array; \<open>disasm\<close> is the disassembler (a library).
  The comparison \<open>i == iringbuf_ptr - 1\<close> is unsigned.
\<close>

definition display_iringbuf :: "(u32 \<Rightarrow> u32 \<Rightarrow> string) \<Rightarrow> trace \<times> machine \<Rightarrow> machine" where
  "display_iringbuf disasm = (\<lambda>(t, m).
     foldl (\<lambda>m i.
       let u = iringbuf t ! i in
       if ir_valid u \<noteq> 0 then
         printf (if of_nat i = iringbuf_ptr t - 1 then ''==>%s'' else ''   %s'')
           [N (ir_pc u), N (ir_inst u), S (disasm (ir_pc u) (ir_inst u))] m
       else m) m [0..<IRNGBUF_LEN])"

section \<open>The symbol table\<close>

text \<open>The two loops agree, so the table has as many entries as were counted.\<close>

lemma count_load_funcs:
  "count_funcs data p k n = Inr n' \<Longrightarrow> load_funcs data strtab p k tab = Inr tab' \<Longrightarrow>
   n' - n = int (length tab') - int (length tab)"
proof (induction k arbitrary: p n tab)
  case (Suc k)
  obtain b where b: "is_func data p = Inr b" "count_funcs data (p + 16) k (if b then n + 1 else n) = Inr n'"
    using Suc.prems(1) by (auto simp: bindR_Inr_iff)
  show ?case
  proof (cases b)
    case True
    then obtain e where "load_funcs data strtab (p + 16) k (tab @ [e]) = Inr tab'"
      using Suc.prems(2) b by (auto simp: bindR_Inr_iff)
    then show ?thesis using Suc.IH [of "p + 16" "n + 1" "tab @ [e]"] b True by simp
  next
    case False
    then show ?thesis using Suc.IH [of "p + 16" n tab] Suc.prems(2) b by simp
  qed
qed simp

lemma init_trace_table:
  "init_trace (Some (Some data)) (t, m) = Inr (t', m') \<Longrightarrow> func_num t = 0 \<Longrightarrow>
   func_num t' = int (length (func_symtab t')) \<and> ftrace_enable t'"
  by (auto simp: init_trace_def bindR_Inr_iff ftrace_set_def dest: count_load_funcs)

section \<open>The ring buffer\<close>

definition iring_wf :: "trace \<Rightarrow> bool" where
  "iring_wf t \<longleftrightarrow> length (iringbuf t) = IRNGBUF_LEN \<and> unat (iringbuf_ptr t) < IRNGBUF_LEN"

text \<open>The entry written \<open>i\<close> writes before the last one.\<close>

definition iring_recent :: "trace \<Rightarrow> nat \<Rightarrow> iringbuf_unit" where
  "iring_recent t i = iringbuf t ! ((unat (iringbuf_ptr t) + 31 - i) mod 32)"

lemma unat_ptr_step: "unat p < 32 \<Longrightarrow> unat ((p + 1) mod of_nat IRNGBUF_LEN :: u32) = (unat p + 1) mod 32"
  by (simp add: IRNGBUF_LEN_def unat_mod unat_word_ariths)

lemma write_iringbuf_wf: "iring_wf t \<Longrightarrow> iring_wf (write_iringbuf pc inst t)"
  using unat_ptr_step [of "iringbuf_ptr t"]
  by (simp add: iring_wf_def write_iringbuf_def Let_def IRNGBUF_LEN_def)

lemma iring_recent_write:
  assumes "iring_wf t" "i < 32"
  shows "iring_recent (write_iringbuf pc inst t) i =
    (if i = 0 then \<lparr>ir_pc = pc, ir_inst = inst, ir_valid = 1\<rparr> else iring_recent t (i - 1))"
proof -
  define p where "p = unat (iringbuf_ptr t)"
  have p: "p < 32" "length (iringbuf t) = 32" using assms by (simp_all add: p_def iring_wf_def IRNGBUF_LEN_def)
  have "((p + 1) mod 32 + 31 - i) mod 32 = (if i = 0 then p else (p + 31 - (i - 1)) mod 32)"
    using p assms(2) by (cases "p = 31") (auto simp: mod_if)
  moreover have "i \<noteq> 0 \<Longrightarrow> (p + 31 - (i - 1)) mod 32 \<noteq> p"
    using p assms(2) by (auto simp: mod_if split: if_splits)
  ultimately show ?thesis
    using p unat_ptr_step [of "iringbuf_ptr t"]
    by (auto simp: iring_recent_def write_iringbuf_def Let_def p_def [symmetric])
qed

fun write_all :: "(u32 \<times> u32) list \<Rightarrow> trace \<Rightarrow> trace" where
  "write_all [] t = t"
| "write_all ((pc, inst) # xs) t = write_all xs (write_iringbuf pc inst t)"

lemma write_all_append: "write_all (xs @ ys) t = write_all ys (write_all xs t)"
  by (induction xs t rule: write_all.induct) simp_all

lemma write_all_wf: "iring_wf t \<Longrightarrow> iring_wf (write_all xs t)"
  by (induction xs t rule: write_all.induct) (simp_all add: write_iringbuf_wf)

lemma iring_recent_all:
  assumes "iring_wf t" "i < length xs" "i < 32"
  shows "iring_recent (write_all xs t) i =
    \<lparr>ir_pc = fst (rev xs ! i), ir_inst = snd (rev xs ! i), ir_valid = 1\<rparr>"
  using assms(2,3)
proof (induction xs arbitrary: i rule: rev_induct)
  case (snoc x xs)
  obtain pc inst where x: "x = (pc, inst)" by (cases x)
  have wf: "iring_wf (write_all xs t)" using assms(1) by (rule write_all_wf)
  show ?case
    using snoc.prems snoc.IH [of "i - 1"]
    by (cases i) (auto simp: write_all_append x iring_recent_write [OF wf])
qed simp

section \<open>Decoding\<close>

lemma bit_BITS: "bit (BITS x hi lo) i \<longleftrightarrow> i < hi - lo + 1 \<and> i < 64 \<and> bit x (lo + i)"
  by (auto simp: BITS_def bit_simps dest: bit_imp_le_length)

lemma bit_sign: "i < 64 \<Longrightarrow> bit (SEXT (BITS x 31 31) 1) i \<longleftrightarrow> bit x 31"
proof -
  assume "i < 64"
  moreover have "63 \<le> (if 64 - Suc 63 \<le> i then 64 - Suc 0 else 63 + i)" by simp
  ultimately show ?thesis
    by (simp add: SEXT_def bit_signed_drop_bit_iff bit_push_bit_iff bit_BITS)
qed

lemma bit_jal_imm:
  assumes "i < 32"
  shows "bit (jal_imm inst) i =
    (if i = 0 then False else if i < 11 then bit inst (i + 20) else if i = 11 then bit inst 20
     else if i < 20 then bit inst i else bit inst 31)"
  using assms
  unfolding jal_imm_def
  by (simp only: bit_ucast_iff bit_or_iff bit_push_bit_iff bit_BITS)
    (auto simp: bit_sign [unfolded One_nat_def] add.commute split: if_splits)

lemma bit_jalr_imm:
  assumes "i < 32"
  shows "bit (jalr_imm inst) i =
    (i \<ge> 11 \<and> bit inst 31 \<or> 1 \<le> i \<and> i \<le> 11 \<and> bit inst (i + 19))"
  using assms
  unfolding jalr_imm_def
  by (simp only: bit_ucast_iff bit_or_iff bit_push_bit_iff bit_BITS)
    (auto simp: bit_sign [unfolded One_nat_def] add.commute split: if_splits)

section \<open>Nested calls\<close>

datatype call_ev = Call nat u32 u32 | Ret u32 u32

fun run_ev :: "call_ev \<Rightarrow> trace \<times> machine \<Rightarrow> (trace \<times> machine) result" where
  "run_ev (Call rs pc dnpc) = ftrace_decode 1 rs pc dnpc"
| "run_ev (Ret pc dnpc) = ftrace_decode 0 1 pc dnpc"

fun run_evs :: "call_ev list \<Rightarrow> trace \<times> machine \<Rightarrow> (trace \<times> machine) result" where
  "run_evs [] tm = Inr tm"
| "run_evs (e # es) tm = bindR (run_ev e tm) (run_evs es)"

text \<open>Properly nested sequences of calls and returns, with their height.\<close>

inductive nested :: "call_ev list \<Rightarrow> nat \<Rightarrow> bool" where
  nested_Nil: "nested [] 0"
| nested_Call: "nested xs h \<Longrightarrow> nested ys k \<Longrightarrow> nested (Call rs pc dnpc # xs @ Ret pc' dnpc' # ys) (max (Suc h) k)"

definition trace_at :: "nat \<Rightarrow> trace \<Rightarrow> bool" where
  "trace_at n t \<longleftrightarrow> stack_depth t = int n \<and> num_of_func_calls t = int n \<and> length (call_stack t) = 32"

lemma run_evs_append: "run_evs (xs @ ys) tm = bindR (run_evs xs tm) (run_evs ys)"
  by (induction xs arbitrary: tm) (simp_all add: bindR_assoc cong: bindR_cong)

lemma run_call:
  assumes "trace_at n t" "n \<le> 85"
  shows "\<exists>t' m'. run_ev (Call rs pc dnpc) (t, m) = Inr (t', m') \<and> trace_at (Suc n) t' \<and>
    func_symtab t' = func_symtab t \<and> func_num t' = func_num t \<and>
    (\<forall>i < n. call_stack t' ! i = call_stack t ! i) \<and>
    (n < 32 \<longrightarrow> call_stack t' ! n = where_am_I dnpc 128 t)"
  using assms
  by (auto simp: ftrace_decode_def trace_at_def indent_str_def guardR_def Let_def where_am_I_def)

lemma run_ret:
  assumes "trace_at (Suc n) t" "n \<le> 85"
  shows "\<exists>t' m'. run_ev (Ret pc dnpc) (t, m) = Inr (t', m') \<and> trace_at n t' \<and>
    func_symtab t' = func_symtab t \<and> func_num t' = func_num t \<and> call_stack t' = call_stack t"
  using assms
  by (auto simp: ftrace_decode_def trace_at_def indent_str_def guardR_def Let_def)

lemma run_nested:
  "nested evs h \<Longrightarrow> trace_at n t \<Longrightarrow> n + h \<le> 86 \<Longrightarrow>
   \<exists>t' m'. run_evs evs (t, m) = Inr (t', m') \<and> trace_at n t' \<and>
     (\<forall>i < n. call_stack t' ! i = call_stack t ! i)"
proof (induction evs h arbitrary: n t m rule: nested.induct)
  case nested_Nil
  then show ?case by simp
next
  case (nested_Call xs h ys k rs pc dnpc pc' dnpc')
  have n: "n \<le> 85" "Suc n + h \<le> 86" "n + k \<le> 86" using nested_Call.prems by simp_all
  obtain t1 m1 where 1: "run_ev (Call rs pc dnpc) (t, m) = Inr (t1, m1)" "trace_at (Suc n) t1"
    "\<forall>i < n. call_stack t1 ! i = call_stack t ! i"
    using run_call [OF nested_Call.prems(1) n(1)] by blast
  obtain t2 m2 where 2: "run_evs xs (t1, m1) = Inr (t2, m2)" "trace_at (Suc n) t2"
    "\<forall>i < Suc n. call_stack t2 ! i = call_stack t1 ! i"
    using nested_Call.IH(1) [OF 1(2) n(2)] by blast
  obtain t3 m3 where 3: "run_ev (Ret pc' dnpc') (t2, m2) = Inr (t3, m3)" "trace_at n t3"
    "call_stack t3 = call_stack t2"
    using run_ret [OF 2(2) n(1)] by blast
  obtain t4 m4 where 4: "run_evs ys (t3, m3) = Inr (t4, m4)" "trace_at n t4"
    "\<forall>i < n. call_stack t4 ! i = call_stack t3 ! i"
    using nested_Call.IH(2) [OF 3(2) n(3)] by blast
  show ?case
    using 1 2 3 4 by (intro exI [of _ t4] exI [of _ m4]) (simp add: run_evs_append del: run_ev.simps)
qed

section \<open>Properties\<close>

text \<open>
  After any number of writes the ring buffer holds the last 32 instructions: the entry
  \<open>i\<close> places behind the write pointer is the \<open>i\<close>-th last one written.
\<close>

theorem iringbuf_last:
  assumes "iring_wf t" "i < length xs" "i < 32"
  shows "iring_recent (write_all xs t) i =
    \<lparr>ir_pc = fst (rev xs ! i), ir_inst = snd (rev xs ! i), ir_valid = 1\<rparr>"
  by (rule iring_recent_all [OF assms])

definition demo_trace :: trace where
  "demo_trace = \<lparr>func_symtab = [], func_num = 0, ftrace_enable = True, call_stack = replicate 32 '''',
     stack_depth = 0, num_of_func_calls = 0,
     iringbuf = replicate 32 \<lparr>ir_pc = 0, ir_inst = 0, ir_valid = 0\<rparr>, iringbuf_ptr = 0\<rparr>"

lemma demo_trace_wf: "iring_wf demo_trace" "trace_at 0 demo_trace"
  by (simp_all add: iring_wf_def demo_trace_def IRNGBUF_LEN_def trace_at_def)

theorem iringbuf_last_witness:
  "iring_recent (write_all [(4, 7), (8, 9)] demo_trace) 1 = \<lparr>ir_pc = 4, ir_inst = 7, ir_valid = 1\<rparr>"
  using iringbuf_last [OF demo_trace_wf(1), of 1 "[(4, 7), (8, 9)]"] by simp

text \<open>
  The offset of \<open>jal\<close> is decoded as the instruction set defines it, bit by bit: the bits
  10 to 1, 11 and 19 to 12 from their scattered fields, and the sign above.
\<close>

theorem jal_imm_correct:
  "i < 32 \<Longrightarrow> bit (jal_imm inst) i =
    (if i = 0 then False else if i < 11 then bit inst (i + 20) else if i = 11 then bit inst 20
     else if i < 20 then bit inst i else bit inst 31)"
  by (rule bit_jal_imm)

theorem jal_imm_correct_witness:
  "bit (jal_imm 0x008000ef) 3"
  using jal_imm_correct [of 3 "0x008000ef"] by (simp add: bit_numeral_rec)

text \<open>
  The offset of \<open>jalr\<close> is not: for a non-negative offset the call trace uses twice the
  offset that the instruction encodes.
\<close>

theorem jalr_imm_doubled:
  assumes "\<not> bit inst 31"
  shows "jalr_imm inst = 2 * drop_bit 20 inst"
proof -
  have "bit (jalr_imm inst) i = bit (push_bit 1 (drop_bit 20 inst)) i" if "i < 32" for i
  proof -
    have "bit (push_bit 1 (drop_bit 20 inst)) i \<longleftrightarrow> 1 \<le> i \<and> bit inst (i + 19)"
      using that by (cases i) (simp_all only: bit_push_bit_iff bit_drop_bit_eq, auto simp: add.commute)
    moreover have "\<not> bit inst (i + 19)" if "11 < i"
    proof
      assume "bit inst (i + 19)"
      then have "i + 19 < 32" using bit_imp_le_length by fastforce
      then have "i + 19 = 31" using that by simp
      then show False using assms \<open>bit inst (i + 19)\<close> by simp
    qed
    ultimately show ?thesis
      using that assms bit_jalr_imm [of i inst] by (auto simp: not_le)
  qed
  then have "jalr_imm inst = push_bit 1 (drop_bit 20 inst)"
    by (intro bit_word_eqI) simp
  then show ?thesis by (simp add: push_bit_eq_mult mult.commute)
qed

theorem jalr_imm_doubled_witness:
  "jalr_imm 0x00408067 = 8"
  using jalr_imm_doubled [of "0x00408067"] by (simp add: bit_numeral_rec)

text \<open>
  Properly nested calls and returns keep the call trace consistent: they restore the depth
  and leave the names below it alone, as long as the depth stays within 86, where the
  indentation of the messages fits its buffer.
\<close>

theorem ftrace_nested:
  assumes "nested evs h" "trace_at n t" "n + h \<le> 86"
  shows "\<exists>t' m'. run_evs evs (t, m) = Inr (t', m') \<and> trace_at n t' \<and>
     (\<forall>i < n. call_stack t' ! i = call_stack t ! i)"
  by (rule run_nested [OF assms])

theorem ftrace_nested_witness:
  "\<exists>t' m'. run_evs [Call 0 0x80000000 0x80000100, Ret 0x80000110 0x80000004] (demo_trace, demo_machine)
      = Inr (t', m') \<and> trace_at 0 t'"
proof -
  have "nested [Call 0 0x80000000 0x80000100, Ret 0x80000110 0x80000004] 1"
    using nested_Call [OF nested_Nil nested_Nil, of 0 "0x80000000" "0x80000100" "0x80000110" "0x80000004"]
    by simp
  from ftrace_nested [OF this demo_trace_wf(2), of demo_machine] show ?thesis by auto
qed

end
