(* ===== verification/Difftest.thy ===== *)
theory Difftest
  imports Trace
begin

text \<open>
  Differential testing, \<open>core/csrc/infrastructure/difftest.c\<close>: after every instruction the
  register state of the core is compared with that of a reference model.  The reference is a
  shared library that is loaded at run time: its state is a type parameter and its functions
  are the fields of \<open>ref_ops\<close>.
\<close>

record 'r ref_ops =
  ref_difftest_init :: "u32 \<Rightarrow> 'r \<Rightarrow> 'r"
  ref_difftest_memcpy :: "u32 \<Rightarrow> u8 list \<Rightarrow> 'r \<Rightarrow> 'r"
  ref_regcpy_to_ref :: "CPU_reg \<Rightarrow> 'r \<Rightarrow> 'r"
  ref_regcpy_to_dut :: "'r \<Rightarrow> CPU_reg"
  ref_difftest_exec :: "nat \<Rightarrow> 'r \<Rightarrow> 'r"

record memdiff_t =
  store_pc :: u32
  store_data :: u32

record 'r diff =
  dut_memdiff :: memdiff_t
  skip_ref_reg :: u8
  ref :: 'r

definition SKIP_DELAY :: nat where "SKIP_DELAY = 1"

text \<open>
  \<open>handle\<close> is the library with all its symbols, or \<open>None\<close> when loading it or one of the
  symbols fails.  The reference gets the image and the register state.
\<close>

definition init_difftest ::
  "'d dut_ops \<Rightarrow> 'd \<Rightarrow> 'r ref_ops \<Rightarrow> string option \<Rightarrow> 'r option \<Rightarrow> int \<Rightarrow> u32 \<Rightarrow> 'r diff \<times> machine
   \<Rightarrow> ('r diff \<times> machine) result"
where
  "init_difftest ops d rops ref_so_file handle img_size port = (\<lambda>(df, m).
     case ref_so_file of
       None \<Rightarrow> Inl (Panic ''ref_so_file != NULL'')
     | Some so \<Rightarrow>
         let m = printf ''ref_so_file:%s'' [S so] m in
         (case handle of
            None \<Rightarrow> Inl (Panic ''handle'')
          | Some r \<Rightarrow>
              let m = printf ''Differential testing: ON'' [] m;
                  r = ref_difftest_init rops port r;
                  r = ref_difftest_memcpy rops RESET_VECTOR
                        (map (\<lambda>i. pmem m (guest_to_host RESET_VECTOR + int i)) [0..<nat img_size]) r;
                  this_r = get_cpu_state ops d;
                  r = ref_regcpy_to_ref rops this_r r
              in Inr (df\<lparr>ref := r\<rparr>, m)))"

definition difftest_skip_ref :: "'r diff \<Rightarrow> 'r diff" where
  "difftest_skip_ref df =
     (let df = df\<lparr>skip_ref_reg := push_bit 1 (skip_ref_reg df)\<rparr>
      in df\<lparr>skip_ref_reg := skip_ref_reg df OR 1\<rparr>)"

text \<open>Each comparison of \<open>difftest_checkregs\<close>: the flag it clears and the message it logs.\<close>

definition cmp_field :: "string \<Rightarrow> u32 \<Rightarrow> u32 \<Rightarrow> bool \<times> machine \<Rightarrow> bool \<times> machine" where
  "cmp_field what r tv = (\<lambda>(flag, m).
     if tv \<noteq> r then (False, printf (what @ '' mismatch: ref = 0x%08x, dut = 0x%08x'') [N r, N tv] m)
     else (flag, m))"

definition cmp_gpr :: "CPU_reg \<Rightarrow> CPU_reg \<Rightarrow> nat \<Rightarrow> bool \<times> machine \<Rightarrow> bool \<times> machine" where
  "cmp_gpr ref_r this_r i = (\<lambda>(flag, m).
     if gpr this_r ! i \<noteq> gpr ref_r ! i
     then (False, printf ''reg[%d] mismatch: ref = 0x%08x, dut = 0x%08x''
             [N (of_nat i), N (gpr ref_r ! i), N (gpr this_r ! i)] m)
     else (flag, m))"

definition difftest_checkregs ::
  "'d dut_ops \<Rightarrow> 'd \<Rightarrow> CPU_reg \<Rightarrow> machine \<Rightarrow> bool \<times> machine" where
  "difftest_checkregs ops d ref_r m =
     (let this_r = get_cpu_state ops d;
          r = (True, m);
          r = cmp_field ''PC'' (cpu_pc ref_r) (cpu_pc this_r) r;
          r = foldl (\<lambda>r i. cmp_gpr ref_r this_r i r) r [0..<32];
          r = cmp_field ''mtvec'' (mtvec ref_r) (mtvec this_r) r;
          r = cmp_field ''mstatus'' (mstatus ref_r) (mstatus this_r) r;
          r = cmp_field ''mcause'' (mcause ref_r) (mcause this_r) r;
          r = cmp_field ''mepc'' (mepc ref_r) (mepc this_r) r
      in r)"

definition difftest_checkmem :: "'r diff \<Rightarrow> memdiff_t \<Rightarrow> machine \<Rightarrow> bool \<times> machine" where
  "difftest_checkmem df ref_memdiff m =
     (if store_pc (dut_memdiff df) \<noteq> store_pc ref_memdiff \<or>
         store_data (dut_memdiff df) \<noteq> store_data ref_memdiff
      then (False, printf ''Memory mismatch'' [] m) else (True, m))"

definition display_ref_dut_regs :: "'d dut_ops \<Rightarrow> 'd \<Rightarrow> CPU_reg \<Rightarrow> machine \<Rightarrow> machine" where
  "display_ref_dut_regs ops d ref_r m =
     (let this_r = get_cpu_state ops d;
          m = printf ''=== Register Comparison (REF vs DUT) ==='' [] m;
          m = foldl (\<lambda>m k. let i = 2 * k in
                printf ''x%-2d(%-3s): 0x%08x | 0x%08x  x%-2d(%-3s): 0x%08x | 0x%08x''
                  [N (of_nat i), S (regs ! i), N (gpr ref_r ! i), N (gpr this_r ! i),
                   N (of_nat (i + 1)), S (regs ! (i + 1)), N (gpr ref_r ! (i + 1)), N (gpr this_r ! (i + 1))] m)
                m [0..<16];
          m = printf ''=== Control and Status Registers ==='' [] m;
          m = printf ''PC     : 0x%08x | 0x%08x'' [N (cpu_pc ref_r), N (cpu_pc this_r)] m;
          m = printf ''mtvec  : 0x%08x | 0x%08x'' [N (mtvec ref_r), N (mtvec this_r)] m;
          m = printf ''mstatus: 0x%08x | 0x%08x'' [N (mstatus ref_r), N (mstatus this_r)] m;
          m = printf ''mcause : 0x%08x | 0x%08x'' [N (mcause ref_r), N (mcause this_r)] m;
          m = printf ''mepc   : 0x%08x | 0x%08x'' [N (mepc ref_r), N (mepc this_r)] m
      in printf ''===='' [] m)"

definition display_ref_dut_memlog :: "'r diff \<Rightarrow> memdiff_t \<Rightarrow> machine \<Rightarrow> machine" where
  "display_ref_dut_memlog df r m =
     printf ''store_data: ref = 0x%08x, dut = 0x%08x'' [N (store_data r), N (store_data (dut_memdiff df))]
       (printf ''store_pc: ref = 0x%08x, dut = 0x%08x'' [N (store_pc r), N (store_pc (dut_memdiff df))] m)"

text \<open>\<open>display_error_msg\<close> of \<open>npc.cpp\<close> displays the instruction ring buffer.\<close>

definition display_error_msg :: "(u32 \<Rightarrow> u32 \<Rightarrow> string) \<Rightarrow> trace \<Rightarrow> machine \<Rightarrow> machine" where
  "display_error_msg disasm t m = display_iringbuf disasm (t, m)"

definition checkregs ::
  "(u32 \<Rightarrow> u32 \<Rightarrow> string) \<Rightarrow> 'd dut_ops \<Rightarrow> 'd \<Rightarrow> CPU_reg \<Rightarrow> u32 \<Rightarrow> trace \<Rightarrow> machine \<Rightarrow> machine" where
  "checkregs disasm ops d r pc t m =
     (let (ok, m) = difftest_checkregs ops d r m in
      if \<not> ok then
        let m = m\<lparr>state := ABORT\<rparr>;
            m = m\<lparr>halt_pc := pc\<rparr>;
            m = display_ref_dut_regs ops d r m
        in display_error_msg disasm t m
      else m)"

definition checkmem :: "(u32 \<Rightarrow> u32 \<Rightarrow> string) \<Rightarrow> 'r diff \<Rightarrow> memdiff_t \<Rightarrow> trace \<Rightarrow> machine \<Rightarrow> machine" where
  "checkmem disasm df r t m =
     (let (ok, m) = difftest_checkmem df r m in
      if \<not> ok then
        let m = m\<lparr>state := ABORT\<rparr>;
            m = m\<lparr>halt_pc := store_pc r\<rparr>;
            m = printf ''Memory mismatch detected at store_pc: 0x%08x'' [N (store_pc r)] m;
            m = display_ref_dut_memlog df r m
        in display_error_msg disasm t m
      else m)"

definition difftest_step ::
  "(u32 \<Rightarrow> u32 \<Rightarrow> string) \<Rightarrow> 'd dut_ops \<Rightarrow> 'd \<Rightarrow> 'r ref_ops \<Rightarrow> u32 \<Rightarrow> trace \<Rightarrow> 'r diff \<times> machine
   \<Rightarrow> 'r diff \<times> machine"
where
  "difftest_step disasm ops d rops pc t = (\<lambda>(df, m).
     if skip_ref_reg df AND push_bit SKIP_DELAY 1 \<noteq> 0 then
       let this_r = get_cpu_state ops d
       in (df\<lparr>ref := ref_regcpy_to_ref rops this_r (ref df)\<rparr>, m)
     else
       let df = df\<lparr>ref := ref_difftest_exec rops 1 (ref df)\<rparr>;
           ref_r = ref_regcpy_to_dut rops (ref df)
       in (df, checkregs disasm ops d ref_r pc t m))"

section \<open>Lemmas\<close>

text \<open>Messages change nothing but the console.\<close>

definition same_but_console :: "machine \<Rightarrow> machine \<Rightarrow> bool" where
  "same_but_console m m' \<longleftrightarrow> (\<exists>c. m' = m\<lparr>console := c\<rparr>)"

lemma sbc_refl [simp]: "same_but_console m m"
  unfolding same_but_console_def by (metis machine.surjective machine.update_convs(7))

lemma sbc_printf [simp]: "same_but_console m (printf f a m') \<longleftrightarrow> same_but_console m m'"
proof
  assume "same_but_console m m'"
  then show "same_but_console m (printf f a m')" by (auto simp: same_but_console_def printf_def)
next
  assume "same_but_console m (printf f a m')"
  then obtain c where "printf f a m' = m\<lparr>console := c\<rparr>" by (auto simp: same_but_console_def)
  then have "m' = m\<lparr>console := console m'\<rparr>"
    by (cases m; cases m') (simp add: printf_def)
  then show "same_but_console m m'" unfolding same_but_console_def by blast
qed

lemma sbc_trans: "same_but_console a b \<Longrightarrow> same_but_console b c \<Longrightarrow> same_but_console a c"
  by (auto simp: same_but_console_def)

lemma sbc_fields:
  "same_but_console m m' \<Longrightarrow> state m' = state m \<and> pmem m' = pmem m \<and> devs m' = devs m \<and>
     halt_pc m' = halt_pc m \<and> halt_ret m' = halt_ret m \<and> sim_time m' = sim_time m"
  by (auto simp: same_but_console_def)

lemma sbc_foldl: "(\<And>m x. same_but_console m (f m x)) \<Longrightarrow> same_but_console m (foldl f m xs)"
proof (induction xs arbitrary: m)
  case (Cons x xs)
  then show ?case by simp (metis sbc_trans)
qed simp

lemma sbc_display_iringbuf: "same_but_console m (display_iringbuf disasm (t, m))"
  by (simp add: display_iringbuf_def Let_def) (rule sbc_foldl, simp add: Let_def)

lemma sbc_display_regs: "same_but_console m (display_ref_dut_regs ops d r m)"
  by (simp add: display_ref_dut_regs_def Let_def) (rule sbc_trans [OF _ sbc_foldl], simp_all)

text \<open>The comparison finds every difference.\<close>

lemma cmp_field_flag: "fst (cmp_field what r tv fm) \<longleftrightarrow> fst fm \<and> tv = r"
  by (cases fm) (simp add: cmp_field_def)

lemma cmp_gpr_flag: "fst (cmp_gpr r tv i fm) \<longleftrightarrow> fst fm \<and> gpr tv ! i = gpr r ! i"
  by (cases fm) (simp add: cmp_gpr_def)

lemma cmp_gprs_flag:
  "fst (foldl (\<lambda>fm i. cmp_gpr r tv i fm) fm xs) \<longleftrightarrow> fst fm \<and> (\<forall>i \<in> set xs. gpr tv ! i = gpr r ! i)"
  by (induction xs arbitrary: fm) (auto simp: cmp_gpr_flag)

lemma checkregs_flag:
  assumes "length (gpr r) = 32"
  shows "fst (difftest_checkregs ops d r m) \<longleftrightarrow> get_cpu_state ops d = r"
proof -
  let ?t = "get_cpu_state ops d"
  have "length (gpr ?t) = 32" by (simp add: get_cpu_state_def split: prod.split)
  then have "(\<forall>i \<in> set [0..<32]. gpr ?t ! i = gpr r ! i) \<longleftrightarrow> gpr ?t = gpr r"
    using assms by (auto intro: nth_equalityI)
  then show ?thesis
    by (auto simp: difftest_checkregs_def Let_def cmp_field_flag cmp_gprs_flag
        simp del: set_upt intro: CPU_reg.equality)
qed

lemma skip_bit: "bit (skip_ref_reg (difftest_skip_ref df)) i \<longleftrightarrow> i = 0 \<or> i < 8 \<and> bit (skip_ref_reg df) (i - 1) \<and> 0 < i"
  by (auto simp: difftest_skip_ref_def bit_or_iff bit_push_bit_iff bit_1_iff bit_simps simp del: push_bit_of_1
      simp flip: One_nat_def)

lemma skip_twice: "bit (skip_ref_reg (difftest_skip_ref (difftest_skip_ref df))) 1"
  by (simp add: skip_bit)

lemma skip_many: "2 \<le> n \<Longrightarrow> bit (skip_ref_reg ((difftest_skip_ref ^^ n) df)) 1"
proof -
  assume "2 \<le> n"
  then obtain k where "n = Suc (Suc k)" by (metis Suc_le_D le_add_diff_inverse numeral_2_eq_2 plus_nat.simps(2))
  then show ?thesis using skip_twice by simp
qed

lemma skip_test: "skip_ref_reg df AND push_bit SKIP_DELAY 1 \<noteq> 0 \<longleftrightarrow> bit (skip_ref_reg df) 1"
proof -
  have "push_bit 1 1 = (push_bit 1 (mask 1) :: u8)" by simp
  then have "skip_ref_reg df AND push_bit 1 1 = 0 \<longleftrightarrow> (\<forall>i. 1 \<le> i \<and> i < 1 + 1 \<longrightarrow> \<not> bit (skip_ref_reg df) i)"
    by (simp only: and_field_eq_0_iff)
  also have "\<dots> \<longleftrightarrow> \<not> bit (skip_ref_reg df) 1"
    by (auto simp: less_Suc_eq_le dest: le_antisym)
  finally show ?thesis by (simp only: SKIP_DELAY_def not_not)
qed

lemma checkregs_state:
  assumes "length (gpr r) = 32"
  shows "state (checkregs disasm ops d r dpc t m) = (if get_cpu_state ops d = r then state m else ABORT)"
proof -
  obtain ok m1 where c: "difftest_checkregs ops d r m = (ok, m1)" by (metis surj_pair)
  have ok: "ok \<longleftrightarrow> get_cpu_state ops d = r" using checkregs_flag [OF assms, of ops d m] c by simp
  have "same_but_console m m1"
  proof -
    have f: "same_but_console m (snd (cmp_field w x y fm)) \<longleftrightarrow> same_but_console m (snd fm)" for w x y fm
      by (cases fm) (simp add: cmp_field_def)
    have g: "same_but_console m (snd fm) \<Longrightarrow> same_but_console m (snd (foldl (\<lambda>fm i. cmp_gpr x y i fm) fm xs))" for x y fm xs
      by (induction xs arbitrary: fm) (auto simp: cmp_gpr_def split: prod.split)
    show ?thesis
      using c g by (simp add: difftest_checkregs_def Let_def) (metis f snd_conv sbc_refl)
  qed
  then have "state m1 = state m" using sbc_fields by blast
  moreover have "state (display_error_msg disasm t (display_ref_dut_regs ops d r (m1\<lparr>state := ABORT, halt_pc := dpc\<rparr>))) = ABORT"
    using sbc_fields [OF sbc_display_regs [of "m1\<lparr>state := ABORT, halt_pc := dpc\<rparr>" ops d r]]
      sbc_fields [OF sbc_display_iringbuf [of "display_ref_dut_regs ops d r (m1\<lparr>state := ABORT, halt_pc := dpc\<rparr>)" disasm t]]
    by (simp add: display_error_msg_def)
  ultimately show ?thesis by (simp add: checkregs_def c ok)
qed

section \<open>Properties\<close>

text \<open>
  C17. When nothing is skipped, one step runs the reference for one instruction and stops the
  simulation exactly when the pc, a general register, \<open>mtvec\<close> or \<open>mepc\<close> of the core differs from the
  reference's, or when \<open>mstatus\<close> of the core differs from \<open>mcause\<close> of the reference or the other way
  round: the state given to the comparison has these two exchanged.
\<close>

theorem difftest_step_correct:
  assumes "\<not> bit (skip_ref_reg df) 1" "get_CSR ops d = (csr_mtvec, csr_mstatus, csr_mepc, csr_mcause)"
    and "ref_regcpy_to_dut rops (ref_difftest_exec rops 1 (ref df)) = r" "length (gpr r) = 32"
  shows "ref (fst (difftest_step disasm ops d rops dpc t (df, m))) = ref_difftest_exec rops 1 (ref df) \<and>
    state (snd (difftest_step disasm ops d rops dpc t (df, m))) =
      (if fst (get_pc_inst ops d) = cpu_pc r \<and> (\<forall>i<32. get_reg ops d i = gpr r ! i) \<and>
          csr_mtvec = mtvec r \<and> csr_mepc = mepc r \<and> csr_mstatus = mcause r \<and> csr_mcause = mstatus r
       then state m else ABORT)"
proof -
  have "map (get_reg ops d) [0..<32] = gpr r \<longleftrightarrow> (\<forall>i<32. get_reg ops d i = gpr r ! i)"
    using assms(4) by (auto simp: list_eq_iff_nth_eq)
  then have "get_cpu_state ops d = r \<longleftrightarrow> fst (get_pc_inst ops d) = cpu_pc r \<and> (\<forall>i<32. get_reg ops d i = gpr r ! i) \<and>
      csr_mtvec = mtvec r \<and> csr_mepc = mepc r \<and> csr_mstatus = mcause r \<and> csr_mcause = mstatus r"
    unfolding get_cpu_state_csrs [OF assms(2)] by (cases r) (simp del: upt_rec upt_Suc, blast)
  then show ?thesis using assms(1,3) skip_test [of df] checkregs_state [OF assms(4), of disasm ops d dpc t m]
    by (simp add: difftest_step_def)
qed

definition demo_rops :: "CPU_reg ref_ops" where
  "demo_rops = \<lparr>ref_difftest_init = (\<lambda>_ r. r), ref_difftest_memcpy = (\<lambda>_ _ r. r),
     ref_regcpy_to_ref = (\<lambda>r _. r), ref_regcpy_to_dut = (\<lambda>r. r), ref_difftest_exec = (\<lambda>_ r. r)\<rparr>"

definition demo_diff :: "CPU_reg diff" where
  "demo_diff = \<lparr>dut_memdiff = \<lparr>store_pc = 0, store_data = 0\<rparr>, skip_ref_reg = 0,
     ref = (get_cpu_state demo_ops 0)\<lparr>cpu_pc := 4\<rparr>\<rparr>"

theorem difftest_step_correct_witness:
  "state (snd (difftest_step (\<lambda>_ _. ''nop'') demo_ops 0 demo_rops 0 demo_trace (demo_diff, demo_machine))) = ABORT"
proof -
  have "get_CSR demo_ops 0 = (1, 2, 3, 4)" "\<not> bit (skip_ref_reg demo_diff) 1"
    "ref_regcpy_to_dut demo_rops (ref_difftest_exec demo_rops 1 (ref demo_diff)) = (get_cpu_state demo_ops 0)\<lparr>cpu_pc := 4\<rparr>"
    "length (gpr ((get_cpu_state demo_ops 0)\<lparr>cpu_pc := 4\<rparr>)) = 32"
    by (simp_all add: demo_diff_def demo_rops_def demo_ops_def get_cpu_state_def split: prod.split)
  from difftest_step_correct [OF this(2,1,3,4)] show ?thesis by (simp add: demo_ops_def)
qed

text \<open>
  The skip register only ever gains bits: from the second skipped instruction on no step
  compares anything again, whatever the core does.
\<close>

theorem difftest_skip_forever:
  assumes "2 \<le> n"
  shows "snd (difftest_step disasm ops d rops dpc t ((difftest_skip_ref ^^ n) df, m)) = m"
  using skip_many [OF assms, of df] skip_test [of "(difftest_skip_ref ^^ n) df"]
  by (simp add: difftest_step_def)

theorem difftest_skip_forever_witness:
  "snd (difftest_step (\<lambda>_ _. ''nop'') demo_ops 0 demo_rops 0 demo_trace
     ((difftest_skip_ref ^^ 2) demo_diff, demo_machine)) = demo_machine"
  by (rule difftest_skip_forever) simp

end
