(* ===== verification/Expr_Lex.thy ===== *)
theory Expr_Lex
  imports Npc_Regs
begin

text \<open>
  The lexer of the debugger's expressions, \<open>make_token\<close> of
  \<open>core/csrc/infrastructure/expr.c\<close>.  All regular expressions of the table are a literal
  prefix, followed in some by one or more characters of a class, so a \<open>pattern\<close> is that pair;
  \<open>match_pattern\<close> is the length of the longest match at the start of the string, which is what
  \<open>regexec\<close> reports when the leftmost match starts there.
\<close>

datatype token_type =
    TK_NOTYPE | TK_EQ | TK_DEC | TK_HEX | TK_REG | TK_NEQ | TK_GE | TK_LE | TK_GT | TK_LT
  | TK_AND | TK_OR | TK_DEREF | TK_NEG
  | TK_plus | TK_minus | TK_star | TK_slash | TK_lparen | TK_rparen

record token =
  tok_type :: token_type
  tok_str :: string

type_synonym pattern = "string \<times> (char \<Rightarrow> bool) option"

definition is_space :: "char \<Rightarrow> bool" where "is_space c \<longleftrightarrow> c = CHR '' ''"

definition is_digit :: "char \<Rightarrow> bool" where
  "is_digit c \<longleftrightarrow> c \<in> set ''0123456789''"

definition is_xdigit :: "char \<Rightarrow> bool" where
  "is_xdigit c \<longleftrightarrow> c \<in> set ''0123456789abcdefABCDEF''"

definition is_alnum :: "char \<Rightarrow> bool" where
  "is_alnum c \<longleftrightarrow> c \<in> set ''0123456789abcdefghijklmnopqrstuvwxyzABCDEFGHIJKLMNOPQRSTUVWXYZ''"

definition rules :: "(pattern \<times> token_type) list" where
  "rules =
    [((''''  , Some is_space), TK_NOTYPE),
     ((''=='', None), TK_EQ),
     ((''!='', None), TK_NEQ),
     ((''>='', None), TK_GE),
     ((''<='', None), TK_LE),
     ((''>'', None), TK_GT),
     ((''<'', None), TK_LT),
     ((''&&'', None), TK_AND),
     ((''||'', None), TK_OR),
     ((''0x'', Some is_xdigit), TK_HEX),
     (('''', Some is_digit), TK_DEC),
     ((''$'', Some is_alnum), TK_REG),
     ((''+'', None), TK_plus),
     ((''-'', None), TK_minus),
     ((''*'', None), TK_star),
     ((''/'', None), TK_slash),
     ((''('', None), TK_lparen),
     (('')'', None), TK_rparen)]"

definition MAX_TOKEN :: nat where "MAX_TOKEN = 128"

text \<open>The size of \<open>token.str\<close>.\<close>

definition STR_SIZE :: nat where "STR_SIZE = 32"

definition match_pattern :: "pattern \<Rightarrow> string \<Rightarrow> nat option" where
  "match_pattern pat s =
     (let (lit, cls) = pat in
      if take (length lit) s \<noteq> lit then None
      else case cls of
        None \<Rightarrow> Some (length lit)
      | Some P \<Rightarrow>
          (let run = length (takeWhile P (drop (length lit) s)) in
           if run = 0 then None else Some (length lit + run)))"

fun match_rules :: "(pattern \<times> token_type) list \<Rightarrow> string \<Rightarrow> (nat \<times> token_type) option" where
  "match_rules [] s = None"
| "match_rules ((pat, ty) # rs) s =
     (case match_pattern pat s of Some len \<Rightarrow> Some (len, ty) | None \<Rightarrow> match_rules rs s)"

lemma match_pattern_bound:
  assumes "match_pattern pat s = Some len" "pat \<noteq> ('''', None)"
  shows "0 < len \<and> len \<le> length s"
proof -
  obtain lit cls where pat: "pat = (lit, cls)" by (cases pat)
  have "take (length lit) s = lit" using assms(1) by (auto simp: pat match_pattern_def split: if_splits)
  then have lit: "length lit \<le> length s" by (metis length_take min.cobounded1)
  show ?thesis
  proof (cases cls)
    case None
    then show ?thesis
      using assms lit by (auto simp: pat match_pattern_def split: if_splits)
  next
    case (Some P)
    have "length (takeWhile P (drop (length lit) s)) \<le> length s - length lit"
      using length_takeWhile_le [of P "drop (length lit) s"] by simp
    then show ?thesis
      using assms(1) Some lit by (auto simp: pat match_pattern_def Let_def split: if_splits)
  qed
qed

lemma match_rules_bound:
  "match_rules rs s = Some (len, ty) \<Longrightarrow> ('''', None) \<notin> fst ` set rs \<Longrightarrow> 0 < len \<and> len \<le> length s"
  by (induction rs s rule: match_rules.induct)
    (auto split: option.splits dest: match_pattern_bound)

lemma match_rules_rules: "match_rules rules s = Some (len, ty) \<Longrightarrow> 0 < len \<and> len \<le> length s"
  by (erule match_rules_bound) (simp add: rules_def)

section \<open>The token loop\<close>

text \<open>
  A token whose text does not fit in \<open>str\<close> with its terminator overruns it: the cut is at
  \<open>MAX_TOKEN\<close>, not at the size of the array.
\<close>

function make_token_loop ::
  "string \<Rightarrow> nat \<Rightarrow> token list \<Rightarrow> machine \<Rightarrow> (token list option \<times> machine) result" where
  "make_token_loop e position toks m =
     (if position \<ge> length e then Inr (Some toks, m)
      else case match_rules rules (drop position e) of
        None \<Rightarrow> Inr (None, printf ''no match at position %d'' [N (of_nat position), S e] m)
      | Some (substr_len, ty) \<Rightarrow>
          (let substr = take substr_len (drop position e); position = position + substr_len in
           if length toks \<ge> MAX_TOKEN then Inr (None, printf ''Too many tokens~'' [] m)
           else if ty = TK_NOTYPE then make_token_loop e position toks m
           else
             let substr = (if substr_len \<ge> MAX_TOKEN then take (MAX_TOKEN - 1) substr else substr) in
             bindR (guardR (length substr < STR_SIZE) (Undefined ''token.str'')) (\<lambda>_.
             make_token_loop e position (toks @ [\<lparr>tok_type = ty, tok_str = substr\<rparr>]) m)))"
  by auto
termination
  by (relation "measure (\<lambda>(e, position, _, _). length e - position)")
    (auto dest!: match_rules_rules)

declare make_token_loop.simps [simp del]

definition make_token :: "string \<Rightarrow> machine \<Rightarrow> (token list option \<times> machine) result" where
  "make_token e m = make_token_loop e 0 [] m"

section \<open>Lexemes\<close>

text \<open>The texts of the tokens of a kind.\<close>

fun lexeme_text :: "token_type \<Rightarrow> string \<Rightarrow> bool" where
  "lexeme_text TK_EQ s = (s = ''=='')"
| "lexeme_text TK_NEQ s = (s = ''!='')"
| "lexeme_text TK_GE s = (s = ''>='')"
| "lexeme_text TK_LE s = (s = ''<='')"
| "lexeme_text TK_GT s = (s = ''>'')"
| "lexeme_text TK_LT s = (s = ''<'')"
| "lexeme_text TK_AND s = (s = ''&&'')"
| "lexeme_text TK_OR s = (s = ''||'')"
| "lexeme_text TK_HEX s = (\<exists>ds. s = ''0x'' @ ds \<and> ds \<noteq> '''' \<and> list_all is_xdigit ds)"
| "lexeme_text TK_DEC s = (s \<noteq> '''' \<and> list_all is_digit s)"
| "lexeme_text TK_REG s = (\<exists>ds. s = ''$'' @ ds \<and> ds \<noteq> '''' \<and> list_all is_alnum ds)"
| "lexeme_text TK_plus s = (s = ''+'')"
| "lexeme_text TK_minus s = (s = ''-'')"
| "lexeme_text TK_star s = (s = ''*'')"
| "lexeme_text TK_slash s = (s = ''/'')"
| "lexeme_text TK_lparen s = (s = ''('')"
| "lexeme_text TK_rparen s = (s = '')'')"
| "lexeme_text _ s = False"

definition lexeme :: "token \<Rightarrow> bool" where
  "lexeme t \<longleftrightarrow> lexeme_text (tok_type t) (tok_str t) \<and> length (tok_str t) < STR_SIZE"

text \<open>What may follow a token without becoming part of it: the end or a space.\<close>

definition sep :: "string \<Rightarrow> bool" where
  "sep rest \<longleftrightarrow> rest = '''' \<or> hd rest = CHR '' ''"

lemma takeWhile_sep:
  "list_all P xs \<Longrightarrow> sep rest \<Longrightarrow> \<not> P (CHR '' '') \<Longrightarrow> takeWhile P (xs @ rest) = xs"
  by (induction xs) (cases rest; simp add: sep_def)+

lemma match_rules_dec:
  assumes "s \<noteq> ''''" "list_all is_digit s" "sep rest"
  shows "match_rules rules (s @ rest) = Some (length s, TK_DEC)"
proof -
  obtain c cs where s: "s = c # cs" using assms(1) by (cases s) auto
  have c: "c \<in> set ''0123456789''" using assms(2) by (simp add: s is_digit_def)
  have "takeWhile is_digit (s @ rest) = s"
    by (rule takeWhile_sep [OF assms(2,3)]) (simp add: is_digit_def)
  moreover have "take (Suc 0) (cs @ rest) \<noteq> ''x''"
  proof (cases cs)
    case Nil
    then show ?thesis using assms(3) by (cases rest) (auto simp: sep_def)
  next
    case (Cons c' cs')
    then show ?thesis using assms(2) by (auto simp: s is_digit_def)
  qed
  ultimately show ?thesis
    using c by (auto simp: s rules_def match_pattern_def is_space_def)
qed

lemma takeWhile_head: "takeWhile P (c # xs) = (if P c then c # takeWhile P xs else [])"
  by simp

lemma match_rules_lexeme:
  assumes "lexeme_text ty s" "sep rest"
  shows "match_rules rules (s @ rest) = Some (length s, ty)"
proof (cases ty)
  case TK_HEX
  then obtain ds where ds: "s = ''0x'' @ ds" "ds \<noteq> ''''" "list_all is_xdigit ds"
    using assms(1) by auto
  have "takeWhile is_xdigit (ds @ rest) = ds"
    by (rule takeWhile_sep [OF ds(3) assms(2)]) (simp add: is_xdigit_def)
  then show ?thesis
    using ds TK_HEX by (simp add: rules_def match_pattern_def is_space_def)
next
  case TK_REG
  then obtain ds where ds: "s = ''$'' @ ds" "ds \<noteq> ''''" "list_all is_alnum ds"
    using assms(1) by auto
  have "takeWhile is_alnum (ds @ rest) = ds"
    by (rule takeWhile_sep [OF ds(3) assms(2)]) (simp add: is_alnum_def)
  then show ?thesis
    using ds TK_REG by (simp add: rules_def match_pattern_def is_space_def is_digit_def)
next
  case TK_DEC
  then show ?thesis using assms match_rules_dec by simp
qed (use assms in \<open>cases rest; auto simp: sep_def rules_def match_pattern_def is_space_def is_digit_def\<close>)+

lemma match_rules_space:
  assumes "rest = '''' \<or> hd rest \<noteq> CHR '' ''"
  shows "match_rules rules (CHR '' '' # rest) = Some (1, TK_NOTYPE)"
  using assms by (cases rest) (auto simp: rules_def match_pattern_def is_space_def)

section \<open>Printing and lexing back\<close>

text \<open>Each token followed by a space.\<close>

definition unlex :: "token list \<Rightarrow> string" where
  "unlex ts = concat (map (\<lambda>t. tok_str t @ '' '') ts)"

lemma lexeme_hd: "lexeme t \<Longrightarrow> tok_str t \<noteq> '''' \<and> hd (tok_str t) \<noteq> CHR '' ''"
  by (cases "tok_type t"; cases "tok_str t") (auto simp: lexeme_def is_digit_def)

lemma unlex_hd: "list_all lexeme ts \<Longrightarrow> unlex ts = '''' \<or> hd (unlex ts) \<noteq> CHR '' ''"
  by (cases ts) (auto simp: unlex_def dest: lexeme_hd)

lemma lexeme_not_notype: "lexeme t \<Longrightarrow> tok_type t \<noteq> TK_NOTYPE"
  by (auto simp: lexeme_def)

lemma make_token_loop_unlex:
  assumes "list_all lexeme ts" "length toks + length ts < MAX_TOKEN"
  shows "make_token_loop (pre @ unlex ts) (length pre) toks m = Inr (Some (toks @ ts), m)"
  using assms
proof (induction ts arbitrary: pre toks)
  case Nil
  then show ?case by (subst make_token_loop.simps) (simp add: unlex_def)
next
  case (Cons t ts)
  let ?s = "tok_str t" and ?pre = "pre @ tok_str t @ '' ''"
  have t: "lexeme_text (tok_type t) ?s" "length ?s < STR_SIZE" "?s \<noteq> ''''"
    using Cons.prems(1) lexeme_hd by (auto simp: lexeme_def)
  have e: "pre @ unlex (t # ts) = ?pre @ unlex ts" by (simp add: unlex_def)
  have m1: "match_rules rules (?s @ CHR '' '' # unlex ts) = Some (length ?s, tok_type t)"
    using match_rules_lexeme [OF t(1), of "CHR '' '' # unlex ts"] by (simp add: sep_def)
  have m2: "match_rules rules (CHR '' '' # unlex ts) = Some (1, TK_NOTYPE)"
    using match_rules_space unlex_hd Cons.prems(1) by simp
  have tok: "\<lparr>tok_type = tok_type t, tok_str = ?s\<rparr> = t" by simp
  have "make_token_loop (?pre @ unlex ts) (length pre) toks m
      = make_token_loop (?pre @ unlex ts) (length pre + length ?s) (toks @ [t]) m"
    using Cons.prems t m1 lexeme_not_notype [of t]
    by (subst make_token_loop.simps) (simp add: STR_SIZE_def MAX_TOKEN_def Let_def tok)
  also have "\<dots> = make_token_loop (?pre @ unlex ts) (length ?pre) (toks @ [t]) m"
    using Cons.prems m2
    by (subst make_token_loop.simps) (simp add: MAX_TOKEN_def Let_def)
  also have "\<dots> = Inr (Some (toks @ t # ts), m)"
    using Cons.IH [of "toks @ [t]" ?pre] Cons.prems by simp
  finally show ?case by (simp only: e)
qed

lemma make_token_unlex:
  "list_all lexeme ts \<Longrightarrow> length ts < MAX_TOKEN \<Longrightarrow> make_token (unlex ts) m = Inr (Some ts, m)"
  using make_token_loop_unlex [of ts "[]" "''''" m] by (simp add: make_token_def)

text \<open>
  Lexing is a left inverse of printing: any sequence of at most 127 tokens whose texts fit
  their arrays, printed with a space after each, is read back as the same tokens.
\<close>

theorem make_token_roundtrip:
  assumes "list_all lexeme ts" "length ts < 128"
  shows "make_token (unlex ts) m = Inr (Some ts, m)"
  using assms by (simp add: make_token_unlex MAX_TOKEN_def)

theorem make_token_roundtrip_witness:
  "make_token (unlex [\<lparr>tok_type = TK_DEC, tok_str = ''12''\<rparr>, \<lparr>tok_type = TK_plus, tok_str = ''+''\<rparr>,
      \<lparr>tok_type = TK_REG, tok_str = ''$a0''\<rparr>]) demo_machine
   = Inr (Some [\<lparr>tok_type = TK_DEC, tok_str = ''12''\<rparr>, \<lparr>tok_type = TK_plus, tok_str = ''+''\<rparr>,
      \<lparr>tok_type = TK_REG, tok_str = ''$a0''\<rparr>], demo_machine)"
  by (rule make_token_roundtrip) (simp_all add: lexeme_def STR_SIZE_def is_digit_def is_alnum_def)

end
