(* ===== verification/Expr.thy ===== *)
theory Expr
  imports Expr_Lex
begin

text \<open>
  Evaluation of the debugger's expressions, \<open>core/csrc/infrastructure/expr.c\<close>.  The range
  \<open>[p, q)\<close> of the token array is a list.  \<open>eval\<close> reports its errors through \<open>errflag\<close>: a
  result is \<open>Val\<close> of the value or \<open>Err\<close> of the flag (the value is then 0); ending the process
  by an assertion or a division by zero is an error of the \<open>result\<close>.
\<close>

section \<open>The code\<close>

datatype paren = PAREN_INVALID | PAREN_MATCH | PAREN_DISMATCH

fun paren_loop :: "int \<Rightarrow> bool \<Rightarrow> token list \<Rightarrow> int \<times> bool" where
  "paren_loop i dismatch_flag [] = (i, dismatch_flag)"
| "paren_loop i dismatch_flag (t # ts) =
     (let i = (if tok_type t = TK_lparen then i + 1 else i);
          i = (if tok_type t = TK_rparen then i - 1 else i)
      in paren_loop i (if i = 0 \<and> ts \<noteq> [] then True else dismatch_flag) ts)"

definition check_parenthesis :: "token list \<Rightarrow> paren" where
  "check_parenthesis ts =
     (let (i, dismatch_flag) = paren_loop 0 False ts in
      if i \<noteq> 0 then PAREN_INVALID
      else if tok_type (hd ts) \<noteq> TK_lparen \<or> tok_type (last ts) \<noteq> TK_rparen \<or> dismatch_flag
      then PAREN_DISMATCH
      else PAREN_MATCH)"

text \<open>
  The inner loop of \<open>FindMainOP\<close> skips a group: it gives the number of tokens passed after the
  opening parenthesis, the last being the closing one.  The code would read on behind \<open>q\<close>.
\<close>

fun skip_group :: "nat \<Rightarrow> token list \<Rightarrow> nat result" where
  "skip_group 0 ts = Inr 0"
| "skip_group (Suc layer) [] = Inl (Undefined ''tokens'')"
| "skip_group (Suc layer) (t # ts) =
     (let layer = (if tok_type t = TK_lparen then Suc (Suc layer)
                   else if tok_type t = TK_rparen then layer else Suc layer)
      in bindR (skip_group layer ts) (\<lambda>n. Inr (Suc n)))"

definition mul_ops :: "token_type set" where "mul_ops = {TK_star, TK_slash}"
definition add_ops :: "token_type set" where "add_ops = {TK_plus, TK_minus}"
definition rel_ops :: "token_type set" where
  "rel_ops = {TK_EQ, TK_NEQ, TK_GE, TK_LE, TK_GT, TK_LT}"
definition logic_ops :: "token_type set" where "logic_ops = {TK_AND, TK_OR}"
definition unary_ops :: "token_type set" where "unary_ops = {TK_DEREF, TK_NEG}"

lemmas ops_defs = mul_ops_def add_ops_def rel_ops_def logic_ops_def unary_ops_def

text \<open>The condition on \<open>mainoptype\<close> in each case of the \<open>switch\<close>; \<open>None\<close> is 0.\<close>

definition takes_over :: "token_type option \<Rightarrow> token_type \<Rightarrow> bool" where
  "takes_over mainoptype ty =
     (case mainoptype of
        None \<Rightarrow> ty \<in> unary_ops \<union> mul_ops \<union> add_ops \<union> rel_ops \<union> logic_ops
      | Some mt \<Rightarrow>
          if ty \<in> mul_ops then mt \<in> unary_ops \<union> mul_ops
          else if ty \<in> add_ops then mt \<in> unary_ops \<union> mul_ops \<union> add_ops
          else if ty \<in> rel_ops then mt \<in> unary_ops \<union> mul_ops \<union> add_ops \<union> rel_ops
          else if ty \<in> logic_ops then mt \<in> unary_ops \<union> mul_ops \<union> add_ops \<union> rel_ops \<union> logic_ops
          else False)"

text \<open>
  \<open>FindMainOP\<close> from position \<open>i\<close>: the main operator so far is its type, position and
  \<open>is_binary\<close>.
\<close>

type_synonym mainop = "(token_type \<times> nat \<times> bool) option"

function find_main :: "nat \<Rightarrow> token list \<Rightarrow> mainop \<Rightarrow> mainop result" where
  "find_main i [] mop = Inr mop"
| "find_main i (t # ts) mop =
     (if tok_type t = TK_lparen then
        bindR (skip_group 1 ts) (\<lambda>n. find_main (i + 1 + n) (drop n ts) mop)
      else if tok_type t = TK_rparen then Inl (Panic ''parenthesis dismatch'')
      else if takes_over (map_option fst mop) (tok_type t) then
        find_main (i + 1) ts (Some (tok_type t, i, tok_type t \<notin> unary_ops))
      else find_main (i + 1) ts mop)"
  by pat_completeness auto
termination
  by (relation "measure (\<lambda>(_, ts, _). length ts)") auto

definition FindMainOP :: "token list \<Rightarrow> mainop result" where
  "FindMainOP ts = find_main 0 ts None"

datatype expr_err = PAREN_ERR | BADEXPR_ERR | MAINOP_ERR | UNDEF_OP | REG_ERR | UNKNOWN_ELEMENT_ERR

datatype eval_res = Val u32 | Err expr_err

text \<open>
  \<open>strtoul\<close> on a text that the lexer accepted: the number, at most \<open>ULONG_MAX\<close> of the host;
  storing it in an \<open>int\<close> keeps the low 32 bits.
\<close>

definition digit_val :: "char \<Rightarrow> nat" where
  "digit_val c =
     (if c \<in> set ''0123456789'' then of_char c - 48
      else if c \<in> set ''abcdef'' then of_char c - 97 + 10
      else of_char c - 65 + 10)"

definition strtoul :: "nat \<Rightarrow> string \<Rightarrow> u64" where
  "strtoul base s = of_nat (min (foldl (\<lambda>n c. n * base + digit_val c) 0 s) (2 ^ 64 - 1))"

definition eval_atom :: "'d dut_ops \<Rightarrow> 'd \<Rightarrow> token \<Rightarrow> eval_res" where
  "eval_atom ops d t =
     (if tok_type t = TK_DEC then Val (ucast (strtoul 10 (tok_str t)))
      else if tok_type t = TK_HEX then Val (ucast (strtoul 16 (drop 2 (tok_str t))))
      else if tok_type t = TK_REG then Val (reg_str2val ops d (drop 1 (tok_str t)))
      else Err UNKNOWN_ELEMENT_ERR)"

definition binop_val :: "token_type \<Rightarrow> u32 \<Rightarrow> u32 \<Rightarrow> eval_res result" where
  "binop_val ty val_left val_right =
     (case ty of
        TK_plus \<Rightarrow> Inr (Val (val_left + val_right))
      | TK_minus \<Rightarrow> Inr (Val (val_left - val_right))
      | TK_star \<Rightarrow> Inr (Val (val_left * val_right))
      | TK_slash \<Rightarrow> (if val_right = 0 then Inl (Undefined ''division by zero'')
                     else Inr (Val (val_left div val_right)))
      | TK_EQ \<Rightarrow> Inr (Val (c_bool (val_left = val_right)))
      | TK_NEQ \<Rightarrow> Inr (Val (c_bool (val_left \<noteq> val_right)))
      | TK_GE \<Rightarrow> Inr (Val (c_bool (val_left \<ge> val_right)))
      | TK_LE \<Rightarrow> Inr (Val (c_bool (val_left \<le> val_right)))
      | TK_GT \<Rightarrow> Inr (Val (c_bool (val_left > val_right)))
      | TK_LT \<Rightarrow> Inr (Val (c_bool (val_left < val_right)))
      | TK_AND \<Rightarrow> Inr (Val (c_bool (val_left \<noteq> 0 \<and> val_right \<noteq> 0)))
      | TK_OR \<Rightarrow> Inr (Val (c_bool (val_left \<noteq> 0 \<or> val_right \<noteq> 0)))
      | _ \<Rightarrow> Inr (Err UNDEF_OP))"

text \<open>Continue with a value; an error flag that is set ends the evaluation.\<close>

definition bind_val :: "eval_res result \<Rightarrow> (u32 \<Rightarrow> eval_res result) \<Rightarrow> eval_res result" where
  "bind_val r f = bindR r (\<lambda>x. case x of Val v \<Rightarrow> f v | Err e \<Rightarrow> Inr (Err e))"

lemma bind_val_simps [simp]:
  "bind_val (Inl e) f = Inl e" "bind_val (Inr (Val v)) f = f v" "bind_val (Inr (Err x)) f = Inr (Err x)"
  by (simp_all add: bind_val_def)

lemma bind_val_cong [fundef_cong]:
  "r = r' \<Longrightarrow> (\<And>v. r' = Inr (Val v) \<Longrightarrow> f v = f' v) \<Longrightarrow> bind_val r f = bind_val r' f'"
  by (auto simp: bind_val_def split: eval_res.split intro!: bindR_cong)

lemma find_main_pos:
  "find_main i ts mop = Inr (Some (ty, pos, b)) \<Longrightarrow>
   mop = Some (ty, pos, b) \<or> i \<le> pos \<and> pos < i + length ts \<and> tok_type (ts ! (pos - i)) = ty \<and>
     b = (ty \<notin> unary_ops)"
proof (induction i ts mop rule: find_main.induct)
  case (1 i mop)
  then show ?case by simp
next
  case (2 i t ts mop)
  show ?case
  proof (cases "tok_type t = TK_lparen")
    case True
    then obtain n where n: "skip_group 1 ts = Inr n"
      "find_main (i + 1 + n) (drop n ts) mop = Inr (Some (ty, pos, b))"
      using "2.prems" by (auto simp: bindR_Inr_iff)
    from "2.IH"(1) [OF True n] show ?thesis
      by (auto simp: nth_Cons' )
  next
    case False
    then show ?thesis
      using "2.prems" "2.IH"(2,3) by (auto simp: nth_Cons' split: if_splits)
  qed
qed

lemma FindMainOP_pos:
  "FindMainOP ts = Inr (Some (ty, pos, b)) \<Longrightarrow>
   pos < length ts \<and> tok_type (ts ! pos) = ty \<and> b = (ty \<notin> unary_ops)"
  using find_main_pos [of 0 ts None ty pos b] by (simp add: FindMainOP_def)

function eval :: "'d dut_ops \<Rightarrow> 'd \<Rightarrow> machine \<Rightarrow> token list \<Rightarrow> eval_res result" where
  "eval ops d m ts =
     (case ts of
        [] \<Rightarrow> Inr (Err BADEXPR_ERR)
      | [t] \<Rightarrow> Inr (eval_atom ops d t)
      | _ \<Rightarrow>
          (case check_parenthesis ts of
             PAREN_INVALID \<Rightarrow> Inr (Err PAREN_ERR)
           | PAREN_MATCH \<Rightarrow> eval ops d m (butlast (tl ts))
           | PAREN_DISMATCH \<Rightarrow>
               bindR (FindMainOP ts) (\<lambda>mop. case mop of
                 None \<Rightarrow> Inr (Err MAINOP_ERR)
               | Some (ty, pos, is_binary) \<Rightarrow>
                   bind_val (eval ops d m (drop (pos + 1) ts)) (\<lambda>val_right.
                   if \<not> is_binary \<and> ty = TK_NEG then Inr (Val (- val_right))
                   else if \<not> is_binary \<and> ty = TK_DEREF then
                     bindR (paddr_read m val_right 4) (\<lambda>v. Inr (Val v))
                   else
                     bind_val (eval ops d m (take pos ts)) (\<lambda>val_left.
                     binop_val ty val_left val_right)))))"
  by pat_completeness auto
termination
  by (relation "measure (\<lambda>(_, _, _, ts). length ts)")
    (auto dest!: FindMainOP_pos)

declare eval.simps [simp del]

text \<open>
  \<open>expr\<close>: a \<open>*\<close> or \<open>-\<close> that does not follow an operand is unary.  The fields of the token are
  updated in the array, from left to right.
\<close>

definition operand_end :: "token_type option \<Rightarrow> bool" where
  "operand_end prev \<longleftrightarrow> prev \<in> {Some TK_DEC, Some TK_HEX, Some TK_REG, Some TK_rparen}"

fun mark_unary :: "token_type option \<Rightarrow> token list \<Rightarrow> token list" where
  "mark_unary prev [] = []"
| "mark_unary prev (t # ts) =
     (let t = (if tok_type t = TK_star \<and> \<not> operand_end prev then t\<lparr>tok_type := TK_DEREF\<rparr> else t);
          t = (if tok_type t = TK_minus \<and> \<not> operand_end prev then t\<lparr>tok_type := TK_NEG\<rparr> else t)
      in t # mark_unary (Some (tok_type t)) ts)"

definition err_msg :: "expr_err \<Rightarrow> string" where
  "err_msg e =
     (case e of
        PAREN_ERR \<Rightarrow> ''parenthesis invalid''
      | UNDEF_OP \<Rightarrow> ''undefined operation''
      | BADEXPR_ERR \<Rightarrow> ''syntax error''
      | MAINOP_ERR \<Rightarrow> ''cannot find main operator''
      | REG_ERR \<Rightarrow> ''register not found''
      | UNKNOWN_ELEMENT_ERR \<Rightarrow> ''unknown element'')"

text \<open>The value, or \<open>None\<close> when \<open>*success\<close> is set to false.\<close>

definition expr :: "'d dut_ops \<Rightarrow> 'd \<Rightarrow> string \<Rightarrow> machine \<Rightarrow> (u32 option \<times> machine) result" where
  "expr ops d e m =
     bindR (make_token e m) (\<lambda>(toks, m). case toks of
       None \<Rightarrow> Inr (None, m)
     | Some toks \<Rightarrow>
         bindR (eval ops d m (mark_unary None toks)) (\<lambda>r. case r of
           Err x \<Rightarrow> Inr (None, printf (err_msg x) [] m)
         | Val v \<Rightarrow> Inr (Some v, m)))"

section \<open>Scanning balanced token lists\<close>

text \<open>The nesting depth after a list of tokens, \<open>None\<close> when it goes below zero.\<close>

fun depth :: "nat \<Rightarrow> token list \<Rightarrow> nat option" where
  "depth k [] = Some k"
| "depth k (t # ts) =
     (if tok_type t = TK_lparen then depth (Suc k) ts
      else if tok_type t = TK_rparen then (case k of 0 \<Rightarrow> None | Suc k \<Rightarrow> depth k ts)
      else depth k ts)"

definition balanced :: "token list \<Rightarrow> bool" where
  "balanced ts \<longleftrightarrow> depth 0 ts = Some 0"

lemma depth_append: "depth k (xs @ ys) = Option.bind (depth k xs) (\<lambda>k. depth k ys)"
  by (induction k xs rule: depth.induct) (auto split: nat.splits)

lemma depth_add: "depth k ts = Some j \<Longrightarrow> depth (k + n) ts = Some (j + n)"
  by (induction k ts arbitrary: j rule: depth.induct) (auto split: nat.splits if_splits)

lemma balanced_depth: "balanced ts \<Longrightarrow> depth k ts = Some k"
  using depth_add [of 0 ts 0 k] by (simp add: balanced_def)

lemma balanced_append [intro]: "balanced xs \<Longrightarrow> balanced ys \<Longrightarrow> balanced (xs @ ys)"
  by (simp add: balanced_def depth_append)

lemma balanced_group [intro]:
  "balanced xs \<Longrightarrow> tok_type l = TK_lparen \<Longrightarrow> tok_type r = TK_rparen \<Longrightarrow> balanced (l # xs @ [r])"
  using balanced_depth [of xs 1] by (simp add: balanced_def depth_append)

lemma balanced_single [intro]: "tok_type t \<notin> {TK_lparen, TK_rparen} \<Longrightarrow> balanced [t]"
  by (simp add: balanced_def)

text \<open>Skipping a group over a balanced list, to the closing parenthesis behind it.\<close>

lemma skip_group_depth:
  "depth k xs = Some j \<Longrightarrow> tok_type r = TK_rparen \<Longrightarrow>
   skip_group (Suc k) (xs @ ys) = bindR (skip_group (Suc j) ys) (\<lambda>n. Inr (length xs + n))"
proof (induction k xs rule: depth.induct)
  case (1 k)
  then show ?case by (cases "skip_group (Suc k) ys") auto
next
  case (2 k t ts)
  then show ?case
    by (cases "skip_group (Suc j) ys") (auto split: if_splits nat.splits)
qed

lemma skip_group_balanced:
  "balanced xs \<Longrightarrow> tok_type r = TK_rparen \<Longrightarrow> skip_group (Suc 0) (xs @ r # ys) = Inr (Suc (length xs))"
  using skip_group_depth [of 0 xs 0 r "r # ys"] by (simp add: balanced_def)

lemma find_main_group:
  "balanced xs \<Longrightarrow> tok_type l = TK_lparen \<Longrightarrow> tok_type r = TK_rparen \<Longrightarrow>
   find_main i (l # xs @ r # ys) mop = find_main (i + length xs + 2) ys mop"
  by (simp add: skip_group_balanced)

section \<open>Reads stay in the token range\<close>

text \<open>The excess of opening over closing parentheses.\<close>

fun net :: "token list \<Rightarrow> int" where
  "net [] = 0"
| "net (t # ts) =
     (if tok_type t = TK_lparen then net ts + 1 else if tok_type t = TK_rparen then net ts - 1 else net ts)"

lemma fst_paren_loop: "fst (paren_loop i f ts) = i + net ts"
  by (induction ts arbitrary: i f) (simp_all add: Let_def)

lemma check_parenthesis_net: "check_parenthesis ts \<noteq> PAREN_INVALID \<longleftrightarrow> net ts = 0"
  using fst_paren_loop [of 0 False ts]
  by (auto simp: check_parenthesis_def split: prod.splits)

lemma skip_group_net:
  "net ts + int k \<le> 0 \<Longrightarrow> \<exists>n. skip_group k ts = Inr n \<and> net (drop n ts) = net ts + int k"
proof (induction k ts rule: skip_group.induct)
  case (3 layer t ts)
  then show ?case by (fastforce split: if_splits)
qed simp_all

lemma find_main_errors:
  "net ts = 0 \<Longrightarrow> find_main i ts mop = Inl e \<Longrightarrow> e = Panic ''parenthesis dismatch''"
proof (induction i ts mop rule: find_main.induct)
  case (2 i t ts mop)
  show ?case
  proof (cases "tok_type t = TK_lparen")
    case True
    then obtain n where "skip_group 1 ts = Inr n" "net (drop n ts) = 0"
      using skip_group_net [of ts 1] "2.prems"(1) by auto
    then show ?thesis using True "2.prems"(2) "2.IH"(1) [OF True, of n] by simp
  next
    case False
    then show ?thesis using 2 by (auto split: if_splits)
  qed
qed simp

lemma bind_val_Inl_iff:
  "bind_val r f = Inl e \<longleftrightarrow> r = Inl e \<or> (\<exists>v. r = Inr (Val v) \<and> f v = Inl e)"
proof (cases r)
  case (Inr x)
  then show ?thesis by (cases x) auto
qed simp

lemma eval_long:
  assumes "2 \<le> length ts"
  shows "eval ops d m ts =
    (case check_parenthesis ts of
       PAREN_INVALID \<Rightarrow> Inr (Err PAREN_ERR)
     | PAREN_MATCH \<Rightarrow> eval ops d m (butlast (tl ts))
     | PAREN_DISMATCH \<Rightarrow>
         bindR (FindMainOP ts) (\<lambda>mop. case mop of
           None \<Rightarrow> Inr (Err MAINOP_ERR)
         | Some (ty, pos, is_binary) \<Rightarrow>
             bind_val (eval ops d m (drop (pos + 1) ts)) (\<lambda>val_right.
             if \<not> is_binary \<and> ty = TK_NEG then Inr (Val (- val_right))
             else if \<not> is_binary \<and> ty = TK_DEREF then
               bindR (paddr_read m val_right 4) (\<lambda>v. Inr (Val v))
             else
               bind_val (eval ops d m (take pos ts)) (\<lambda>val_left.
               binop_val ty val_left val_right))))"
proof -
  obtain a b ts' where "ts = a # b # ts'"
    using assms by (metis Suc_le_length_iff numeral_2_eq_2)
  then show ?thesis by (simp only:) (subst eval.simps, simp only: list.case)
qed

lemma paddr_read_error: "paddr_read m addr n = Inl e \<Longrightarrow> e = Undefined ''pmem''"
  by (induction m addr n rule: paddr_read.induct)
    (auto simp: bindR_Inl_iff pmem_read_def load8_def guardR_def split: if_splits)

lemma binop_val_error: "binop_val ty l r = Inl e \<Longrightarrow> e = Undefined ''division by zero''"
  by (cases ty) (auto simp: binop_val_def split: if_splits)

definition eval_errors :: "sim_error set" where
  "eval_errors = {Undefined ''pmem'', Undefined ''division by zero'', Panic ''parenthesis dismatch''}"

lemma eval_error_cases: "eval ops d m ts = Inl e \<Longrightarrow> e \<in> eval_errors"
proof (induction "length ts" arbitrary: ts rule: less_induct)
  case less
  note IH = less.hyps
  consider "ts = []" | t where "ts = [t]" | "2 \<le> length ts"
    by (metis (no_types) One_nat_def Suc_leI length_0_conv length_Suc_conv less_2_cases_iff not_le)
  then show ?case
  proof cases
    case 3
    show ?thesis
    proof (cases "check_parenthesis ts")
      case PAREN_INVALID
      then show ?thesis using less.prems 3 by (simp add: eval_long)
    next
      case PAREN_MATCH
      then show ?thesis
        using less.prems 3 by (intro IH [of "butlast (tl ts)"]) (simp_all add: eval_long)
    next
      case PAREN_DISMATCH
      then have net: "net ts = 0" using check_parenthesis_net by force
      have "FindMainOP ts \<noteq> Inl e" if "e \<noteq> Panic ''parenthesis dismatch''"
        using that find_main_errors [OF net] by (auto simp: FindMainOP_def)
      then consider "e = Panic ''parenthesis dismatch''"
        | ty pos b where "FindMainOP ts = Inr (Some (ty, pos, b))"
          "bind_val (eval ops d m (drop (pos + 1) ts)) (\<lambda>val_right.
             if \<not> b \<and> ty = TK_NEG then Inr (Val (- val_right))
             else if \<not> b \<and> ty = TK_DEREF then bindR (paddr_read m val_right 4) (\<lambda>v. Inr (Val v))
             else bind_val (eval ops d m (take pos ts)) (\<lambda>val_left.
               binop_val ty val_left val_right)) = Inl e"
        using less.prems 3 PAREN_DISMATCH
        by (auto simp: eval_long bindR_Inl_iff split: option.splits)
      then show ?thesis
      proof cases
        case 1
        then show ?thesis by (simp add: eval_errors_def)
      next
        case 2
        then have "length (drop (pos + 1) ts) < length ts" "length (take pos ts) < length ts"
          using FindMainOP_pos by fastforce+
        then show ?thesis
          using 2(2) IH [of "drop (pos + 1) ts"] IH [of "take pos ts"]
          by (auto simp: bind_val_Inl_iff bindR_Inl_iff eval_errors_def
              dest!: paddr_read_error binop_val_error split: if_splits)
      qed
    qed
  qed (use less.prems in \<open>simp_all add: eval.simps\<close>)
qed

section \<open>The main operator\<close>

text \<open>Binding strength: the class of an operator, 0 for other tokens.\<close>

definition rank :: "token_type \<Rightarrow> nat" where
  "rank ty =
     (if ty \<in> unary_ops then 1 else if ty \<in> mul_ops then 2 else if ty \<in> add_ops then 3
      else if ty \<in> rel_ops then 4 else if ty \<in> logic_ops then 5 else 0)"

lemma takes_over_None: "takes_over None ty \<longleftrightarrow> 0 < rank ty"
  by (cases ty) (simp_all add: takes_over_def rank_def ops_defs)

lemma takes_over_Some:
  "0 < rank mt \<Longrightarrow> takes_over (Some mt) ty \<longleftrightarrow> 2 \<le> rank ty \<and> rank mt \<le> rank ty"
  by (cases mt; cases ty; simp add: takes_over_def rank_def ops_defs)

section \<open>Abstract syntax\<close>

text \<open>
  Expressions, their value in the order of evaluation of the code (the right operand first),
  and their token lists with the parentheses that the precedence levels require.
\<close>

datatype ast = Lit token | Una token_type ast | Bin token_type ast ast

fun wf_ast :: "ast \<Rightarrow> bool" where
  "wf_ast (Lit t) \<longleftrightarrow> tok_type t \<in> {TK_DEC, TK_HEX, TK_REG}"
| "wf_ast (Una ty e) \<longleftrightarrow> ty \<in> unary_ops \<and> wf_ast e"
| "wf_ast (Bin ty l r) \<longleftrightarrow> 2 \<le> rank ty \<and> wf_ast l \<and> wf_ast r"

fun level :: "ast \<Rightarrow> nat" where
  "level (Lit t) = 0"
| "level (Una ty e) = 1"
| "level (Bin ty l r) = rank ty"

definition op_text :: "token_type \<Rightarrow> string" where
  "op_text ty =
     (case ty of
        TK_EQ \<Rightarrow> ''=='' | TK_NEQ \<Rightarrow> ''!='' | TK_GE \<Rightarrow> ''>='' | TK_LE \<Rightarrow> ''<='' | TK_GT \<Rightarrow> ''>''
      | TK_LT \<Rightarrow> ''<'' | TK_AND \<Rightarrow> ''&&'' | TK_OR \<Rightarrow> ''||'' | TK_plus \<Rightarrow> ''+'' | TK_minus \<Rightarrow> ''-''
      | TK_star \<Rightarrow> ''*'' | TK_slash \<Rightarrow> ''/'' | TK_lparen \<Rightarrow> ''('' | TK_rparen \<Rightarrow> '')''
      | TK_DEREF \<Rightarrow> ''*'' | TK_NEG \<Rightarrow> ''-'' | _ \<Rightarrow> '''')"

definition op_tok :: "token_type \<Rightarrow> token" where
  "op_tok ty = \<lparr>tok_type = ty, tok_str = op_text ty\<rparr>"

definition enclose :: "bool \<Rightarrow> token list \<Rightarrow> token list" where
  "enclose b ts = (if b then op_tok TK_lparen # ts @ [op_tok TK_rparen] else ts)"

fun toks :: "ast \<Rightarrow> token list" where
  "toks (Lit t) = [t]"
| "toks (Una ty e) = op_tok ty # enclose (level e > 1) (toks e)"
| "toks (Bin ty l r) =
     enclose (level l > rank ty) (toks l) @ op_tok ty # enclose (level r \<ge> rank ty) (toks r)"

fun sem :: "'d dut_ops \<Rightarrow> 'd \<Rightarrow> machine \<Rightarrow> ast \<Rightarrow> eval_res result" where
  "sem ops d m (Lit t) = Inr (eval_atom ops d t)"
| "sem ops d m (Una ty e) =
     bind_val (sem ops d m e) (\<lambda>v.
     if ty = TK_NEG then Inr (Val (- v)) else bindR (paddr_read m v 4) (\<lambda>w. Inr (Val w)))"
| "sem ops d m (Bin ty l r) =
     bind_val (sem ops d m r) (\<lambda>vr. bind_val (sem ops d m l) (\<lambda>vl. binop_val ty vl vr))"

lemma op_tok_type [simp]: "tok_type (op_tok ty) = ty"
  by (simp add: op_tok_def)

lemma rank_pos: "0 < rank ty \<Longrightarrow> ty \<noteq> TK_lparen \<and> ty \<noteq> TK_rparen"
  by (auto simp: rank_def ops_defs)

lemma rank_unary: "ty \<in> unary_ops \<longleftrightarrow> rank ty = 1"
  by (simp add: rank_def)

lemma balanced_enclose [intro]: "balanced ts \<Longrightarrow> balanced (enclose b ts)"
  by (simp add: enclose_def balanced_group)

lemma balanced_Cons: "tok_type t \<notin> {TK_lparen, TK_rparen} \<Longrightarrow> balanced ts \<Longrightarrow> balanced (t # ts)"
  by (simp add: balanced_def)

lemma balanced_toks: "wf_ast e \<Longrightarrow> balanced (toks e)"
proof (induction e)
  case (Lit t)
  then show ?case by (auto intro!: balanced_single)
next
  case (Una ty e)
  then show ?case
    using rank_pos [of ty] by (auto simp: rank_unary intro!: balanced_Cons)
next
  case (Bin ty l r)
  then show ?case
    using rank_pos [of ty] by (auto intro!: balanced_append balanced_Cons)
qed

lemma toks_not_Nil [simp]: "toks e \<noteq> []"
  by (cases e) (simp_all add: enclose_def)

lemma enclose_not_Nil [simp]: "enclose b (toks e) \<noteq> []"
  by (simp add: enclose_def)

subsection \<open>Parentheses\<close>

lemma paren_loop_True: "snd (paren_loop i True ts)"
  by (induction ts arbitrary: i) (simp_all add: Let_def)

lemma net_append: "net (xs @ ys) = net xs + net ys"
  by (induction xs) simp_all

lemma balanced_net: "balanced ts \<Longrightarrow> net ts = 0"
proof -
  have "depth k ts = Some j \<Longrightarrow> net ts = int j - int k" for k j
    by (induction k ts rule: depth.induct) (auto split: if_splits nat.splits)
  then show "balanced ts \<Longrightarrow> net ts = 0" by (fastforce simp: balanced_def)
qed

lemma paren_loop_inside:
  "depth k xs = Some j \<Longrightarrow> paren_loop (int k + 1) f (xs @ ys) = paren_loop (int j + 1) f ys"
proof (induction k xs rule: depth.induct)
  case (2 k t ts)
  then show ?case by (auto simp: Let_def algebra_simps split: if_splits nat.splits)
qed simp

lemma check_enclosed: "balanced ts \<Longrightarrow> check_parenthesis (op_tok TK_lparen # ts @ [op_tok TK_rparen]) = PAREN_MATCH"
  using paren_loop_inside [of 0 ts 0 False "[op_tok TK_rparen]"]
  by (simp add: check_parenthesis_def balanced_def)

lemma paren_loop_flag:
  "depth k xs = Some 0 \<Longrightarrow> xs \<noteq> [] \<Longrightarrow> ys \<noteq> [] \<Longrightarrow> snd (paren_loop (int k) f (xs @ ys))"
proof (induction k xs arbitrary: f rule: depth.induct)
  case (2 k t ts)
  then show ?case
    by (cases "ts = []") (auto simp: Let_def paren_loop_True add.commute split: if_splits nat.splits)
qed simp

lemma check_bin:
  assumes "balanced xs" "xs \<noteq> []" "balanced ys" "ys \<noteq> []"
  shows "check_parenthesis (xs @ ys) = PAREN_DISMATCH"
  using assms paren_loop_flag [of 0 xs ys False] fst_paren_loop [of 0 False "xs @ ys"]
  by (auto simp: check_parenthesis_def balanced_net net_append balanced_def split: prod.splits)

lemma check_una:
  "tok_type t \<notin> {TK_lparen, TK_rparen} \<Longrightarrow> balanced ts \<Longrightarrow> check_parenthesis (t # ts) = PAREN_DISMATCH"
  using fst_paren_loop [of 0 False "t # ts"]
  by (auto simp: check_parenthesis_def balanced_net simp del: paren_loop.simps split: prod.splits)

lemma eval_enclosed:
  "balanced ts \<Longrightarrow> eval ops d m (op_tok TK_lparen # ts @ [op_tok TK_rparen]) = eval ops d m ts"
  by (subst eval_long) (simp_all add: check_enclosed)

lemma eval_enclose: "balanced ts \<Longrightarrow> eval ops d m (enclose b ts) = eval ops d m ts"
  by (simp add: enclose_def eval_enclosed)

subsection \<open>What the main operator search finds\<close>

text \<open>The main operator after scanning the tokens of an expression from position \<open>i\<close>.\<close>

fun main_after :: "nat \<Rightarrow> ast \<Rightarrow> mainop \<Rightarrow> mainop" where
  "main_after i (Lit t) mop = mop"
| "main_after i (Una ty e) mop = (if mop = None then Some (ty, i, False) else mop)"
| "main_after i (Bin ty l r) mop =
     (if takes_over (map_option fst mop) ty
      then Some (ty, i + length (enclose (level l > rank ty) (toks l)), True) else mop)"

definition mop_rank :: "mainop \<Rightarrow> nat" where
  "mop_rank mop = (case mop of None \<Rightarrow> 0 | Some (ty, _) \<Rightarrow> rank ty)"

definition mop_ok :: "mainop \<Rightarrow> bool" where
  "mop_ok mop \<longleftrightarrow> (mop \<noteq> None \<longrightarrow> 0 < mop_rank mop)"

lemma takes_over_mop:
  "mop_ok mop \<Longrightarrow> takes_over (map_option fst mop) ty \<longleftrightarrow>
     (if mop = None then 0 < rank ty else 2 \<le> rank ty \<and> mop_rank mop \<le> rank ty)"
  by (cases mop) (auto simp: mop_ok_def mop_rank_def takes_over_None takes_over_Some)

lemma main_after_ok: "wf_ast e \<Longrightarrow> mop_ok mop \<Longrightarrow> mop_ok (main_after i e mop)"
  by (cases e) (auto simp: mop_ok_def mop_rank_def rank_unary)

lemma main_after_rank:
  "wf_ast e \<Longrightarrow> mop_ok mop \<Longrightarrow> mop_rank (main_after i e mop) \<le> max (level e) (mop_rank mop)"
  by (cases e) (auto simp: mop_rank_def rank_unary)

lemma main_after_same:
  "wf_ast e \<Longrightarrow> mop_ok mop \<Longrightarrow> mop \<noteq> None \<Longrightarrow> level e < mop_rank mop \<Longrightarrow> main_after i e mop = mop"
  by (cases e) (auto simp: takes_over_mop)

lemma find_main_op:
  "0 < rank ty \<Longrightarrow> find_main i (op_tok ty # ts) mop =
     (if takes_over (map_option fst mop) ty then find_main (i + 1) ts (Some (ty, i, ty \<notin> unary_ops))
      else find_main (i + 1) ts mop)"
  using rank_pos [of ty] by simp

lemma find_main_enclosed:
  "wf_ast e \<Longrightarrow> find_main i (enclose True (toks e) @ rest) mop
     = find_main (i + length (enclose True (toks e))) rest mop"
  using find_main_group [OF balanced_toks, of e "op_tok TK_lparen" "op_tok TK_rparen" i rest mop]
  by (simp add: enclose_def del: find_main.simps)

lemma takes_over_binary:
  "2 \<le> rank ty \<Longrightarrow> mop_ok mop \<Longrightarrow> takes_over (map_option fst mop) ty \<longleftrightarrow> mop_rank mop \<le> rank ty"
  by (auto simp: takes_over_mop mop_rank_def)

text \<open>The left operand of a binary operator never hides the operator.\<close>

lemma takes_over_bin:
  fixes i :: nat
  assumes "2 \<le> rank ty" "wf_ast l" "mop_ok mop"
  defines "mop1 \<equiv> (if level l > rank ty then mop else main_after i l mop)"
  shows "takes_over (map_option fst mop1) ty \<longleftrightarrow> takes_over (map_option fst mop) ty"
    and "\<not> takes_over (map_option fst mop) ty \<Longrightarrow> mop1 = mop"
proof -
  have ok1: "mop_ok mop1" using assms by (simp add: mop1_def main_after_ok)
  have rank1: "mop_rank mop1 \<le> max (rank ty) (mop_rank mop)"
    using main_after_rank [OF assms(2,3), of i] by (auto simp: mop1_def)
  have same: "mop1 = mop" if "rank ty < mop_rank mop"
  proof -
    have "mop \<noteq> None" using that by (cases mop) (simp_all add: mop_rank_def)
    then show ?thesis
      using main_after_same [OF assms(2,3), of i] that by (auto simp: mop1_def)
  qed
  show "takes_over (map_option fst mop1) ty \<longleftrightarrow> takes_over (map_option fst mop) ty"
  proof (cases "mop_rank mop \<le> rank ty")
    case True
    then show ?thesis
      using rank1 by (simp add: takes_over_binary [OF assms(1) ok1] takes_over_binary [OF assms(1,3)])
  next
    case False
    then have "mop1 = mop" by (intro same) simp
    then show ?thesis by simp
  qed
  show "\<not> takes_over (map_option fst mop) ty \<Longrightarrow> mop1 = mop"
    using same by (auto simp: takes_over_binary [OF assms(1,3)])
qed

lemma find_main_toks:
  "wf_ast e \<Longrightarrow> mop_ok mop \<Longrightarrow>
   find_main i (toks e @ rest) mop = find_main (i + length (toks e)) rest (main_after i e mop)"
proof (induction e arbitrary: i mop rest)
  case (Lit t)
  then have "\<not> takes_over (map_option fst mop) (tok_type t)" "tok_type t \<noteq> TK_lparen" "tok_type t \<noteq> TK_rparen"
    by (auto simp: takes_over_mop rank_def ops_defs)
  then show ?case by simp
next
  case (Una ty e)
  then have ty: "rank ty = 1" "wf_ast e" by (simp_all add: rank_unary)
  define mop' where "mop' = (if mop = None then Some (ty, i, False) else mop)"
  have ok: "mop_ok mop'" "mop' \<noteq> None" using Una.prems ty by (auto simp: mop'_def mop_ok_def mop_rank_def)
  have "find_main i (toks (Una ty e) @ rest) mop = find_main (i + 1) (enclose (level e > 1) (toks e) @ rest) mop'"
    using ty Una.prems by (simp add: find_main_op takes_over_mop mop'_def rank_unary del: find_main.simps)
  also have "\<dots> = find_main (i + length (toks (Una ty e))) rest mop'"
  proof (cases "level e > 1")
    case True
    then show ?thesis using find_main_enclosed [OF ty(2), of "i + 1" rest mop'] by simp
  next
    case False
    then have "main_after (i + 1) e mop' = mop'"
      using ok ty(2) by (cases e) (auto simp: mop'_def)
    then show ?thesis
      using Una.IH [OF ty(2) ok(1), of "i + 1" rest] False by (simp add: enclose_def)
  qed
  finally show ?case by (simp add: mop'_def)
next
  case (Bin ty l r)
  then have ty: "2 \<le> rank ty" "ty \<notin> unary_ops" "wf_ast l" "wf_ast r" by (auto simp: rank_unary)
  let ?L = "enclose (level l > rank ty) (toks l)" and ?R = "enclose (level r \<ge> rank ty) (toks r)"
  define mop1 where "mop1 = (if level l > rank ty then mop else main_after i l mop)"
  have ok1: "mop_ok mop1" using Bin.prems ty by (simp add: mop1_def main_after_ok)
  have L: "find_main i (?L @ op_tok ty # ?R @ rest) mop = find_main (i + length ?L) (op_tok ty # ?R @ rest) mop1"
  proof (cases "level l > rank ty")
    case True
    then show ?thesis
      using find_main_enclosed [OF ty(3), of i "op_tok ty # ?R @ rest" mop]
      by (simp add: mop1_def del: find_main.simps)
  next
    case False
    then show ?thesis
      using Bin.IH(1) [OF ty(3) Bin.prems(2), of i "op_tok ty # ?R @ rest"]
      by (simp add: mop1_def enclose_def del: find_main.simps)
  qed
  define mop2 where "mop2 = main_after i (Bin ty l r) mop"
  have step: "takes_over (map_option fst mop1) ty \<longleftrightarrow> takes_over (map_option fst mop) ty"
    "\<not> takes_over (map_option fst mop) ty \<Longrightarrow> mop1 = mop"
    using takes_over_bin [OF ty(1,3) Bin.prems(2), of i] by (simp_all add: mop1_def)
  have op: "find_main (i + length ?L) (op_tok ty # ?R @ rest) mop1 = find_main (i + length ?L + 1) (?R @ rest) mop2"
    using step ty by (simp add: find_main_op mop2_def del: find_main.simps)
  have ok2: "mop_ok mop2" "mop2 \<noteq> None" "rank ty \<le> mop_rank mop2"
    using ty Bin.prems(2) by (auto simp: mop2_def mop_ok_def mop_rank_def takes_over_mop)
  have "find_main (i + length ?L + 1) (?R @ rest) mop2 = find_main (i + length ?L + 1 + length ?R) rest mop2"
  proof (cases "level r \<ge> rank ty")
    case True
    then show ?thesis using find_main_enclosed [OF ty(4)] by simp
  next
    case False
    then show ?thesis
      using Bin.IH(2) [OF ty(4) ok2(1)] main_after_same [OF ty(4) ok2(1,2)] ok2(3)
      by (simp add: enclose_def)
  qed
  then show ?case
    using L op by (simp add: mop2_def add.assoc del: find_main.simps main_after.simps)
qed

lemma FindMainOP_toks: "wf_ast e \<Longrightarrow> FindMainOP (toks e) = Inr (main_after 0 e None)"
  using find_main_toks [of e None 0 "[]"] by (simp add: FindMainOP_def mop_ok_def)

subsection \<open>Evaluation of printed expressions\<close>

lemma eval_toks: "wf_ast e \<Longrightarrow> eval ops d m (toks e) = sem ops d m e"
proof (induction e)
  case (Lit t)
  then show ?case by (simp add: eval.simps)
next
  case (Una ty e)
  then have ty: "ty \<in> unary_ops" "wf_ast e" "0 < rank ty" by (simp_all add: rank_unary)
  let ?E = "enclose (level e > 1) (toks e)"
  have E: "eval ops d m ?E = sem ops d m e"
    using Una.IH ty by (simp add: eval_enclose balanced_toks)
  have "check_parenthesis (toks (Una ty e)) = PAREN_DISMATCH"
    using rank_pos [OF ty(3)] balanced_toks [OF ty(2)] by (auto intro!: check_una)
  moreover have "2 \<le> length (toks (Una ty e))"
    using enclose_not_Nil [of "level e > 1" e] by (cases ?E) auto
  ultimately show ?case
    using ty FindMainOP_toks [OF Una.prems] E
    by (auto simp: eval_long unary_ops_def)
next
  case (Bin ty l r)
  then have ty: "2 \<le> rank ty" "ty \<notin> unary_ops" "wf_ast l" "wf_ast r" by (auto simp: rank_unary)
  let ?L = "enclose (level l > rank ty) (toks l)" and ?R = "enclose (level r \<ge> rank ty) (toks r)"
  have LR: "eval ops d m ?L = sem ops d m l" "eval ops d m ?R = sem ops d m r"
    using Bin.IH ty by (simp_all add: eval_enclose balanced_toks)
  have "check_parenthesis (?L @ op_tok ty # ?R) = PAREN_DISMATCH"
    using ty rank_pos [of ty] by (auto intro!: check_bin balanced_Cons simp: balanced_toks)
  moreover have "2 \<le> length (?L @ op_tok ty # ?R)"
    using enclose_not_Nil [of "level l > rank ty" l] by (cases ?L) auto
  moreover have "FindMainOP (?L @ op_tok ty # ?R) = Inr (Some (ty, length ?L, True))"
    using FindMainOP_toks [OF Bin.prems] ty by (simp add: takes_over_None)
  ultimately show ?case
    using LR by (simp add: eval_long)
qed

section \<open>From the text to the value\<close>

text \<open>The tokens as the lexer gives them, before unary operators are marked.\<close>

definition plain :: "token \<Rightarrow> token" where
  "plain t =
     (if tok_type t = TK_DEREF then op_tok TK_star
      else if tok_type t = TK_NEG then op_tok TK_minus else t)"

fun literals :: "ast \<Rightarrow> token list" where
  "literals (Lit t) = [t]"
| "literals (Una ty e) = literals e"
| "literals (Bin ty l r) = literals l @ literals r"

lemma plain_same: "tok_type t \<notin> unary_ops \<Longrightarrow> plain t = t"
  by (auto simp: plain_def unary_ops_def)

lemma mark_unary_other:
  "tok_type t \<notin> {TK_star, TK_minus} \<Longrightarrow> mark_unary prev (t # ts) = t # mark_unary (Some (tok_type t)) ts"
  by simp

lemma mark_unary_binary:
  "operand_end prev \<Longrightarrow> mark_unary prev (t # ts) = t # mark_unary (Some (tok_type t)) ts"
  by simp

lemma mark_unary_plain:
  "ty \<in> unary_ops \<Longrightarrow> \<not> operand_end prev \<Longrightarrow>
   mark_unary prev (plain (op_tok ty) # ts) = op_tok ty # mark_unary (Some ty) ts"
  by (auto simp: plain_def op_tok_def op_text_def unary_ops_def)

lemma mark_unary_enclose:
  assumes "\<And>prev rest. \<not> operand_end prev \<Longrightarrow>
      \<exists>q. operand_end q \<and> mark_unary prev (map plain ts @ rest) = ts @ mark_unary q rest"
    and "\<not> operand_end prev"
  shows "\<exists>q. operand_end q \<and>
      mark_unary prev (map plain (enclose b ts) @ rest) = enclose b ts @ mark_unary q rest"
proof (cases b)
  case True
  have "\<not> operand_end (Some TK_lparen)" by (simp add: operand_end_def)
  then obtain q where "mark_unary (Some TK_lparen) (map plain ts @ op_tok TK_rparen # rest)
      = ts @ mark_unary q (op_tok TK_rparen # rest)"
    using assms(1) by blast
  moreover have "operand_end (Some TK_rparen)" by (simp add: operand_end_def)
  ultimately show ?thesis
    using True by (intro exI [of _ "Some TK_rparen"]) (simp add: enclose_def plain_def)
next
  case False
  then show ?thesis using assms by (simp add: enclose_def)
qed

lemma mark_unary_toks:
  "wf_ast e \<Longrightarrow> \<not> operand_end prev \<Longrightarrow>
   \<exists>q. operand_end q \<and> mark_unary prev (map plain (toks e) @ rest) = toks e @ mark_unary q rest"
proof (induction e arbitrary: prev rest)
  case (Lit t)
  then have "operand_end (Some (tok_type t))" by (auto simp: operand_end_def)
  moreover have "plain t = t" using Lit by (auto intro!: plain_same simp: unary_ops_def)
  ultimately show ?case
    using Lit by (intro exI [of _ "Some (tok_type t)"]) auto
next
  case (Una ty e)
  then have "\<not> operand_end (Some ty)" by (auto simp: operand_end_def unary_ops_def)
  then obtain q where "operand_end q" "mark_unary (Some ty) (map plain (enclose (level e > 1) (toks e)) @ rest)
      = enclose (level e > 1) (toks e) @ mark_unary q rest"
    using mark_unary_enclose [of "toks e" "Some ty" "level e > 1" rest] Una by auto
  then show ?case
    using Una.prems mark_unary_plain [of ty prev] by (intro exI [of _ q]) simp
next
  case (Bin ty l r)
  let ?L = "enclose (level l > rank ty) (toks l)" and ?R = "enclose (level r \<ge> rank ty) (toks r)"
  have ty: "ty \<notin> unary_ops" "\<not> operand_end (Some ty)"
    using Bin.prems by (auto simp: rank_def operand_end_def ops_defs split: if_splits)
  obtain q where q: "operand_end q" "mark_unary prev (map plain ?L @ op_tok ty # map plain ?R @ rest)
      = ?L @ mark_unary q (op_tok ty # map plain ?R @ rest)"
    using mark_unary_enclose [of "toks l" prev "level l > rank ty" "op_tok ty # map plain ?R @ rest"] Bin
    by (auto simp del: mark_unary.simps)
  obtain q' where "operand_end q'" "mark_unary (Some ty) (map plain ?R @ rest) = ?R @ mark_unary q' rest"
    using mark_unary_enclose [of "toks r" "Some ty" "level r \<ge> rank ty" rest] Bin ty by auto
  then show ?case
    using q ty by (intro exI [of _ q']) (simp add: plain_same)
qed

lemma mark_unary_None: "wf_ast e \<Longrightarrow> mark_unary None (map plain (toks e)) = toks e"
  using mark_unary_toks [of e None "[]"] by (auto simp: operand_end_def)

lemma lexeme_op: "0 < rank ty \<or> ty \<in> {TK_lparen, TK_rparen} \<Longrightarrow> lexeme (plain (op_tok ty))"
  by (cases ty) (auto simp: plain_def op_tok_def op_text_def lexeme_def STR_SIZE_def rank_def ops_defs)

lemma lexeme_toks:
  "wf_ast e \<Longrightarrow> list_all lexeme (literals e) \<Longrightarrow> list_all lexeme (map plain (toks e))"
proof (induction e)
  case (Lit t)
  then show ?case using plain_same [of t] by (auto simp: unary_ops_def)
next
  case (Una ty e)
  then show ?case by (auto simp: enclose_def lexeme_op rank_unary)
next
  case (Bin ty l r)
  then show ?case by (auto simp: enclose_def lexeme_op)
qed

lemma sem_Err: "wf_ast e \<Longrightarrow> sem ops d m e \<noteq> Inr (Err x)"
proof (induction e arbitrary: x)
  case (Lit t)
  then show ?case by (auto simp: eval_atom_def)
next
  case (Una ty e)
  then show ?case by (auto simp: bind_val_def bindR_Inr_iff split: eval_res.splits if_splits)
next
  case (Bin ty l r)
  then show ?case
    by (auto simp: bind_val_def bindR_Inr_iff binop_val_def rank_def ops_defs
        split: eval_res.splits token_type.splits if_splits)
qed

section \<open>Printed expressions\<close>

lemma expr_toks:
  assumes "wf_ast e" "list_all lexeme (literals e)" "length (toks e) < 128"
  shows "expr ops d (unlex (map plain (toks e))) m =
    bindR (sem ops d m e) (\<lambda>r. case r of Val v \<Rightarrow> Inr (Some v, m) | Err x \<Rightarrow> Inr (None, m))"
proof -
  have "make_token (unlex (map plain (toks e))) m = Inr (Some (map plain (toks e)), m)"
    using assms lexeme_toks by (intro make_token_unlex) (simp_all add: MAX_TOKEN_def)
  then show ?thesis
    using assms(1) sem_Err [OF assms(1), of ops d m]
    by (cases "sem ops d m e") (auto simp: expr_def mark_unary_None eval_toks split: eval_res.splits)
qed

section \<open>Properties\<close>

text \<open>
  C1. The debugger's expressions mean what they should: the printed form of an expression, with
  parentheses only where the precedence of the operators and their left associativity require
  them, is lexed, marked, split at its main operators and evaluated to the value of the
  expression, or to its division by zero or its access outside the memory.
\<close>

theorem expr_correct:
  assumes "wf_ast e" "list_all lexeme (literals e)" "length (toks e) < 128"
  shows "expr ops d (unlex (map plain (toks e))) m =
    bindR (sem ops d m e) (\<lambda>r. case r of Val v \<Rightarrow> Inr (Some v, m) | Err x \<Rightarrow> Inr (None, m))"
  by (rule expr_toks [OF assms])

definition demo_ast :: ast where
  "demo_ast = Bin TK_star (Bin TK_plus (Lit \<lparr>tok_type = TK_DEC, tok_str = ''1''\<rparr>)
      (Lit \<lparr>tok_type = TK_HEX, tok_str = ''0xf''\<rparr>)) (Una TK_NEG (Lit \<lparr>tok_type = TK_DEC, tok_str = ''2''\<rparr>))"

lemma demo_ast_sem: "sem demo_ops 0 demo_machine demo_ast = Inr (Val (- 32))"
  by (simp add: demo_ast_def eval_atom_def strtoul_def digit_val_def binop_val_def)

theorem expr_correct_witness:
  "expr demo_ops 0 ''( 1 + 0xf ) * - 2 '' demo_machine = Inr (Some (- 32), demo_machine)"
proof -
  have "unlex (map plain (toks demo_ast)) = ''( 1 + 0xf ) * - 2 ''"
    by (simp add: demo_ast_def enclose_def plain_def op_tok_def op_text_def unlex_def rank_def ops_defs)
  moreover have "wf_ast demo_ast" "list_all lexeme (literals demo_ast)" "length (toks demo_ast) < 128"
    by (simp_all add: demo_ast_def rank_def ops_defs lexeme_def STR_SIZE_def is_digit_def
        is_xdigit_def enclose_def)
  ultimately show ?thesis
    using expr_correct [of demo_ast demo_ops 0 demo_machine] by (simp add: demo_ast_sem)
qed

text \<open>
  On any tokens whatever, evaluation ends, and it ends the process only by a division by
  zero, by an access outside the memory, or by the assertion on a stray closing parenthesis; in
  particular the search for the main operator never reads past the end of its range.
\<close>

theorem eval_safe:
  "eval ops d m ts \<in> Inr ` UNIV \<union> Inl ` {Undefined ''pmem'', Undefined ''division by zero'',
     Panic ''parenthesis dismatch''}"
proof (cases "eval ops d m ts")
  case (Inl e)
  then show ?thesis using eval_error_cases [OF Inl] by (auto simp: eval_errors_def)
qed simp

end
