(* ===== verification/Watchpoint.thy ===== *)
theory Watchpoint
  imports Expr
begin

text \<open>
  The watchpoints of the debugger, \<open>core/csrc/infrastructure/watchpoint.c\<close>: a static pool of
  32 nodes, each in the doubly linked list of the active ones (\<open>head\<close>) or in the free list
  (\<open>free_\<close>).  A pointer is \<open>None\<close> for \<open>NULL\<close> or the index of a node; using \<open>NULL\<close> is an
  error.  The lists are related to an abstract pool, a list of used and one of free nodes.
\<close>

section \<open>The code\<close>

definition NR_WP :: nat where "NR_WP = 32"

record wp =
  NO :: u32
  wp_next :: "nat option"
  wp_prev :: "nat option"
  wp_val :: u32
  wp_expr :: string

record wps =
  wp_pool :: "wp list"
  head :: "nat option"
  free_list :: "nat option"

definition wp_upd :: "nat \<Rightarrow> (wp \<Rightarrow> wp) \<Rightarrow> wps \<Rightarrow> wps" where
  "wp_upd i f s = s\<lparr>wp_pool := (wp_pool s)[i := f (wp_pool s ! i)]\<rparr>"

definition set_next :: "nat \<Rightarrow> nat option \<Rightarrow> wps \<Rightarrow> wps" where
  "set_next i p = wp_upd i (\<lambda>w. w\<lparr>wp_next := p\<rparr>)"

definition set_prev :: "nat \<Rightarrow> nat option \<Rightarrow> wps \<Rightarrow> wps" where
  "set_prev i p = wp_upd i (\<lambda>w. w\<lparr>wp_prev := p\<rparr>)"

definition deref :: "nat option \<Rightarrow> nat result" where
  "deref p = (case p of None \<Rightarrow> Inl (Undefined ''NULL'') | Some i \<Rightarrow> Inr i)"

definition init_wp_pool :: "wps \<Rightarrow> wps" where
  "init_wp_pool s =
     \<lparr>wp_pool = map (\<lambda>i. (wp_pool s ! i)
          \<lparr>NO := of_nat i, wp_next := (if i = NR_WP - 1 then None else Some (i + 1)),
           wp_prev := (if i = 0 then None else Some (i - 1))\<rparr>) [0..<NR_WP],
      head = None, free_list = Some 0\<rparr>"

definition new_wp :: "wps \<Rightarrow> (nat \<times> wps) result" where
  "new_wp s =
     (case free_list s of
        None \<Rightarrow> Inl (Panic ''no free watchpoint in pool'')
      | Some f \<Rightarrow>
          (case head s of
             None \<Rightarrow>
               (let s = s\<lparr>head := Some f\<rparr>;
                    s = s\<lparr>free_list := wp_next (wp_pool s ! f)\<rparr>;
                    s = set_next f None s;
                    s = set_prev f None s
                in Inr (f, s))
           | Some temp \<Rightarrow>
               (let s = s\<lparr>head := Some f\<rparr>;
                    s = s\<lparr>free_list := wp_next (wp_pool s ! f)\<rparr>;
                    s = set_next f (Some temp) s;
                    s = set_prev f None s;
                    s = set_prev temp (Some f) s
                in Inr (f, s))))"

text \<open>Taking a node out of the active list, and putting it in front of the free list.\<close>

definition unlink_wp :: "nat \<Rightarrow> wps \<Rightarrow> wps result" where
  "unlink_wp w s =
     (if head s = Some w then
        let s = s\<lparr>head := wp_next (wp_pool s ! w)\<rparr> in
        Inr (case head s of None \<Rightarrow> s | Some h \<Rightarrow> set_prev h None s)
      else
        bindR (deref (wp_prev (wp_pool s ! w))) (\<lambda>p.
        let s = set_next p (wp_next (wp_pool s ! w)) s in
        bindR (deref (wp_next (wp_pool s ! w))) (\<lambda>n.
        Inr (set_prev n (wp_prev (wp_pool s ! w)) s))))"

definition free_wp :: "nat \<Rightarrow> wps \<Rightarrow> wps result" where
  "free_wp w s =
     bindR (unlink_wp w s) (\<lambda>s.
     let s = set_next w (free_list s) s;
         s = set_prev w None s
     in bindR (deref (free_list s)) (\<lambda>f.
        let s = set_prev f (Some w) s
        in Inr (s\<lparr>free_list := Some w\<rparr>)))"

text \<open>
  The walk over the active watchpoints evaluates each expression and records changed values; an
  expression that fails ends it with \<open>false\<close>, whatever changed before.
\<close>

partial_function (option) check_loop ::
  "'d dut_ops \<Rightarrow> 'd \<Rightarrow> nat option \<Rightarrow> bool \<Rightarrow> wps \<Rightarrow> machine \<Rightarrow> (bool \<times> wps \<times> machine) result option"
where
  "check_loop ops d temp is_changed s m =
     (case temp of
        None \<Rightarrow> Some (Inr (is_changed, s, m))
      | Some i \<Rightarrow>
          (case expr ops d (wp_expr (wp_pool s ! i)) m of
             Inl e \<Rightarrow> Some (Inl e)
           | Inr (r, m) \<Rightarrow>
               (case r of
                  None \<Rightarrow>
                    Some (Inr (False, s, printf ''Invalid expression:%s'' [S (wp_expr (wp_pool s ! i))] m))
                | Some v \<Rightarrow>
                    if v \<noteq> wp_val (wp_pool s ! i) then
                      let m = printf ''Watchpoint %d: %s'' [N (NO (wp_pool s ! i)), S (wp_expr (wp_pool s ! i))] m;
                          m = printf ''Old value = %u'' [N (wp_val (wp_pool s ! i))] m;
                          m = printf ''New value = %u'' [N v] m;
                          s = wp_upd i (\<lambda>w. w\<lparr>wp_val := v\<rparr>) s
                      in check_loop ops d (wp_next (wp_pool s ! i)) True s m
                    else check_loop ops d (wp_next (wp_pool s ! i)) is_changed s m)))"

definition check_wp ::
  "'d dut_ops \<Rightarrow> 'd \<Rightarrow> wps \<Rightarrow> machine \<Rightarrow> (bool \<times> wps \<times> machine) result option" where
  "check_wp ops d s m = check_loop ops d (head s) False s m"

partial_function (option) delete_loop ::
  "u32 \<Rightarrow> nat option \<Rightarrow> wps \<Rightarrow> machine \<Rightarrow> (wps \<times> machine) result option" where
  "delete_loop no temp s m =
     (case temp of
        None \<Rightarrow> Some (Inr (s, printf ''No watchpoint %d'' [N no] m))
      | Some i \<Rightarrow>
          if NO (wp_pool s ! i) = no then Some (bindR (free_wp i s) (\<lambda>s. Inr (s, m)))
          else delete_loop no (wp_next (wp_pool s ! i)) s m)"

definition delete_wp :: "u32 \<Rightarrow> wps \<Rightarrow> machine \<Rightarrow> (wps \<times> machine) result option" where
  "delete_wp no s m = delete_loop no (head s) s m"

partial_function (option) print_loop :: "nat option \<Rightarrow> wps \<Rightarrow> machine \<Rightarrow> machine option" where
  "print_loop temp s m =
     (case temp of
        None \<Rightarrow> Some m
      | Some i \<Rightarrow>
          print_loop (wp_next (wp_pool s ! i)) s
            (printf ''%d %s'' [N (NO (wp_pool s ! i)), S (wp_expr (wp_pool s ! i))] m))"

definition print_wp :: "wps \<Rightarrow> machine \<Rightarrow> machine option" where
  "print_wp s m = print_loop (head s) s (printf ''Num What'' [] m)"

section \<open>The lists\<close>

fun next_chain :: "wps \<Rightarrow> nat option \<Rightarrow> nat list \<Rightarrow> bool" where
  "next_chain s p [] \<longleftrightarrow> p = None"
| "next_chain s p (i # is) \<longleftrightarrow> p = Some i \<and> next_chain s (wp_next (wp_pool s ! i)) is"

fun prev_chain :: "wps \<Rightarrow> nat option \<Rightarrow> nat list \<Rightarrow> bool" where
  "prev_chain s q [] \<longleftrightarrow> True"
| "prev_chain s q (i # is) \<longleftrightarrow> wp_prev (wp_pool s ! i) = q \<and> prev_chain s (Some i) is"

text \<open>
  The invariant: \<open>us\<close> is the list of the active nodes, linked both ways, \<open>fs\<close> the free list,
  and every node of the pool is in exactly one of the two.
\<close>

definition wp_inv :: "wps \<Rightarrow> nat list \<Rightarrow> nat list \<Rightarrow> bool" where
  "wp_inv s us fs \<longleftrightarrow>
     length (wp_pool s) = NR_WP \<and> (\<forall>i < NR_WP. NO (wp_pool s ! i) = of_nat i) \<and>
     distinct (us @ fs) \<and> set (us @ fs) = {..<NR_WP} \<and>
     next_chain s (head s) us \<and> prev_chain s None us \<and> next_chain s (free_list s) fs"

lemma wp_upd_simps [simp]:
  "head (wp_upd i f s) = head s" "free_list (wp_upd i f s) = free_list s"
  "length (wp_pool (wp_upd i f s)) = length (wp_pool s)"
  "i < length (wp_pool s) \<Longrightarrow> wp_pool (wp_upd i f s) ! j = (if j = i then f (wp_pool s ! i) else wp_pool s ! j)"
  by (simp_all add: wp_upd_def)

text \<open>A chain depends only on the links of its nodes.\<close>

lemma next_chain_frame:
  "next_chain s p is \<Longrightarrow> \<forall>i \<in> set is. wp_next (wp_pool s' ! i) = wp_next (wp_pool s ! i) \<Longrightarrow>
   next_chain s' p is"
  by (induction "is" arbitrary: p) auto

lemma prev_chain_frame:
  "prev_chain s q is \<Longrightarrow> \<forall>i \<in> set is. wp_prev (wp_pool s' ! i) = wp_prev (wp_pool s ! i) \<Longrightarrow>
   prev_chain s' q is"
  by (induction "is" arbitrary: q) auto

text \<open>A chain split in two: the links of the first part, and the pointer it ends in.\<close>

fun seg :: "wps \<Rightarrow> nat option \<Rightarrow> nat list \<Rightarrow> bool" where
  "seg s p [] \<longleftrightarrow> True"
| "seg s p (i # is) \<longleftrightarrow> p = Some i \<and> seg s (wp_next (wp_pool s ! i)) is"

definition end_ptr :: "wps \<Rightarrow> nat option \<Rightarrow> nat list \<Rightarrow> nat option" where
  "end_ptr s p is = (if is = [] then p else wp_next (wp_pool s ! last is))"

lemma end_ptr_simps [simp]:
  "end_ptr s p [] = p" "end_ptr s p (i # is) = end_ptr s (wp_next (wp_pool s ! i)) is"
  by (auto simp: end_ptr_def)

lemma next_chain_append:
  "next_chain s p (xs @ ys) \<longleftrightarrow> seg s p xs \<and> next_chain s (end_ptr s p xs) ys"
  by (induction xs arbitrary: p) auto

lemma seg_frame:
  "seg s p is \<Longrightarrow> \<forall>i \<in> set (butlast is). wp_next (wp_pool s' ! i) = wp_next (wp_pool s ! i) \<Longrightarrow>
   seg s' p is"
proof (induction "is" arbitrary: p)
  case (Cons i "is")
  then show ?case by (cases "is") auto
qed simp

lemma prev_chain_append:
  "prev_chain s q (xs @ ys) \<longleftrightarrow> prev_chain s q xs \<and> prev_chain s (if xs = [] then q else Some (last xs)) ys"
  by (induction xs arbitrary: q) auto

lemma next_chain_hd: "next_chain s p xs \<Longrightarrow> p = (if xs = [] then None else Some (hd xs))"
  by (cases xs) auto

section \<open>The pool operations\<close>

lemmas set_link_defs = set_next_def set_prev_def

lemma wp_inv_bounds: "wp_inv s us fs \<Longrightarrow> i \<in> set us \<or> i \<in> set fs \<Longrightarrow> i < length (wp_pool s)"
  by (auto simp: wp_inv_def)

lemma new_wp_empty: "wp_inv s us [] \<Longrightarrow> new_wp s = Inl (Panic ''no free watchpoint in pool'')"
  by (simp add: wp_inv_def new_wp_def)

lemma new_wp_Cons:
  assumes inv: "wp_inv s us (f # fs)"
  shows "\<exists>s'. new_wp s = Inr (f, s') \<and> wp_inv s' (f # us) fs \<and>
    (\<forall>i. wp_expr (wp_pool s' ! i) = wp_expr (wp_pool s ! i) \<and> wp_val (wp_pool s' ! i) = wp_val (wp_pool s ! i))"
proof -
  have f: "free_list s = Some f" "f < length (wp_pool s)" "f \<notin> set us" "f \<notin> set fs"
    using inv by (auto simp: wp_inv_def)
  define s1 where "s1 = set_prev f None (set_next f (head s)
      (s\<lparr>head := Some f, free_list := wp_next (wp_pool s ! f)\<rparr>))"
  have len1: "length (wp_pool s1) = length (wp_pool s)" by (simp add: s1_def set_link_defs)
  have node1: "wp_pool s1 ! i = (if i = f then (wp_pool s ! f)\<lparr>wp_next := head s, wp_prev := None\<rparr> else wp_pool s ! i)" for i
    using f by (auto simp: s1_def set_link_defs)
  have hs1: "head s1 = Some f" "free_list s1 = wp_next (wp_pool s ! f)"
    by (simp_all add: s1_def set_link_defs)
  have chains: "next_chain s (head s) us" "next_chain s (free_list s1) fs" "prev_chain s None us"
    using inv f by (auto simp: wp_inv_def hs1)
  have chains1: "next_chain s1 (head s) us" "next_chain s1 (free_list s1) fs" "prev_chain s1 None us"
    by (rule next_chain_frame [OF chains(1)] next_chain_frame [OF chains(2)]
        prev_chain_frame [OF chains(3)], use f in \<open>auto simp: node1\<close>)+
  show ?thesis
  proof (cases us)
    case Nil
    then have "head s = None" using inv by (simp add: wp_inv_def)
    then have "new_wp s = Inr (f, s1)"
      by (simp add: new_wp_def f s1_def Let_def)
    moreover have "wp_inv s1 (f # us) fs"
      using inv chains1 Nil by (auto simp: wp_inv_def len1 node1 hs1)
    ultimately show ?thesis by (auto simp: node1)
  next
    case (Cons t ts)
    then have t: "head s = Some t" "t < length (wp_pool s)" "t \<noteq> f"
      using inv f by (auto simp: wp_inv_def)
    define s2 where "s2 = set_prev t (Some f) s1"
    have node2: "wp_pool s2 ! i = (if i = t then (wp_pool s1 ! t)\<lparr>wp_prev := Some f\<rparr> else wp_pool s1 ! i)" for i
      using t len1 by (auto simp: s2_def set_link_defs)
    have hs2: "head s2 = Some f" "free_list s2 = free_list s1" "length (wp_pool s2) = length (wp_pool s1)"
      by (simp_all add: s2_def set_link_defs hs1)
    have "new_wp s = Inr (f, s2)"
      by (simp add: new_wp_def f t s1_def s2_def Let_def)
    moreover have "next_chain s2 (Some t) us" "next_chain s2 (free_list s1) fs"
      using chains1 t by (auto simp: node2 elim!: next_chain_frame)
    moreover have "prev_chain s2 (Some f) us"
    proof -
      have "t \<notin> set ts" using inv Cons by (simp add: wp_inv_def)
      moreover have "prev_chain s1 (Some t) ts" using chains1(3) Cons by simp
      ultimately have "prev_chain s2 (Some t) ts"
        by (elim prev_chain_frame) (auto simp: node2)
      then show ?thesis using Cons by (simp add: node2)
    qed
    ultimately have "wp_inv s2 (f # us) fs"
      using inv t f by (auto simp: wp_inv_def len1 node1 node2 hs2)
    then show ?thesis using \<open>new_wp s = Inr (f, s2)\<close> by (auto simp: node1 node2)
  qed
qed

text \<open>A pool from which the node \<open>w\<close> has been taken out of both lists.\<close>

definition wp_detached :: "wps \<Rightarrow> nat \<Rightarrow> nat list \<Rightarrow> nat list \<Rightarrow> bool" where
  "wp_detached s w us fs \<longleftrightarrow>
     length (wp_pool s) = NR_WP \<and> (\<forall>i < NR_WP. NO (wp_pool s ! i) = of_nat i) \<and>
     distinct (w # us @ fs) \<and> set (w # us @ fs) = {..<NR_WP} \<and>
     next_chain s (head s) us \<and> prev_chain s None us \<and> next_chain s (free_list s) fs"

text \<open>The expressions and values of all nodes are as before.\<close>

definition same_data :: "wps \<Rightarrow> wps \<Rightarrow> bool" where
  "same_data s s' \<longleftrightarrow> (\<forall>i. wp_expr (wp_pool s' ! i) = wp_expr (wp_pool s ! i) \<and>
     wp_val (wp_pool s' ! i) = wp_val (wp_pool s ! i))"

lemma unlink_head:
  assumes inv: "wp_inv s (w # us) fs"
  shows "\<exists>s'. unlink_wp w s = Inr s' \<and> wp_detached s' w us fs \<and> same_data s s'"
proof -
  have w: "head s = Some w" "w < length (wp_pool s)" using inv by (auto simp: wp_inv_def)
  have chain: "next_chain s (wp_next (wp_pool s ! w)) us" "prev_chain s (Some w) us"
    "next_chain s (free_list s) fs"
    using inv by (auto simp: wp_inv_def)
  define s1 where "s1 = s\<lparr>head := wp_next (wp_pool s ! w)\<rparr>"
  show ?thesis
  proof (cases us)
    case Nil
    then have "unlink_wp w s = Inr s1" using chain(1) by (simp add: unlink_wp_def w s1_def)
    moreover have "next_chain s1 (free_list s1) fs"
      by (rule next_chain_frame [of s]) (use chain in \<open>auto simp: s1_def\<close>)
    then have "wp_detached s1 w us fs"
      using inv Nil chain by (auto simp: wp_inv_def wp_detached_def s1_def)
    ultimately show ?thesis by (auto simp: same_data_def s1_def)
  next
    case (Cons h hs)
    then have h: "wp_next (wp_pool s ! w) = Some h" "h < length (wp_pool s)" "h \<notin> set hs"
      using chain inv by (auto simp: wp_inv_def)
    define s2 where "s2 = set_prev h None s1"
    have node: "wp_pool s2 ! i = (if i = h then (wp_pool s ! h)\<lparr>wp_prev := None\<rparr> else wp_pool s ! i)" for i
      using h by (auto simp: s2_def s1_def set_link_defs)
    have s2: "head s2 = Some h" "free_list s2 = free_list s" "length (wp_pool s2) = length (wp_pool s)"
      by (simp_all add: s2_def s1_def set_link_defs h)
    have "unlink_wp w s = Inr s2" by (simp add: unlink_wp_def w s1_def s2_def h)
    moreover have "next_chain s2 (Some h) us" "next_chain s2 (free_list s) fs"
      using chain h by (auto simp: node elim!: next_chain_frame)
    moreover have "prev_chain s2 (Some h) hs"
      using chain(2) h by (auto simp: Cons node elim!: prev_chain_frame)
    ultimately show ?thesis
      using inv by (auto simp: wp_inv_def wp_detached_def s2 node Cons same_data_def)
  qed
qed

lemma unlink_last:
  assumes "wp_inv s (us @ [w]) fs" "us \<noteq> []"
  shows "unlink_wp w s = Inl (Undefined ''NULL'')"
proof -
  have "wp_next (wp_pool s ! w) = None" "wp_prev (wp_pool s ! w) = Some (last us)" "head s = Some (hd us)"
    using assms by (auto simp: wp_inv_def next_chain_append prev_chain_append dest: next_chain_hd)
      (cases us; simp)+
  moreover have "last us \<noteq> w" "hd us \<noteq> w" "last us < length (wp_pool s)"
    using assms last_in_set [of us] hd_in_set [of us] by (auto simp: wp_inv_def)
  ultimately show ?thesis
    by (simp add: unlink_wp_def deref_def set_link_defs)
qed

lemma unlink_middle:
  assumes inv: "wp_inv s (as @ w # bs) fs" and "as \<noteq> []" "bs \<noteq> []"
  shows "\<exists>s'. unlink_wp w s = Inr s' \<and> wp_detached s' w (as @ bs) fs \<and> same_data s s'"
proof -
  obtain b bs' where b: "bs = b # bs'" using assms(3) by (cases bs) auto
  define p where "p = last as"
  have p: "p \<in> set as" "p < length (wp_pool s)" "p \<noteq> w" "p \<noteq> b" "w \<noteq> b" "b < length (wp_pool s)"
    "p \<notin> set bs'" "b \<notin> set as" "b \<notin> set bs'" "p \<notin> set fs" "b \<notin> set fs"
  proof -
    have D: "distinct (as @ w # b # bs' @ fs)" using inv by (simp add: wp_inv_def b)
    show "p \<in> set as" using assms(2) by (simp add: p_def)
    with D show "p \<noteq> w" "p \<noteq> b" "w \<noteq> b" "p \<notin> set bs'" "b \<notin> set as" "b \<notin> set bs'"
      "p \<notin> set fs" "b \<notin> set fs" by auto
    show "p < length (wp_pool s)" "b < length (wp_pool s)"
      using wp_inv_bounds [OF inv] \<open>p \<in> set as\<close> by (auto simp: b)
  qed
  have chain: "seg s (head s) as" "end_ptr s (head s) as = Some w" "wp_next (wp_pool s ! w) = Some b"
    "next_chain s (wp_next (wp_pool s ! b)) bs'" "next_chain s (free_list s) fs"
    "prev_chain s None as" "wp_prev (wp_pool s ! w) = Some p" "prev_chain s (Some b) bs'"
    using inv assms(2) by (auto simp: wp_inv_def next_chain_append prev_chain_append b p_def)
  have head: "head s = Some (hd as)" using chain(1) assms(2) by (cases as) auto
  have "hd as \<noteq> w" using inv hd_in_set [OF assms(2)] by (auto simp: wp_inv_def)
  define s' where "s' = set_prev b (Some p) (set_next p (Some b) s)"
  have node: "wp_pool s' ! i = (if i = b then (wp_pool s ! b)\<lparr>wp_prev := Some p\<rparr>
      else if i = p then (wp_pool s ! p)\<lparr>wp_next := Some b\<rparr> else wp_pool s ! i)" for i
    using p by (auto simp: s'_def set_link_defs)
  have s': "head s' = head s" "free_list s' = free_list s" "length (wp_pool s') = length (wp_pool s)"
    by (simp_all add: s'_def set_link_defs)
  have "unlink_wp w s = Inr s'"
    using p(2-3) chain(3,7) head \<open>hd as \<noteq> w\<close>
    by (simp add: unlink_wp_def deref_def s'_def set_link_defs Let_def)
  moreover have "distinct (butlast as @ [p])"
    using inv assms(2) by (simp add: wp_inv_def p_def)
  then have "seg s' (head s) as"
    using chain(1) p in_set_butlastD [of _ as] by (auto simp: node elim!: seg_frame)
  moreover have "end_ptr s' (head s) as = Some b"
    using p assms(2) by (simp add: end_ptr_def node p_def [symmetric])
  moreover have "next_chain s' (wp_next (wp_pool s ! b)) bs'" "next_chain s' (free_list s) fs"
    by (rule next_chain_frame [OF chain(4)] next_chain_frame [OF chain(5)], use p in \<open>auto simp: node\<close>)+
  moreover have "prev_chain s' None as" "prev_chain s' (Some b) bs'"
    using chain p by (auto simp: node elim!: prev_chain_frame)
  moreover have "distinct (w # (as @ bs) @ fs)" "set (w # (as @ bs) @ fs) = {..<NR_WP}"
    "length (wp_pool s') = NR_WP" "\<forall>i < NR_WP. NO (wp_pool s' ! i) = of_nat i"
    using inv by (simp_all add: wp_inv_def s' node insert_commute)
  ultimately have "wp_detached s' w (as @ bs) fs"
    using assms(2) p(1)
    by (simp add: wp_detached_def s' node b next_chain_append prev_chain_append p_def [symmetric])
  then show ?thesis
    using \<open>unlink_wp w s = Inr s'\<close> by (simp add: same_data_def node)
qed

lemma free_detached:
  assumes "unlink_wp w s = Inr s1" "wp_detached s1 w us (f # fs)"
  shows "\<exists>s'. free_wp w s = Inr s' \<and> wp_inv s' us (w # f # fs) \<and> same_data s1 s'"
proof -
  have w: "w < length (wp_pool s1)" "f < length (wp_pool s1)" "w \<noteq> f" "free_list s1 = Some f"
    "w \<notin> set us" "w \<notin> set fs" "f \<notin> set us" "f \<notin> set fs"
    using assms(2) by (auto simp: wp_detached_def)
  define s' where "s' = (set_prev f (Some w) (set_prev w None (set_next w (Some f) s1)))\<lparr>free_list := Some w\<rparr>"
  have node: "wp_pool s' ! i = (if i = f then (wp_pool s1 ! f)\<lparr>wp_prev := Some w\<rparr>
      else if i = w then (wp_pool s1 ! w)\<lparr>wp_next := Some f, wp_prev := None\<rparr> else wp_pool s1 ! i)" for i
    using w by (auto simp: s'_def set_link_defs)
  have s': "head s' = head s1" "free_list s' = Some w" "length (wp_pool s') = length (wp_pool s1)"
    by (simp_all add: s'_def set_link_defs)
  have "free_wp w s = Inr s'"
    using w by (simp add: free_wp_def assms(1) deref_def s'_def set_link_defs Let_def)
  moreover have "next_chain s' (head s1) us" "prev_chain s' None us" "next_chain s' (wp_next (wp_pool s1 ! f)) fs"
    using assms(2) w by (auto simp: wp_detached_def node elim!: next_chain_frame prev_chain_frame)
  ultimately show ?thesis
    using assms(2) w by (auto simp: wp_detached_def wp_inv_def s' node same_data_def)
qed

lemma free_exhausted:
  "unlink_wp w s = Inr s1 \<Longrightarrow> wp_detached s1 w us [] \<Longrightarrow> free_wp w s = Inl (Undefined ''NULL'')"
  by (simp add: free_wp_def wp_detached_def deref_def set_link_defs Let_def)

lemma same_data_trans: "same_data s s1 \<Longrightarrow> same_data s1 s2 \<Longrightarrow> same_data s s2"
  by (simp add: same_data_def)

text \<open>
  \<open>free_wp\<close> on an active node, completely: it works unless the free list is empty or the node
  is the last of at least two, and dereferences \<open>NULL\<close> in those two cases.
\<close>

lemma free_wp_cases:
  assumes inv: "wp_inv s us fs" and w: "w \<in> set us"
  shows "if fs \<noteq> [] \<and> (w = hd us \<or> w \<noteq> last us)
    then \<exists>s'. free_wp w s = Inr s' \<and> wp_inv s' (remove1 w us) (w # fs) \<and> same_data s s'
    else free_wp w s = Inl (Undefined ''NULL'')"
proof -
  obtain as bs where us: "us = as @ w # bs" "w \<notin> set as"
    using split_list_first [OF w] by blast
  have "w \<notin> set bs" using inv us by (simp add: wp_inv_def)
  then have last: "w = last us \<longleftrightarrow> bs = []" by (auto simp: us last_in_set)
  have hd: "w = hd us \<longleftrightarrow> as = []" using us by (cases as) auto
  have rm: "remove1 w us = as @ bs" using us by (simp add: remove1_append)
  consider (bad) "as \<noteq> []" "bs = []"
    | (ok) s1 where "as = [] \<or> bs \<noteq> []" "unlink_wp w s = Inr s1" "wp_detached s1 w (as @ bs) fs" "same_data s s1"
    using unlink_head [of s w bs fs] unlink_middle [of s as w bs fs] inv us
    by (cases "as = []"; cases "bs = []") auto
  then show ?thesis
  proof cases
    case bad
    then have "free_wp w s = Inl (Undefined ''NULL'')"
      using unlink_last [of s as w fs] inv us by (simp add: free_wp_def)
    then show ?thesis using bad hd last by simp
  next
    case ok
    show ?thesis
    proof (cases fs)
      case Nil
      then show ?thesis using ok free_exhausted by simp
    next
      case (Cons f fs')
      then show ?thesis
        using ok free_detached [of w s s1 "as @ bs" f fs'] hd last rm same_data_trans by auto
    qed
  qed
qed

section \<open>The interface of the pool\<close>

text \<open>
  What the debugger relies on: nodes are taken from a list of free ones and given back in
  front of it.
\<close>

locale node_pool =
  fixes inv :: "'s \<Rightarrow> nat list \<Rightarrow> nat list \<Rightarrow> bool"
    and acquire :: "'s \<Rightarrow> (nat \<times> 's) result"
    and release :: "nat \<Rightarrow> 's \<Rightarrow> 's result"
  assumes acquire_empty: "inv s us [] \<Longrightarrow> \<exists>e. acquire s = Inl e"
    and acquire_Cons: "inv s us (f # fs) \<Longrightarrow> \<exists>s'. acquire s = Inr (f, s') \<and> inv s' (f # us) fs"
    and release_hd: "inv s (u # us) (f # fs) \<Longrightarrow> \<exists>s'. release u s = Inr s' \<and> inv s' us (u # f # fs)"

fun acquire_n :: "('s \<Rightarrow> (nat \<times> 's) result) \<Rightarrow> nat \<Rightarrow> 's \<Rightarrow> (nat list \<times> 's) result" where
  "acquire_n acquire 0 s = Inr ([], s)"
| "acquire_n acquire (Suc n) s =
     bindR (acquire s) (\<lambda>(i, s). bindR (acquire_n acquire n s) (\<lambda>(is, s). Inr (i # is, s)))"

context node_pool begin

lemma acquire_many:
  "inv s us fs \<Longrightarrow> n \<le> length fs \<Longrightarrow>
   \<exists>s'. acquire_n acquire n s = Inr (take n fs, s') \<and> inv s' (rev (take n fs) @ us) (drop n fs)"
proof (induction n arbitrary: s us fs)
  case (Suc n)
  then obtain f fs' where fs: "fs = f # fs'" by (cases fs) auto
  then obtain s1 where s1: "acquire s = Inr (f, s1)" "inv s1 (f # us) fs'"
    using acquire_Cons Suc.prems(1) by blast
  then show ?case using Suc.IH [OF s1(2)] Suc.prems(2) fs by auto
qed simp

lemma acquire_exhaust:
  "inv s us fs \<Longrightarrow> \<exists>e. acquire_n acquire (Suc (length fs)) s = Inl e"
proof (induction fs arbitrary: s us)
  case Nil
  then show ?case using acquire_empty by fastforce
next
  case (Cons f fs)
  then obtain s1 where s1: "acquire s = Inr (f, s1)" "inv s1 (f # us) fs"
    using acquire_Cons by blast
  then show ?case using Cons.IH [OF s1(2)] by auto
qed

lemma acquire_release:
  "inv s us (f # g # fs) \<Longrightarrow>
   \<exists>s'. bindR (acquire s) (\<lambda>(i, s). release i s) = Inr s' \<and> inv s' us (f # g # fs)"
  using acquire_Cons [of s us f "g # fs"] release_hd [of _ f us g fs] by fastforce

end

interpretation wpool: node_pool wp_inv new_wp free_wp
proof
  fix s us f fs and u :: nat
  show "wp_inv s us [] \<Longrightarrow> \<exists>e. new_wp s = Inl e"
    by (simp add: new_wp_empty)
  show "wp_inv s us (f # fs) \<Longrightarrow> \<exists>s'. new_wp s = Inr (f, s') \<and> wp_inv s' (f # us) fs"
    using new_wp_Cons by blast
  show "wp_inv s (u # us) (f # fs) \<Longrightarrow> \<exists>s'. free_wp u s = Inr s' \<and> wp_inv s' us (u # f # fs)"
    using free_wp_cases [of s "u # us" "f # fs" u] by auto
qed

lemma next_chain_upto:
  assumes "\<And>i. k \<le> i \<Longrightarrow> i < n \<Longrightarrow> wp_next (wp_pool s ! i) = (if i = n - 1 then None else Some (i + 1))"
    and "k < n"
  shows "next_chain s (Some k) [k..<n]"
  using assms
proof (induction "n - k" arbitrary: k)
  case (Suc x)
  show ?case
  proof (cases "Suc k = n")
    case True
    then show ?thesis using Suc.prems by (simp add: upt_rec)
  next
    case False
    then have "next_chain s (Some (Suc k)) [Suc k..<n]" using Suc by simp
    moreover have "[k..<n] = k # [Suc k..<n]" using Suc.prems(2) by (simp add: upt_rec)
    ultimately show ?thesis using Suc.prems False by simp
  qed
qed simp

lemma init_wp_pool_inv: "wp_inv (init_wp_pool s) [] [0..<NR_WP]"
proof -
  have "next_chain (init_wp_pool s) (Some 0) [0..<NR_WP]"
    by (rule next_chain_upto) (simp_all add: init_wp_pool_def NR_WP_def)
  then show ?thesis by (auto simp: wp_inv_def init_wp_pool_def)
qed

section \<open>The walks\<close>

text \<open>The walks over the active list, as recursions over the list of its nodes.\<close>

fun check_list ::
  "'d dut_ops \<Rightarrow> 'd \<Rightarrow> nat list \<Rightarrow> bool \<Rightarrow> wps \<Rightarrow> machine \<Rightarrow> (bool \<times> wps \<times> machine) result" where
  "check_list ops d [] b s m = Inr (b, s, m)"
| "check_list ops d (i # is) b s m =
     bindR (expr ops d (wp_expr (wp_pool s ! i)) m) (\<lambda>(r, m). case r of
       None \<Rightarrow> Inr (False, s, printf ''Invalid expression:%s'' [S (wp_expr (wp_pool s ! i))] m)
     | Some v \<Rightarrow>
         if v \<noteq> wp_val (wp_pool s ! i) then
           check_list ops d is True (wp_upd i (\<lambda>w. w\<lparr>wp_val := v\<rparr>) s)
             (printf ''New value = %u'' [N v]
               (printf ''Old value = %u'' [N (wp_val (wp_pool s ! i))]
                 (printf ''Watchpoint %d: %s''
                   [N (NO (wp_pool s ! i)), S (wp_expr (wp_pool s ! i))] m)))
         else check_list ops d is b s m)"

lemma wp_upd_val [simp]:
  "wp_next (wp_pool (wp_upd i (\<lambda>w. w\<lparr>wp_val := v\<rparr>) s) ! j) = wp_next (wp_pool s ! j)"
  "wp_prev (wp_pool (wp_upd i (\<lambda>w. w\<lparr>wp_val := v\<rparr>) s) ! j) = wp_prev (wp_pool s ! j)"
  "NO (wp_pool (wp_upd i (\<lambda>w. w\<lparr>wp_val := v\<rparr>) s) ! j) = NO (wp_pool s ! j)"
  "wp_expr (wp_pool (wp_upd i (\<lambda>w. w\<lparr>wp_val := v\<rparr>) s) ! j) = wp_expr (wp_pool s ! j)"
  by (cases "i < length (wp_pool s)"; cases "i = j"; simp add: wp_upd_def list_update_beyond)+

lemma next_chain_upd_val:
  "next_chain s p is \<Longrightarrow> next_chain (wp_upd i (\<lambda>w. w\<lparr>wp_val := v\<rparr>) s) p is"
  by (erule next_chain_frame) simp

lemma check_loop_eq:
  "next_chain s temp is \<Longrightarrow> check_loop ops d temp b s m = Some (check_list ops d is b s m)"
proof (induction "is" arbitrary: temp b s m)
  case Nil
  then show ?case by (subst check_loop.simps) simp
next
  case (Cons i "is")
  then have temp: "temp = Some i" and chain: "next_chain s (wp_next (wp_pool s ! i)) is" by simp_all
  show ?case
    unfolding temp
    by (subst check_loop.simps)
      (auto simp: Cons.IH [OF chain] Cons.IH [OF next_chain_upd_val [OF chain]] Let_def
        split: sum.split option.split)
qed

lemma print_loop_eq:
  "next_chain s temp is \<Longrightarrow> print_loop temp s m = Some (m\<lparr>console := console m
     @ map (\<lambda>i. (''%d %s'', [N (NO (wp_pool s ! i)), S (wp_expr (wp_pool s ! i))])) is\<rparr>)"
  by (induction "is" arbitrary: temp m) (subst print_loop.simps; simp add: printf_def)+

lemma delete_loop_eq:
  "next_chain s temp is \<Longrightarrow> delete_loop no temp s m = Some
     (case List.find (\<lambda>i. NO (wp_pool s ! i) = no) is of
        None \<Rightarrow> Inr (s, printf ''No watchpoint %d'' [N no] m)
      | Some i \<Rightarrow> bindR (free_wp i s) (\<lambda>s. Inr (s, m)))"
  by (induction "is" arbitrary: temp) (subst delete_loop.simps; simp)+

text \<open>Evaluation does not depend on the console, and a success prints nothing.\<close>

lemma printf_simps [simp]: "pmem (printf f a m) = pmem m" "devs (printf f a m) = devs m"
  "state (printf f a m) = state m" "sim_time (printf f a m) = sim_time m"
  by (simp_all add: printf_def)

definition expr_val :: "'d dut_ops \<Rightarrow> 'd \<Rightarrow> string \<Rightarrow> machine \<Rightarrow> u32 option result" where
  "expr_val ops d e m = bindR (expr ops d e m) (\<lambda>(r, _). Inr r)"

lemma paddr_read_cong: "pmem m = pmem m' \<Longrightarrow> paddr_read m a n = paddr_read m' a n"
  by (induction n) (simp_all add: pmem_read_def load8_def)

lemma eval_cong:
  assumes "pmem m = pmem m'"
  shows "eval ops d m ts = eval ops d m' ts"
proof (induction "length ts" arbitrary: ts rule: less_induct)
  case less
  note IH = less.hyps
  consider "ts = []" | t where "ts = [t]" | "2 \<le> length ts"
    by (metis (no_types) One_nat_def Suc_leI length_0_conv length_Suc_conv less_2_cases_iff not_le)
  then show ?case
  proof cases
    case 3
    show ?thesis
      unfolding eval_long [OF 3, of ops d m] eval_long [OF 3, of ops d m'] paddr_read_cong [OF assms]
      using 3 IH FindMainOP_pos [of ts]
      by (auto split: paren.split option.split intro!: bindR_cong bind_val_cong)
  qed (simp_all add: eval.simps)
qed

text \<open>The lexer only prints, and only when it fails.\<close>

definition lex_shape :: "(machine \<Rightarrow> (token list option \<times> machine) result) \<Rightarrow> bool" where
  "lex_shape F \<longleftrightarrow> (\<exists>r. \<forall>m. F m = Inr (Some r, m)) \<or>
     (\<exists>f a. \<forall>m. F m = Inr (None, printf f a m)) \<or> (\<exists>err. \<forall>m. F m = Inl err)"

lemma lex_shapeI:
  "lex_shape (\<lambda>m. Inr (Some r, m))" "lex_shape (\<lambda>m. Inr (None, printf f a m))" "lex_shape (\<lambda>m. Inl err)"
  unfolding lex_shape_def by blast+

lemma make_token_loop_shape: "lex_shape (make_token_loop e p ts)"
proof (induction "length e - p" arbitrary: p ts rule: less_induct)
  case less
  consider "p \<ge> length e" | "p < length e" "match_rules rules (drop p e) = None"
    | len ty where "p < length e" "match_rules rules (drop p e) = Some (len, ty)"
    by fastforce
  then show ?case
  proof cases
    case 3
    then have "length e - (p + len) < length e - p" using match_rules_rules by fastforce
    note IH = less.hyps [OF this]
    show ?thesis
      using IH lex_shapeI 3
      by (cases "length ts \<ge> MAX_TOKEN"; cases "ty = TK_NOTYPE")
        (auto simp: make_token_loop.simps [of e p ts, abs_def] Let_def guardR_def)
  qed (simp_all add: make_token_loop.simps [of e p ts, abs_def] lex_shapeI)
qed

lemma make_token_cases:
  obtains r where "\<And>m. make_token e m = Inr (Some r, m)"
  | f a where "\<And>m. make_token e m = Inr (None, printf f a m)"
  | err where "\<And>m. make_token e m = Inl err"
  using make_token_loop_shape [of e 0 "[]"] unfolding lex_shape_def make_token_def by blast

text \<open>The three outcomes of \<open>expr\<close>: an error, a failure with a message, or a value.\<close>

lemma expr_cases:
  fixes m :: machine
  obtains err where "\<And>n. pmem n = pmem m \<Longrightarrow> expr ops d e n = Inl err"
  | f a where "\<And>n. pmem n = pmem m \<Longrightarrow> expr ops d e n = Inr (None, printf f a n)"
  | v where "\<And>n. pmem n = pmem m \<Longrightarrow> expr ops d e n = Inr (Some v, n)"
proof (cases rule: make_token_cases [of e])
  case (1 r)
  have ev: "pmem n = pmem m \<Longrightarrow> eval ops d n (mark_unary None r) = eval ops d m (mark_unary None r)" for n
    by (rule eval_cong)
  show ?thesis
  proof (cases "eval ops d m (mark_unary None r)")
    case (Inl err)
    have "eval ops d n (mark_unary None r) = Inl err" if "pmem n = pmem m" for n
      using ev [OF that] Inl by simp
    then show ?thesis using 1 by (intro that(1) [of err]) (simp add: expr_def)
  next
    case (Inr x)
    have ev': "eval ops d n (mark_unary None r) = Inr x" if "pmem n = pmem m" for n
      using ev [OF that] Inr by simp
    show ?thesis
    proof (cases x)
      case (Val v)
      then show ?thesis using ev' 1 by (intro that(3) [of v]) (simp add: expr_def)
    next
      case (Err y)
      then show ?thesis using ev' 1 by (intro that(2) [of "err_msg y" "[]"]) (simp add: expr_def)
    qed
  qed
next
  case (2 f a)
  then show ?thesis by (intro that(2) [of f a]) (simp add: expr_def)
next
  case (3 err)
  then show ?thesis by (intro that(1) [of err]) (simp add: expr_def)
qed

lemma expr_Some: "expr ops d e m = Inr (Some v, m') \<Longrightarrow> m' = m"
  by (cases rule: expr_cases [of m ops d e]) auto

lemma expr_val_cong:
  assumes "pmem n = pmem m"
  shows "expr_val ops d e n = expr_val ops d e m"
  by (cases rule: expr_cases [of m ops d e]) (simp_all add: expr_val_def assms)

lemma expr_val_Some: "expr_val ops d e m = Inr (Some v) \<longleftrightarrow> expr ops d e m = Inr (Some v, m)"
  by (cases rule: expr_cases [of m ops d e]) (auto simp: expr_val_def)

text \<open>A walk in which every expression has a value.\<close>

lemma wp_inv_upd_val: "wp_inv (wp_upd i (\<lambda>w. w\<lparr>wp_val := v\<rparr>) s) us fs \<longleftrightarrow> wp_inv s us fs"
proof -
  have "next_chain (wp_upd i (\<lambda>w. w\<lparr>wp_val := v\<rparr>) s) p is \<longleftrightarrow> next_chain s p is" for p "is"
    by (induction "is" arbitrary: p) simp_all
  moreover have "prev_chain (wp_upd i (\<lambda>w. w\<lparr>wp_val := v\<rparr>) s) p is \<longleftrightarrow> prev_chain s p is" for p "is"
    by (induction "is" arbitrary: p) simp_all
  ultimately show ?thesis by (simp add: wp_inv_def)
qed

definition wp_texts :: "wps \<Rightarrow> string list" where
  "wp_texts s = map wp_expr (wp_pool s)"

lemma wp_texts_wp_upd:
  assumes "\<And>w. wp_expr (f w) = wp_expr w"
  shows "wp_texts (wp_upd i f s) = wp_texts s"
proof -
  have "map wp_expr (xs[i := f (xs ! i)]) = map wp_expr xs" for xs
    by (cases "i < length xs") (simp_all add: map_update assms list_update_same_conv list_update_beyond)
  then show ?thesis by (simp add: wp_texts_def wp_upd_def)
qed

lemma wp_texts_simps [simp]:
  "wp_texts (set_next i p s) = wp_texts s" "wp_texts (set_prev i p s) = wp_texts s"
  "wp_texts (wp_upd i (\<lambda>w. w\<lparr>wp_val := v\<rparr>) s) = wp_texts s"
  "wp_texts (s\<lparr>head := p\<rparr>) = wp_texts s" "wp_texts (s\<lparr>free_list := p\<rparr>) = wp_texts s"
  by (simp_all add: wp_texts_wp_upd set_link_defs) (simp_all add: wp_texts_def)

lemma wp_val_upd: "i < length (wp_pool s) \<Longrightarrow>
  wp_val (wp_pool (wp_upd i (\<lambda>w. w\<lparr>wp_val := v\<rparr>) s) ! j) = (if j = i then v else wp_val (wp_pool s ! j))"
  by simp

lemma check_list_values:
  assumes "wp_inv s us fs" "distinct is" "set is \<subseteq> set us"
    and "\<forall>i \<in> set is. expr_val ops d (wp_expr (wp_pool s ! i)) m = Inr (Some (v i))"
  shows "\<exists>s' m'. check_list ops d is b s m = Inr (b \<or> (\<exists>i \<in> set is. v i \<noteq> wp_val (wp_pool s ! i)), s', m') \<and>
    wp_inv s' us fs \<and> pmem m' = pmem m \<and>
    (\<forall>j. wp_expr (wp_pool s' ! j) = wp_expr (wp_pool s ! j)) \<and>
    (\<forall>j. wp_val (wp_pool s' ! j) = (if j \<in> set is then v j else wp_val (wp_pool s ! j)))"
  using assms
proof (induction "is" arbitrary: b s m)
  case (Cons i "is")
  let ?s = "wp_upd i (\<lambda>w. w\<lparr>wp_val := v i\<rparr>) s"
  have i: "i < length (wp_pool s)" using Cons.prems by (intro wp_inv_bounds) auto
  have e: "expr ops d (wp_expr (wp_pool s ! i)) m = Inr (Some (v i), m)"
    using Cons.prems by (simp add: expr_val_Some [symmetric])
  have vals: "\<forall>j \<in> set is. expr_val ops d (wp_expr (wp_pool s ! j)) n = Inr (Some (v j))" if "pmem n = pmem m" for n
    using Cons.prems(4) expr_val_cong [OF that, of ops d] by simp
  show ?case
  proof (cases "v i = wp_val (wp_pool s ! i)")
    case True
    then show ?thesis
      using Cons.IH [of s m b] Cons.prems e vals [of m] by (fastforce split: if_splits)
  next
    case False
    define n where "n = printf ''New value = %u'' [N (v i)]
        (printf ''Old value = %u'' [N (wp_val (wp_pool s ! i))]
          (printf ''Watchpoint %d: %s'' [N (NO (wp_pool s ! i)), S (wp_expr (wp_pool s ! i))] m))"
    have n: "pmem n = pmem m" by (simp add: n_def)
    have run: "check_list ops d (i # is) b s m = check_list ops d is True ?s n"
      using e False by (simp add: n_def)
    have "\<forall>j \<in> set is. v j \<noteq> wp_val (wp_pool ?s ! j) \<longleftrightarrow> v j \<noteq> wp_val (wp_pool s ! j)"
      using Cons.prems(2) i by (auto simp: wp_val_upd)
    then show ?thesis
      using Cons.IH [of ?s n True] Cons.prems vals [OF n] False n i
      unfolding run by (auto simp: wp_inv_upd_val wp_val_upd simp del: wp_upd_simps(4))
  qed
qed simp

lemma check_wp_eq: "wp_inv s us fs \<Longrightarrow> check_wp ops d s m = Some (check_list ops d us False s m)"
  by (simp add: check_wp_def wp_inv_def check_loop_eq)

lemma find_NO:
  assumes "wp_inv s us fs" "i \<in> set us"
  shows "List.find (\<lambda>j. NO (wp_pool s ! j) = of_nat i) us = Some i"
proof -
  have NO: "NO (wp_pool s ! j) = of_nat i \<longleftrightarrow> j = i" if "j \<in> set us" for j
  proof -
    have "j < 32" "i < 32" using assms that by (auto simp: wp_inv_def NR_WP_def)
    then have "(of_nat j :: u32) = of_nat i \<longleftrightarrow> j = i"
      by (simp add: word_unat_eq_iff unat_of_nat)
    moreover have "NO (wp_pool s ! j) = of_nat j"
      using assms(1) \<open>j < 32\<close> by (simp add: wp_inv_def NR_WP_def)
    ultimately show ?thesis by simp
  qed
  have "List.find (\<lambda>j. NO (wp_pool s ! j) = of_nat i) us = List.find (\<lambda>j. j = i) us"
    by (rule find_cong) (simp_all add: NO)
  also have "\<dots> = Some i" using assms(2) by (induction us) auto
  finally show ?thesis .
qed

lemma delete_wp_eq:
  assumes "wp_inv s us fs"
  shows "delete_wp no s m = Some
    (if unat no \<in> set us then bindR (free_wp (unat no) s) (\<lambda>s. Inr (s, m))
     else Inr (s, printf ''No watchpoint %d'' [N no] m))"
proof -
  have chain: "next_chain s (head s) us" using assms by (simp add: wp_inv_def)
  show ?thesis
  proof (cases "unat no \<in> set us")
    case True
    then show ?thesis
      using find_NO [OF assms True] by (simp add: delete_wp_def delete_loop_eq [OF chain])
  next
    case False
    have "NO (wp_pool s ! j) \<noteq> no" if "j \<in> set us" for j
    proof
      assume "NO (wp_pool s ! j) = no"
      moreover have "j < 32" "NO (wp_pool s ! j) = of_nat j"
        using assms that by (auto simp: wp_inv_def NR_WP_def)
      ultimately have "unat no = j" by (auto simp: unat_of_nat)
      then show False using False that by simp
    qed
    then have "List.find (\<lambda>i. NO (wp_pool s ! i) = no) us = None"
      by (simp add: find_None_iff)
    then show ?thesis using False by (simp add: delete_wp_def delete_loop_eq [OF chain])
  qed
qed

section \<open>Properties\<close>

text \<open>
  The operations of the pool keep its invariant: the active list stays linked both ways,
  and every node stays in exactly one of the two lists.  \<open>new_wp\<close> moves the first free node to
  the front of the active list.
\<close>

theorem new_wp_correct:
  assumes "wp_inv s us fs"
  shows "if fs = [] then new_wp s = Inl (Panic ''no free watchpoint in pool'')
    else \<exists>s'. new_wp s = Inr (hd fs, s') \<and> wp_inv s' (hd fs # us) (tl fs)"
  using assms new_wp_empty new_wp_Cons by (cases fs) fastforce+

definition demo_wps :: wps where
  "demo_wps = init_wp_pool \<lparr>wp_pool = replicate NR_WP \<lparr>NO = 0, wp_next = None, wp_prev = None,
     wp_val = 0, wp_expr = ''''\<rparr>, head = None, free_list = None\<rparr>"

lemma demo_wps_inv: "wp_inv demo_wps [] [0..<NR_WP]"
  by (simp add: demo_wps_def init_wp_pool_inv)

theorem new_wp_correct_witness:
  "\<exists>s'. new_wp demo_wps = Inr (0, s') \<and> wp_inv s' [0] [1..<32]"
proof -
  have "[0..<NR_WP] = 0 # [1..<32]" by (simp add: NR_WP_def upt_rec)
  then show ?thesis using new_wp_correct [OF demo_wps_inv] by simp
qed

text \<open>
  C10. Freeing an active watchpoint gives the node back and keeps the invariant, except in two
  cases, in which the code dereferences \<open>NULL\<close>: no node is free, or the node is the last one of
  an active list of at least two.
\<close>

theorem free_wp_correct:
  assumes "wp_inv s us fs" "w \<in> set us"
  shows "if fs \<noteq> [] \<and> (w = hd us \<or> w \<noteq> last us)
    then \<exists>s'. free_wp w s = Inr s' \<and> wp_inv s' (remove1 w us) (w # fs) \<and> same_data s s'
    else free_wp w s = Inl (Undefined ''NULL'')"
  by (rule free_wp_cases [OF assms])

lemma demo_two:
  obtains s where "acquire_n new_wp 2 demo_wps = Inr ([0, 1], s)" "wp_inv s [1, 0] [2..<32]"
proof -
  have "take 2 [0..<NR_WP] = [0, 1]" "drop 2 [0..<NR_WP] = [2..<32]"
    by (simp_all add: NR_WP_def upt_rec)
  then show ?thesis using that wpool.acquire_many [OF demo_wps_inv, of 2] by (auto simp: NR_WP_def)
qed

theorem free_wp_correct_witness:
  "\<exists>s. acquire_n new_wp 2 demo_wps = Inr ([0, 1], s) \<and> free_wp 0 s = Inl (Undefined ''NULL'')"
  by (rule demo_two) (use free_wp_correct in fastforce)

text \<open>
  From an initialised pool exactly 32 watchpoints can be created, numbered 0 to 31 in this
  order; asking for one more ends the process.
\<close>

theorem wp_pool_capacity:
  "\<exists>s' e. acquire_n new_wp 32 (init_wp_pool s) = Inr ([0..<32], s') \<and> new_wp s' = Inl e"
proof -
  obtain s' where s': "acquire_n new_wp 32 (init_wp_pool s) = Inr ([0..<32], s')" "wp_inv s' (rev [0..<32]) []"
    using wpool.acquire_many [OF init_wp_pool_inv, of 32 s] by (auto simp: NR_WP_def)
  then show ?thesis using wpool.acquire_empty by blast
qed

text \<open>
  If all watched expressions have values, \<open>check_wp\<close> ends, reports a change exactly when
  some value differs from the recorded one, and afterwards every recorded value is the current
  one.
\<close>

theorem check_wp_correct:
  assumes "wp_inv s us fs"
    and "\<forall>i \<in> set us. expr_val ops d (wp_expr (wp_pool s ! i)) m = Inr (Some (v i))"
  shows "\<exists>s' m'. check_wp ops d s m = Some (Inr (\<exists>i \<in> set us. v i \<noteq> wp_val (wp_pool s ! i), s', m')) \<and>
    wp_inv s' us fs \<and> (\<forall>i \<in> set us. wp_val (wp_pool s' ! i) = v i)"
proof -
  have "distinct us" using assms(1) by (simp add: wp_inv_def)
  from check_list_values [OF assms(1) this order_refl assms(2), of False]
  show ?thesis using check_wp_eq [OF assms(1), of ops d m] by fastforce
qed

theorem check_wp_correct_witness:
  "\<exists>s' m'. check_wp demo_ops 0 demo_wps demo_machine = Some (Inr (False, s', m')) \<and> wp_inv s' [] [0..<NR_WP]"
  using check_wp_correct [OF demo_wps_inv, of demo_ops 0 demo_machine "\<lambda>_. 0"] by simp

text \<open>
  \<open>delete_wp\<close> with the number of an active watchpoint frees that node; with any other
  number it only prints a message.
\<close>

theorem delete_wp_correct:
  assumes "wp_inv s us fs"
  shows "delete_wp no s m = Some
    (if unat no \<in> set us then bindR (free_wp (unat no) s) (\<lambda>s. Inr (s, m))
     else Inr (s, printf ''No watchpoint %d'' [N no] m))"
  by (rule delete_wp_eq [OF assms])

theorem delete_wp_correct_witness:
  "delete_wp 5 demo_wps demo_machine = Some (Inr (demo_wps, printf ''No watchpoint %d'' [N 5] demo_machine))"
  using delete_wp_correct [OF demo_wps_inv, of 5 demo_machine] by simp

end
