(* ===== verification/Npc_Cpu.thy ===== *)
theory Npc_Cpu
  imports Difftest Watchpoint
begin

text \<open>
  The execution of the simulated core: the wave files (\<open>core/csrc/utils/wavemanager.cpp\<close>), the
  cycle, the instruction and the run of \<open>core/csrc/cpu.cpp\<close>, and \<open>ebreak\<close> of \<open>npc.cpp\<close>.  The
  record \<open>sim\<close> holds the static and global variables of all files; \<open>env\<close> holds what is not in
  the repository: the verilated core, the reference model and the disassembler.
\<close>

datatype wave_ev = WOpen nat | WClose nat | WDump nat int

record wave =
  cur_trace :: "nat option"
  cur_wave_idx :: nat
  wave_log :: "wave_ev list"

record ('d, 'r) sim =
  dut :: 'd
  mach :: machine
  wp_st :: wps
  trace_st :: trace
  diff_st :: "'r diff"
  wave_st :: wave
  nr_inst :: u32
  nr_cycle :: u32
  g_print_step :: bool
  first :: bool
  logbuf :: msg
  is_batch_mode :: bool
  img_size :: int

record ('d, 'r) env =
  env_ops :: "'d dut_ops"
  env_rops :: "'r ref_ops"
  env_disasm :: "u32 \<Rightarrow> u32 \<Rightarrow> string"

definition MAX_WAVE_NUM :: nat where "MAX_WAVE_NUM = 3"
definition MAX_INST_TO_PRINT :: u64 where "MAX_INST_TO_PRINT = 10"

definition out :: "string \<Rightarrow> parg list \<Rightarrow> ('d, 'r) sim \<Rightarrow> ('d, 'r) sim" where
  "out fmt args s = s\<lparr>mach := printf fmt args (mach s)\<rparr>"

section \<open>Wave files\<close>

definition wave_emit :: "wave_ev \<Rightarrow> ('d, 'r) sim \<Rightarrow> ('d, 'r) sim" where
  "wave_emit e s = s\<lparr>wave_st := (wave_st s)\<lparr>wave_log := wave_log (wave_st s) @ [e]\<rparr>\<rparr>"

definition SwitchWaveTrace :: "('d, 'r) sim \<Rightarrow> ('d, 'r) sim" where
  "SwitchWaveTrace s =
     (let s = (case cur_trace (wave_st s) of None \<Rightarrow> s | Some w \<Rightarrow> wave_emit (WClose w) s);
          idx = cur_wave_idx (wave_st s);
          s = s\<lparr>wave_st := (wave_st s)\<lparr>cur_trace := Some idx\<rparr>\<rparr>;
          s = wave_emit (WOpen idx) s;
          s = s\<lparr>wave_st := (wave_st s)\<lparr>cur_wave_idx := (cur_wave_idx (wave_st s) + 1) mod MAX_WAVE_NUM\<rparr>\<rparr>
      in s\<lparr>mach := (mach s)\<lparr>sim_time := 0\<rparr>\<rparr>)"

definition DeinitWaveTrace :: "('d, 'r) sim \<Rightarrow> ('d, 'r) sim" where
  "DeinitWaveTrace s = (case cur_trace (wave_st s) of None \<Rightarrow> s | Some w \<Rightarrow> wave_emit (WClose w) s)"

section \<open>Callbacks of the core\<close>

definition stop :: "u32 \<Rightarrow> u32 \<Rightarrow> machine \<Rightarrow> machine" where
  "stop code dpc m = m\<lparr>state := END, halt_pc := dpc, halt_ret := code\<rparr>"

definition ebreak :: "'d dut_ops \<Rightarrow> 'd \<Rightarrow> machine \<Rightarrow> machine" where
  "ebreak ops d m =
     (let ret_code = Cget_reg ops d 10; dpc = fst (Cget_pc_inst ops d) in stop ret_code dpc m)"

text \<open>One \<open>eval\<close> of the core, with its calls.\<close>

primrec run_act :: "'d dut_ops \<Rightarrow> 'd act \<Rightarrow> machine \<Rightarrow> ('d \<times> machine) result" where
  "run_act ops (Done d) = (\<lambda>m. Inr (d, m))"
| "run_act ops (Rd d addr k) = (\<lambda>m.
     bindR (dpi_pmem_read (cpu_pc (get_cpu_state ops d)) addr m) (\<lambda>p. run_act ops (k (fst p)) (snd p)))"
| "run_act ops (Wr d addr data wmask k) = (\<lambda>m.
     bindR (dpi_pmem_write (cpu_pc (get_cpu_state ops d)) addr data wmask m) (run_act ops k))"
| "run_act ops (Ebreak d k) = (\<lambda>m. run_act ops k (ebreak ops d m))"

definition EvalAndWaveTrace :: "('d, 'r) env \<Rightarrow> ('d, 'r) sim \<Rightarrow> ('d, 'r) sim result" where
  "EvalAndWaveTrace E s =
     (let s = (if cur_trace (wave_st s) = None \<or> sim_time (mach s) \<ge> MAX_WAVE_SIZE
               then SwitchWaveTrace s else s) in
      bindR (run_act (env_ops E) (eval_dut (env_ops E) (dut s)) (mach s)) (\<lambda>(d, m).
      let s = s\<lparr>dut := d, mach := m\<rparr>;
          s = wave_emit (WDump (the (cur_trace (wave_st s))) (sim_time (mach s))) s
      in Inr (s\<lparr>mach := (mach s)\<lparr>sim_time := sim_time (mach s) + 1\<rparr>\<rparr>)))"

section \<open>Cycles and instructions\<close>

definition single_cycle :: "('d, 'r) env \<Rightarrow> ('d, 'r) sim \<Rightarrow> ('d, 'r) sim result" where
  "single_cycle E s =
     bindR (EvalAndWaveTrace E (s\<lparr>dut := set_clk (env_ops E) 0 (dut s)\<rparr>)) (\<lambda>s.
     EvalAndWaveTrace E (s\<lparr>dut := set_clk (env_ops E) 1 (dut s)\<rparr>))"

fun cycles :: "('d, 'r) env \<Rightarrow> nat \<Rightarrow> ('d, 'r) sim \<Rightarrow> ('d, 'r) sim result" where
  "cycles E 0 s = Inr s"
| "cycles E (Suc n) s = bindR (single_cycle E s) (cycles E n)"

definition reset :: "('d, 'r) env \<Rightarrow> nat \<Rightarrow> ('d, 'r) sim \<Rightarrow> ('d, 'r) sim result" where
  "reset E n s =
     bindR (cycles E n (s\<lparr>dut := set_rst (env_ops E) 1 (dut s)\<rparr>)) (\<lambda>s.
     Inr (s\<lparr>dut := set_rst (env_ops E) 0 (dut s)\<rparr>))"

definition cpu_init :: "('d, 'r) env \<Rightarrow> ('d, 'r) sim \<Rightarrow> ('d, 'r) sim result" where
  "cpu_init E s = reset E 10 (s\<lparr>mach := (mach s)\<lparr>state := RUNNING\<rparr>\<rparr>)"

definition cpu_deinit :: "('d, 'r) sim \<Rightarrow> ('d, 'r) sim" where
  "cpu_deinit s = DeinitWaveTrace s"

text \<open>The loop of \<open>exec_once\<close> runs cycles until an instruction is complete.\<close>

partial_function (option) valid_loop :: "('d, 'r) env \<Rightarrow> ('d, 'r) sim \<Rightarrow> ('d, 'r) sim result option" where
  "valid_loop E s =
     (case single_cycle E s of
        Inl e \<Rightarrow> Some (Inl e)
      | Inr s \<Rightarrow>
          (let s = s\<lparr>nr_cycle := nr_cycle s + 1\<rparr> in
           if Cget_validW (env_ops E) (dut s) = 0 then valid_loop E s else Some (Inr s)))"

text \<open>The rest of \<open>exec_once\<close>, after the instruction.\<close>

definition after_inst :: "('d, 'r) env \<Rightarrow> ('d, 'r) sim \<Rightarrow> ('d, 'r) sim result" where
  "after_inst E s =
     (let s = s\<lparr>nr_inst := nr_inst s + 1\<rparr>;
          s = (if skip_difftest (devs (mach s)) \<noteq> 0 then
                 s\<lparr>mach := (mach s)\<lparr>devs := (devs (mach s))\<lparr>skip_difftest := 0\<rparr>\<rparr>,
                   diff_st := difftest_skip_ref (diff_st s)\<rparr>
               else s);
          dpc = fst (Cget_pc_inst (env_ops E) (dut s))
      in if state (mach s) = END then Inr s
         else
           bindR (paddr_read (mach s) dpc 4) (\<lambda>instru.
           bindR (ftrace (env_ops E) (dut s) dpc instru (trace_st s, mach s)) (\<lambda>(t, m).
           let t = write_iringbuf dpc instru t in
           Inr (s\<lparr>trace_st := t, mach := m,
                  logbuf := (''0x%08x: %02x %02x %02x %02x %s'',
                    N dpc # map (\<lambda>i. N (ucast (byte_of instru i))) [3, 2, 1, 0] @ [S (env_disasm E dpc instru)])\<rparr>))))"

definition exec_once :: "('d, 'r) env \<Rightarrow> ('d, 'r) sim \<Rightarrow> ('d, 'r) sim result option" where
  "exec_once E s = map_option (\<lambda>r. bindR r (after_inst E)) (valid_loop E s)"

definition trace_and_difftest :: "('d, 'r) env \<Rightarrow> ('d, 'r) sim \<Rightarrow> ('d, 'r) sim" where
  "trace_and_difftest E s =
     (let s = (if g_print_step s then out (fst (logbuf s)) (snd (logbuf s)) s else s);
          dpc = cpu_pc (get_cpu_state (env_ops E) (dut s));
          (d, m) = difftest_step (env_disasm E) (env_ops E) (dut s) (env_rops E) dpc (trace_st s) (diff_st s, mach s)
      in s\<lparr>diff_st := d, mach := m\<rparr>)"

text \<open>
  The watchpoint test of \<open>execute\<close>: \<open>check_wp\<close> is called only while the state is \<open>RUNNING\<close>.
\<close>

definition watch :: "('d, 'r) env \<Rightarrow> ('d, 'r) sim \<Rightarrow> ('d, 'r) sim result option" where
  "watch E s =
     (if state (mach s) = RUNNING then
        map_option (\<lambda>r. bindR r (\<lambda>(changed, w, m).
          let s = s\<lparr>wp_st := w, mach := m\<rparr> in
          Inr (if changed then s\<lparr>mach := (mach s)\<lparr>state := STOP\<rparr>\<rparr> else s)))
          (check_wp (env_ops E) (dut s) (wp_st s) (mach s))
      else Some (Inr s))"

text \<open>Sequencing of steps that may fail or not end.\<close>

definition andthen :: "'a result option \<Rightarrow> ('a \<Rightarrow> 'b result option) \<Rightarrow> 'b result option" where
  "andthen r f = Option.bind r (\<lambda>x. case x of Inl e \<Rightarrow> Some (Inl e) | Inr s \<Rightarrow> f s)"

text \<open>One round of the loop of \<open>execute\<close>.\<close>

definition exec_round :: "('d, 'r) env \<Rightarrow> ('d, 'r) sim \<Rightarrow> ('d, 'r) sim result option" where
  "exec_round E s =
     andthen (exec_once E s) (\<lambda>s.
     watch E (if first s then s\<lparr>first := False\<rparr> else trace_and_difftest E s))"

fun execute_n :: "('d, 'r) env \<Rightarrow> nat \<Rightarrow> ('d, 'r) sim \<Rightarrow> ('d, 'r) sim result option" where
  "execute_n E 0 s = Some (Inr s)"
| "execute_n E (Suc n) s =
     andthen (exec_round E s) (\<lambda>s.
     if state (mach s) \<noteq> RUNNING then Some (Inr s) else execute_n E n s)"

definition execute :: "('d, 'r) env \<Rightarrow> u64 \<Rightarrow> ('d, 'r) sim \<Rightarrow> ('d, 'r) sim result option" where
  "execute E n s = execute_n E (unat n) s"

section \<open>Running\<close>

text \<open>\<open>statistics_display\<close> of \<open>npc.cpp\<close>.\<close>

definition statistics_display :: "('d, 'r) sim \<Rightarrow> ('d, 'r) sim" where
  "statistics_display s =
     (let s = out ''Statistics:'' [] s;
          s = out ''Instructions executed:%u'' [N (nr_inst s)] s;
          s = out ''Cycles: %u'' [N (nr_cycle s)] s;
          s = out ''next wave file index: %d'' [N (of_nat (cur_wave_idx (wave_st s)))] s
      in if nr_cycle s > 0 then out ''IPC: %.2f'' [N (nr_inst s), N (nr_cycle s)] s else s)"

text \<open>The second \<open>switch\<close> of \<open>cpu_exec\<close>, with its cases falling through.\<close>

definition cpu_exec_end :: "('d, 'r) env \<Rightarrow> ('d, 'r) sim \<Rightarrow> ('d, 'r) sim" where
  "cpu_exec_end E s =
     (let quit = out ''Execution terminated'' [];
          fin = (\<lambda>s. quit (statistics_display (out ''NPC: %s at pc = 0x%08x''
            [S (if state (mach s) = ABORT then ''ABORT'' else if halt_ret (mach s) = 0 then ''HIT GOOD TRAP''
                else ''HIT BAD TRAP''), N (halt_pc (mach s))] s)))
      in case state (mach s) of
        RUNNING \<Rightarrow> s\<lparr>mach := (mach s)\<lparr>state := STOP\<rparr>\<rparr>
      | ABORT \<Rightarrow> fin (s\<lparr>mach := display_error_msg (env_disasm E) (trace_st s) (mach s)\<rparr>)
      | END \<Rightarrow> fin s
      | QUIT \<Rightarrow> quit s
      | STOP \<Rightarrow> s)"

definition cpu_exec :: "('d, 'r) env \<Rightarrow> u64 \<Rightarrow> ('d, 'r) sim \<Rightarrow> ('d, 'r) sim result option" where
  "cpu_exec E n s =
     (let s = s\<lparr>g_print_step := (n < MAX_INST_TO_PRINT)\<rparr> in
      if state (mach s) \<in> {END, ABORT, QUIT} then
        Some (Inr (out ''Program execution has ended. To restart the program, exit and run again.'' [] s))
      else
        andthen (execute E n (s\<lparr>mach := (mach s)\<lparr>state := RUNNING\<rparr>\<rparr>)) (\<lambda>s.
        Some (Inr (cpu_exec_end E s))))"

section \<open>Outcomes\<close>

lemma andthen_simps [simp]:
  "andthen None f = None" "andthen (Some (Inl e)) f = Some (Inl e)" "andthen (Some (Inr s)) f = f s"
  by (simp_all add: andthen_def)

lemma andthen_Inr:
  "andthen r f = Some (Inr y) \<longleftrightarrow> (\<exists>x. r = Some (Inr x) \<and> f x = Some (Inr y))"
proof (cases r)
  case (Some x)
  then show ?thesis by (cases x) auto
qed simp

lemma andthen_not_None: "r \<noteq> None \<Longrightarrow> (\<And>s. r = Some (Inr s) \<Longrightarrow> f s \<noteq> None) \<Longrightarrow> andthen r f \<noteq> None"
proof (cases r)
  case (Some x)
  assume "\<And>s. r = Some (Inr s) \<Longrightarrow> f s \<noteq> None"
  then show ?thesis using Some by (cases x) auto
qed simp

text \<open>The callbacks leave the state or set it to \<open>ABORT\<close> or \<open>END\<close>, and keep \<open>sim_time\<close>.\<close>

definition calm :: "machine \<Rightarrow> machine \<Rightarrow> bool" where
  "calm m m' \<longleftrightarrow> (state m' = state m \<or> state m' \<in> {ABORT, END}) \<and> sim_time m' = sim_time m"

lemma calm_refl [simp]: "calm m m"
  by (simp add: calm_def)

lemma calm_trans: "calm a b \<Longrightarrow> calm b c \<Longrightarrow> calm a c"
  by (auto simp: calm_def)

lemma sbc_calm: "same_but_console m m' \<Longrightarrow> calm m m'"
  using sbc_fields by (simp add: calm_def)

lemma calm_read: "dpi_pmem_read dpc a m = Inr (v, m') \<Longrightarrow> calm m m'"
  by (auto simp: dpi_pmem_read_def bindR_Inr_iff oob_abort_def calm_def Let_def split: if_splits)

lemma calm_store: "store32 i w m = Inr m' \<Longrightarrow> calm m m'"
  by (auto simp: store32_def bindR_Inr_iff calm_def)

lemma calm_write: "dpi_pmem_write dpc a w k m = Inr m' \<Longrightarrow> calm m m'"
proof (cases "in_mmio a \<or> memory_out_of_bound a")
  case True
  assume "dpi_pmem_write dpc a w k m = Inr m'"
  then show ?thesis
    using True by (auto simp: dpi_pmem_write_def bindR_Inr_iff oob_abort_def calm_def Let_def split: if_splits)
next
  case False
  assume "dpi_pmem_write dpc a w k m = Inr m'"
  then show ?thesis
    using False by (auto simp: dpi_pmem_write_def Let_def bindR_Inr_iff dest: calm_store)
qed

lemma calm_ebreak: "calm m (ebreak ops d m)"
  by (simp add: ebreak_def stop_def calm_def Let_def)

lemma calm_act: "run_act ops act m = Inr (d, m') \<Longrightarrow> calm m m'"
proof (induction act arbitrary: m)
  case (Done x)
  then show ?case by simp
next
  case (Rd x a k)
  then obtain v m1 where "dpi_pmem_read (cpu_pc (get_cpu_state ops x)) a m = Inr (v, m1)"
    "run_act ops (k v) m1 = Inr (d, m')"
    by (auto simp: bindR_Inr_iff)
  then show ?case using Rd.IH [of "k v" m1] calm_read calm_trans by blast
next
  case (Wr x a w c k)
  then obtain m1 where "dpi_pmem_write (cpu_pc (get_cpu_state ops x)) a w c m = Inr m1"
    "run_act ops k m1 = Inr (d, m')"
    by (auto simp: bindR_Inr_iff)
  then show ?case using Wr.IH [of m1] calm_write calm_trans by blast
next
  case (Ebreak x k)
  then show ?case using calm_ebreak [of m ops x] calm_trans by auto
qed

definition keeps :: "('d, 'r) sim \<Rightarrow> ('d, 'r) sim \<Rightarrow> bool" where
  "keeps s s' \<longleftrightarrow> (state (mach s') = state (mach s) \<or> state (mach s') \<in> {ABORT, END}) \<and>
     nr_inst s' = nr_inst s \<and> wp_st s' = wp_st s"

lemma keeps_trans: "keeps a b \<Longrightarrow> keeps b c \<Longrightarrow> keeps a c"
  by (auto simp: keeps_def)

lemma switch_simps [simp]:
  "mach (SwitchWaveTrace s) = (mach s)\<lparr>sim_time := 0\<rparr>" "nr_inst (SwitchWaveTrace s) = nr_inst s"
  "wp_st (SwitchWaveTrace s) = wp_st s" "dut (SwitchWaveTrace s) = dut s"
  by (simp_all add: SwitchWaveTrace_def Let_def wave_emit_def split: option.split)

lemma keeps_eval: "EvalAndWaveTrace E s = Inr s' \<Longrightarrow> keeps s s'"
  by (auto simp: EvalAndWaveTrace_def Let_def bindR_Inr_iff keeps_def wave_emit_def calm_def
      dest!: calm_act)

lemma keeps_cycle: "single_cycle E s = Inr s' \<Longrightarrow> keeps s s'"
  by (auto simp: single_cycle_def bindR_Inr_iff keeps_def dest!: keeps_eval)

text \<open>The instruction loop, with the number of cycles as fuel.\<close>

fun valid_fuel :: "('d, 'r) env \<Rightarrow> nat \<Rightarrow> ('d, 'r) sim \<Rightarrow> ('d, 'r) sim result option" where
  "valid_fuel E 0 s = None"
| "valid_fuel E (Suc n) s =
     (case single_cycle E s of
        Inl e \<Rightarrow> Some (Inl e)
      | Inr s \<Rightarrow>
          (let s = s\<lparr>nr_cycle := nr_cycle s + 1\<rparr> in
           if Cget_validW (env_ops E) (dut s) = 0 then valid_fuel E n s else Some (Inr s)))"

lemma valid_fuel_loop: "valid_fuel E n s = Some r \<Longrightarrow> valid_loop E s = Some r"
  by (induction E n s rule: valid_fuel.induct)
    (subst valid_loop.simps; auto simp: Let_def split: sum.splits if_splits)+

lemma valid_loop_fuel: "valid_loop E s = Some r \<Longrightarrow> \<exists>n. valid_fuel E n s = Some r"
proof (induction rule: valid_loop.raw_induct [rotated, consumes 1])
  case (1 loop E s r)
  show ?case
  proof (cases "single_cycle E s")
    case (Inl e)
    then have "r = Inl e" using 1(2) by simp
    then show ?thesis using Inl by (intro exI [of _ "Suc 0"]) simp
  next
    case (Inr s1)
    let ?s = "s1\<lparr>nr_cycle := nr_cycle s1 + 1\<rparr>"
    show ?thesis
    proof (cases "Cget_validW (env_ops E) (dut ?s) = 0")
      case True
      then obtain n where "valid_fuel E n ?s = Some r"
        using 1(1) [of E ?s r] 1(2) Inr by (auto simp: Let_def)
      then show ?thesis using True Inr by (intro exI [of _ "Suc n"]) (simp add: Let_def)
    next
      case False
      then show ?thesis using 1(2) Inr by (intro exI [of _ "Suc 0"]) (simp add: Let_def)
    qed
  qed
qed

lemma keeps_valid: "valid_fuel E n s = Some (Inr s') \<Longrightarrow> keeps s s'"
proof (induction E n s rule: valid_fuel.induct)
  case (2 E n s)
  then obtain s1 where s1: "single_cycle E s = Inr s1" by (auto split: sum.splits)
  have k: "keeps s (s1\<lparr>nr_cycle := nr_cycle s1 + 1\<rparr>)"
    using keeps_cycle [OF s1] by (simp add: keeps_def)
  show ?case
    using 2 s1 k by (auto simp: Let_def split: if_splits intro: keeps_trans)
qed simp

text \<open>Messages and the call trace change neither the state nor the counters.\<close>

lemma ftrace_calm: "ftrace ops d dpc inst (t, m) = Inr (t', m') \<Longrightarrow> state m' = state m"
  by (auto simp: ftrace_def ftrace_decode_def bindR_Inr_iff Let_def split: if_splits)

lemma after_inst_keeps:
  assumes "after_inst E s = Inr s'"
  shows "state (mach s') = state (mach s)" "nr_inst s' = nr_inst s + 1" "wp_st s' = wp_st s"
  using assms
  by (auto simp: after_inst_def Let_def bindR_Inr_iff dest!: ftrace_calm split: if_splits)

lemma exec_once_keeps:
  assumes "exec_once E s = Some (Inr s')" "state (mach s) = RUNNING"
  shows "state (mach s') \<in> {RUNNING, ABORT, END}" "nr_inst s' = nr_inst s + 1" "wp_st s' = wp_st s"
proof -
  obtain s1 where s1: "valid_loop E s = Some (Inr s1)" "after_inst E s1 = Inr s'"
    using assms(1) by (auto simp: exec_once_def bindR_Inr_iff)
  then obtain n where "valid_fuel E n s = Some (Inr s1)" using valid_loop_fuel by blast
  then have "keeps s s1" by (rule keeps_valid)
  then show "state (mach s') \<in> {RUNNING, ABORT, END}" "nr_inst s' = nr_inst s + 1" "wp_st s' = wp_st s"
    using after_inst_keeps [OF s1(2)] assms(2) by (auto simp: keeps_def)
qed

lemma checkregs_cases: "state (checkregs disasm ops d r dpc t m) \<in> {state m, ABORT}"
proof -
  obtain ok m1 where c: "difftest_checkregs ops d r m = (ok, m1)" by (metis surj_pair)
  have f: "state (snd (cmp_field w x y fm)) = state (snd fm)" for w x y fm
    by (cases fm) (simp add: cmp_field_def printf_def)
  have g: "state (snd (foldl (\<lambda>fm i. cmp_gpr x y i fm) fm xs)) = state (snd fm)" for x y fm xs
    by (induction xs arbitrary: fm) (auto simp: cmp_gpr_def printf_def split: prod.split)
  have "state m1 = state m"
    using arg_cong [OF c, of "\<lambda>r. state (snd r)"]
    by (simp add: difftest_checkregs_def Let_def f g)
  moreover have "state (display_error_msg disasm t (display_ref_dut_regs ops d r m2)) = state m2" for m2
    using sbc_fields [OF sbc_display_regs [of m2 ops d r]]
      sbc_fields [OF sbc_display_iringbuf [of "display_ref_dut_regs ops d r m2" disasm t]]
    by (simp add: display_error_msg_def)
  ultimately show ?thesis by (simp add: checkregs_def c)
qed

lemma difftest_step_cases:
  "state (snd (difftest_step disasm ops d rops dpc t (df, m))) \<in> {state m, ABORT}"
  using checkregs_cases [of disasm ops d _ dpc t m] by (simp add: difftest_step_def Let_def)

lemma trace_and_difftest_keeps:
  "state (mach (trace_and_difftest E s)) \<in> {state (mach s), ABORT}"
  "nr_inst (trace_and_difftest E s) = nr_inst s" "wp_st (trace_and_difftest E s) = wp_st s"
proof -
  define s1 where "s1 = (if g_print_step s then out (fst (logbuf s)) (snd (logbuf s)) s else s)"
  have s1: "state (mach s1) = state (mach s)" "nr_inst s1 = nr_inst s" "wp_st s1 = wp_st s"
    by (simp_all add: s1_def out_def)
  obtain d m where dm: "difftest_step (env_disasm E) (env_ops E) (dut s1) (env_rops E)
      (cpu_pc (get_cpu_state (env_ops E) (dut s1))) (trace_st s1) (diff_st s1, mach s1) = (d, m)"
    by (metis surj_pair)
  have "trace_and_difftest E s = s1\<lparr>diff_st := d, mach := m\<rparr>"
    by (simp add: trace_and_difftest_def s1_def [symmetric] dm)
  moreover have "state m \<in> {state (mach s1), ABORT}"
    using difftest_step_cases [of "env_disasm E" "env_ops E" "dut s1" "env_rops E"
        "cpu_pc (get_cpu_state (env_ops E) (dut s1))" "trace_st s1" "diff_st s1" "mach s1"] dm by simp
  ultimately show "state (mach (trace_and_difftest E s)) \<in> {state (mach s), ABORT}"
    "nr_inst (trace_and_difftest E s) = nr_inst s" "wp_st (trace_and_difftest E s) = wp_st s"
    using s1 by simp_all
qed

lemma check_list_keeps:
  "check_list ops d is b s m = Inr (b', s', m') \<Longrightarrow>
   state m' = state m \<and> wp_texts s' = wp_texts s \<and> (wp_inv s us fs \<longrightarrow> wp_inv s' us fs)"
proof (induction "is" arbitrary: b s m)
  case (Cons i "is")
  show ?case
    by (cases rule: expr_cases [of m ops d "wp_expr (wp_pool s ! i)"])
      (use Cons in \<open>auto simp: wp_inv_upd_val split: if_splits\<close>)
qed simp

lemma watch_keeps:
  assumes "wp_inv (wp_st s) us fs"
  shows "watch E s \<noteq> None"
    and "watch E s = Some (Inr s') \<Longrightarrow> wp_inv (wp_st s') us fs \<and>
      wp_texts (wp_st s') = wp_texts (wp_st s) \<and> nr_inst s' = nr_inst s \<and>
      (state (mach s') = state (mach s) \<or> state (mach s) = RUNNING \<and> state (mach s') = STOP)"
  using assms check_wp_eq [OF assms, of "env_ops E" "dut s" "mach s"]
  by (auto simp: watch_def bindR_Inr_iff Let_def dest!: check_list_keeps split: if_splits)

lemma exec_round_keeps:
  assumes "exec_round E s = Some (Inr s')" "state (mach s) = RUNNING" "wp_inv (wp_st s) us fs"
  shows "state (mach s') \<in> {RUNNING, STOP, ABORT, END} \<and> nr_inst s' = nr_inst s + 1 \<and> wp_inv (wp_st s') us fs \<and>
    wp_texts (wp_st s') = wp_texts (wp_st s)"
proof -
  obtain s1 where s1: "exec_once E s = Some (Inr s1)"
    "watch E (if first s1 then s1\<lparr>first := False\<rparr> else trace_and_difftest E s1) = Some (Inr s')"
    using assms(1) by (auto simp: exec_round_def andthen_Inr)
  let ?s = "if first s1 then s1\<lparr>first := False\<rparr> else trace_and_difftest E s1"
  have s: "state (mach ?s) \<in> {RUNNING, ABORT, END}" "nr_inst ?s = nr_inst s + 1" "wp_st ?s = wp_st s"
    using exec_once_keeps [OF s1(1) assms(2)] trace_and_difftest_keeps [of E s1] by auto
  have "wp_inv (wp_st ?s) us fs" using assms(3) s(3) by simp
  from watch_keeps(2) [OF this s1(2)] show ?thesis using s by auto
qed

lemma execute_n_keeps:
  "execute_n E n s = Some (Inr s') \<Longrightarrow> state (mach s) = RUNNING \<Longrightarrow> wp_inv (wp_st s) us fs \<Longrightarrow>
   \<exists>k \<le> n. nr_inst s' = nr_inst s + of_nat k \<and> state (mach s') \<in> {RUNNING, STOP, ABORT, END} \<and>
     (state (mach s') = RUNNING \<longrightarrow> k = n) \<and> (0 < n \<longrightarrow> 0 < k) \<and> wp_inv (wp_st s') us fs \<and>
     wp_texts (wp_st s') = wp_texts (wp_st s)"
proof (induction n arbitrary: s)
  case (Suc n)
  then obtain s1 where s1: "exec_round E s = Some (Inr s1)"
    "(if state (mach s1) \<noteq> RUNNING then Some (Inr s1) else execute_n E n s1) = Some (Inr s')"
    by (auto simp: andthen_Inr)
  note r = exec_round_keeps [OF s1(1) Suc.prems(2,3)]
  show ?case
  proof (cases "state (mach s1) = RUNNING")
    case False
    then show ?thesis using s1 r by (intro exI [of _ 1]) auto
  next
    case True
    then obtain k where "k \<le> n" "nr_inst s' = nr_inst s1 + of_nat k"
      "state (mach s') \<in> {RUNNING, STOP, ABORT, END}" "state (mach s') = RUNNING \<longrightarrow> k = n"
      "wp_inv (wp_st s') us fs" "wp_texts (wp_st s') = wp_texts (wp_st s1)"
      using Suc.IH [of s1] s1 r by auto
    then show ?thesis using r by (intro exI [of _ "Suc k"]) auto
  qed
qed auto

lemma display_error_msg_state [simp]: "state (display_error_msg disasm t m) = state m"
  using sbc_fields [OF sbc_display_iringbuf [of m disasm t]] by (simp add: display_error_msg_def)

lemma cpu_exec_end_simps [simp]:
  "nr_inst (cpu_exec_end E s) = nr_inst s" "wp_st (cpu_exec_end E s) = wp_st s"
  "state (mach (cpu_exec_end E s)) = (if state (mach s) = RUNNING then STOP else state (mach s))"
  by (cases "state (mach s)"; simp add: cpu_exec_end_def Let_def statistics_display_def out_def)+

section \<open>Wave files, checked\<close>

text \<open>
  Replaying the log: the open file and the number of time steps in it.  A file is opened only
  when none is open, and dumps go to the open file with the time steps 0, 1, 2, ... in order.
\<close>

fun wave_step :: "wave_ev \<Rightarrow> nat option \<times> int \<Rightarrow> (nat option \<times> int) option" where
  "wave_step (WOpen w) (cur, t) = (if cur = None then Some (Some w, 0) else None)"
| "wave_step (WClose w) (cur, t) = (if cur = Some w then Some (None, 0) else None)"
| "wave_step (WDump w u) (cur, t) = (if cur = Some w \<and> u = t then Some (cur, t + 1) else None)"

fun wave_replay :: "wave_ev list \<Rightarrow> nat option \<times> int \<Rightarrow> (nat option \<times> int) option" where
  "wave_replay [] st = Some st"
| "wave_replay (e # es) st = Option.bind (wave_step e st) (wave_replay es)"

lemma wave_replay_append:
  "wave_replay (xs @ ys) st = Option.bind (wave_replay xs st) (wave_replay ys)"
proof (induction xs arbitrary: st)
  case (Cons x xs)
  then show ?case by (cases "wave_step x st") simp_all
qed simp

definition wave_inv :: "('d, 'r) sim \<Rightarrow> bool" where
  "wave_inv s \<longleftrightarrow> cur_wave_idx (wave_st s) < MAX_WAVE_NUM \<and> 0 \<le> sim_time (mach s) \<and>
     sim_time (mach s) \<le> MAX_WAVE_SIZE \<and>
     (\<exists>t. wave_replay (wave_log (wave_st s)) (None, 0) = Some (cur_trace (wave_st s), t) \<and>
       (cur_trace (wave_st s) \<noteq> None \<longrightarrow> t = sim_time (mach s)))"

lemma switch_inv:
  "wave_inv s \<Longrightarrow> wave_inv (SwitchWaveTrace s) \<and> cur_trace (wave_st (SwitchWaveTrace s)) \<noteq> None"
  by (cases "cur_trace (wave_st s)")
    (auto simp: wave_inv_def SwitchWaveTrace_def Let_def wave_emit_def wave_replay_append
      MAX_WAVE_NUM_def MAX_WAVE_SIZE_def)

lemma wave_inv_mach: "sim_time m = sim_time (mach s) \<Longrightarrow> wave_inv (s\<lparr>dut := d, mach := m\<rparr>) \<longleftrightarrow> wave_inv s"
  by (simp add: wave_inv_def)

lemma eval_inv:
  assumes "wave_inv s" "EvalAndWaveTrace E s = Inr s'"
  shows "wave_inv s' \<and> cur_trace (wave_st s') \<noteq> None"
proof -
  define s1 where "s1 = (if cur_trace (wave_st s) = None \<or> sim_time (mach s) \<ge> MAX_WAVE_SIZE
      then SwitchWaveTrace s else s)"
  have s1: "wave_inv s1" "cur_trace (wave_st s1) \<noteq> None" "sim_time (mach s1) < MAX_WAVE_SIZE"
    using assms(1) switch_inv [OF assms(1)] by (auto simp: s1_def MAX_WAVE_SIZE_def)
  obtain d m where dm: "run_act (env_ops E) (eval_dut (env_ops E) (dut s1)) (mach s1) = Inr (d, m)"
    "s' = (wave_emit (WDump (the (cur_trace (wave_st s1))) (sim_time m)) (s1\<lparr>dut := d, mach := m\<rparr>))
       \<lparr>mach := m\<lparr>sim_time := sim_time m + 1\<rparr>\<rparr>"
    using assms(2) by (auto simp: EvalAndWaveTrace_def s1_def [symmetric] bindR_Inr_iff Let_def wave_emit_def)
  have "sim_time m = sim_time (mach s1)" using calm_act [OF dm(1)] by (simp add: calm_def)
  then show ?thesis
    using s1 dm(2) by (auto simp: wave_inv_def wave_emit_def wave_replay_append)
qed

text \<open>The time goes on by one and starts again at 0 after \<open>MAX_WAVE_SIZE\<close> steps.\<close>

lemma eval_time:
  assumes "wave_inv s" "cur_trace (wave_st s) \<noteq> None" "EvalAndWaveTrace E s = Inr s'"
  shows "sim_time (mach s') mod MAX_WAVE_SIZE = (sim_time (mach s) + 1) mod MAX_WAVE_SIZE"
proof -
  define s1 where "s1 = (if sim_time (mach s) \<ge> MAX_WAVE_SIZE then SwitchWaveTrace s else s)"
  have "sim_time (mach s1) = sim_time (mach s) mod MAX_WAVE_SIZE"
    using assms(1) by (auto simp: s1_def SwitchWaveTrace_def Let_def wave_inv_def MAX_WAVE_SIZE_def)
  moreover obtain d m where "run_act (env_ops E) (eval_dut (env_ops E) (dut s1)) (mach s1) = Inr (d, m)"
    "sim_time (mach s') = sim_time m + 1"
    using assms(2,3) by (auto simp: EvalAndWaveTrace_def s1_def [symmetric] bindR_Inr_iff Let_def wave_emit_def)
  ultimately show ?thesis using calm_act by (fastforce simp: calm_def mod_simps)
qed

text \<open>Outside of \<open>EvalAndWaveTrace\<close> neither the files nor the time change.\<close>

definition same_wave :: "('d, 'r) sim \<Rightarrow> ('d, 'r) sim \<Rightarrow> bool" where
  "same_wave s s' \<longleftrightarrow> wave_st s' = wave_st s \<and> sim_time (mach s') = sim_time (mach s)"

lemma same_wave_inv: "same_wave s s' \<Longrightarrow> wave_inv s \<Longrightarrow> wave_inv s'"
  by (simp add: same_wave_def wave_inv_def)

lemma wave_inv_dut [simp]: "wave_inv (s\<lparr>dut := d\<rparr>) \<longleftrightarrow> wave_inv s"
  "wave_inv (s\<lparr>nr_cycle := k\<rparr>) \<longleftrightarrow> wave_inv s"
  by (simp_all add: wave_inv_def)

lemma single_cycle_wave:
  assumes "single_cycle E s = Inr s'" "wave_inv s"
  shows "wave_inv s'"
proof -
  obtain t where t: "EvalAndWaveTrace E (s\<lparr>dut := set_clk (env_ops E) 0 (dut s)\<rparr>) = Inr t"
    "EvalAndWaveTrace E (t\<lparr>dut := set_clk (env_ops E) 1 (dut t)\<rparr>) = Inr s'"
    using assms(1) unfolding single_cycle_def bindR_Inr_iff by blast
  have "wave_inv t" using eval_inv [OF _ t(1)] assms(2) by simp
  then show ?thesis using eval_inv [OF _ t(2)] by simp
qed

lemma valid_fuel_wave: "valid_fuel E n s = Some (Inr s') \<Longrightarrow> wave_inv s \<Longrightarrow> wave_inv s'"
proof (induction E n s rule: valid_fuel.induct)
  case (2 E n s)
  obtain s1 where s1: "single_cycle E s = Inr s1" using 2(2) by (cases "single_cycle E s") simp_all
  have "wave_inv s1" using single_cycle_wave [OF s1 2(3)] .
  then show ?case using 2(1) [OF s1 refl] 2(2) s1 by (auto simp: Let_def split: if_split_asm)
qed simp

lemma ftrace_time: "ftrace ops d dpc inst (t, m) = Inr (t', m') \<Longrightarrow> sim_time m' = sim_time m"
  by (auto simp: ftrace_def ftrace_decode_def bindR_Inr_iff Let_def split: if_splits)

lemma after_inst_wave: "after_inst E s = Inr s' \<Longrightarrow> same_wave s s'"
  by (auto simp: after_inst_def same_wave_def Let_def bindR_Inr_iff dest!: ftrace_time split: if_splits)

lemma difftest_step_time: "sim_time (snd (difftest_step disasm ops d rops dpc t (df, m))) = sim_time m"
proof -
  have f: "sim_time (snd (cmp_field w x y fm)) = sim_time (snd fm)" for w x y fm
    by (cases fm) (simp add: cmp_field_def printf_def)
  have g: "sim_time (snd (foldl (\<lambda>fm i. cmp_gpr x y i fm) fm xs)) = sim_time (snd fm)" for x y fm xs
    by (induction xs arbitrary: fm) (auto simp: cmp_gpr_def printf_def split: prod.split)
  have h: "sim_time (display_error_msg disasm t (display_ref_dut_regs ops d r m2)) = sim_time m2" for r m2
    using sbc_fields [OF sbc_display_regs [of m2 ops d r]]
      sbc_fields [OF sbc_display_iringbuf [of "display_ref_dut_regs ops d r m2" disasm t]]
    by (simp add: display_error_msg_def)
  have "sim_time (snd (difftest_checkregs ops d r m)) = sim_time m" for r
    by (simp add: difftest_checkregs_def Let_def f g)
  then have "sim_time (checkregs disasm ops d r dpc t m) = sim_time m" for r
    by (simp add: checkregs_def case_prod_beta h)
  then show ?thesis by (simp add: difftest_step_def Let_def)
qed

lemma trace_and_difftest_wave: "same_wave s (trace_and_difftest E s)"
proof -
  define s1 where "s1 = (if g_print_step s then out (fst (logbuf s)) (snd (logbuf s)) s else s)"
  have "same_wave s s1" by (simp add: s1_def same_wave_def out_def printf_def)
  then show ?thesis
    by (simp add: trace_and_difftest_def Let_def s1_def [symmetric] case_prod_beta same_wave_def difftest_step_time)
qed

lemma check_list_time: "check_list ops d is b s m = Inr (b', s', m') \<Longrightarrow> sim_time m' = sim_time m"
proof (induction "is" arbitrary: b s m)
  case (Cons i "is")
  show ?case
    by (cases rule: expr_cases [of m ops d "wp_expr (wp_pool s ! i)"]) (use Cons in \<open>auto split: if_splits\<close>)
qed simp

lemma watch_wave:
  assumes "wp_inv (wp_st s) us fs" "watch E s = Some (Inr s')"
  shows "same_wave s s'"
  using assms check_wp_eq [OF assms(1), of "env_ops E" "dut s" "mach s"]
  by (auto simp: watch_def same_wave_def bindR_Inr_iff Let_def dest!: check_list_time split: if_splits)

lemma exec_round_wave:
  assumes "exec_round E s = Some (Inr s')" "state (mach s) = RUNNING" "wp_inv (wp_st s) us fs" "wave_inv s"
  shows "wave_inv s'"
proof -
  obtain s1 where s1: "exec_once E s = Some (Inr s1)"
    "watch E (if first s1 then s1\<lparr>first := False\<rparr> else trace_and_difftest E s1) = Some (Inr s')"
    using assms(1) by (auto simp: exec_round_def andthen_Inr)
  let ?s = "if first s1 then s1\<lparr>first := False\<rparr> else trace_and_difftest E s1"
  obtain s0 where s0: "valid_loop E s = Some (Inr s0)" "after_inst E s0 = Inr s1"
    using s1(1) by (auto simp: exec_once_def bindR_Inr_iff)
  have "wave_inv s0" using valid_loop_fuel [OF s0(1)] valid_fuel_wave assms(4) by blast
  then have "wave_inv s1" by (rule same_wave_inv [OF after_inst_wave [OF s0(2)]])
  then have "wave_inv ?s" using same_wave_inv [OF trace_and_difftest_wave] by (auto simp: wave_inv_def)
  moreover have "wp_inv (wp_st ?s) us fs"
    using assms(3) exec_once_keeps(3) [OF s1(1) assms(2)] trace_and_difftest_keeps(3) [of E s1] by simp
  ultimately show ?thesis using same_wave_inv [OF watch_wave [OF _ s1(2)]] by blast
qed

lemma execute_n_wave:
  "execute_n E n s = Some (Inr s') \<Longrightarrow> state (mach s) = RUNNING \<Longrightarrow> wp_inv (wp_st s) us fs \<Longrightarrow> wave_inv s \<Longrightarrow> wave_inv s'"
proof (induction n arbitrary: s)
  case (Suc n)
  then obtain s1 where s1: "exec_round E s = Some (Inr s1)"
    "(if state (mach s1) \<noteq> RUNNING then Some (Inr s1) else execute_n E n s1) = Some (Inr s')"
    by (auto simp: andthen_Inr)
  have "wp_inv (wp_st s1) us fs" "wave_inv s1"
    using exec_round_keeps [OF s1(1) Suc.prems(2,3)] exec_round_wave [OF s1(1) Suc.prems(2,3,4)] by auto
  then show ?case using Suc.IH [of s1] s1(2) by (auto split: if_splits)
qed simp

lemma cpu_exec_end_wave: "same_wave s (cpu_exec_end E s)"
proof -
  have "sim_time (display_error_msg disasm t m) = sim_time m" for disasm t m
    using sbc_fields [OF sbc_display_iringbuf [of m disasm t]] by (simp add: display_error_msg_def)
  then show ?thesis
    by (cases "state (mach s)"; simp add: cpu_exec_end_def Let_def statistics_display_def out_def same_wave_def printf_def)
qed

lemma cpu_exec_wave:
  assumes "cpu_exec E n s = Some (Inr s')" "wp_inv (wp_st s) us fs" "wave_inv s"
  shows "wave_inv s'"
proof (cases "state (mach s) \<in> {END, ABORT, QUIT}")
  case True
  then show ?thesis using assms(1,3) by (auto simp: cpu_exec_def Let_def out_def printf_def wave_inv_def)
next
  case False
  let ?s = "s\<lparr>g_print_step := (n < MAX_INST_TO_PRINT), mach := (mach s)\<lparr>state := RUNNING\<rparr>\<rparr>"
  obtain s1 where s1: "execute_n E (unat n) ?s = Some (Inr s1)" "s' = cpu_exec_end E s1"
    using assms(1) False by (auto simp: cpu_exec_def andthen_Inr execute_def Let_def)
  have "wave_inv ?s" using assms(3) by (simp add: wave_inv_def)
  then have "wave_inv s1" using execute_n_wave [OF s1(1)] assms(2) by simp
  then show ?thesis using same_wave_inv [OF cpu_exec_end_wave] s1(2) by blast
qed

section \<open>Properties\<close>

definition demo_env :: "(u32, CPU_reg) env" where
  "demo_env = \<lparr>env_ops = demo_ops, env_rops = demo_rops, env_disasm = (\<lambda>_ _. ''nop'')\<rparr>"

definition demo_sim :: "(u32, CPU_reg) sim" where
  "demo_sim = \<lparr>dut = 0x80000000, mach = demo_machine, wp_st = demo_wps, trace_st = demo_trace\<lparr>ftrace_enable := False\<rparr>, diff_st = demo_diff,
     wave_st = \<lparr>cur_trace = None, cur_wave_idx = 0, wave_log = []\<rparr>, nr_inst = 0, nr_cycle = 0,
     g_print_step = False, first = True, logbuf = ('''', []), is_batch_mode = False, img_size = 40\<rparr>"

text \<open>
  C2. A run of \<open>n\<close> instructions that returns has executed at least one and at most \<open>n\<close> of them,
  counted in \<open>nr_inst\<close>, leaves the pool of watchpoints intact, and ends in one of the states
  \<open>STOP\<close>, \<open>END\<close> and \<open>ABORT\<close>, never \<open>RUNNING\<close>.
\<close>

theorem cpu_exec_outcome:
  assumes "cpu_exec E n s = Some (Inr s')" "wp_inv (wp_st s) us fs" "state (mach s) \<in> {RUNNING, STOP}" "0 < n"
  shows "\<exists>k \<le> unat n. 0 < k \<and> nr_inst s' = nr_inst s + of_nat k \<and> state (mach s') \<in> {STOP, END, ABORT} \<and>
    wp_inv (wp_st s') us fs"
proof -
  let ?s = "s\<lparr>g_print_step := (n < MAX_INST_TO_PRINT), mach := (mach s)\<lparr>state := RUNNING\<rparr>\<rparr>"
  obtain s1 where s1: "execute_n E (unat n) ?s = Some (Inr s1)" "s' = cpu_exec_end E s1"
    using assms(1,3) by (auto simp: cpu_exec_def andthen_Inr execute_def)
  have "0 < unat n" using assms(4) by (simp add: word_less_nat_alt)
  then show ?thesis
    using execute_n_keeps [OF s1(1), of us fs] assms(2) s1(2) by auto
qed

lemma switch_more [simp]:
  "first (SwitchWaveTrace s) = first s" "trace_st (SwitchWaveTrace s) = trace_st s"
  by (simp_all add: SwitchWaveTrace_def Let_def wave_emit_def split: option.split)

lemma demo_eval:
  assumes "EvalAndWaveTrace demo_env s = Inr s'"
  shows "dut s' = dut s" "devs (mach s') = devs (mach s)" "state (mach s') = state (mach s)"
    "pmem (mach s') = pmem (mach s)" "first s' = first s" "wp_st s' = wp_st s" "trace_st s' = trace_st s"
  using assms
  by (auto simp: EvalAndWaveTrace_def demo_env_def demo_ops_def Let_def wave_emit_def split: if_splits)

lemma demo_eval_ok: "\<exists>s'. EvalAndWaveTrace demo_env s = Inr s'"
  by (simp add: EvalAndWaveTrace_def demo_env_def demo_ops_def Let_def)

lemma demo_run: "\<exists>s'. cpu_exec demo_env 1 demo_sim = Some (Inr s')"
proof -
  let ?s = "demo_sim\<lparr>g_print_step := True, mach := (mach demo_sim)\<lparr>state := RUNNING\<rparr>\<rparr>"
  have clk: "set_clk (env_ops demo_env) b d = d" "Cget_validW (env_ops demo_env) d = 1" for b d
    by (simp_all add: demo_env_def demo_ops_def Cget_validW_def)
  obtain s1 where s1: "EvalAndWaveTrace demo_env ?s = Inr s1" using demo_eval_ok by blast
  obtain s2 where s2: "EvalAndWaveTrace demo_env s1 = Inr s2" using demo_eval_ok by blast
  have c: "single_cycle demo_env ?s = Inr s2"
    using s1 s2 by (simp add: single_cycle_def clk bindR_def)
  let ?s2 = "s2\<lparr>nr_cycle := nr_cycle s2 + 1\<rparr>"
  have "valid_loop demo_env ?s = Some (Inr ?s2)"
    by (rule valid_fuel_loop [of _ "Suc 0"]) (simp add: c clk)
  moreover have f: "dut s2 = 0x80000000" "first s2" "wp_st s2 = demo_wps" "state (mach s2) = RUNNING"
    "devs (mach s2) = devs demo_machine" "trace_st s2 = demo_trace\<lparr>ftrace_enable := False\<rparr>"
    using demo_eval [OF s1] demo_eval [OF s2] by (simp_all add: demo_sim_def demo_machine_def)
  have dpc: "fst (Cget_pc_inst (env_ops demo_env) (dut s2)) = 0x80000000"
    using f(1) by (simp add: demo_env_def demo_ops_def Cget_pc_inst_def)
  have in0: "word_inside 0x80000000" by (simp add: word_inside_iff)
  obtain w where "paddr_read (mach s2) 0x80000000 4 = Inr w" using paddr_read_inside [OF in0] by blast
  then have "\<exists>s3. after_inst demo_env ?s2 = Inr s3 \<and> first s3 \<and> wp_st s3 = demo_wps \<and> state (mach s3) = RUNNING"
    using f by (simp add: after_inst_def Let_def dpc [simplified f(1)] ftrace_def demo_machine_def)
  then obtain s3 where s3: "after_inst demo_env ?s2 = Inr s3" "first s3" "wp_st s3 = demo_wps"
    "state (mach s3) = RUNNING" by blast
  ultimately have e: "exec_once demo_env ?s = Some (Inr s3)" by (simp add: exec_once_def)
  have w: "watch demo_env (s3\<lparr>first := False\<rparr>) = Some (Inr (s3\<lparr>first := False\<rparr>))"
    using s3(2-4) check_wp_eq [OF demo_wps_inv, of "env_ops demo_env" "dut s3" "mach s3"]
    by (simp add: watch_def Let_def)
  have "exec_round demo_env ?s = Some (Inr (s3\<lparr>first := False\<rparr>))"
    using s3 e w by (simp add: exec_round_def)
  then show ?thesis
    by (simp add: cpu_exec_def execute_def demo_sim_def demo_machine_def MAX_INST_TO_PRINT_def)
qed

theorem cpu_exec_outcome_witness:
  "\<exists>s'. cpu_exec demo_env 1 demo_sim = Some (Inr s') \<and> nr_inst s' = 1 \<and> state (mach s') \<in> {STOP, END, ABORT}"
proof -
  obtain s' where "cpu_exec demo_env 1 demo_sim = Some (Inr s')" using demo_run by blast
  moreover from cpu_exec_outcome [OF this, of "[]" "[0..<NR_WP]"]
  obtain k where "k \<le> unat (1 :: u64)" "0 < k" "nr_inst s' = of_nat k" "state (mach s') \<in> {STOP, END, ABORT}"
    by (auto simp: demo_sim_def demo_wps_inv demo_machine_def)
  moreover from this have "k = 1" by simp
  ultimately show ?thesis by simp
qed

text \<open>
  C3. A run returns whenever the core completes its instructions: if from every state some
  number of cycles ends in a valid instruction or an error, every run ends, for every count.
\<close>

theorem cpu_exec_returns:
  assumes "wp_inv (wp_st s) us fs" "\<And>s. \<exists>k. valid_fuel E k s \<noteq> None"
  shows "cpu_exec E n s \<noteq> None"
proof -
  have once: "exec_once E s \<noteq> None" for s
    using assms(2) [of s] valid_fuel_loop by (fastforce simp: exec_once_def)
  have round: "exec_round E s \<noteq> None" if "wp_inv (wp_st s) us fs" "state (mach s) = RUNNING" for s
    unfolding exec_round_def
  proof (rule andthen_not_None [OF once])
    fix s1 assume s1: "exec_once E s = Some (Inr s1)"
    let ?s = "if first s1 then s1\<lparr>first := False\<rparr> else trace_and_difftest E s1"
    have "wp_inv (wp_st ?s) us fs"
      using that exec_once_keeps(3) [OF s1 that(2)] trace_and_difftest_keeps(3) [of E s1] by simp
    then show "watch E ?s \<noteq> None" by (rule watch_keeps(1))
  qed
  have runs: "execute_n E k s \<noteq> None" if "wp_inv (wp_st s) us fs" "state (mach s) = RUNNING" for k s
    using that
  proof (induction k arbitrary: s)
    case (Suc k)
    show ?case
      unfolding execute_n.simps
    proof (rule andthen_not_None [OF round [OF Suc.prems]])
      fix s1 assume "exec_round E s = Some (Inr s1)"
      from exec_round_keeps [OF this Suc.prems(2,1)] Suc.IH [of s1]
      show "(if state (mach s1) \<noteq> RUNNING then Some (Inr s1) else execute_n E k s1) \<noteq> None" by simp
    qed
  qed simp
  show ?thesis
  proof (cases "state (mach s) \<in> {END, ABORT, QUIT}")
    case False
    have "execute_n E (unat n) (s\<lparr>g_print_step := n < MAX_INST_TO_PRINT, mach := (mach s)\<lparr>state := RUNNING\<rparr>\<rparr>) \<noteq> None"
      using assms(1) by (intro runs) simp_all
    then show ?thesis
      using False by (simp add: cpu_exec_def execute_def Let_def andthen_not_None)
  qed (simp add: cpu_exec_def Let_def)
qed

lemma demo_valid: "\<exists>k. valid_fuel demo_env k s \<noteq> None"
  by (intro exI [of _ "Suc 0"])
    (simp add: demo_env_def demo_ops_def Cget_validW_def Let_def split: sum.split)

theorem cpu_exec_returns_witness:
  "cpu_exec demo_env 1000 demo_sim \<noteq> None"
  by (rule cpu_exec_returns [OF _ demo_valid, of _ "[]" "[0..<NR_WP]"]) (simp add: demo_sim_def demo_wps_inv)

text \<open>
  Wave files are written in order: every evaluation of the core dumps into the one open
  file at the next time step, a file is closed before the next one is opened, its index stays
  below 3 and it gets at most a million time steps.
\<close>

theorem wave_invariant:
  assumes "wave_inv s" "EvalAndWaveTrace E s = Inr s'"
  shows "wave_inv s'"
  using eval_inv [OF assms] by simp

theorem wave_invariant_witness:
  "\<exists>s'. EvalAndWaveTrace demo_env demo_sim = Inr s' \<and> wave_inv s'"
proof -
  have "wave_inv demo_sim"
    by (simp add: wave_inv_def demo_sim_def demo_machine_def MAX_WAVE_NUM_def MAX_WAVE_SIZE_def)
  moreover obtain s' where "EvalAndWaveTrace demo_env demo_sim = Inr s'"
    by (simp add: EvalAndWaveTrace_def demo_env_def demo_ops_def Let_def)
  ultimately show ?thesis using wave_invariant by blast
qed

end
