(* ===== verification/Sdb.thy ===== *)
theory Sdb
  imports Npc_Cpu "HOL-Library.Sublist"
begin

text \<open>
  The command line of the debugger, \<open>core/csrc/infrastructure/sdb.c\<close>.  A session reads lines (the
  list \<open>lines\<close>; its end is the end of the input), splits off the first word with \<open>strtok\<close> and
  calls the handler of the table.  A handler gets \<open>args\<close>, the text behind the word or \<open>None\<close> for
  \<open>NULL\<close>, and the text that \<open>strtok\<close> has saved.  It returns the code's \<open>int\<close> and the state; the
  outcome is \<open>None\<close> when a run of the core does not end.
\<close>

section \<open>Text\<close>

definition isspace :: "char \<Rightarrow> bool" where
  "isspace c \<longleftrightarrow> c \<in> {CHR '' '', CHR 0x09, CHR 0x0A, CHR 0x0B, CHR 0x0C, CHR 0x0D}"

text \<open>\<open>strtok\<close> with the separator \<open>'' ''\<close>: the next word and the text saved for the next call.\<close>

definition strtok :: "string \<Rightarrow> (string \<times> string) option" where
  "strtok s =
     (let s = dropWhile (\<lambda>c. c = CHR '' '') s in
      if s = '''' then None
      else Some (takeWhile (\<lambda>c. c \<noteq> CHR '' '') s, drop 1 (dropWhile (\<lambda>c. c \<noteq> CHR '' '') s)))"

text \<open>
  \<open>strtol\<close> in base 10: the value, saturated to a \<open>long\<close>, and the text behind the number, which is
  all of the argument when there are no digits.
\<close>

definition strtol :: "string \<Rightarrow> int \<times> string" where
  "strtol s =
     (let t = dropWhile isspace s;
          neg = (t \<noteq> '''' \<and> hd t = CHR ''-'');
          t = (if t \<noteq> '''' \<and> hd t \<in> {CHR ''-'', CHR ''+''} then tl t else t);
          ds = takeWhile is_digit t;
          v = int (foldl (\<lambda>n c. n * 10 + digit_val c) 0 ds);
          v = (if neg then - v else v)
      in if ds = '''' then (0, s)
         else (max (- (2 ^ 63)) (min v (2 ^ 63 - 1)), dropWhile is_digit t))"

definition safe_atoi :: "string \<Rightarrow> u32 option" where
  "safe_atoi str = (let (val, endptr) = strtol str in if endptr \<noteq> '''' then None else Some (word_of_int val))"

text \<open>\<open>sscanf\<close> with \<open>''%d''\<close>, which ignores what follows the number.\<close>

definition sscanf_d :: "string \<Rightarrow> u32 option" where
  "sscanf_d str = (let (val, endptr) = strtol str in if endptr = str then None else Some (word_of_int val))"

section \<open>Commands\<close>

type_synonym ('d, 'r) reply = "(int \<times> ('d, 'r) sim) result option"

definition reply :: "int \<Rightarrow> ('d, 'r) sim \<Rightarrow> ('d, 'r) reply" where
  "reply ret s = Some (Inr (ret, s))"

definition cmd_c :: "('d, 'r) env \<Rightarrow> ('d, 'r) sim \<Rightarrow> ('d, 'r) reply" where
  "cmd_c E s = andthen (cpu_exec E (- 1) s) (reply 0)"

definition cmd_si :: "('d, 'r) env \<Rightarrow> string option \<Rightarrow> ('d, 'r) sim \<Rightarrow> ('d, 'r) reply" where
  "cmd_si E args s =
     (case args of
        None \<Rightarrow> andthen (cpu_exec E 1 s) (reply 0)
      | Some a \<Rightarrow>
          (case safe_atoi a of
             None \<Rightarrow> reply 0 (out ''%s is not pure number!'' [S a] s)
           | Some n \<Rightarrow> andthen (cpu_exec E (ucast n) s) (reply 0)))"

definition cmd_q :: "('d, 'r) sim \<Rightarrow> ('d, 'r) reply" where
  "cmd_q s =
     reply (- 1) (if state (mach s) \<noteq> ABORT then s\<lparr>mach := (mach s)\<lparr>state := QUIT\<rparr>\<rparr> else s)"

definition cmd_info :: "('d, 'r) env \<Rightarrow> string option \<Rightarrow> ('d, 'r) sim \<Rightarrow> ('d, 'r) reply" where
  "cmd_info E args s =
     (case args of
        None \<Rightarrow> reply 0 (out ''Blank arg for info is not valid. Try help info'' [] s)
      | Some a \<Rightarrow>
          if a \<in> {''r'', ''registers'', ''register'', ''reg''} then
            reply 0 (foldl (\<lambda>s (f, xs). out f xs s) s (reg_display (env_ops E) (dut s)))
          else if a \<in> {''w'', ''watchpoint''} then
            Option.bind (print_wp (wp_st s) (mach s)) (\<lambda>m. reply 0 (s\<lparr>mach := m\<rparr>))
          else reply 0 (out ''Undefined info command:%s. Try help info'' [S a] s))"

text \<open>
  The loop of \<open>cmd_x\<close> from the byte \<open>i\<close> on.  An \<open>N\<close> that was not read is indeterminate, and a
  missing expression is a null pointer.
\<close>

fun x_loop :: "u32 \<Rightarrow> nat \<Rightarrow> nat \<Rightarrow> ('d, 'r) sim \<Rightarrow> ('d, 'r) sim result" where
  "x_loop addr i 0 s = Inr s"
| "x_loop addr i (Suc k) s =
     bindR (vaddr_read (mach s) (addr + of_nat i) 1) (\<lambda>data.
     let s = (if i mod 4 = 0 then out ''0x%08X: '' [N (addr + of_nat i)] s else s)
     in x_loop addr (i + 1) k (out ''%02X '' [N data] s))"

definition cmd_x :: "('d, 'r) env \<Rightarrow> string \<Rightarrow> ('d, 'r) sim \<Rightarrow> ('d, 'r) reply" where
  "cmd_x E save s =
     (let (args, save) = (case strtok save of None \<Rightarrow> (None, '''') | Some (a, r) \<Rightarrow> (Some a, r));
          n = (case args of None \<Rightarrow> None | Some a \<Rightarrow> sscanf_d a);
          s = (case args of
                 None \<Rightarrow> out ''missing N args. Try help x'' [] s
               | Some a \<Rightarrow> if n = None then out ''Invalid N args. Try help x'' [] s else s)
      in case strtok save of
           None \<Rightarrow> Some (Inl (Undefined ''NULL''))
         | Some (a, _) \<Rightarrow>
             Some (bindR (expr (env_ops E) (dut s) a (mach s)) (\<lambda>(v, m).
               let s = s\<lparr>mach := m\<rparr>;
                   s = (if v = None then out ''Invalid EXPR args.'' [] s else s);
                   addr = (case v of None \<Rightarrow> 0 | Some w \<Rightarrow> w)
               in case n of
                    None \<Rightarrow> Inl (Undefined ''uninitialised N'')
                  | Some w \<Rightarrow> bindR (x_loop addr 0 (unat w) s) (\<lambda>s. Inr (0, out ''newline'' [] s)))))"

definition cmd_p :: "('d, 'r) env \<Rightarrow> string option \<Rightarrow> ('d, 'r) sim \<Rightarrow> ('d, 'r) reply" where
  "cmd_p E args s =
     (case args of
        None \<Rightarrow> reply 0 s
      | Some a \<Rightarrow>
          Some (bindR (expr (env_ops E) (dut s) a (mach s)) (\<lambda>(v, m).
            let s = s\<lparr>mach := m\<rparr> in
            Inr (0, case v of
                      None \<Rightarrow> out ''Invalid expression:%s'' [S a] s
                    | Some w \<Rightarrow> out ''%u'' [N w] s))))"

text \<open>The array \<open>expr\<close> of a watchpoint holds 127 characters and the terminator.\<close>

definition cmd_w :: "('d, 'r) env \<Rightarrow> string option \<Rightarrow> ('d, 'r) sim \<Rightarrow> ('d, 'r) reply" where
  "cmd_w E args s = Some (
     bindR (new_wp (wp_st s)) (\<lambda>(wp, w).
     let s = s\<lparr>wp_st := w\<rparr> in
     case args of
       None \<Rightarrow> Inr (0, out ''Invalid w usage. Try help w'' [] s)
     | Some a \<Rightarrow>
         bindR (expr (env_ops E) (dut s) a (mach s)) (\<lambda>(v, m).
         let s = s\<lparr>mach := m\<rparr>;
             val = (case v of None \<Rightarrow> 0 | Some x \<Rightarrow> x);
             s = s\<lparr>wp_st := wp_upd wp (\<lambda>u. u\<lparr>wp_val := val\<rparr>) (wp_st s)\<rparr>
         in if v = None then
              let s = out ''Invalid expression:%s'' [S a] s in
              bindR (free_wp wp (wp_st s)) (\<lambda>w. Inr (0, s\<lparr>wp_st := w\<rparr>))
            else
              bindR (guardR (length a < 128) (Undefined ''wp.expr'')) (\<lambda>_.
              let s = s\<lparr>wp_st := wp_upd wp (\<lambda>u. u\<lparr>wp_expr := a\<rparr>) (wp_st s)\<rparr> in
              Inr (0, out ''Watchpoint %d: %s'' [N (NO (wp_pool (wp_st s) ! wp)), S a] s)))))"

definition cmd_d :: "string option \<Rightarrow> ('d, 'r) sim \<Rightarrow> ('d, 'r) reply" where
  "cmd_d args s =
     (case args of
        None \<Rightarrow> reply 0 (out ''Invalid d usage. Try help d'' [] s)
      | Some a \<Rightarrow>
          (case safe_atoi a of
             None \<Rightarrow> reply 0 (out ''Invalid NO args. Try help d'' [] s)
           | Some no \<Rightarrow>
               andthen (delete_wp no (wp_st s) (mach s)) (\<lambda>(w, m).
               reply 0 (out ''Watchpoint %d deleted'' [N no] (s\<lparr>wp_st := w, mach := m\<rparr>)))))"

section \<open>The table and the loop\<close>

datatype handler = H_help | H_c | H_q | H_si | H_info | H_x | H_p | H_w | H_d

definition cmd_table :: "(string \<times> string \<times> handler) list" where
  "cmd_table =
    [(''help'', ''Display information about all supported commands'', H_help),
     (''c'', ''Continue the execution of the program'', H_c),
     (''q'', ''Exit NEMU'', H_q),
     (''si'', ''Make the program pause after executing N instructions. When N is not specified, it defaults to 1'', H_si),
     (''info'', ''Print the state of program'', H_info),
     (''x'', ''Examine memory:x N EXPR EXPR is an expression for the memory address to examine. N is the number of bytes to output.'', H_x),
     (''p'', ''usage:p EXPR figure out the result of EXPR'', H_p),
     (''w'', ''Set a watchpoint for an expression. When the value of expression change, the program pause. '', H_w),
     (''d'', ''Delete a watchpoint'', H_d)]"

definition cmd_lookup :: "string \<Rightarrow> (string \<times> string \<times> handler) option" where
  "cmd_lookup cmd = List.find (\<lambda>(name, _). name = cmd) cmd_table"

definition cmd_help :: "string \<Rightarrow> ('d, 'r) sim \<Rightarrow> ('d, 'r) reply" where
  "cmd_help save s =
     (case strtok save of
        None \<Rightarrow> reply 0 (foldl (\<lambda>s (name, desc, _). out ''%s - %s'' [S name, S desc] s) s cmd_table)
      | Some (arg, _) \<Rightarrow>
          (case cmd_lookup arg of
             Some (name, desc, _) \<Rightarrow> reply 0 (out ''%s - %s'' [S name, S desc] s)
           | None \<Rightarrow> reply 0 (out ''Unknown command %s'' [S arg] s)))"

definition call_handler ::
  "('d, 'r) env \<Rightarrow> handler \<Rightarrow> string option \<Rightarrow> string \<Rightarrow> ('d, 'r) sim \<Rightarrow> ('d, 'r) reply" where
  "call_handler E h args save s =
     (case h of
        H_help \<Rightarrow> cmd_help save s
      | H_c \<Rightarrow> cmd_c E s
      | H_q \<Rightarrow> cmd_q s
      | H_si \<Rightarrow> cmd_si E args s
      | H_info \<Rightarrow> cmd_info E args s
      | H_x \<Rightarrow> cmd_x E save s
      | H_p \<Rightarrow> cmd_p E args s
      | H_w \<Rightarrow> cmd_w E args s
      | H_d \<Rightarrow> cmd_d args s)"

text \<open>One line; a return value of 0 goes on with the next one.\<close>

definition exec_line :: "('d, 'r) env \<Rightarrow> string \<Rightarrow> ('d, 'r) sim \<Rightarrow> ('d, 'r) reply" where
  "exec_line E str s =
     (case strtok str of
        None \<Rightarrow> reply 0 s
      | Some (cmd, save) \<Rightarrow>
          let args = (if save = '''' then None else Some save) in
          (case cmd_lookup cmd of
             None \<Rightarrow> reply 0 (out ''Unknown command %s'' [S cmd] s)
           | Some (_, _, h) \<Rightarrow> call_handler E h args save s))"

fun sdb_lines :: "('d, 'r) env \<Rightarrow> string list \<Rightarrow> ('d, 'r) sim \<Rightarrow> ('d, 'r) sim result option" where
  "sdb_lines E [] s = Some (Inr s)"
| "sdb_lines E (str # lines) s =
     andthen (exec_line E str s) (\<lambda>(ret, s). if ret < 0 then Some (Inr s) else sdb_lines E lines s)"

definition sdb_set_batch_mode :: "('d, 'r) sim \<Rightarrow> ('d, 'r) sim" where
  "sdb_set_batch_mode s = s\<lparr>is_batch_mode := True\<rparr>"

definition sdb_mainloop :: "('d, 'r) env \<Rightarrow> string list \<Rightarrow> ('d, 'r) sim \<Rightarrow> ('d, 'r) sim result option" where
  "sdb_mainloop E lines s =
     (if is_batch_mode s then andthen (cmd_c E s) (\<lambda>(_, s). Some (Inr s)) else sdb_lines E lines s)"

definition init_sdb :: "('d, 'r) sim \<Rightarrow> ('d, 'r) sim" where
  "init_sdb s = s\<lparr>wp_st := init_wp_pool (wp_st s)\<rparr>"

section \<open>What a line can change\<close>

text \<open>The core, its memory, the state and the count of instructions are as before.\<close>

definition same_core :: "('d, 'r) sim \<Rightarrow> ('d, 'r) sim \<Rightarrow> bool" where
  "same_core s s' \<longleftrightarrow> dut s' = dut s \<and> pmem (mach s') = pmem (mach s) \<and>
     nr_inst s' = nr_inst s \<and> state (mach s') = state (mach s) \<and>
     sim_time (mach s') = sim_time (mach s) \<and> wave_st s' = wave_st s"

text \<open>The pool is intact and every text of a watchpoint fits its array.\<close>

definition pool_ok :: "wps \<Rightarrow> bool" where
  "pool_ok w \<longleftrightarrow> (\<exists>us fs. wp_inv w us fs) \<and> (\<forall>t \<in> set (wp_texts w). length t < 128)"

lemma same_core_refl [simp]: "same_core s s"
  by (simp add: same_core_def)

lemma same_core_trans: "same_core a b \<Longrightarrow> same_core b c \<Longrightarrow> same_core a c"
  by (simp add: same_core_def)

lemma out_simps [simp]: "wp_st (out f a s) = wp_st s" "same_core s (out f a t) \<longleftrightarrow> same_core s t"
  "state (mach (out f a s)) = state (mach s)" "nr_inst (out f a s) = nr_inst s"
  by (simp_all add: out_def same_core_def)

lemma outs_simps:
  "wp_st (foldl (\<lambda>s (f, a). out f a s) s xs) = wp_st s" "same_core s (foldl (\<lambda>s (f, a). out f a s) s xs)"
proof (induction xs arbitrary: s)
  case (Cons x xs)
  case 1 show ?case using Cons(1) by (simp split: prod.split)
  case 2 show ?case
    using Cons(2) [of "out (fst x) (snd x) s"] same_core_trans [of s "out (fst x) (snd x) s"]
    by (cases x) simp
qed simp_all

lemma same_core_console [simp]: "same_core s (s\<lparr>mach := (mach s)\<lparr>console := c\<rparr>\<rparr>)"
  by (simp add: same_core_def)

lemma reply_iff [simp]: "reply r s = Some (Inr (q, t)) \<longleftrightarrow> q = r \<and> t = s"
  by (auto simp: reply_def)

lemma expr_same: "expr ops d e m = Inr (v, m') \<Longrightarrow> pmem m' = pmem m \<and> state m' = state m \<and> sim_time m' = sim_time m"
  by (rule expr_cases [of m ops d e]) auto

lemma wp_texts_new: "new_wp s = Inr (i, s') \<Longrightarrow> wp_texts s' = wp_texts s"
  by (auto simp: new_wp_def Let_def split: option.splits)

lemma wp_texts_free: "free_wp i s = Inr s' \<Longrightarrow> wp_texts s' = wp_texts s"
  by (auto simp: free_wp_def unlink_wp_def bindR_Inr_iff Let_def split: option.splits if_splits)

lemma wp_inv_upd_expr: "wp_inv (wp_upd i (\<lambda>w. w\<lparr>wp_expr := t\<rparr>) s) us fs \<longleftrightarrow> wp_inv s us fs"
proof -
  let ?s = "wp_upd i (\<lambda>w. w\<lparr>wp_expr := t\<rparr>) s"
  have node: "wp_next (wp_pool ?s ! j) = wp_next (wp_pool s ! j)"
    "wp_prev (wp_pool ?s ! j) = wp_prev (wp_pool s ! j)" "NO (wp_pool ?s ! j) = NO (wp_pool s ! j)" for j
    by (cases "i < length (wp_pool s)"; cases "i = j"; simp add: wp_upd_def list_update_beyond)+
  have "next_chain ?s p is \<longleftrightarrow> next_chain s p is" for p "is"
    by (induction "is" arbitrary: p) (simp_all add: node)
  moreover have "prev_chain ?s p is \<longleftrightarrow> prev_chain s p is" for p "is"
    by (induction "is" arbitrary: p) (simp_all add: node)
  ultimately show ?thesis by (simp add: wp_inv_def node)
qed

lemma wp_texts_upd_expr: "set (wp_texts (wp_upd i (\<lambda>w. w\<lparr>wp_expr := t\<rparr>) s)) \<subseteq> insert t (set (wp_texts s))"
  by (auto simp: wp_texts_def wp_upd_def dest!: set_update_subset_insert [THEN subsetD])

lemma pool_ok_new:
  assumes "pool_ok w" "new_wp w = Inr (i, w')"
  obtains us fs where "wp_inv w' (i # us) fs" "\<forall>t \<in> set (wp_texts w'). length t < 128"
proof -
  obtain us fs where inv: "wp_inv w us fs" "\<forall>t \<in> set (wp_texts w). length t < 128"
    using assms(1) by (auto simp: pool_ok_def)
  moreover have "fs \<noteq> []" using inv(1) assms(2) new_wp_empty by fastforce
  then obtain f fs' where "fs = f # fs'" by (cases fs) auto
  ultimately show ?thesis
    using that new_wp_Cons [of w us f fs'] assms(2) wp_texts_new [OF assms(2)] by auto
qed

lemma pool_ok_free:
  assumes "wp_inv w us fs" "i \<in> set us" "free_wp i w = Inr w'" "\<forall>t \<in> set (wp_texts w). length t < 128"
  shows "pool_ok w'"
  using free_wp_cases [OF assms(1,2)] assms(3,4) wp_texts_free [OF assms(3)]
  by (auto simp: pool_ok_def split: if_splits)

text \<open>Each command that does not run or end the program.\<close>

lemma cmd_info_quiet:
  assumes "cmd_info E args s = Some (Inr (r, s'))" "pool_ok (wp_st s)"
  shows "r = 0 \<and> same_core s s' \<and> pool_ok (wp_st s')"
proof -
  obtain us where "next_chain (wp_st s) (head (wp_st s)) us"
    using assms(2) by (auto simp: pool_ok_def wp_inv_def)
  then have "\<exists>c. print_wp (wp_st s) (mach s) = Some ((mach s)\<lparr>console := c\<rparr>)"
    by (simp add: print_wp_def print_loop_eq) (auto simp: printf_def)
  then show ?thesis
    using assms by (auto simp: cmd_info_def outs_simps split: option.splits if_splits)
qed

lemma x_loop_quiet: "x_loop addr i k s = Inr s' \<Longrightarrow> same_core s s' \<and> wp_st s' = wp_st s"
proof (induction k arbitrary: i s)
  case (Suc k)
  then obtain d where
    "x_loop addr (i + 1) k (out ''%02X '' [N d]
       (if i mod 4 = 0 then out ''0x%08X: '' [N (addr + of_nat i)] s else s)) = Inr s'"
    by (auto simp: bindR_Inr_iff Let_def)
  from Suc.IH [OF this] show ?case by (simp add: same_core_def out_def printf_def split: if_splits)
qed simp

lemma cmd_x_quiet:
  assumes "cmd_x E save s = Some (Inr (r, s'))"
  shows "r = 0 \<and> same_core s s' \<and> wp_st s' = wp_st s"
  using assms
  by (auto simp: cmd_x_def Let_def bindR_Inr_iff same_core_def out_def split: option.splits if_splits
      dest!: expr_same x_loop_quiet)

lemma cmd_p_quiet: "cmd_p E args s = Some (Inr (r, s')) \<Longrightarrow> r = 0 \<and> same_core s s' \<and> wp_st s' = wp_st s"
  by (auto simp: cmd_p_def bindR_Inr_iff same_core_def out_def Let_def split: option.splits dest!: expr_same)

lemma cmd_w_quiet:
  assumes "cmd_w E args s = Some (Inr (r, s'))" "pool_ok (wp_st s)"
  shows "r = 0 \<and> same_core s s' \<and> pool_ok (wp_st s')"
proof -
  obtain i w where w: "new_wp (wp_st s) = Inr (i, w)"
    using assms(1) by (auto simp: cmd_w_def bindR_Inr_iff)
  obtain us fs where inv: "wp_inv w (i # us) fs" "\<forall>t \<in> set (wp_texts w). length t < 128"
    using pool_ok_new [OF assms(2) w] by blast
  have ok: "pool_ok w" using inv by (auto simp: pool_ok_def)
  have upd: "pool_ok (wp_upd i (\<lambda>u. u\<lparr>wp_expr := a\<rparr>) (wp_upd i (\<lambda>u. u\<lparr>wp_val := v\<rparr>) w))"
    if "length a < 128" for a v
    using inv that wp_texts_upd_expr [of i a "wp_upd i (\<lambda>u. u\<lparr>wp_val := v\<rparr>) w"]
    by (auto simp: pool_ok_def wp_inv_upd_expr wp_inv_upd_val)
  have free: "pool_ok w''" if "free_wp i (wp_upd i (\<lambda>u. u\<lparr>wp_val := 0\<rparr>) w) = Inr w''" for w''
    by (rule pool_ok_free [OF _ _ that, of "i # us" fs]) (use inv in \<open>simp_all add: wp_inv_upd_val\<close>)
  show ?thesis
  proof (cases args)
    case None
    then show ?thesis using assms(1) w ok by (auto simp: cmd_w_def same_core_def out_def)
  next
    case (Some a)
    obtain v m where v: "expr (env_ops E) (dut s) a (mach s) = Inr (v, m)"
      using assms(1) w Some by (auto simp: cmd_w_def bindR_Inr_iff)
    note m = expr_same [OF v]
    show ?thesis
    proof (cases v)
      case None
      then obtain w'' where "free_wp i (wp_upd i (\<lambda>u. u\<lparr>wp_val := 0\<rparr>) w) = Inr w''" "r = 0" "wp_st s' = w''"
        "same_core s s'"
        using assms(1) w Some v m by (auto simp: cmd_w_def bindR_Inr_iff Let_def same_core_def out_def)
      then show ?thesis using free by simp
    next
      case (Some x)
      then show ?thesis
        using assms(1) w \<open>args = Some a\<close> v m upd [of a x]
        by (auto simp: cmd_w_def bindR_Inr_iff guardR_Inr_iff Let_def same_core_def out_def)
    qed
  qed
qed

lemma cmd_d_quiet:
  assumes "cmd_d args s = Some (Inr (r, s'))" "pool_ok (wp_st s)"
  shows "r = 0 \<and> same_core s s' \<and> pool_ok (wp_st s')"
proof -
  obtain us fs where inv: "wp_inv (wp_st s) us fs" "\<forall>t \<in> set (wp_texts (wp_st s)). length t < 128"
    using assms(2) by (auto simp: pool_ok_def)
  have del: "pool_ok w \<and> same_core s (s\<lparr>wp_st := w, mach := m\<rparr>)"
    if "delete_wp no (wp_st s) (mach s) = Some (Inr (w, m))" for no w m
    using that delete_wp_eq [OF inv(1), of no "mach s"] pool_ok_free [OF inv(1) _ _ inv(2)] assms(2)
    by (auto simp: bindR_Inr_iff same_core_def split: if_splits)
  show ?thesis
    using assms del by (auto simp: cmd_d_def andthen_Inr split: option.splits)
qed

lemma cmd_help_quiet:
  assumes "cmd_help save s = Some (Inr (r, s'))"
  shows "r = 0 \<and> same_core s s' \<and> wp_st s' = wp_st s"
proof -
  have "same_core s (foldl (\<lambda>s (name, desc, _). out ''%s - %s'' [S name, S desc] s) s xs) \<and>
      wp_st (foldl (\<lambda>s (name, desc, _). out ''%s - %s'' [S name, S desc] s) s xs) = wp_st s"
    for s :: "('a, 'b) sim" and xs :: "(string \<times> string \<times> handler) list"
  proof (induction xs arbitrary: s)
    case (Cons x xs)
    then show ?case
      using same_core_trans [of s "out ''%s - %s'' [S (fst x), S (fst (snd x))] s"]
      by (cases x) simp
  qed simp
  then show ?thesis
    using assms by (auto simp: cmd_help_def split: option.splits)
qed

section \<open>Sessions\<close>

definition quit :: "('d, 'r) sim \<Rightarrow> ('d, 'r) sim" where
  "quit s = (if state (mach s) \<noteq> ABORT then s\<lparr>mach := (mach s)\<lparr>state := QUIT\<rparr>\<rparr> else s)"

text \<open>A line prints, runs the program or ends the session.\<close>

lemma exec_line_cases:
  assumes "exec_line E l s = Some (Inr (r, s'))" "pool_ok (wp_st s)"
  obtains (print) "r = 0" "same_core s s'" "pool_ok (wp_st s')"
    | (run) n where "r = 0" "cpu_exec E n s = Some (Inr s')"
    | (quit) "r = - 1" "s' = quit s"
proof -
  have h: "r = 0 \<and> same_core s s' \<and> pool_ok (wp_st s') \<or> r = 0 \<and> (\<exists>n. cpu_exec E n s = Some (Inr s')) \<or>
      r = - 1 \<and> s' = quit s" if c: "call_handler E h args save s = Some (Inr (r, s'))" for h args save
  proof (cases h)
    case H_help
    then show ?thesis using c cmd_help_quiet [of save s r s'] assms(2) by (simp add: call_handler_def)
  next
    case H_c
    then show ?thesis using c by (auto simp: call_handler_def cmd_c_def andthen_Inr)
  next
    case H_q
    then show ?thesis using c by (auto simp: call_handler_def cmd_q_def quit_def)
  next
    case H_si
    then show ?thesis
      using c assms(2) by (auto simp: call_handler_def cmd_si_def andthen_Inr split: option.splits)
  next
    case H_info
    then show ?thesis using c cmd_info_quiet [of E args s r s'] assms(2) by (simp add: call_handler_def)
  next
    case H_x
    then show ?thesis using c cmd_x_quiet [of E save s r s'] assms(2) by (simp add: call_handler_def)
  next
    case H_p
    then show ?thesis using c cmd_p_quiet [of E args s r s'] assms(2) by (simp add: call_handler_def)
  next
    case H_w
    then show ?thesis using c cmd_w_quiet [of E args s r s'] assms(2) by (simp add: call_handler_def)
  next
    case H_d
    then show ?thesis using c cmd_d_quiet [of args s r s'] assms(2) by (simp add: call_handler_def)
  qed
  have "r = 0 \<and> same_core s s' \<and> pool_ok (wp_st s') \<or> r = 0 \<and> (\<exists>n. cpu_exec E n s = Some (Inr s')) \<or>
      r = - 1 \<and> s' = quit s"
    using assms h by (auto simp: exec_line_def Let_def split: option.splits prod.splits if_splits)
  then show ?thesis using that by blast
qed

text \<open>The step of the main loop, and the sessions it makes up.\<close>

inductive sdb_step :: "('d, 'r) env \<Rightarrow> string \<Rightarrow> ('d, 'r) sim \<Rightarrow> ('d, 'r) sim \<Rightarrow> bool" for E where
  line: "exec_line E l s = Some (Inr (r, s')) \<Longrightarrow> 0 \<le> r \<Longrightarrow> sdb_step E l s s'"

inductive session :: "('d, 'r) env \<Rightarrow> ('d, 'r) sim \<Rightarrow> string list \<Rightarrow> ('d, 'r) sim \<Rightarrow> bool" for E where
  nil: "session E s [] s"
| cons: "sdb_step E l s s1 \<Longrightarrow> session E s1 ls s' \<Longrightarrow> session E s (l # ls) s'"

inductive_simps sdb_step_iff: "sdb_step E l s s'"
inductive_simps session_simps [simp]: "session E s [] s'" "session E s (l # ls) s'"

lemma cpu_exec_ended:
  "state (mach s) \<in> {END, ABORT, QUIT} \<Longrightarrow> cpu_exec E n s = Some (Inr s') \<Longrightarrow> same_core s s' \<and> wp_st s' = wp_st s"
  by (auto simp: cpu_exec_def Let_def same_core_def out_def)

lemma cpu_exec_pool:
  assumes "cpu_exec E n s = Some (Inr s')" "pool_ok (wp_st s)"
  shows "pool_ok (wp_st s') \<and> (state (mach s) \<noteq> QUIT \<longrightarrow> state (mach s') \<noteq> QUIT)"
proof (cases "state (mach s) \<in> {END, ABORT, QUIT}")
  case True
  then show ?thesis using cpu_exec_ended [OF True assms(1)] assms(2) by (auto simp: same_core_def)
next
  case False
  let ?s = "s\<lparr>g_print_step := (n < MAX_INST_TO_PRINT), mach := (mach s)\<lparr>state := RUNNING\<rparr>\<rparr>"
  obtain s1 where s1: "execute_n E (unat n) ?s = Some (Inr s1)" "s' = cpu_exec_end E s1"
    using assms(1) False by (auto simp: cpu_exec_def andthen_Inr execute_def Let_def)
  obtain us fs where inv: "wp_inv (wp_st ?s) us fs" "\<forall>t \<in> set (wp_texts (wp_st s)). length t < 128"
    using assms(2) by (auto simp: pool_ok_def)
  show ?thesis
    using execute_n_keeps [OF s1(1) _ inv(1)] inv(2) s1(2) by (auto simp: pool_ok_def)
qed

lemma step_pool:
  assumes "sdb_step E l s s'" "pool_ok (wp_st s)" "state (mach s) \<noteq> QUIT"
  shows "pool_ok (wp_st s') \<and> state (mach s') \<noteq> QUIT"
proof -
  obtain r where "exec_line E l s = Some (Inr (r, s'))" "0 \<le> r" using assms(1) by (auto simp: sdb_step_iff)
  from this(1) assms(2) show ?thesis
    by (cases rule: exec_line_cases)
      (use assms(2,3) \<open>0 \<le> r\<close> cpu_exec_pool [of E _ s s'] in \<open>auto simp: same_core_def\<close>)
qed

lemma same_core_wave: "same_core s s' \<Longrightarrow> wave_inv s \<Longrightarrow> wave_inv s'"
  by (simp add: same_core_def wave_inv_def)

lemma cpu_exec_pool_wave:
  assumes "cpu_exec E n s = Some (Inr s')" "pool_ok (wp_st s)" "wave_inv s"
  shows "wave_inv s'"
  using assms cpu_exec_wave [OF assms(1)] by (auto simp: pool_ok_def)

lemma step_wave:
  assumes "sdb_step E l s s'" "pool_ok (wp_st s)" "wave_inv s"
  shows "wave_inv s'"
proof -
  obtain r where "exec_line E l s = Some (Inr (r, s'))" "0 \<le> r" using assms(1) by (auto simp: sdb_step_iff)
  from this(1) assms(2) show ?thesis
    by (cases rule: exec_line_cases)
      (use assms(2,3) \<open>0 \<le> r\<close> same_core_wave cpu_exec_pool_wave in \<open>auto simp del: same_core_console\<close>)
qed

lemma step_ended:
  assumes "sdb_step E l s s'" "pool_ok (wp_st s)" "state (mach s) \<in> {END, ABORT}"
  shows "same_core s s'"
proof -
  obtain r where "exec_line E l s = Some (Inr (r, s'))" "0 \<le> r" using assms(1) by (auto simp: sdb_step_iff)
  from this(1) assms(2) show ?thesis
    by (cases rule: exec_line_cases)
      (use assms(2,3) \<open>0 \<le> r\<close> cpu_exec_ended [of s E _ s'] in auto)
qed

text \<open>The main loop is a session that the input or the quit command ends.\<close>

lemma sdb_lines_session:
  "sdb_lines E lines s = Some (Inr s') \<Longrightarrow>
   session E s lines s' \<or>
   (\<exists>ls l rest s1 r. lines = ls @ l # rest \<and> session E s ls s1 \<and> exec_line E l s1 = Some (Inr (r, s')) \<and> r < 0)"
proof (induction lines arbitrary: s)
  case (Cons l lines)
  then obtain r s1 where s1: "exec_line E l s = Some (Inr (r, s1))"
    "(if r < 0 then Some (Inr s1) else sdb_lines E lines s1) = Some (Inr s')"
    by (auto simp: andthen_Inr)
  show ?case
  proof (cases "r < 0")
    case True
    then have "exec_line E l s = Some (Inr (r, s'))" using s1 by simp
    then show ?thesis
      using True by (intro disjI2 exI [of _ "[]"] exI [of _ l] exI [of _ lines] exI [of _ s] exI [of _ r]) simp
  next
    case False
    then have step: "sdb_step E l s s1" using s1(1) by (auto simp: sdb_step_iff)
    from False s1(2) have "sdb_lines E lines s1 = Some (Inr s')" by simp
    from Cons.IH [OF this] show ?thesis
    proof (elim disjE exE conjE)
      fix ls l' rest s2 q
      assume "lines = ls @ l' # rest" "session E s1 ls s2" "exec_line E l' s2 = Some (Inr (q, s'))" "q < 0"
      then show ?thesis
        using step by (intro disjI2 exI [of _ "l # ls"] exI [of _ l'] exI [of _ rest] exI [of _ s2] exI [of _ q]) auto
    qed (use step in auto)
  qed
qed simp

lemma session_pool:
  "session E s ls s' \<Longrightarrow> pool_ok (wp_st s) \<Longrightarrow> state (mach s) \<noteq> QUIT \<Longrightarrow>
   pool_ok (wp_st s') \<and> state (mach s') \<noteq> QUIT"
  by (induction rule: session.induct) (use step_pool in blast)+

lemma session_wave:
  "session E s ls s' \<Longrightarrow> pool_ok (wp_st s) \<Longrightarrow> state (mach s) \<noteq> QUIT \<Longrightarrow> wave_inv s \<Longrightarrow> wave_inv s'"
  by (induction rule: session.induct) (use step_pool step_wave in blast)+

lemma sdb_lines_outcome:
  assumes "sdb_lines E lines s = Some (Inr s')" "pool_ok (wp_st s)" "state (mach s) \<noteq> QUIT"
  shows "session E s lines s' \<or> (\<exists>ls s1. prefix ls lines \<and> session E s ls s1 \<and> s' = quit s1)"
  using sdb_lines_session [OF assms(1)]
proof (elim disjE exE conjE)
  fix ls l rest s1 r
  assume l: "lines = ls @ l # rest" "session E s ls s1" "exec_line E l s1 = Some (Inr (r, s'))" "r < 0"
  have "pool_ok (wp_st s1)" using session_pool [OF l(2) assms(2,3)] by simp
  with l(3) have "s' = quit s1" by (cases rule: exec_line_cases) (use l(4) in auto)
  moreover have "prefix ls lines" using l(1) by simp
  ultimately show ?thesis using l(2) by blast
qed simp

lemma pool_ok_init: "pool_ok (wp_st (init_sdb s)) \<longleftrightarrow> (\<forall>i < NR_WP. length (wp_expr (wp_pool (wp_st s) ! i)) < 128)"
  using init_wp_pool_inv [of "wp_st s"]
  by (auto simp: pool_ok_def init_sdb_def wp_texts_def init_wp_pool_def)

section \<open>Numbers on the command line\<close>

lemma digit_char:
  fixes d :: nat
  assumes "d < 10"
  shows "is_digit (char_of (48 + d)) \<and> digit_val (char_of (48 + d)) = d"
proof -
  have "d = 0 \<or> d = 1 \<or> d = 2 \<or> d = 3 \<or> d = 4 \<or> d = 5 \<or> d = 6 \<or> d = 7 \<or> d = 8 \<or> d = 9"
    using assms by arith
  then show ?thesis by (elim disjE) (simp_all add: is_digit_def digit_val_def char_of_eq_iff)
qed

lemma decimal_digits:
  "list_all is_digit (decimal n) \<and> decimal n \<noteq> '''' \<and>
   foldl (\<lambda>n c. n * 10 + digit_val c) 0 (decimal n) = n"
proof (induction n rule: decimal.induct)
  case (1 n)
  have d: "n mod 10 < 10" by simp
  show ?case
    using 1 digit_char [of n] digit_char [OF d] by (subst decimal.simps, subst (2) decimal.simps, subst (3) decimal.simps) auto
qed

lemma digit_class: "is_digit c \<Longrightarrow> \<not> isspace c \<and> c \<notin> {CHR ''-'', CHR ''+'', CHR '' ''}"
  by (auto simp: is_digit_def isspace_def)

lemma strtol_decimal:
  assumes "n < 2 ^ 63"
  shows "strtol (decimal n) = (int n, '''')"
proof -
  obtain c cs where c: "decimal n = c # cs" "is_digit c" "list_all is_digit cs"
    "foldl (\<lambda>n c. n * 10 + digit_val c) 0 (c # cs) = n"
    using decimal_digits [of n] by (cases "decimal n") auto
  then have tw: "takeWhile is_digit (c # cs) = c # cs" "dropWhile is_digit (c # cs) = []"
    by (auto simp: takeWhile_eq_all_conv dropWhile_eq_Nil_conv list_all_iff)
  have "dropWhile isspace (c # cs) = c # cs" "int n \<le> 2 ^ 63 - 1"
    using digit_class [OF c(2)] assms by simp_all
  then show ?thesis
    using digit_class [OF c(2)] unfolding strtol_def c(1)
    by (simp add: Let_def tw c(4) del: takeWhile.simps dropWhile.simps foldl_Cons)
qed

lemma word_hd: "strtok (w @ CHR '' '' # rest) = Some (w, rest)"
  if "w \<noteq> ''''" "CHR '' '' \<notin> set w"
proof -
  have "dropWhile (\<lambda>c. c = CHR '' '') (w @ x) = w @ x" for x
    using that by (cases w) auto
  moreover have "takeWhile (\<lambda>c. c \<noteq> CHR '' '') (w @ CHR '' '' # rest) = w"
    "dropWhile (\<lambda>c. c \<noteq> CHR '' '') (w @ CHR '' '' # rest) = CHR '' '' # rest"
    using that(2) by (auto simp: takeWhile_append dropWhile_append takeWhile_eq_all_conv)
  ultimately show ?thesis using that(1) by (simp add: strtok_def)
qed

lemma exec_word:
  assumes "w \<noteq> ''''" "CHR '' '' \<notin> set w" "cmd_lookup w = Some (n, t, h)" "a \<noteq> ''''"
  shows "exec_line E (w @ CHR '' '' # a) s = call_handler E h (Some a) a s"
  using assms by (simp add: exec_line_def word_hd)

lemma unlex_not_Nil: "ts \<noteq> [] \<Longrightarrow> unlex ts \<noteq> ''''"
  by (cases ts) (simp_all add: unlex_def)

section \<open>Properties\<close>

definition session_state :: "('d, 'r) sim \<Rightarrow> bool" where
  "session_state s \<longleftrightarrow> pool_ok (wp_st s) \<and> state (mach s) \<noteq> QUIT"

text \<open>
  C4. Whatever lines are entered, after each of them the pool of watchpoints is intact, the text
  of every watchpoint fits its array, and the state is not \<open>QUIT\<close>, which only the end of a
  session sets.  The wave files stay in order as well: at most one is open, the time steps written to
  it count from 0 without a gap, the time is the next one to be written and never above its bound, and
  the index of the next file is one of the three.
\<close>

theorem session_invariant:
  assumes "session E s lines s'" "session_state s"
  shows "session_state s' \<and> (wave_inv s \<longrightarrow> wave_inv s')"
  using session_pool [OF assms(1)] session_wave [OF assms(1)] assms(2) by (simp add: session_state_def)

lemma demo_wave: "wave_inv demo_sim"
  by (simp add: wave_inv_def demo_sim_def demo_machine_def MAX_WAVE_NUM_def MAX_WAVE_SIZE_def)

lemma demo_session_state: "session_state demo_sim"
proof -
  have "wp_texts demo_wps = replicate NR_WP ''''"
    by (simp add: demo_wps_def wp_texts_def init_wp_pool_def NR_WP_def upt_rec eval_nat_numeral)
  then show ?thesis
    using demo_wps_inv by (auto simp: session_state_def pool_ok_def demo_sim_def demo_machine_def)
qed

lemmas line_defs = exec_line_def strtok_def cmd_lookup_def cmd_table_def call_handler_def cmd_help_def

lemma demo_help: "exec_line demo_env ''help c'' s = reply 0 (out ''%s - %s''
    [S ''c'', S ''Continue the execution of the program''] s)"
  by (simp add: line_defs)

lemma demo_quit: "exec_line demo_env ''q'' s = reply (- 1) (quit s)"
  by (simp add: line_defs cmd_q_def quit_def)

lemma demo_session: "session demo_env s [''help c''] (out ''%s - %s''
    [S ''c'', S ''Continue the execution of the program''] s)"
  by (auto simp: sdb_step_iff demo_help)

theorem session_invariant_witness:
  "\<exists>s'. session demo_env demo_sim [''help c''] s' \<and> session_state s' \<and> wave_inv s'"
  using demo_session session_invariant [OF demo_session demo_session_state] demo_wave by blast

text \<open>
  C29. Once the program has ended or was aborted no line executes an instruction or changes the
  core, its memory or the state, whatever is entered.
\<close>

theorem session_frozen:
  assumes "session E s lines s'" "session_state s" "state (mach s) \<in> {END, ABORT}"
  shows "same_core s s'"
  using assms
proof (induction rule: session.induct)
  case (cons l s s1 ls s')
  have "same_core s s1" using step_ended [OF cons.hyps(1)] cons.prems by (simp add: session_state_def)
  moreover have "session_state s1"
    using step_pool [OF cons.hyps(1)] cons.prems by (simp add: session_state_def)
  ultimately show ?case using cons.IH cons.prems(2) same_core_trans by (fastforce simp: same_core_def)
qed simp

theorem session_frozen_witness:
  "\<exists>s s'. state (mach s) = END \<and> session demo_env s [''help c''] s' \<and> same_core s s'"
proof -
  let ?s = "demo_sim\<lparr>mach := (mach demo_sim)\<lparr>state := END\<rparr>\<rparr>"
  have "session_state ?s" using demo_session_state by (simp add: session_state_def)
  from session_frozen [OF demo_session this] demo_session show ?thesis
    by (intro exI [of _ ?s] exI) auto
qed

text \<open>
  The main loop, when it returns, has run the session of all lines, or of the lines before
  a quit command, which then sets the state to \<open>QUIT\<close> unless the run was aborted.
\<close>

theorem sdb_mainloop_outcome:
  assumes "sdb_mainloop E lines s = Some (Inr s')" "session_state s" "\<not> is_batch_mode s"
  shows "session E s lines s' \<or> (\<exists>ls s1. prefix ls lines \<and> session E s ls s1 \<and> s' = quit s1)"
  using sdb_lines_outcome [of E lines s s'] assms by (simp add: sdb_mainloop_def session_state_def)

theorem sdb_mainloop_outcome_witness:
  "\<exists>s'. sdb_mainloop demo_env [''help c'', ''q'', ''c''] demo_sim = Some (Inr s') \<and>
     (session demo_env demo_sim [''help c'', ''q'', ''c''] s' \<or>
      (\<exists>ls s1. prefix ls [''help c'', ''q'', ''c''] \<and> session demo_env demo_sim ls s1 \<and> s' = quit s1))"
proof -
  have b: "\<not> is_batch_mode demo_sim" by (simp add: demo_sim_def)
  then obtain s' where s': "sdb_mainloop demo_env [''help c'', ''q'', ''c''] demo_sim = Some (Inr s')"
    by (simp add: sdb_mainloop_def demo_help demo_quit reply_def)
  from sdb_mainloop_outcome [OF this demo_session_state b] this show ?thesis by blast
qed

text \<open>
  Batch mode is the same as entering the one line \<open>c\<close>.
\<close>

theorem batch_mode_continues:
  "sdb_mainloop E lines (sdb_set_batch_mode s) = sdb_lines E [''c''] (sdb_set_batch_mode s)"
proof -
  have "exec_line E ''c'' t = cmd_c E t" for t :: "('a, 'b) sim"
    by (simp add: exec_line_def strtok_def cmd_lookup_def cmd_table_def call_handler_def)
  moreover have "(\<lambda>(ret, s). if ret < 0 then Some (Inr s) else sdb_lines E [] s) = (\<lambda>(_ :: int, s). Some (Inr s))"
    by (auto simp: fun_eq_iff)
  ultimately show ?thesis by (simp add: sdb_mainloop_def sdb_set_batch_mode_def)
qed

text \<open>
  The command \<open>si\<close> with a number runs that many instructions, cut to 32 bits: from
  4294967296 on the count wraps around, down to no instruction at all.
\<close>

theorem si_command:
  assumes "n < 2 ^ 63"
  shows "exec_line E (''si '' @ decimal n) s = andthen (cpu_exec E (of_nat (n mod 2 ^ 32)) s) (reply 0)"
proof -
  have "exec_line E (''si'' @ CHR '' '' # decimal n) s = call_handler E H_si (Some (decimal n)) (decimal n) s"
    by (rule exec_word) (simp_all add: cmd_lookup_def cmd_table_def decimal_digits)
  moreover have "ucast (word_of_int (int n) :: u32) = (of_nat (n mod 2 ^ 32) :: u64)"
    by (rule word_unat_eq_iff [THEN iffD2]) (simp add: unat_ucast unat_of_nat take_bit_eq_mod)
  ultimately show ?thesis
    using assms by (simp add: call_handler_def cmd_si_def safe_atoi_def strtol_decimal)
qed

theorem si_command_witness:
  "exec_line demo_env (''si '' @ decimal 4294967296) demo_sim = andthen (cpu_exec demo_env 0 demo_sim) (reply 0)"
  using si_command [of 4294967296 demo_env demo_sim] by simp

text \<open>
  The command \<open>p\<close> prints the value of a well-formed expression whose text is entered, and
  changes nothing else.
\<close>

theorem print_command:
  assumes "wf_ast e" "list_all lexeme (literals e)" "length (toks e) < 128"
    and "sem (env_ops E) (dut s) (mach s) e = Inr (Val v)"
  shows "exec_line E (''p '' @ unlex (map plain (toks e))) s = reply 0 (out ''%u'' [N v] s)"
proof -
  let ?a = "unlex (map plain (toks e))"
  have "exec_line E (''p'' @ CHR '' '' # ?a) s = call_handler E H_p (Some ?a) ?a s"
    by (rule exec_word) (simp_all add: cmd_lookup_def cmd_table_def unlex_not_Nil toks_not_Nil)
  then show ?thesis
    using expr_toks [OF assms(1-3), of "env_ops E" "dut s" "mach s"] assms(4)
    by (simp add: call_handler_def cmd_p_def reply_def)
qed

theorem print_command_witness:
  "exec_line demo_env ''p ( 1 + 0xf ) * - 2 '' demo_sim = reply 0 (out ''%u'' [N (- 32)] demo_sim)"
proof -
  have "unlex (map plain (toks demo_ast)) = ''( 1 + 0xf ) * - 2 ''"
    by (simp add: demo_ast_def enclose_def plain_def op_tok_def op_text_def unlex_def rank_def ops_defs)
  moreover have "wf_ast demo_ast" "list_all lexeme (literals demo_ast)" "length (toks demo_ast) < 128"
    by (simp_all add: demo_ast_def rank_def ops_defs lexeme_def STR_SIZE_def is_digit_def
        is_xdigit_def enclose_def)
  moreover have "sem (env_ops demo_env) (dut demo_sim) (mach demo_sim) demo_ast = Inr (Val (- 32))"
    by (simp add: demo_ast_def eval_atom_def strtoul_def digit_val_def binop_val_def)
  ultimately show ?thesis
    using print_command [of demo_ast demo_env demo_sim "- 32"] by simp
qed

end
