(* ===== verification/Npc_Main.thy ===== *)
theory Npc_Main
  imports Sdb
begin

text \<open>
  The start and the end of the simulator, \<open>core/csrc/npc.cpp\<close>: options, initialisation, main
  loop and exit status.  The options are the results of \<open>getopt_long\<close>; a \<open>world\<close> gives the
  contents of the files and the loaded reference library.
\<close>

section \<open>The code\<close>

datatype opt = Opt_image string | Opt_batch | Opt_elf string | Opt_diff string | Opt_unknown

record 'r world =
  file_of :: "string \<Rightarrow> u8 list option"
  dlopen :: "string \<Rightarrow> 'r option"

record cmd_args =
  img_file :: "string option"
  elf_file :: "string option"
  so_file :: "string option"

fun parse_args :: "opt list \<Rightarrow> cmd_args \<times> ('d, 'r) sim \<Rightarrow> cmd_args \<times> ('d, 'r) sim" where
  "parse_args [] st = st"
| "parse_args (o1 # os) (a, s) =
     parse_args os (case o1 of
         Opt_image f \<Rightarrow> (a\<lparr>img_file := Some f\<rparr>, s)
       | Opt_batch \<Rightarrow> (a, sdb_set_batch_mode s)
       | Opt_elf f \<Rightarrow> (a\<lparr>elf_file := Some f\<rparr>, s)
       | Opt_diff f \<Rightarrow> (a\<lparr>so_file := Some f\<rparr>, s)
       | Opt_unknown \<Rightarrow> (a, s))"

definition npc_welcome :: "('d, 'r) sim \<Rightarrow> ('d, 'r) sim" where
  "npc_welcome s =
     (let s = out ''ITrace: ON'' [] s;
          s = out ''MTrace: OFF'' [] s;
          s = out ''Welcome to riscv32-NPC!'' [] s
      in out ''For help, type help'' [] s)"

definition initialize ::
  "('d, 'r) env \<Rightarrow> 'r world \<Rightarrow> opt list \<Rightarrow> ('d, 'r) sim \<Rightarrow> ('d, 'r) sim result"
where
  "initialize E W os s =
     (let (a, s) = parse_args os (\<lparr>img_file = None, elf_file = None, so_file = None\<rparr>, s) in
      bindR (cpu_init E s) (\<lambda>s.
      bindR (load_img (map_option (file_of W) (img_file a)) (mach s)) (\<lambda>(size, m).
      let s = s\<lparr>mach := m, img_size := size\<rparr> in
      bindR (init_trace (map_option (file_of W) (elf_file a)) (trace_st s, mach s)) (\<lambda>(t, m).
      let s = s\<lparr>trace_st := t, mach := m\<rparr>;
          s = init_sdb s
      in
      bindR (init_difftest (env_ops E) (dut s) (env_rops E) (so_file a) (Option.bind (so_file a) (dlopen W))
          (img_size s) 1 (diff_st s, mach s)) (\<lambda>(df, m).
      let s = s\<lparr>diff_st := df, mach := m\<rparr> in
      bindR (reset E 5 s) (\<lambda>s.
      let s = npc_welcome s in
      Inr (s\<lparr>mach := (mach s)\<lparr>state := RUNNING\<rparr>\<rparr>)))))))"

definition deinitialize :: "('d, 'r) sim \<Rightarrow> ('d, 'r) sim" where
  "deinitialize s =
     (let (t, m) = free_trace (trace_st s, mach s);
          s = s\<lparr>trace_st := t, mach := m\<rparr>
      in cpu_deinit s)"

text \<open>The exit status and the last state.\<close>

definition npc_main ::
  "('d, 'r) env \<Rightarrow> 'r world \<Rightarrow> opt list \<Rightarrow> string list \<Rightarrow> ('d, 'r) sim \<Rightarrow> (u32 \<times> ('d, 'r) sim) result option"
where
  "npc_main E W os lines s =
     (case initialize E W os s of
        Inl e \<Rightarrow> Some (Inl e)
      | Inr s \<Rightarrow>
          andthen (sdb_mainloop E lines s) (\<lambda>s.
          let s = deinitialize s in
          Some (Inr (if state (mach s) = ABORT then (1, out ''Execution aborted'' [] s) else (0, s)))))"

text \<open>The static and global variables at the start: all zero.\<close>

definition static_zero :: "'d \<Rightarrow> 'r \<Rightarrow> ('d, 'r) sim \<Rightarrow> bool" where
  "static_zero d r s \<longleftrightarrow>
     dut s = d \<and> nr_inst s = 0 \<and> nr_cycle s = 0 \<and> first s \<and> \<not> is_batch_mode s \<and> sim_time (mach s) = 0 \<and>
     wave_st s = \<lparr>cur_trace = None, cur_wave_idx = 0, wave_log = []\<rparr> \<and>
     wp_pool (wp_st s) = replicate NR_WP \<lparr>NO = 0, wp_next = None, wp_prev = None, wp_val = 0, wp_expr = ''''\<rparr> \<and>
     pmem (mach s) = pmem_init \<and> skip_ref_reg (diff_st s) = 0"

section \<open>Initialisation\<close>

lemma parse_args_keeps:
  "snd (parse_args os (a, s)) = s \<or> snd (parse_args os (a, s)) = sdb_set_batch_mode s"
proof (induction os arbitrary: a s)
  case (Cons o1 os)
  show ?case
    using Cons.IH [of "(case o1 of Opt_image f \<Rightarrow> a\<lparr>img_file := Some f\<rparr> | Opt_elf f \<Rightarrow> a\<lparr>elf_file := Some f\<rparr>
         | Opt_diff f \<Rightarrow> a\<lparr>so_file := Some f\<rparr> | _ \<Rightarrow> a)" "if o1 = Opt_batch then sdb_set_batch_mode s else s"]
    by (cases o1) (auto simp: sdb_set_batch_mode_def)
qed simp

lemma batch_simps [simp]: "wp_st (sdb_set_batch_mode s) = wp_st s" "nr_inst (sdb_set_batch_mode s) = nr_inst s"
  "wave_st (sdb_set_batch_mode s) = wave_st s" "mach (sdb_set_batch_mode s) = mach s"
  by (simp_all add: sdb_set_batch_mode_def)

text \<open>Evaluations of the core keep the watchpoints, the count and the order of the wave files.\<close>

definition idle :: "('d, 'r) sim \<Rightarrow> ('d, 'r) sim \<Rightarrow> bool" where
  "idle s s' \<longleftrightarrow> is_batch_mode s' = is_batch_mode s \<and> nr_inst s' = nr_inst s \<and> wp_st s' = wp_st s \<and> (wave_inv s \<longrightarrow> wave_inv s')"

lemma idle_trans: "idle a b \<Longrightarrow> idle b c \<Longrightarrow> idle a c"
  by (simp add: idle_def)

lemma switch_batch [simp]: "is_batch_mode (SwitchWaveTrace t) = is_batch_mode t"
  by (simp add: SwitchWaveTrace_def Let_def wave_emit_def split: option.split)

lemma eval_batch:
  assumes "EvalAndWaveTrace E s = Inr s'"
  shows "is_batch_mode s' = is_batch_mode s"
proof -
  define s1 where "s1 = (if cur_trace (wave_st s) = None \<or> sim_time (mach s) \<ge> MAX_WAVE_SIZE
      then SwitchWaveTrace s else s)"
  then have "is_batch_mode s1 = is_batch_mode s" by simp
  then show ?thesis
    using assms unfolding EvalAndWaveTrace_def s1_def [symmetric]
    by (auto simp: bindR_Inr_iff wave_emit_def Let_def)
qed

lemma idle_eval: "EvalAndWaveTrace E s = Inr s' \<Longrightarrow> idle s s'"
  using keeps_eval [of E s s'] eval_inv [of s E s'] eval_batch [of E s s'] by (auto simp: idle_def keeps_def)

lemma wave_inv_more [simp]: "wave_inv (s\<lparr>dut := d\<rparr>) = wave_inv s" "wave_inv (s\<lparr>nr_cycle := n\<rparr>) = wave_inv s"
  by (simp_all add: wave_inv_def)

lemma idle_cycle: "single_cycle E s = Inr s' \<Longrightarrow> idle s s'"
  by (auto simp: single_cycle_def bindR_Inr_iff idle_def dest!: idle_eval)

lemma idle_cycles: "cycles E n s = Inr s' \<Longrightarrow> idle s s'"
proof (induction n arbitrary: s)
  case (Suc n)
  then show ?case by (auto simp: bindR_Inr_iff intro: idle_trans dest: idle_cycle)
qed (simp add: idle_def)

lemma idle_reset: "reset E n s = Inr s' \<Longrightarrow> idle s s'"
  by (auto simp: reset_def bindR_Inr_iff idle_def dest!: idle_cycles)

lemma load_img_time: "load_img f m = Inr (n, m') \<Longrightarrow> sim_time m' = sim_time m"
  by (auto simp: load_img_def bindR_Inr_iff Let_def split: option.splits)

lemma init_trace_time: "init_trace f (t, m) = Inr (t', m') \<Longrightarrow> sim_time m' = sim_time m"
  by (auto simp: init_trace_def bindR_Inr_iff Let_def split: option.splits)

lemma init_difftest_time:
  "init_difftest ops d rops f h n p (df, m) = Inr (df', m') \<Longrightarrow> sim_time m' = sim_time m"
  by (auto simp: init_difftest_def Let_def split: option.splits)

lemma idle_init: "cpu_init E s = Inr s' \<Longrightarrow> idle (s\<lparr>mach := (mach s)\<lparr>state := RUNNING\<rparr>\<rparr>) s'"
  by (auto simp: cpu_init_def dest: idle_reset)

lemma init_sdb_simps [simp]: "mach (init_sdb s) = mach s" "dut (init_sdb s) = dut s"
  "diff_st (init_sdb s) = diff_st s" "img_size (init_sdb s) = img_size s"
  by (simp_all add: init_sdb_def)

lemma deinitialize_simps [simp]:
  "wp_st (deinitialize s) = wp_st s" "state (mach (deinitialize s)) = state (mach s)"
  by (simp_all add: deinitialize_def free_trace_def cpu_deinit_def DeinitWaveTrace_def wave_emit_def
      printf_def Let_def split: option.split)

lemma sdb_mainloop_pool:
  assumes "sdb_mainloop E lines s = Some (Inr s')" "session_state s"
  shows "pool_ok (wp_st s')"
proof (cases "is_batch_mode s")
  case True
  then obtain r where "exec_line E ''c'' s = Some (Inr (r, s'))" "r = 0" "cpu_exec E (- 1) s = Some (Inr s')"
    using assms(1) by (auto simp: sdb_mainloop_def cmd_c_def andthen_Inr line_defs)
  then show ?thesis using cpu_exec_pool assms(2) by (auto simp: session_state_def)
next
  case False
  then have "sdb_lines E lines s = Some (Inr s')" using assms(1) by (simp add: sdb_mainloop_def)
  from sdb_lines_outcome [OF this] assms(2) session_pool show ?thesis
    by (fastforce simp: session_state_def quit_def)
qed

lemma initialize_keeps:
  assumes "initialize E W os s = Inr s'"
  shows "nr_inst s' = nr_inst s" "wp_st s' = init_wp_pool (wp_st s)" "state (mach s') = RUNNING"
    "is_batch_mode s' = is_batch_mode (snd (parse_args os (\<lparr>img_file = None, elf_file = None, so_file = None\<rparr>, s)))"
    "wave_inv s \<Longrightarrow> wave_inv s'"
proof -
  let ?a0 = "\<lparr>img_file = None, elf_file = None, so_file = None\<rparr>"
  obtain a s0 where p: "parse_args os (?a0, s) = (a, s0)" by (metis surj_pair)
  have s0: "nr_inst s0 = nr_inst s" "wp_st s0 = wp_st s" "wave_inv s \<Longrightarrow> wave_inv s0"
    using parse_args_keeps [of os ?a0 s] p by (auto simp: wave_inv_def)
  obtain s1 n m t m1 df m2 s2 where steps: "cpu_init E s0 = Inr s1"
    "load_img (map_option (file_of W) (img_file a)) (mach s1) = Inr (n, m)"
    "init_trace (map_option (file_of W) (elf_file a)) (trace_st s1, m) = Inr (t, m1)"
    "sim_time m2 = sim_time m1"
    "reset E 5 (init_sdb (s1\<lparr>mach := m, img_size := n, trace_st := t, mach := m1\<rparr>)\<lparr>diff_st := df, mach := m2\<rparr>) = Inr s2"
    "s' = (npc_welcome s2)\<lparr>mach := (mach (npc_welcome s2))\<lparr>state := RUNNING\<rparr>\<rparr>"
    using assms p by (fastforce simp: initialize_def bindR_Inr_iff Let_def dest!: init_difftest_time)
  let ?s = "init_sdb (s1\<lparr>mach := m, img_size := n, trace_st := t, mach := m1\<rparr>)\<lparr>diff_st := df, mach := m2\<rparr>"
  have i: "idle (s0\<lparr>mach := (mach s0)\<lparr>state := RUNNING\<rparr>\<rparr>) s1" using idle_init [OF steps(1)] .
  have r: "idle ?s s2" using idle_reset [OF steps(5)] .
  have time: "sim_time m2 = sim_time (mach s1)"
    using steps(2-4) load_img_time init_trace_time by metis
  have w: "nr_inst (npc_welcome s2) = nr_inst s2" "wp_st (npc_welcome s2) = wp_st s2"
    "wave_st (npc_welcome s2) = wave_st s2"
    "sim_time (mach (npc_welcome s2)) = sim_time (mach s2)"
    "is_batch_mode (npc_welcome s2) = is_batch_mode s2"
    by (simp_all add: npc_welcome_def out_def Let_def)
  have ws: "wave_inv s1 \<Longrightarrow> wave_inv ?s" using time by (simp add: wave_inv_def init_sdb_def)
  show "nr_inst s' = nr_inst s" "wp_st s' = init_wp_pool (wp_st s)" "state (mach s') = RUNNING"
    "is_batch_mode s' = is_batch_mode (snd (parse_args os (?a0, s)))"
    using i r s0 steps(6) w p by (simp_all add: idle_def init_sdb_def)
  assume "wave_inv s"
  then have "wave_inv s2" using i r ws s0(3) by (simp add: idle_def wave_inv_def)
  then show "wave_inv s'" using steps(6) w by (simp add: wave_inv_def)
qed

lemma static_zero_pool: "static_zero d r s \<Longrightarrow> pool_ok (init_wp_pool (wp_st s))"
  using pool_ok_init [of s] by (simp add: static_zero_def init_sdb_def)

lemma static_zero_wave: "static_zero d r s \<Longrightarrow> wave_inv s"
  by (simp add: static_zero_def wave_inv_def MAX_WAVE_NUM_def MAX_WAVE_SIZE_def)

section \<open>Properties\<close>

text \<open>
  C34. Initialisation, when nothing stops it, leads from the zeroed variables to a state from
  which sessions run: \<open>RUNNING\<close>, all 32 watchpoints free, no instruction counted, the wave files
  in order, whatever the options, the files and the core are.
\<close>

theorem initialize_ready:
  assumes "static_zero d r s" "initialize E W os s = Inr s'"
  shows "session_state s' \<and> state (mach s') = RUNNING \<and> wp_inv (wp_st s') [] [0..<32] \<and>
    nr_inst s' = 0 \<and> wave_inv s'"
  using initialize_keeps [OF assms(2)] static_zero_pool [OF assms(1)] static_zero_wave [OF assms(1)]
    init_wp_pool_inv [of "wp_st s"] assms(1)
  by (simp add: session_state_def static_zero_def NR_WP_def)

definition demo_zero :: "(u32, CPU_reg) sim" where
  "demo_zero = demo_sim\<lparr>wp_st := \<lparr>wp_pool = replicate NR_WP \<lparr>NO = 0, wp_next = None, wp_prev = None,
     wp_val = 0, wp_expr = ''''\<rparr>, head = None, free_list = None\<rparr>\<rparr>"

definition demo_world :: "CPU_reg world" where
  "demo_world = \<lparr>file_of = (\<lambda>_. None), dlopen = (\<lambda>_. Some (ref demo_diff))\<rparr>"

lemma demo_zero_static: "static_zero 0x80000000 (ref demo_diff) demo_zero"
  by (simp add: static_zero_def demo_zero_def demo_sim_def demo_machine_def demo_diff_def)

lemma demo_reset: "\<exists>s'. reset demo_env n s = Inr s'"
proof -
  have "\<exists>s'. single_cycle demo_env s = Inr s'" for s
  proof -
    obtain s1 where "EvalAndWaveTrace demo_env (s\<lparr>dut := set_clk (env_ops demo_env) 0 (dut s)\<rparr>) = Inr s1"
      using demo_eval_ok by blast
    then show ?thesis using demo_eval_ok by (simp add: single_cycle_def)
  qed
  then have "\<exists>s'. cycles demo_env n s = Inr s'" for s
    by (induction n arbitrary: s) (fastforce simp: bindR_Inr_iff)+
  then show ?thesis by (fastforce simp: reset_def bindR_Inr_iff)
qed

lemma demo_initialize: "\<exists>s'. initialize demo_env demo_world [Opt_diff ''ref.so''] demo_zero = Inr s'"
proof -
  obtain s1 where "cpu_init demo_env demo_zero = Inr s1"
    using demo_reset unfolding cpu_init_def by blast
  then show ?thesis
    using demo_reset
    by (fastforce simp: initialize_def load_img_def init_trace_def init_difftest_def demo_world_def Let_def bindR_Inr_iff)
qed

theorem initialize_ready_witness:
  "\<exists>s'. initialize demo_env demo_world [Opt_diff ''ref.so''] demo_zero = Inr s' \<and> session_state s' \<and> nr_inst s' = 0"
  using demo_initialize initialize_ready [OF demo_zero_static] by blast

end
