(* ===== verification/Am_Jyd.thy ===== *)
theory Am_Jyd
  imports Am_Types Npc_Memory
begin

text \<open>
  The abstract machine on the processor of this repository, \<open>am/src/riscv/jingyeda\<close>: the UART
  driver (\<open>uart.c\<close>), the timer (\<open>timer.c\<close>), the device table (\<open>ioe.c\<close>) and the start and exit of
  a program (\<open>trm.c\<close>), over the volatile accesses of \<open>riscv.h\<close>.  What the accesses do is a
  parameter of the drivers; the last part runs them against the simulator's devices, with the
  accesses made by the calls the processor makes to the simulator (\<open>memory.cpp\<close>).
\<close>

section \<open>Volatile accesses (\<open>riscv.h\<close>) and addresses (\<open>soc.h\<close>)\<close>

record 's bus =
  inb :: "u32 \<Rightarrow> 's \<Rightarrow> (u8 \<times> 's) result"
  inl :: "u32 \<Rightarrow> 's \<Rightarrow> (u32 \<times> 's) result"
  outb :: "u32 \<Rightarrow> u8 \<Rightarrow> 's \<Rightarrow> 's result"
  outl :: "u32 \<Rightarrow> u32 \<Rightarrow> 's \<Rightarrow> 's result"

definition SOC_UART_BASE :: u32 where "SOC_UART_BASE = 0x10000000"
definition SOC_UART_TX :: u32 where "SOC_UART_TX = SOC_UART_BASE + 0"
definition SOC_UART_RX :: u32 where "SOC_UART_RX = SOC_UART_BASE + 0"
definition SOC_UART_LSR :: u32 where "SOC_UART_LSR = SOC_UART_BASE + 1"
definition SOC_CLINT_BASE :: u32 where "SOC_CLINT_BASE = 0x02000000"
definition SOC_RTC_ADDR :: u32 where "SOC_RTC_ADDR = SOC_CLINT_BASE + 0x48"

lemmas soc_addr_defs =
  SOC_UART_BASE_def SOC_UART_TX_def SOC_UART_RX_def SOC_UART_LSR_def SOC_CLINT_BASE_def SOC_RTC_ADDR_def

section \<open>UART driver (\<open>uart.c\<close>)\<close>

definition uart_init :: "'s \<Rightarrow> 's" where
  "uart_init s = s"

text \<open>\<open>while ((inb(UART_LSR) & bit) == 0);\<close>\<close>

partial_function (option) wait_lsr :: "'s bus \<Rightarrow> u8 \<Rightarrow> 's \<Rightarrow> 's result option" where
  "wait_lsr B b s =
     (case inb B SOC_UART_LSR s of
        Inl e \<Rightarrow> Some (Inl e)
      | Inr r \<Rightarrow> if fst r AND b = 0 then wait_lsr B b (snd r) else Some (Inr (snd r)))"

definition bindO :: "'a result option \<Rightarrow> ('a \<Rightarrow> 'b result) \<Rightarrow> 'b result option" where
  "bindO m f = (case m of None \<Rightarrow> None | Some r \<Rightarrow> Some (bindR r f))"

definition uart_rx :: "'s bus \<Rightarrow> 's handler_t" where
  "uart_rx B buf s =
     (case buf of
        UART_RX_T data \<Rightarrow>
          bindO (wait_lsr B 0x01 s) (\<lambda>s.
          bindR (inb B SOC_UART_RX s) (\<lambda>(data, s). Inr (UART_RX_T data, s)))
      | _ \<Rightarrow> wrong_buf)"

definition uart_tx :: "'s bus \<Rightarrow> 's handler_t" where
  "uart_tx B buf s =
     (case buf of
        UART_TX_T data \<Rightarrow>
          bindO (wait_lsr B 0x10 s) (\<lambda>s.
          bindR (outb B SOC_UART_TX data s) (\<lambda>s. Inr (buf, s)))
      | _ \<Rightarrow> wrong_buf)"

section \<open>Timer (\<open>timer.c\<close>)\<close>

definition timer_init :: "'s bus \<Rightarrow> 's \<Rightarrow> 's result" where
  "timer_init B s = bindR (outl B SOC_RTC_ADDR 0 s) (outl B SOC_RTC_ADDR 0)"

definition timer_uptime :: "'s bus \<Rightarrow> 's handler_t" where
  "timer_uptime B buf s =
     (case buf of
        TIMER_UPTIME_T us \<Rightarrow>
          Some (bindR (inl B (SOC_RTC_ADDR + 4) s) (\<lambda>(hi, s).
            let us = (ucast hi :: u64) in
            bindR (inl B SOC_RTC_ADDR s) (\<lambda>(lo, s).
            let us = push_bit 32 us OR ucast lo;
                us = us div 2
            in Inr (TIMER_UPTIME_T us, s))))
      | _ \<Rightarrow> wrong_buf)"

definition timer_rtc :: "'s handler_t" where
  "timer_rtc buf s =
     (case buf of
        TIMER_RTC_T year month day hour minute second \<Rightarrow> Some (Inr (TIMER_RTC_T 1900 0 0 0 0 0, s))
      | _ \<Rightarrow> wrong_buf)"

section \<open>Device table (\<open>ioe.c\<close>)\<close>

definition timer_config :: "'s handler_t" where
  "timer_config buf s =
     (case buf of
        TIMER_CONFIG_T present has_rtc \<Rightarrow> Some (Inr (TIMER_CONFIG_T True False, s))
      | _ \<Rightarrow> wrong_buf)"

text \<open>
  Declared for a structure of the input device, and used for the one of the UART, which has
  the same layout.
\<close>

definition uart_config :: "'s handler_t" where
  "uart_config buf s =
     (case buf of
        UART_CONFIG_T present \<Rightarrow> Some (Inr (UART_CONFIG_T False, s))
      | INPUT_CONFIG_T present \<Rightarrow> Some (Inr (INPUT_CONFIG_T False, s))
      | _ \<Rightarrow> wrong_buf)"

datatype hfun =
  H_timer_config | H_timer_rtc | H_timer_uptime | H_uart_config | H_uart_rx | H_uart_tx | H_fail

definition lut :: "(devreg \<times> hfun) list" where
  "lut = [(AM_TIMER_CONFIG, H_timer_config), (AM_TIMER_RTC, H_timer_rtc),
          (AM_TIMER_UPTIME, H_timer_uptime), (AM_UART_CONFIG, H_uart_config),
          (AM_UART_RX, H_uart_rx), (AM_UART_TX, H_uart_tx)]"

primrec run_hfun :: "'s bus \<Rightarrow> hfun \<Rightarrow> 's handler_t" where
  "run_hfun B H_timer_config = timer_config"
| "run_hfun B H_timer_rtc = timer_rtc"
| "run_hfun B H_timer_uptime = timer_uptime B"
| "run_hfun B H_uart_config = uart_config"
| "run_hfun B H_uart_rx = uart_rx B"
| "run_hfun B H_uart_tx = uart_tx B"
| "run_hfun B H_fail = io_fail"

text \<open>\<open>ioe_init\<close> completes the table and starts the timer and the UART.\<close>

definition ioe_init :: "'s bus \<Rightarrow> hfun option list \<times> 's \<Rightarrow> (hfun option list \<times> 's) result" where
  "ioe_init B ls =
     (let tab = fill_lut H_fail (fst ls)
      in bindR (timer_init B (snd ls)) (\<lambda>s. Inr (tab, uart_init s)))"

definition ioe_read :: "'s bus \<Rightarrow> hfun option list \<Rightarrow> u32 \<Rightarrow> 's handler_t" where
  "ioe_read B tab reg = call_lut (run_hfun B) tab reg"

definition ioe_write :: "'s bus \<Rightarrow> hfun option list \<Rightarrow> u32 \<Rightarrow> 's handler_t" where
  "ioe_write B tab reg = call_lut (run_hfun B) tab reg"

section \<open>Start and exit (\<open>trm.c\<close>)\<close>

definition PMEM_SIZE :: u32 where "PMEM_SIZE = 128 * 1024 * 1024"

definition heap :: "ptr \<Rightarrow> ptr \<Rightarrow> Area" where
  "heap heap_sym pmem_start = RANGE heap_sym (pmem_start + PMEM_SIZE)"

definition putch :: "'s bus \<Rightarrow> hfun option list \<Rightarrow> u8 \<Rightarrow> 's \<Rightarrow> 's result option" where
  "putch B tab ch s = bindO (ioe_write B tab (of_nat (reg_id AM_UART_TX)) (UART_TX_T ch) s) (\<lambda>(_, s). Inr s)"

text \<open>The macro \<open>putstr\<close> of \<open>klib-macros.h\<close>.\<close>

fun putstr :: "'s bus \<Rightarrow> hfun option list \<Rightarrow> u8 list \<Rightarrow> 's \<Rightarrow> 's result option" where
  "putstr B tab [] s = Some (Inr s)"
| "putstr B tab (c # cs) s =
     (case putch B tab c s of
        Some (Inr s) \<Rightarrow> putstr B tab cs s
      | r \<Rightarrow> r)"

text \<open>
  \<open>halt\<close> moves the code to \<open>a0\<close> and executes \<open>ebreak\<close>; the loop behind it is not reached when the
  simulator stops there.  \<open>_trm_init\<close> runs \<open>main\<close> and halts with its result.
\<close>

datatype soc_trap = Soc_trap u32

definition halt :: "u32 \<Rightarrow> soc_trap" where
  "halt code = Soc_trap code"

definition trm_init :: "('s \<Rightarrow> (u32 \<times> 's) result option) \<Rightarrow> 's \<Rightarrow> (soc_trap \<times> 's) result option" where
  "trm_init main s = bindO (main s) (\<lambda>(ret, s). Inr (halt ret, s))"

section \<open>The device table\<close>

interpretation jyd_io: io_table lut H_fail "run_hfun B" for B :: "'s bus"
  by unfold_locales simp

lemma bindO_simps [simp]: "bindO None f = None" "bindO (Some r) f = Some (bindR r f)"
  by (simp_all add: bindO_def)

lemma ioe_rw_eq:
  "ioe_read B (fill_lut H_fail (lut_entries lut)) reg buf s = jyd_io.io B reg buf s"
  "ioe_write B (fill_lut H_fail (lut_entries lut)) reg buf s = jyd_io.io B reg buf s"
  by (simp_all add: ioe_read_def ioe_write_def jyd_io.io_def)

lemma tx_entry [simp]: "ioe_write B (fill_lut H_fail (lut_entries lut)) 2 buf s = uart_tx B buf s"
  unfolding ioe_rw_eq using jyd_io.io_reg [of B AM_UART_TX buf s] by (simp add: lut_def)

section \<open>Drivers over any bus with a UART\<close>

text \<open>
  What the driver needs of the UART: while \<open>inv n\<close> holds, with \<open>n\<close> accesses to go, the status
  shows both the bit tested before sending and the one tested before receiving, and of a byte
  \<open>c\<close> stored to the data register the UART passes on \<open>passed c\<close>.
\<close>

locale uart_bus =
  fixes B :: "'s bus"
    and inv :: "nat \<Rightarrow> 's \<Rightarrow> bool"
    and sent :: "'s \<Rightarrow> u8 list"
    and passed :: "u8 \<Rightarrow> u8 list"
  assumes lsr: "inv (Suc n) s \<Longrightarrow> \<exists>v s'. inb B SOC_UART_LSR s = Inr (v, s') \<and> v = 0x11 \<and> inv n s' \<and> sent s' = sent s"
    and tx: "inv (Suc n) s \<Longrightarrow> \<exists>s'. outb B SOC_UART_TX c s = Inr s' \<and> inv n s' \<and> sent s' = sent s @ passed c"
begin

lemma wait_lsr_ready:
  assumes "inv (Suc n) s" "b = 0x10 \<or> b = 0x01"
  shows "\<exists>s'. wait_lsr B b s = Some (Inr s') \<and> inv n s' \<and> sent s' = sent s"
  using lsr [OF assms(1)] assms(2) by (subst wait_lsr.simps) auto

lemma uart_tx_sends:
  assumes "inv (Suc (Suc n)) s"
  shows "\<exists>s'. uart_tx B (UART_TX_T c) s = Some (Inr (UART_TX_T c, s')) \<and> inv n s' \<and> sent s' = sent s @ passed c"
proof -
  obtain s1 where s1: "wait_lsr B 0x10 s = Some (Inr s1)" "inv (Suc n) s1" "sent s1 = sent s"
    using wait_lsr_ready [OF assms, of "0x10"] by auto
  then show ?thesis using tx [OF s1(2), of c] by (auto simp: uart_tx_def)
qed

lemma putch_sends:
  assumes "inv (Suc (Suc n)) s"
  shows "\<exists>s'. putch B (fill_lut H_fail (lut_entries lut)) c s = Some (Inr s') \<and> inv n s' \<and> sent s' = sent s @ passed c"
  using uart_tx_sends [OF assms, of c] by (auto simp: putch_def)

lemma putstr_sends:
  "inv (2 * length cs) s \<Longrightarrow>
   \<exists>s'. putstr B (fill_lut H_fail (lut_entries lut)) cs s = Some (Inr s') \<and> inv 0 s' \<and> sent s' = sent s @ concat (map passed cs)"
proof (induction cs arbitrary: s)
  case (Cons c cs)
  obtain s1 where "putch B (fill_lut H_fail (lut_entries lut)) c s = Some (Inr s1)" "inv (2 * length cs) s1"
      "sent s1 = sent s @ passed c"
    using putch_sends [of "2 * length cs" s c] Cons.prems by auto
  then show ?case using Cons.IH [of s1] by auto
qed simp

end

section \<open>On the simulator\<close>

text \<open>
  The accesses as the processor makes them: a load reads the word at the address itself and
  keeps its low byte or all of it, a store writes with the mask of its width, and the
  simulator evaluates the core \<open>k\<close> times between two accesses.  Each evaluation adds 1 to the
  simulation time, which starts again at 0 with a new wave file (\<open>wavemanager.cpp\<close>).
\<close>

definition elapse :: "nat \<Rightarrow> machine \<Rightarrow> machine" where
  "elapse k m = m\<lparr>sim_time := (sim_time m + int k) mod MAX_WAVE_SIZE\<rparr>"

definition npc_bus :: "u32 \<Rightarrow> nat \<Rightarrow> machine bus" where
  "npc_bus dut_pc k =
     \<lparr>inb = (\<lambda>addr m. bindR (dpi_pmem_read dut_pc addr (elapse k m)) (\<lambda>(w, m). Inr (ucast w, m))),
      inl = (\<lambda>addr m. dpi_pmem_read dut_pc addr (elapse k m)),
      outb = (\<lambda>addr data m. dpi_pmem_write dut_pc addr (ucast data) 0x1 (elapse k m)),
      outl = (\<lambda>addr data m. dpi_pmem_write dut_pc addr data 0xF (elapse k m))\<rparr>"

lemma npc_bus_simps [simp]:
  "inb (npc_bus pc k) addr m = bindR (dpi_pmem_read pc addr (elapse k m)) (\<lambda>(w, m). Inr (ucast w, m))"
  "inl (npc_bus pc k) addr m = dpi_pmem_read pc addr (elapse k m)"
  "outb (npc_bus pc k) addr c m = dpi_pmem_write pc addr (ucast c) 0x1 (elapse k m)"
  "outl (npc_bus pc k) addr w m = dpi_pmem_write pc addr w 0xF (elapse k m)"
  by (simp_all add: npc_bus_def)

lemma soc_device_addrs:
  "SOC_UART_TX = UART_TX" "SOC_UART_RX = UART_RX" "SOC_UART_LSR = UART_STATUS" "SOC_RTC_ADDR = RTC_ADDR"
  by (simp_all add: soc_addr_defs mmio_addr_defs)

lemma in_mmio_devices [simp]:
  "in_mmio UART_TX" "in_mmio UART_RX" "in_mmio UART_STATUS" "in_mmio RTC_ADDR" "in_mmio (RTC_ADDR + 4)"
  by (simp_all add: in_mmio_def mmio_addr_defs)

lemma read_status:
  "dpi_pmem_read pc UART_STATUS m = Inr (0x11, m\<lparr>devs := skip_ref (devs m)\<rparr>)"
  by (simp add: dpi_pmem_read_def mmio_read_def uart_read_def mmio_addr_defs in_mmio_def Let_def)

lemma byte_back [simp]: "ucast (ucast c :: u32) = c" for c :: u8
  by (rule bit_word_eqI) (simp add: bit_simps)


lemma write_tx_soon:
  assumes "sim_time m - last_simtime (devs m) < 3"
  shows "dpi_pmem_write pc UART_TX w wmask m = Inr (m\<lparr>devs := skip_ref (devs m)\<rparr>)"
  using assms by (simp add: dpi_pmem_write_def mmio_write_def skip_ref_def Let_def)


definition behind :: "nat \<Rightarrow> nat \<Rightarrow> machine \<Rightarrow> bool" where
  "behind k n m \<longleftrightarrow> 0 \<le> sim_time m \<and> sim_time m + int (n * k) < last_simtime (devs m) + 3 \<and>
     sim_time m + int (n * k) < MAX_WAVE_SIZE"

lemma elapse_before:
  "0 \<le> sim_time m \<Longrightarrow> sim_time m + int (Suc n * k) < MAX_WAVE_SIZE \<Longrightarrow>
   elapse k m = m\<lparr>sim_time := sim_time m + int k\<rparr>"
proof -
  assume t: "0 \<le> sim_time m" "sim_time m + int (Suc n * k) < MAX_WAVE_SIZE"
  moreover have "int k \<le> int (Suc n * k)" by simp
  ultimately have "0 \<le> sim_time m + int k" "sim_time m + int k < MAX_WAVE_SIZE" by linarith+
  then show ?thesis by (simp add: elapse_def mod_pos_pos_trivial)
qed


lemma behind_step:
  assumes "behind k (Suc n) m" "sim_time m' = sim_time m + int k" "last_simtime (devs m') = last_simtime (devs m)"
  shows "behind k n m'"
  using assms by (auto simp: behind_def)

lemma bus_lsr:
  assumes "elapse k m = m\<lparr>sim_time := sim_time m + int k\<rparr>"
  shows "\<exists>m'. inb (npc_bus pc k) SOC_UART_LSR m = Inr (0x11, m') \<and> sim_time m' = sim_time m + int k \<and>
    last_simtime (devs m') = last_simtime (devs m) \<and> stderr_bytes (devs m') = stderr_bytes (devs m)"
  by (simp add: soc_device_addrs read_status assms skip_ref_def)


interpretation npc_uart_behind: uart_bus "npc_bus pc k" "behind k" "\<lambda>m. stderr_bytes (devs m)" "\<lambda>c. []" for pc k
proof
  fix n and m :: machine and c :: u8
  assume m: "behind k (Suc n) m"
  then have e: "elapse k m = m\<lparr>sim_time := sim_time m + int k\<rparr>"
    by (intro elapse_before [of _ n]) (simp_all add: behind_def)
  show "\<exists>v s'. inb (npc_bus pc k) SOC_UART_LSR m = Inr (v, s') \<and> v = 0x11 \<and> behind k n s' \<and>
      stderr_bytes (devs s') = stderr_bytes (devs m)"
    using bus_lsr [OF e, of pc] behind_step [OF m] by blast
  have t: "sim_time (elapse k m) = sim_time m + int k" "devs (elapse k m) = devs m" by (simp_all add: e)
  have "int k \<le> int (Suc n * k)" by simp
  moreover have "sim_time m + int (Suc n * k) < last_simtime (devs m) + 3" using m by (simp only: behind_def)
  ultimately have "sim_time (elapse k m) - last_simtime (devs (elapse k m)) < 3"
    unfolding t by linarith
  from write_tx_soon [OF this, of pc]
  obtain m' where m': "outb (npc_bus pc k) SOC_UART_TX c m = Inr m'" "sim_time m' = sim_time m + int k"
    "last_simtime (devs m') = last_simtime (devs m)" "stderr_bytes (devs m') = stderr_bytes (devs m)"
    by (simp add: soc_device_addrs e skip_ref_def)
  then show "\<exists>s'. outb (npc_bus pc k) SOC_UART_TX c m = Inr s' \<and> behind k n s' \<and>
      stderr_bytes (devs s') = stderr_bytes (devs m) @ []"
    using behind_step [OF m m'(2,3)] by auto
qed

text \<open>The clock of the simulator, read in two halves.\<close>

lemma read_clock:
  "dpi_pmem_read pc RTC_ADDR m =
     Inr (ucast (fst (get_time (skip_ref (devs m)))), m\<lparr>devs := snd (get_time (skip_ref (devs m)))\<rparr>)"
  "dpi_pmem_read pc (RTC_ADDR + 4) m =
     Inr (ucast (drop_bit 32 (fst (get_time (skip_ref (devs m))))), m\<lparr>devs := snd (get_time (skip_ref (devs m)))\<rparr>)"
  by (simp_all add: dpi_pmem_read_def mmio_read_def in_mmio_def mmio_addr_defs Let_def split: prod.split)

definition micros_since_boot :: "dev \<Rightarrow> nat \<Rightarrow> nat" where
  "micros_since_boot d i = unat (micros (clock d i) - boot_time d)"

lemma get_time_booted:
  assumes "boot_time d \<noteq> 0"
  shows "get_time (skip_ref d) = (micros (clock d (clock_reads d)) - boot_time d,
     (skip_ref d)\<lparr>clock_reads := clock_reads d + 1\<rparr>)"
  using assms get_time_later [of "skip_ref d"] by (simp add: skip_ref_def)

lemma clock_halves:
  "unat (push_bit 32 (ucast (ucast (drop_bit 32 t) :: u32)) OR ucast (ucast t' :: u32) :: u64)
   = unat (t :: u64) div 2 ^ 32 * 2 ^ 32 + unat (t' :: u64) mod 2 ^ 32"
proof -
  let ?h = "ucast (ucast (drop_bit 32 t) :: u32) :: u64" and ?l = "ucast (ucast t' :: u32) :: u64"
  have h: "unat ?h = unat t div 2 ^ 32"
    using unat_bound64 [of t] by (simp add: unat_ucast unat_drop_bit)
  have l: "unat ?l = unat t' mod 2 ^ 32"
    by (simp add: unat_ucast)
  have "push_bit 32 ?h OR ?l = push_bit 32 ?h + ?l"
    by (rule disjunctive_add [symmetric]) (auto simp: bit_simps)
  moreover have "unat (push_bit 32 ?h) = unat t div 2 ^ 32 * 2 ^ 32"
    using unat_bound64 [of t] by (simp add: unat_push_bit h) 
  moreover have "unat t div 2 ^ 32 * 2 ^ 32 + unat t' mod 2 ^ 32 < 2 ^ 64"
  proof -
    have "unat t div 2 ^ 32 < 2 ^ 32" using unat_bound64 [of t] by (simp add: less_mult_imp_div_less)
    moreover have "unat t' mod 2 ^ 32 < 2 ^ 32" by simp
    ultimately show ?thesis by simp
  qed
  ultimately show ?thesis using l by (simp add: unat_word_ariths)
qed

section \<open>Properties\<close>


definition demo_machine :: machine where
  "demo_machine = \<lparr>pmem = (\<lambda>_. 0),
     devs = \<lparr>boot_time = 5000000, clock = (\<lambda>i. (5 + of_nat i, 0)), clock_reads = 1, stdin_bytes = [],
             stderr_bytes = [], last_simtime = 0, skip_difftest = 0\<rparr>,
     state = RUNNING, halt_ret = 0, halt_pc = 0, sim_time = 0, console = []\<rparr>"


text \<open>
  C40. The UART after the simulator has started a new wave file, so that the simulation time is behind the
  time of the last byte: of a string printed before the time has caught up nothing is written,
  although the driver waits for the UART to be ready before every byte and no error is seen.
\<close>

theorem putstr_silent:
  assumes "0 \<le> sim_time m" and "sim_time m + int (2 * length str * k) < MAX_WAVE_SIZE"
    and "sim_time m + int (2 * length str * k) < last_simtime (devs m) + 3"
  shows "\<exists>m'. putstr (npc_bus pc k) (fill_lut H_fail (lut_entries lut)) str m = Some (Inr m') \<and>
    stderr_bytes (devs m') = stderr_bytes (devs m)"
  using npc_uart_behind.putstr_sends [of k str m pc] assms by (auto simp: behind_def)

theorem putstr_silent_witness:
  "\<exists>m'. putstr (npc_bus 0x80000000 4) (fill_lut H_fail (lut_entries lut)) [72, 105]
      (demo_machine\<lparr>devs := (devs demo_machine)\<lparr>last_simtime := 999990\<rparr>\<rparr>) = Some (Inr m') \<and> stderr_bytes (devs m') = []"
  using putstr_silent [of "demo_machine\<lparr>devs := (devs demo_machine)\<lparr>last_simtime := 999990\<rparr>\<rparr>" "[72, 105]" 4 "0x80000000"]
  by (simp add: demo_machine_def MAX_WAVE_SIZE_def)

text \<open>
  The up time a program reads from the simulator's clock: half the microseconds since boot,
  put together from the high half of one reading of the host's clock and the low half of the
  next.  The two may belong to different times, and the sum may then be wrong by \<open>2 ^ 32\<close>.
\<close>

theorem uptime_halves:
  assumes "boot_time (devs m) \<noteq> 0"
  shows "\<exists>m'. ioe_read (npc_bus pc k) (fill_lut H_fail (lut_entries lut)) (of_nat (reg_id AM_TIMER_UPTIME)) (TIMER_UPTIME_T u) m =
      Some (Inr (TIMER_UPTIME_T (of_nat
        ((micros_since_boot (devs m) (clock_reads (devs m)) div 2 ^ 32 * 2 ^ 32 +
          micros_since_boot (devs m) (clock_reads (devs m) + 1) mod 2 ^ 32) div 2)), m'))"
proof -
  let ?d = "devs m"
  let ?t = "micros (clock ?d (clock_reads ?d)) - boot_time ?d"
    and ?t' = "micros (clock ?d (clock_reads ?d + 1)) - boot_time ?d"
  let ?us = "push_bit 32 (ucast (ucast (drop_bit 32 ?t) :: u32)) OR ucast (ucast ?t' :: u32) :: u64"
  have "?us div 2 = of_nat (unat (?us div 2))" by simp
  also have "\<dots> = of_nat ((unat ?t div 2 ^ 32 * 2 ^ 32 + unat ?t' mod 2 ^ 32) div 2)"
    by (simp only: unat_div clock_halves) simp
  finally have us: "?us div 2 = \<dots>" .
  have "skip_ref (snd (get_time (skip_ref ?d))) = (skip_ref ?d)\<lparr>clock_reads := clock_reads ?d + 1\<rparr>"
    unfolding get_time_booted [OF assms] by (simp add: skip_ref_def)
  moreover have "get_time ((skip_ref ?d)\<lparr>clock_reads := clock_reads ?d + 1\<rparr>) = (?t', (skip_ref ?d)\<lparr>clock_reads := clock_reads ?d + 2\<rparr>)"
    using assms get_time_later [of "(skip_ref ?d)\<lparr>clock_reads := clock_reads ?d + 1\<rparr>"] by (simp add: skip_ref_def)
  ultimately have "timer_uptime (npc_bus pc k) (TIMER_UPTIME_T u) m = Some (Inr (TIMER_UPTIME_T (?us div 2),
      (elapse k (elapse k m))\<lparr>devs := (skip_ref ?d)\<lparr>clock_reads := clock_reads ?d + 2\<rparr>\<rparr>))"
    using assms by (simp add: timer_uptime_def soc_device_addrs read_clock elapse_def get_time_booted Let_def)
  then have "jyd_io.io (npc_bus pc k) (of_nat (reg_id AM_TIMER_UPTIME)) (TIMER_UPTIME_T u) m = \<dots>"
    by (simp only: jyd_io.io_reg) (simp add: lut_def)
  then show ?thesis unfolding ioe_rw_eq us micros_since_boot_def by blast
qed

theorem uptime_halves_witness:
  "\<exists>m'. ioe_read (npc_bus 0x80000000 4) (fill_lut H_fail (lut_entries lut)) 6 (TIMER_UPTIME_T 0) demo_machine =
      Some (Inr (TIMER_UPTIME_T 1000000, m'))"
  using uptime_halves [of demo_machine "0x80000000" 4 0]
  by (simp add: demo_machine_def micros_since_boot_def micros_def)

text \<open>
  After \<open>ioe_init\<close> every access to a register ends in the handler the table names for it, or
  panics when it names none; no null pointer is called.
\<close>

theorem ioe_read_cases:
  assumes "ioe_init B (lut_entries lut, s0) = Inr (tab, s1)"
  shows "ioe_read B tab (of_nat (reg_id r)) buf s =
     (case r of
        AM_TIMER_CONFIG \<Rightarrow> timer_config buf s
      | AM_TIMER_RTC \<Rightarrow> timer_rtc buf s
      | AM_TIMER_UPTIME \<Rightarrow> timer_uptime B buf s
      | AM_UART_CONFIG \<Rightarrow> uart_config buf s
      | AM_UART_RX \<Rightarrow> uart_rx B buf s
      | AM_UART_TX \<Rightarrow> uart_tx B buf s
      | _ \<Rightarrow> Some (Inl (Panic ''access nonexist register'')))"
proof -
  have "tab = fill_lut H_fail (lut_entries lut)"
    using assms by (auto simp: ioe_init_def Let_def bindR_Inr_iff)
  then have "ioe_read B tab (of_nat (reg_id r)) buf s = (case map_of lut r of None \<Rightarrow> io_fail buf s | Some h \<Rightarrow> run_hfun B h buf s)"
    by (simp only: ioe_rw_eq jyd_io.io_reg)
  then show ?thesis by (cases r) (simp_all add: lut_def io_fail_def)
qed

theorem ioe_read_cases_witness:
  "\<exists>tab m. ioe_init (npc_bus 0x80000000 4) (lut_entries lut, demo_machine) = Inr (tab, m) \<and>
     ioe_read (npc_bus 0x80000000 4) tab 8 (INPUT_KEYBRD_T False 0) m = Some (Inl (Panic ''access nonexist register''))"
proof -
  have "\<exists>m. ioe_init (npc_bus 0x80000000 4) (lut_entries lut, demo_machine) = Inr (fill_lut H_fail (lut_entries lut), m)"
    by (simp add: ioe_init_def timer_init_def demo_machine_def soc_device_addrs dpi_pmem_write_def mmio_write_def
        elapse_def skip_ref_def Let_def mmio_addr_defs in_mmio_def)
  then show ?thesis using ioe_read_cases [of "npc_bus 0x80000000 4" demo_machine _ _ AM_INPUT_KEYBRD] by fastforce
qed

end
