(* ===== verification/Am_Cte.thy ===== *)
theory Am_Cte
  imports Am_Types Klib_String
begin

text \<open>
  Traps and context switches on RISC-V: the event handling of \<open>am/src/riscv/jingyeda/cte.c\<close>, and
  of the same file for the platforms \<open>npc\<close> and \<open>nemu\<close>, with the entry code \<open>trap.S\<close> that saves and
  restores the registers around it.  A context is a block of 36 words in memory, laid out as
  \<open>struct Context\<close> of \<open>arch/riscv.h\<close> with 32 registers; the handler gets and returns a pointer.
\<close>

section \<open>Contexts (\<open>arch/riscv.h\<close>)\<close>

definition NR_REGS :: nat where "NR_REGS = 32"

definition mcause_at :: nat where "mcause_at = NR_REGS"
definition mstatus_at :: nat where "mstatus_at = NR_REGS + 1"
definition mepc_at :: nat where "mepc_at = NR_REGS + 2"
definition ctx_words :: nat where "ctx_words = NR_REGS + 4"
definition ctx_size :: u32 where "ctx_size = of_nat (4 * ctx_words)"

lemmas ctx_defs = NR_REGS_def mcause_at_def mstatus_at_def mepc_at_def ctx_words_def ctx_size_def

definition ctx_get :: "gmem \<Rightarrow> ptr \<Rightarrow> nat \<Rightarrow> u32" where
  "ctx_get m c n = ld32 m (c + of_nat (4 * n))"

definition ctx_set :: "ptr \<Rightarrow> nat \<Rightarrow> u32 \<Rightarrow> gmem \<Rightarrow> gmem" where
  "ctx_set c n w m = st32 (c + of_nat (4 * n)) w m"

text \<open>A hart: the registers, the control registers the code touches, and the memory.\<close>

record hart =
  xreg :: "nat \<Rightarrow> u32"
  hpc :: u32
  hmepc :: u32
  hmcause :: u32
  hmstatus :: u32
  hmtvec :: u32
  hmem :: gmem

section \<open>Event handling (\<open>cte.c\<close>)\<close>

type_synonym user_handler = "Event \<Rightarrow> ptr \<Rightarrow> gmem \<Rightarrow> (ptr \<times> gmem) result"

definition no_event :: Event where
  "no_event = \<lparr>event = EVENT_NULL, cause = 0, ref_of = 0, msg = ''''\<rparr>"

definition handle_event :: "event \<Rightarrow> user_handler \<Rightarrow> ptr \<Rightarrow> gmem \<Rightarrow> (ptr \<times> gmem) result" where
  "handle_event e h c m =
     bindR (h (no_event\<lparr>event := e\<rparr>) c m) (\<lambda>(c, m).
     bindR (guardR (c \<noteq> 0) (Panic ''c != NULL'')) (\<lambda>_. Inr (c, m)))"

definition irq_handle :: "user_handler option \<Rightarrow> ptr \<Rightarrow> gmem \<Rightarrow> (ptr \<times> gmem) result" where
  "irq_handle user_handler c m =
     (case user_handler of
        None \<Rightarrow> Inr (c, m)
      | Some h \<Rightarrow>
          handle_event (if ctx_get m c mcause_at = 11 then EVENT_YIELD else EVENT_ERROR) h c m)"

definition npc_irq_handle :: "user_handler option \<Rightarrow> ptr \<Rightarrow> gmem \<Rightarrow> (ptr \<times> gmem) result" where
  "npc_irq_handle user_handler c m =
     (case user_handler of
        None \<Rightarrow> Inr (c, m)
      | Some h \<Rightarrow> handle_event EVENT_ERROR h c m)"

definition nemu_irq_handle :: "user_handler option \<Rightarrow> ptr \<Rightarrow> gmem \<Rightarrow> (ptr \<times> gmem) result" where
  "nemu_irq_handle user_handler c m =
     (case user_handler of
        None \<Rightarrow> Inr (c, m)
      | Some h \<Rightarrow>
          (let e = (if ctx_get m c mcause_at = 11 then EVENT_YIELD else EVENT_ERROR)
           in handle_event e h c m))"

text \<open>\<open>cte_init\<close> sets the trap vector to \<open>__am_asm_trap\<close> and registers the handler.\<close>

definition cte_init :: "ptr \<Rightarrow> user_handler option \<Rightarrow> hart \<Rightarrow> bool \<times> user_handler option \<times> hart" where
  "cte_init am_asm_trap handler h = (True, handler, h\<lparr>hmtvec := am_asm_trap\<rparr>)"

definition kcontext :: "Area \<Rightarrow> ptr \<Rightarrow> ptr \<Rightarrow> gmem \<Rightarrow> ptr \<times> gmem" where
  "kcontext kstack entry arg m =
     (let c = area_end kstack - ctx_size;
          m = snd (memset m c 0 ctx_size);
          m = ctx_set c mstatus_at 0x00001800 m;
          m = ctx_set c mepc_at entry m;
          m = ctx_set c 10 arg m
      in (c, m))"

definition npc_kcontext :: "Area \<Rightarrow> ptr \<Rightarrow> ptr \<Rightarrow> gmem \<Rightarrow> ptr \<times> gmem" where
  "npc_kcontext kstack entry arg m = (0, m)"

definition ienabled :: bool where "ienabled = False"

definition iset :: "bool \<Rightarrow> hart \<Rightarrow> hart" where
  "iset enable h = h"

text \<open>The instructions of \<open>yield\<close>; \<open>t0\<close>, \<open>t1\<close> and \<open>t2\<close> are the registers 5, 6 and 7.\<close>

datatype csr = Mepc | Mcause | Mtvec

datatype insn = AUIPC nat u32 | ADDI nat nat u32 | CSRW csr nat | CSRR nat csr | NOP | JR nat

definition yield_code :: "insn list" where
  "yield_code =
     [AUIPC 5 0, ADDI 5 5 32, CSRW Mepc 5, ADDI 6 0 11, CSRW Mcause 6, CSRR 7 Mtvec, NOP, NOP, JR 7]"

definition xr :: "hart \<Rightarrow> nat \<Rightarrow> u32" where
  "xr h n = (if n = 0 then 0 else xreg h n)"

definition set_xr :: "nat \<Rightarrow> u32 \<Rightarrow> hart \<Rightarrow> hart" where
  "set_xr n w h = h\<lparr>xreg := (xreg h)(n := w), hpc := hpc h + 4\<rparr>"

fun exec_insn :: "insn \<Rightarrow> hart \<Rightarrow> hart" where
  "exec_insn (AUIPC rd i) h = set_xr rd (hpc h + push_bit 12 i) h"
| "exec_insn (ADDI rd r i) h = set_xr rd (xr h r + i) h"
| "exec_insn (CSRW Mepc r) h = h\<lparr>hmepc := xr h r, hpc := hpc h + 4\<rparr>"
| "exec_insn (CSRW Mcause r) h = h\<lparr>hmcause := xr h r, hpc := hpc h + 4\<rparr>"
| "exec_insn (CSRW Mtvec r) h = h\<lparr>hmtvec := xr h r, hpc := hpc h + 4\<rparr>"
| "exec_insn (CSRR rd c) h = set_xr rd (case c of Mepc \<Rightarrow> hmepc h | Mcause \<Rightarrow> hmcause h | Mtvec \<Rightarrow> hmtvec h) h"
| "exec_insn NOP h = h\<lparr>hpc := hpc h + 4\<rparr>"
| "exec_insn (JR r) h = h\<lparr>hpc := xr h r AND NOT 1\<rparr>"

section \<open>Trap entry (\<open>trap.S\<close>)\<close>

text \<open>The registers \<open>MAP(REGS, ...)\<close> saves: all but 0 and the stack pointer.\<close>

definition saved_regs :: "nat list" where
  "saved_regs = 1 # [3..<32]"

definition push_regs :: "(nat \<Rightarrow> u32) \<Rightarrow> ptr \<Rightarrow> gmem \<Rightarrow> gmem" where
  "push_regs x sp m = fold (\<lambda>n. ctx_set sp n (x n)) saved_regs m"

definition pop_regs :: "gmem \<Rightarrow> ptr \<Rightarrow> (nat \<Rightarrow> u32) \<Rightarrow> nat \<Rightarrow> u32" where
  "pop_regs m sp x = (\<lambda>n. if n \<in> set saved_regs then ctx_get m sp n else x n)"

text \<open>
  The whole entry, until \<open>mret\<close> has jumped to the saved address.  The call of the C function
  changes registers too, but every register is loaded again before it is used.
\<close>

definition asm_trap :: "user_handler option \<Rightarrow> hart \<Rightarrow> hart result" where
  "asm_trap H h =
     (let sp = xreg h 2 - ctx_size;
          m = push_regs (xreg h) sp (hmem h);
          m = ctx_set sp mcause_at (hmcause h) m;
          m = ctx_set sp mstatus_at (hmstatus h) m;
          m = ctx_set sp mepc_at (hmepc h) m
      in bindR (irq_handle H sp m) (\<lambda>(c, m).
           let status = ctx_get m c mstatus_at;
               epc = ctx_get m c mepc_at;
               x = pop_regs m c ((xreg h)(2 := c));
               x = x(2 := x 2 + ctx_size)
           in Inr (h\<lparr>xreg := x, hmstatus := status, hmepc := epc, hmem := m, hpc := epc\<rparr>)))"

section \<open>Words of a context\<close>

lemma ctx_get_set:
  "i < 2 ^ 29 \<Longrightarrow> j < 2 ^ 29 \<Longrightarrow> ctx_get (ctx_set c i w m) c j = (if i = j then w else ctx_get m c j)"
  using apart_offsets [of i j c] ld32_st32_apart by (simp add: ctx_get_def ctx_set_def)

lemma ctx_get_fold:
  assumes "distinct ns" "\<forall>n \<in> set ns. n < 2 ^ 29" "k < 2 ^ 29"
  shows "ctx_get (fold (\<lambda>n. ctx_set c n (x n)) ns m) c k = (if k \<in> set ns then x k else ctx_get m c k)"
  using assms by (induction ns arbitrary: m) (auto simp: ctx_get_set)

lemma ctx_get_push:
  "k < 2 ^ 29 \<Longrightarrow> ctx_get (push_regs x c m) c k = (if k \<in> set saved_regs then x k else ctx_get m c k)"
  unfolding push_regs_def by (rule ctx_get_fold) (auto simp: saved_regs_def)

lemma set_saved_regs: "n \<in> set saved_regs \<longleftrightarrow> n = 1 \<or> (3 \<le> n \<and> n < 32)"
  unfolding saved_regs_def list.set set_upt by auto

text \<open>The context as the entry code stores it.\<close>

definition trap_mem :: "hart \<Rightarrow> gmem" where
  "trap_mem h =
     (let sp = xreg h 2 - ctx_size
      in ctx_set sp mepc_at (hmepc h) (ctx_set sp mstatus_at (hmstatus h)
           (ctx_set sp mcause_at (hmcause h) (push_regs (xreg h) sp (hmem h)))))"

lemma trap_mem_words:
  "ctx_get (trap_mem h) (xreg h 2 - ctx_size) mcause_at = hmcause h"
  "ctx_get (trap_mem h) (xreg h 2 - ctx_size) mstatus_at = hmstatus h"
  "ctx_get (trap_mem h) (xreg h 2 - ctx_size) mepc_at = hmepc h"
  "n \<in> set saved_regs \<Longrightarrow> ctx_get (trap_mem h) (xreg h 2 - ctx_size) n = xreg h n"
  by (auto simp: trap_mem_def Let_def ctx_get_set ctx_get_push set_saved_regs ctx_defs)

lemma asm_trap_eq:
  "asm_trap H h = bindR (irq_handle H (xreg h 2 - ctx_size) (trap_mem h)) (\<lambda>(c, m).
     Inr (h\<lparr>xreg := (pop_regs m c ((xreg h)(2 := c)))(2 := c + ctx_size), hmstatus := ctx_get m c mstatus_at,
            hmepc := ctx_get m c mepc_at, hmem := m, hpc := ctx_get m c mepc_at\<rparr>))"
  by (simp add: asm_trap_def trap_mem_def pop_regs_def set_saved_regs Let_def)

lemma kcontext_words:
  assumes "kcontext kstack entry arg m = (c, m')" "n < ctx_words"
  shows "c = area_end kstack - ctx_size \<and>
    ctx_get m' c n = (if n = 10 then arg else if n = mstatus_at then 0x1800 else if n = mepc_at then entry else 0)"
proof -
  have n: "n < 36" using assms(2) by (simp add: ctx_defs)
  have 0: "ctx_get (put_bytes m c (replicate 144 0)) c n = 0"
    unfolding ctx_get_def using ld32_put_bytes_zero [of "4 * n" 144 m c] n by simp
  have "unat ctx_size = 144" by (simp add: ctx_defs)
  then have "snd (memset m (area_end kstack - ctx_size) 0 ctx_size) = put_bytes m (area_end kstack - ctx_size) (replicate 144 0)"
    by (simp add: memset_eq)
  then show ?thesis
    using assms(1) 0 n by (auto simp: kcontext_def Let_def ctx_get_set ctx_defs)
qed

section \<open>The program around the trap\<close>

text \<open>
  A hart runs \<open>yield\<close> at \<open>p\<close>, one instruction at a time; at the trap vector it runs the entry
  code.
\<close>

inductive hart_step :: "user_handler option \<Rightarrow> ptr \<Rightarrow> hart \<Rightarrow> hart \<Rightarrow> bool" for H p where
  insn: "i < length yield_code \<Longrightarrow> hpc h = p + of_nat (4 * i) \<Longrightarrow> hart_step H p h (exec_insn (yield_code ! i) h)"
| trap: "hpc h = hmtvec h \<Longrightarrow> asm_trap H h = Inr h' \<Longrightarrow> hart_step H p h h'"

inductive_cases hart_stepE: "hart_step H p h h'"

text \<open>A handler that resumes the context it is given.\<close>

definition resumes :: "user_handler \<Rightarrow> bool" where
  "resumes f \<longleftrightarrow> (\<forall>e c m. \<exists>m'. f e c m = Inr (c, m') \<and> (\<forall>n < ctx_words. ctx_get m' c n = ctx_get m c n))"

lemma asm_trap_resumes:
  assumes "resumes f" and r: "asm_trap (Some f) h = Inr h'"
  shows "hpc h' = hmepc h \<and> hmepc h' = hmepc h \<and> hmstatus h' = hmstatus h \<and> hmcause h' = hmcause h \<and>
    hmtvec h' = hmtvec h \<and> (\<forall>n. n < 32 \<longrightarrow> xreg h' n = xreg h n)"
proof -
  let ?c = "xreg h 2 - ctx_size" and ?m = "trap_mem h"
  let ?e = "no_event\<lparr>event := if ctx_get ?m ?c mcause_at = 11 then EVENT_YIELD else EVENT_ERROR\<rparr>"
  obtain m' where m': "f ?e ?c ?m = Inr (?c, m')" and w: "\<forall>n < ctx_words. ctx_get m' ?c n = ctx_get ?m ?c n"
    using assms(1) unfolding resumes_def by blast
  have h': "h' = h\<lparr>xreg := (pop_regs m' ?c ((xreg h)(2 := ?c)))(2 := ?c + ctx_size), hmstatus := ctx_get m' ?c mstatus_at,
            hmepc := ctx_get m' ?c mepc_at, hmem := m', hpc := ctx_get m' ?c mepc_at\<rparr>"
    using r by (simp add: asm_trap_eq irq_handle_def handle_event_def m' bindR_Inr_iff guardR_Inr_iff)
  have "ctx_get m' ?c n = ctx_get ?m ?c n" if "n \<in> {mstatus_at, mepc_at} \<union> set saved_regs" for n
    using w that by (auto simp: set_saved_regs ctx_defs)
  then have "ctx_get m' ?c mstatus_at = hmstatus h" "ctx_get m' ?c mepc_at = hmepc h"
      "\<And>n. n \<in> set saved_regs \<Longrightarrow> ctx_get m' ?c n = xreg h n"
    by (simp_all add: trap_mem_words)
  then show ?thesis
    unfolding h' by (auto simp: pop_regs_def set_saved_regs)
qed

text \<open>
  The states of a hart that has entered \<open>yield\<close>: in the first pass through the code, where the
  registers are being set up; at the trap vector; or back at the jump, whose register still
  holds the trap vector.
\<close>

definition yield_inv :: "ptr \<Rightarrow> u32 \<Rightarrow> hart \<Rightarrow> bool" where
  "yield_inv p v h \<longleftrightarrow> hmtvec h = v \<and>
     ((\<exists>i \<le> 8. hpc h = p + of_nat (4 * i) \<and> (i = 1 \<longrightarrow> xreg h 5 = p) \<and> (i = 2 \<longrightarrow> xreg h 5 = p + 32) \<and>
         (3 \<le> i \<longrightarrow> hmepc h = p + 32) \<and> (6 \<le> i \<longrightarrow> xreg h 7 = v)) \<or>
      hpc h = v \<and> hmepc h = p + 32 \<and> xreg h 7 = v)"

lemma yield_nth:
  "i < 9 \<Longrightarrow> (i = 0 \<and> yield_code ! i = AUIPC 5 0) \<or> (i = 1 \<and> yield_code ! i = ADDI 5 5 32) \<or>
     (i = 2 \<and> yield_code ! i = CSRW Mepc 5) \<or> (i = 3 \<and> yield_code ! i = ADDI 6 0 11) \<or>
     (i = 4 \<and> yield_code ! i = CSRW Mcause 6) \<or> (i = 5 \<and> yield_code ! i = CSRR 7 Mtvec) \<or>
     (i = 6 \<and> yield_code ! i = NOP) \<or> (i = 7 \<and> yield_code ! i = NOP) \<or> (i = 8 \<and> yield_code ! i = JR 7)"
proof -
  assume "i < 9"
  then have "i = 0 \<or> i = 1 \<or> i = 2 \<or> i = 3 \<or> i = 4 \<or> i = 5 \<or> i = 6 \<or> i = 7 \<or> i = 8" by linarith
  then show ?thesis by (elim disjE) (simp_all add: yield_code_def)
qed

lemma offset_inj: "i < 9 \<Longrightarrow> j < 9 \<Longrightarrow> p + of_nat (4 * i) = p + of_nat (4 * j) \<Longrightarrow> i = j" for p :: u32
proof -
  assume *: "i < 9" "j < 9" "p + of_nat (4 * i) = p + of_nat (4 * j)"
  then have "unat (of_nat (4 * i) :: u32) = unat (of_nat (4 * j) :: u32)" by simp
  then show "i = j" using * by (simp add: unat_of_nat del: of_nat_mult)
qed

lemma yield_step:
  assumes f: "resumes f" and inv: "yield_inv p v h" and step: "hart_step (Some f) p h h'"
    and v: "v AND NOT 1 = v" "\<And>i. i < 9 \<Longrightarrow> v \<noteq> p + of_nat (4 * i)"
  shows "yield_inv p v h'"
  using step
proof cases
  case (insn i)
  have i: "i < 9" using insn by (simp add: yield_code_def)
  have "hpc h \<noteq> v" using insn v(2) [OF i] by simp
  then obtain j where j: "j \<le> 8" "hpc h = p + of_nat (4 * j)" "j = 1 \<longrightarrow> xreg h 5 = p" "j = 2 \<longrightarrow> xreg h 5 = p + 32"
      "3 \<le> j \<longrightarrow> hmepc h = p + 32" "6 \<le> j \<longrightarrow> xreg h 7 = v" and t: "hmtvec h = v"
    using inv unfolding yield_inv_def by blast
  have "j = i" using offset_inj [of j i p] j i insn by simp
  show ?thesis
  proof (cases "i = 8")
    case True
    then show ?thesis using insn(1) j t v(1) \<open>j = i\<close> by (simp add: yield_inv_def yield_code_def xr_def)
  next
    case False
    have "hpc h' = p + of_nat (4 * Suc i) \<and> hmtvec h' = v \<and> (Suc i = 1 \<longrightarrow> xreg h' 5 = p) \<and> (Suc i = 2 \<longrightarrow> xreg h' 5 = p + 32) \<and>
         (3 \<le> Suc i \<longrightarrow> hmepc h' = p + 32) \<and> (6 \<le> Suc i \<longrightarrow> xreg h' 7 = v)"
      using yield_nth [OF i] False insn(1) j t \<open>j = i\<close>
      by (elim disjE) (auto simp: set_xr_def xr_def)
    then show ?thesis unfolding yield_inv_def using i False by (intro conjI disjI1 exI [of _ "Suc i"]) auto
  qed
next
  case trap
  have "hpc h = v" using trap inv by (simp add: yield_inv_def)
  moreover have "\<forall>i \<le> 8. v \<noteq> p + of_nat (4 * i)" using v(2) by simp
  ultimately have "hmepc h = p + 32" "xreg h 7 = v" "hmtvec h = v"
    using inv unfolding yield_inv_def by metis+
  then show ?thesis
    using asm_trap_resumes [OF f trap(2)] unfolding yield_inv_def
    by (intro conjI disjI1 exI [of _ 8]) auto
qed

section \<open>Properties\<close>

text \<open>
  C26. A trap whose handler resumes the interrupted context changes no register of the program:
  all 31 registers, the stack pointer among them, and the status are as before, and the program
  goes on at the saved address.
\<close>

theorem trap_roundtrip:
  assumes "resumes f" and "asm_trap (Some f) h = Inr h'"
  shows "hpc h' = hmepc h \<and> hmepc h' = hmepc h \<and> hmstatus h' = hmstatus h \<and> hmcause h' = hmcause h \<and>
    hmtvec h' = hmtvec h \<and> (\<forall>n. n < 32 \<longrightarrow> xreg h' n = xreg h n)"
  using assms by (rule asm_trap_resumes)

definition demo_hart :: hart where
  "demo_hart = \<lparr>xreg = (\<lambda>n. if n = 2 then 0x80010000 else of_nat n), hpc = 0x80000100, hmepc = 0x80000200,
     hmcause = 0, hmstatus = 0x1800, hmtvec = 0x80001000, hmem = (\<lambda>_. 0)\<rparr>"

lemma demo_resumes: "resumes (\<lambda>e c m. Inr (c, m))"
  by (simp add: resumes_def)

lemma demo_trap: "\<exists>h'. asm_trap (Some (\<lambda>e c m. Inr (c, m))) demo_hart = Inr h'"
  by (simp add: asm_trap_eq irq_handle_def handle_event_def demo_hart_def ctx_defs)

theorem trap_roundtrip_witness:
  "\<exists>h'. asm_trap (Some (\<lambda>e c m. Inr (c, m))) demo_hart = Inr h' \<and> hpc h' = 0x80000200 \<and> xreg h' 31 = 31"
proof -
  obtain h' where "asm_trap (Some (\<lambda>e c m. Inr (c, m))) demo_hart = Inr h'" using demo_trap by blast
  with trap_roundtrip [OF demo_resumes this] show ?thesis by (auto simp: demo_hart_def)
qed

text \<open>
  C27. A trap whose handler switches to a context made by \<open>kcontext\<close> enters the thread: control is
  at its entry with the argument in \<open>a0\<close>, the stack pointer at the end of its stack, every other
  register zero and the status that selects machine mode.
\<close>

theorem kcontext_enters:
  assumes "kcontext kstack entry arg m0 = (c, m1)"
    and "irq_handle H (xreg h 2 - ctx_size) (trap_mem h) = Inr (c, m')"
    and "\<And>n. n < ctx_words \<Longrightarrow> ctx_get m' c n = ctx_get m1 c n"
  shows "\<exists>h'. asm_trap H h = Inr h' \<and> hpc h' = entry \<and> hmstatus h' = 0x1800 \<and> xreg h' 2 = area_end kstack \<and>
    xreg h' 10 = arg \<and> (\<forall>n. n < 32 \<longrightarrow> n \<notin> {0, 2, 10} \<longrightarrow> xreg h' n = 0)"
proof -
  have w: "c = area_end kstack - ctx_size \<and>
      ctx_get m' c n = (if n = 10 then arg else if n = mstatus_at then 0x1800 else if n = mepc_at then entry else 0)"
    if "n < ctx_words" for n
    using kcontext_words [OF assms(1) that] assms(3) [OF that] by metis
  let ?h' = "h\<lparr>xreg := (pop_regs m' c ((xreg h)(2 := c)))(2 := c + ctx_size), hmstatus := ctx_get m' c mstatus_at,
      hmepc := ctx_get m' c mepc_at, hmem := m', hpc := ctx_get m' c mepc_at\<rparr>"
  have "asm_trap H h = Inr ?h'" using assms(2) by (simp add: asm_trap_eq)
  moreover have "xreg ?h' n = (if n = 10 then arg else 0)" if "n < 32" "n \<notin> {0, 2}" for n
  proof -
    have "n \<in> set saved_regs" using that by (auto simp: set_saved_regs)
    then have "xreg ?h' n = ctx_get m' c n" using that by (simp add: pop_regs_def)
    moreover have "n < ctx_words" "n \<noteq> mstatus_at" "n \<noteq> mepc_at" using that by (simp_all add: ctx_defs)
    ultimately show ?thesis using w [of n] by metis
  qed
  moreover have "hpc ?h' = entry" "hmstatus ?h' = 0x1800" "xreg ?h' 2 = area_end kstack"
    using w [of mepc_at, THEN conjunct2] w [of mstatus_at, THEN conjunct2] w [of 0, THEN conjunct1]
    by (simp_all add: ctx_defs)
  ultimately show ?thesis by (intro exI [of _ ?h']) simp
qed

theorem kcontext_enters_witness:
  "\<exists>c m1 h'. kcontext (RANGE 0x80020000 0x80021000) 0x80003000 7 (hmem demo_hart) = (c, m1) \<and>
     asm_trap (Some (\<lambda>e c' m. Inr (c, m1))) demo_hart = Inr h' \<and> hpc h' = 0x80003000 \<and> xreg h' 10 = 7"
proof -
  obtain c m1 where k: "kcontext (RANGE 0x80020000 0x80021000) 0x80003000 7 (hmem demo_hart) = (c, m1)"
    by (cases "kcontext (RANGE 0x80020000 0x80021000) 0x80003000 7 (hmem demo_hart)") auto
  have "c \<noteq> 0" using k by (auto simp: kcontext_def Let_def RANGE_def ctx_defs)
  then have "irq_handle (Some (\<lambda>e c' m. Inr (c, m1))) (xreg demo_hart 2 - ctx_size) (trap_mem demo_hart) = Inr (c, m1)"
    by (simp add: irq_handle_def handle_event_def)
  from kcontext_enters [OF k this] show ?thesis using k by blast
qed

text \<open>
  \<open>yield\<close> traps with cause 11 and leaves every memory cell alone, but the return address it
  saves is that of its own last instruction, the jump to the trap vector, not the one behind it.
\<close>

theorem yield_traps:
  "fold exec_insn yield_code h = h\<lparr>xreg := (xreg h)(5 := hpc h + 32, 6 := 11, 7 := hmtvec h),
     hmepc := hpc h + of_nat (4 * (length yield_code - 1)), hmcause := 11, hpc := hmtvec h AND NOT 1\<rparr>"
  by (simp add: yield_code_def set_xr_def xr_def)

text \<open>
  C28. So a thread that yields never gets behind the call: with a handler that resumes the thread,
  the hart traps again and again and never reaches the instruction after \<open>yield\<close>.
\<close>

theorem yield_never_returns:
  assumes "resumes f" and "hpc h = p" and "hmtvec h AND NOT 1 = hmtvec h"
    and "\<And>i. i < 10 \<Longrightarrow> hmtvec h \<noteq> p + of_nat (4 * i)"
    and "(hart_step (Some f) p)\<^sup>*\<^sup>* h h'"
  shows "hpc h' \<noteq> p + 36"
proof -
  let ?v = "hmtvec h"
  have 0: "yield_inv p ?v h" using assms(2) unfolding yield_inv_def by (intro conjI disjI1 exI [of _ 0]) simp_all
  have v: "?v \<noteq> p + of_nat (4 * i)" if "i < 9" for i using assms(4) [of i] that by simp
  from assms(5) 0 have "yield_inv p ?v h'"
    by (induction rule: rtranclp_induct) (blast intro: yield_step [OF assms(1) _ _ assms(3) v])+
  moreover have "?v \<noteq> p + 36" using assms(4) [of 9] by simp
  moreover have "p + of_nat (4 * i) \<noteq> p + 36" if "i \<le> 8" for i
  proof
    assume "p + of_nat (4 * i) = p + 36"
    then have "unat (of_nat (4 * i) :: u32) = unat (36 :: u32)" by simp
    then show False using that by (simp add: unat_of_nat del: of_nat_mult)
  qed
  ultimately show ?thesis unfolding yield_inv_def by metis
qed


theorem yield_never_returns_witness:
  "\<exists>h'. (hart_step (Some (\<lambda>e c m. Inr (c, m))) 0x80000100)\<^sup>*\<^sup>* demo_hart h' \<and> hpc h' = 0x80000104 \<and>
     hpc h' \<noteq> 0x80000100 + 36"
proof -
  let ?h = "exec_insn (yield_code ! 0) demo_hart"
  have r: "(hart_step (Some (\<lambda>e c m. Inr (c, m))) 0x80000100)\<^sup>*\<^sup>* demo_hart ?h"
    by (rule r_into_rtranclp, rule hart_step.insn) (simp_all add: yield_code_def demo_hart_def)
  have v: "hmtvec demo_hart \<noteq> 0x80000100 + of_nat (4 * i)" if "i < 10" for i
  proof -
    have "i = 0 \<or> i = 1 \<or> i = 2 \<or> i = 3 \<or> i = 4 \<or> i = 5 \<or> i = 6 \<or> i = 7 \<or> i = 8 \<or> i = 9" using that by presburger
    then show ?thesis by (elim disjE) (simp_all add: demo_hart_def)
  qed
  have "hpc ?h \<noteq> 0x80000100 + 36"
    by (rule yield_never_returns [OF demo_resumes _ _ v r]) (simp_all add: demo_hart_def)
  moreover have "hpc ?h = 0x80000104" by (simp add: yield_code_def set_xr_def demo_hart_def)
  ultimately show ?thesis using r by blast
qed

end
