(* ===== verification/X86_Vme.thy ===== *)
theory X86_Vme
  imports Klib_Stdlib
begin

text \<open>
  Virtual memory of the 32-bit x86 platform, \<open>am/src/x86/qemu/vme.c\<close>: page tables of two levels in
  memory, built by walks that allocate missing tables.  The page allocator is the client's; it
  is a parameter with a state of its own.  The properties relate the tables to the translation
  the processor does with them.
\<close>

section \<open>Constants (\<open>x86.h\<close>) and configuration\<close>

definition PTE_P :: u32 where "PTE_P = 0x001"
definition PTE_W :: u32 where "PTE_W = 0x002"
definition PTE_U :: u32 where "PTE_U = 0x004"
definition CR0_PG :: u32 where "CR0_PG = 0x80000000"
definition DPL_USER :: u32 where "DPL_USER = 3"
definition SEG_UCODE :: u32 where "SEG_UCODE = 3"
definition SEG_UDATA :: u32 where "SEG_UDATA = 4"
definition FL_IF :: u32 where "FL_IF = 0x00000200"

definition USEL :: "u32 \<Rightarrow> u32" where
  "USEL seg = push_bit 3 seg OR DPL_USER"

record ptinfo =
  pt_mask :: u32
  pt_shift :: nat
  pt_bits :: nat

definition pgsize :: u32 where "pgsize = 4096"
definition ptlevels :: nat where "ptlevels = 2"

definition pgtables :: "ptinfo list" where
  "pgtables = [\<lparr>pt_mask = 0x00000000, pt_shift = 0, pt_bits = 0\<rparr>,
               \<lparr>pt_mask = 0xffc00000, pt_shift = 22, pt_bits = 10\<rparr>,
               \<lparr>pt_mask = 0x003ff000, pt_shift = 12, pt_bits = 10\<rparr>]"

text \<open>Areas and whether they belong to the kernel.\<close>

definition vm_areas :: "(Area \<times> bool) list" where
  "vm_areas = [(RANGE 0x40000000 0x80000000, False),
               (RANGE 0x00000000 0x40000000, True),
               (RANGE 0xfd000000 0x00000000, True)]"

definition uvm_area :: Area where "uvm_area = fst (vm_areas ! 0)"

section \<open>The code\<close>

text \<open>The client's allocator, and the state: memory, the kernel's table, control registers.\<close>

record 'a pgops =
  pgalloc :: "u32 \<Rightarrow> 'a \<Rightarrow> ptr \<times> 'a"
  pgfree :: "ptr \<Rightarrow> 'a \<Rightarrow> 'a"

record 'a vme =
  vmem :: gmem
  kpt :: ptr
  cr3 :: u32
  cr0 :: u32
  alloc :: 'a

text \<open>Entry \<open>i\<close> of a table, and the fields of an \<open>AddrSpace\<close> in memory.\<close>

definition slot :: "ptr \<Rightarrow> nat \<Rightarrow> ptr" where
  "slot pt i = pt + of_nat (4 * i)"

definition as_ptr_at :: "ptr \<Rightarrow> ptr" where "as_ptr_at as = as + 12"

definition pgallocz :: "'a pgops \<Rightarrow> 'a vme \<Rightarrow> (ptr \<times> 'a vme) result" where
  "pgallocz A s =
     (let (base, a) = pgalloc A pgsize (alloc s)
      in bindR (guardR (base \<noteq> 0) (Panic ''cannot allocate page'')) (\<lambda>_.
           let m = fold (\<lambda>i. st32 (slot base i) 0) [0..<unat pgsize div 4] (vmem s)
           in Inr (base, s\<lparr>vmem := m, alloc := a\<rparr>)))"

definition indexof :: "u32 \<Rightarrow> ptinfo \<Rightarrow> nat" where
  "indexof addr info = unat (drop_bit (pt_shift info) (addr AND pt_mask info))"

definition baseof :: "u32 \<Rightarrow> u32" where
  "baseof addr = addr AND NOT (pgsize - 1)"

text \<open>The loop of \<open>ptwalk\<close> with \<open>k\<close> levels left below level \<open>i\<close>.\<close>

primrec ptwalk_loop :: "nat \<Rightarrow> nat \<Rightarrow> 'a pgops \<Rightarrow> ptr \<Rightarrow> u32 \<Rightarrow> u32 \<Rightarrow> 'a vme \<Rightarrow> (ptr \<times> 'a vme) result" where
  "ptwalk_loop 0 i A cur addr flags s = Inr (slot cur (indexof addr (pgtables ! i)), s)"
| "ptwalk_loop (Suc k) i A cur addr flags s =
     (let at = slot cur (indexof addr (pgtables ! i)) in
      if ld32 (vmem s) at AND PTE_P = 0 then
        bindR (pgallocz A s) (\<lambda>(next_page, s).
        ptwalk_loop k (Suc i) A next_page addr flags
          (s\<lparr>vmem := st32 at (next_page OR PTE_P OR flags) (vmem s)\<rparr>))
      else ptwalk_loop k (Suc i) A (baseof (ld32 (vmem s) at)) addr flags s)"

definition ptwalk :: "'a pgops \<Rightarrow> ptr \<Rightarrow> u32 \<Rightarrow> u32 \<Rightarrow> 'a vme \<Rightarrow> (ptr \<times> 'a vme) result" where
  "ptwalk A as addr flags s = ptwalk_loop ptlevels 0 A (as_ptr_at as) addr flags s"

text \<open>\<open>teardown\<close> with \<open>k\<close> levels left, that is at level \<open>ptlevels + 1 - k\<close>.\<close>

primrec teardown :: "nat \<Rightarrow> 'a pgops \<Rightarrow> ptr \<Rightarrow> 'a vme \<Rightarrow> 'a vme" where
  "teardown 0 A pt s = s"
| "teardown (Suc k) A pt s =
     (let level = ptlevels - k;
          s = fold (\<lambda>index s.
                let e = ld32 (vmem s) (slot pt index) in
                if e AND PTE_P \<noteq> 0 \<and> e AND PTE_U \<noteq> 0 then teardown k A (baseof e) s else s)
                [0..<2 ^ pt_bits (pgtables ! level)] s
      in if level \<ge> 1 then s\<lparr>alloc := pgfree A pt (alloc s)\<rparr> else s)"

text \<open>\<open>for (cur = start; cur != end; cur += step)\<close>\<close>

partial_function (option) for_step ::
  "u32 \<Rightarrow> u32 \<Rightarrow> (u32 \<Rightarrow> 's \<Rightarrow> 's result) \<Rightarrow> u32 \<Rightarrow> 's \<Rightarrow> 's result option" where
  "for_step end' step f cur s =
     (if cur = end' then Some (Inr s)
      else (case f cur s of
              Inl e \<Rightarrow> Some (Inl e)
            | Inr s \<Rightarrow> for_step end' step f (cur + step) s))"

text \<open>The loop over the areas, for those of the kernel.\<close>

fun for_areas :: "(Area \<times> bool) list \<Rightarrow> u32 \<Rightarrow> (u32 \<Rightarrow> 's \<Rightarrow> 's result) \<Rightarrow> 's \<Rightarrow> 's result option" where
  "for_areas [] step f s = Some (Inr s)"
| "for_areas ((area, is_kernel) # vmas) step f s =
     (if is_kernel then
        (case for_step (area_end area) step f (area_start area) s of
           Some (Inr s) \<Rightarrow> for_areas vmas step f s
         | r \<Rightarrow> r)
      else for_areas vmas step f s)"

definition map_kernel_page :: "'a pgops \<Rightarrow> ptr \<Rightarrow> u32 \<Rightarrow> 'a vme \<Rightarrow> 'a vme result" where
  "map_kernel_page A as cur s =
     bindR (ptwalk A as cur PTE_W s) (\<lambda>(p, s). Inr (s\<lparr>vmem := st32 p (cur OR PTE_P OR PTE_W) (vmem s)\<rparr>))"

text \<open>\<open>as\<close> is the local variable of \<open>vme_init\<close>; \<open>cpu\<close> is \<open>cpu_current()\<close>.\<close>

definition vme_init :: "'a pgops \<Rightarrow> u32 \<Rightarrow> ptr \<Rightarrow> 'a vme \<Rightarrow> (bool \<times> 'a vme) result option" where
  "vme_init A cpu as s =
     (if cpu \<noteq> 0 then Some (Inl (Panic ''init VME in non-bootstrap CPU''))
      else
        let s = s\<lparr>vmem := st32 (as_ptr_at as) 0 (vmem s)\<rparr> in
        (case for_areas vm_areas pgsize (map_kernel_page A as) s of
           None \<Rightarrow> None
         | Some r \<Rightarrow> Some (bindR r (\<lambda>s.
             let k = baseof (ld32 (vmem s) (as_ptr_at as))
             in Inr (True, s\<lparr>kpt := k, cr3 := k, cr0 := cr0 s OR CR0_PG\<rparr>)))))"

definition copy_kernel_entry :: "ptr \<Rightarrow> u32 \<Rightarrow> 'a vme \<Rightarrow> 'a vme result" where
  "copy_kernel_entry updir cur s =
     (let index = indexof cur (pgtables ! 1)
      in Inr (s\<lparr>vmem := st32 (slot updir index) (ld32 (vmem s) (slot (kpt s) index)) (vmem s)\<rparr>))"

definition protect :: "'a pgops \<Rightarrow> ptr \<Rightarrow> 'a vme \<Rightarrow> 'a vme result option" where
  "protect A as s =
     (case pgallocz A s of
        Inl e \<Rightarrow> Some (Inl e)
      | Inr (updir, s) \<Rightarrow>
          (case for_areas vm_areas (push_bit (pt_shift (pgtables ! 1)) 1) (copy_kernel_entry updir) s of
             None \<Rightarrow> None
           | Some r \<Rightarrow> Some (bindR r (\<lambda>s.
               let m = vmem s;
                   m = st32 as pgsize m;
                   m = st32 (as + 4) (area_start uvm_area) m;
                   m = st32 (as + 8) (area_end uvm_area) m;
                   m = st32 (as_ptr_at as) (updir OR PTE_P OR PTE_U) m
               in Inr (s\<lparr>vmem := m\<rparr>)))))"

definition unprotect :: "'a pgops \<Rightarrow> ptr \<Rightarrow> 'a vme \<Rightarrow> 'a vme" where
  "unprotect A as s = teardown (Suc ptlevels) A (as_ptr_at as) s"

definition map_page :: "'a pgops \<Rightarrow> ptr \<Rightarrow> u32 \<Rightarrow> u32 \<Rightarrow> u32 \<Rightarrow> 'a vme \<Rightarrow> 'a vme result" where
  "map_page A as va pa prot s =
     bindR (guardR (IN_RANGE va uvm_area) (Panic ''mapping an invalid address'')) (\<lambda>_.
     bindR (guardR (va = ROUNDDOWN va pgsize \<and> pa = ROUNDDOWN pa pgsize) (Panic ''non-page-boundary address'')) (\<lambda>_.
     bindR (ptwalk A as va (PTE_W OR PTE_U) s) (\<lambda>(ptentry, s).
     bindR (if prot = MMAP_NONE then
              bindR (guardR (ld32 (vmem s) ptentry AND PTE_P \<noteq> 0) (Panic ''unmapping a non-mapped page'')) (\<lambda>_.
              Inr (s\<lparr>vmem := st32 ptentry 0 (vmem s)\<rparr>))
            else
              bindR (guardR (ld32 (vmem s) ptentry AND PTE_P = 0) (Panic ''remapping a mapped page'')) (\<lambda>_.
              let pte = pa OR PTE_P OR PTE_U OR (if prot AND MMAP_WRITE \<noteq> 0 then PTE_W else 0)
              in Inr (s\<lparr>vmem := st32 ptentry pte (vmem s)\<rparr>))) (\<lambda>s.
     bindR (ptwalk A as va (PTE_W OR PTE_U) s) (\<lambda>(p, s). Inr s)))))"

text \<open>
  The context at the end of the kernel stack: 15 words, \<open>cr3\<close>, \<open>ds\<close>, \<open>eax\<close>, \<open>ebx\<close>, \<open>ecx\<close>, \<open>edx\<close>,
  \<open>esp0\<close>, \<open>esi\<close>, \<open>edi\<close>, \<open>ebp\<close>, \<open>eip\<close>, \<open>cs\<close>, \<open>eflags\<close>, \<open>esp\<close>, \<open>ss3\<close>.
\<close>

definition x86_ctx_size :: u32 where "x86_ctx_size = 60"

definition ucontext :: "ptr \<Rightarrow> Area \<Rightarrow> ptr \<Rightarrow> gmem \<Rightarrow> ptr \<times> gmem" where
  "ucontext as kstack entry m =
     (let ctx = area_end kstack - x86_ctx_size;
          m = fold (\<lambda>i. st32 (slot ctx i) 0) [0..<15] m;
          m = st32 (slot ctx 11) (USEL SEG_UCODE) m;
          m = st32 (slot ctx 1) (USEL SEG_UDATA) m;
          m = st32 (slot ctx 14) (USEL SEG_UDATA) m;
          m = st32 (slot ctx 10) entry m;
          m = st32 (slot ctx 12) FL_IF m;
          m = st32 (slot ctx 13) (area_end uvm_area) m;
          m = st32 (slot ctx 6) (area_end kstack) m;
          m = st32 (slot ctx 0) (ld32 m (as_ptr_at as)) m
      in (ctx, m))"

section \<open>Pages and slots\<close>

lemmas pte_bits = PTE_P_def PTE_W_def PTE_U_def

definition aligned :: "ptr \<Rightarrow> bool" where
  "aligned p \<longleftrightarrow> p AND mask 12 = 0"

lemma page_mask: "pgsize - 1 = mask 12"
  by (simp add: pgsize_def mask_eq_exp_minus_1)

lemma baseof_mask: "baseof x = x AND NOT (mask 12)"
  by (simp add: baseof_def page_mask)

lemma ROUNDDOWN_page: "ROUNDDOWN x pgsize = baseof x"
  by (simp add: ROUNDDOWN_def baseof_def)

lemma aligned_dvd: "aligned p \<longleftrightarrow> 4096 dvd unat p"
  using and_low_mask_eq_0_iff [of p 12] by (simp add: aligned_def)

lemma aligned_baseof [simp]: "aligned (baseof x)"
  unfolding aligned_def baseof_mask by (rule bit_word_eqI) (simp add: bit_simps)

lemma baseof_aligned [simp]: "aligned p \<Longrightarrow> baseof p = p"
  unfolding aligned_def baseof_mask by (rule bit_word_eqI) (auto simp: bit_eq_iff bit_simps)

lemma baseof_or: "aligned p \<Longrightarrow> baseof f = 0 \<Longrightarrow> baseof (p OR f) = p"
  unfolding aligned_def baseof_mask by (rule bit_word_eqI) (auto simp: bit_eq_iff bit_simps)

lemma baseof_flags [simp]:
  "baseof PTE_P = 0" "baseof PTE_W = 0" "baseof PTE_U = 0" "baseof (x OR y) = baseof x OR baseof y" "baseof 0 = 0"
  by (simp_all add: baseof_def pgsize_def pte_bits bit.conj_disj_distrib2)

lemma aligned_and_flag: "aligned p \<Longrightarrow> baseof f = 0 \<Longrightarrow> p AND f = 0"
  unfolding aligned_def baseof_mask by (rule bit_word_eqI) (auto simp: bit_eq_iff bit_simps)

lemma flag_and [simp]:
  "PTE_P AND PTE_P = PTE_P" "PTE_W AND PTE_P = 0" "PTE_U AND PTE_P = 0" "PTE_P AND PTE_U = 0" "PTE_W AND PTE_U = 0"
  "PTE_U AND PTE_U = PTE_U" "PTE_P AND PTE_W = 0" "PTE_W AND PTE_W = PTE_W" "PTE_U AND PTE_W = 0"
  "PTE_P \<noteq> 0" "PTE_W \<noteq> 0" "PTE_U \<noteq> 0"
  by (simp_all add: pte_bits)

lemma unat_slot: "aligned p \<Longrightarrow> i < 1024 \<Longrightarrow> unat (slot p i) = unat p + 4 * i"
proof -
  assume "aligned p" "i < 1024"
  then have "unat p + 4 * i < 2 ^ 32"
    using unat_bound32 [of p] unfolding aligned_dvd by (auto elim!: dvdE)
  then show ?thesis by (simp add: slot_def unat_word_ariths unat_of_nat del: of_nat_mult)
qed

lemma slot_inj: "aligned p \<Longrightarrow> aligned q \<Longrightarrow> i < 1024 \<Longrightarrow> j < 1024 \<Longrightarrow> slot p i = slot q j \<longleftrightarrow> p = q \<and> i = j"
proof -
  assume *: "aligned p" "aligned q" "i < 1024" "j < 1024"
  have "p = q \<and> i = j" if "unat p + 4 * i = unat q + 4 * j"
  proof -
    obtain a b where "unat p = 4096 * a" "unat q = 4096 * b"
      using * unfolding aligned_dvd by (metis dvdE)
    moreover from this have "a = b" using that * by linarith
    ultimately have "unat p = unat q" "i = j" using that by simp_all
    then show ?thesis by (simp add: word_unat_eq_iff)
  qed
  then show ?thesis using * by (metis unat_slot)
qed

definition word_aligned :: "ptr \<Rightarrow> bool" where
  "word_aligned p \<longleftrightarrow> 4 dvd unat p"

lemma word_aligned_slot [simp]: "aligned p \<Longrightarrow> i < 1024 \<Longrightarrow> word_aligned (slot p i)"
  by (auto simp: word_aligned_def unat_slot aligned_dvd elim!: dvdE)

lemma word_aligned_apart:
  assumes "word_aligned p" "word_aligned q" "p \<noteq> q"
  shows "apart p q"
proof -
  have *: "4 \<le> unat (p - q)" if "word_aligned p" "word_aligned q" "p \<noteq> q" for p q :: u32
  proof -
    have "4 dvd unat (p - q)"
      using that unfolding word_aligned_def unat_sub_if' by auto
    moreover have "unat (p - q) \<noteq> 0" using that by (simp add: unat_eq_zero)
    ultimately show ?thesis by (auto elim!: dvdE)
  qed
  show ?thesis using * [of p q] * [of q p] assms by (auto simp: apart_def)
qed

lemma ld_st: "word_aligned p \<Longrightarrow> word_aligned q \<Longrightarrow> ld32 (st32 p w m) q = (if p = q then w else ld32 m q)"
  using word_aligned_apart [of p q] ld32_st32_apart by auto

lemma ld_fold_zero:
  assumes "aligned b" "word_aligned q" "\<forall>i \<in> set is. i < 1024"
  shows "ld32 (fold (\<lambda>i. st32 (slot b i) 0) is m) q = (if \<exists>i \<in> set is. slot b i = q then 0 else ld32 m q)"
  using assms(3) by (induction "is" arbitrary: m) (auto simp: ld_st assms(1,2))

text \<open>The indices a walk uses.\<close>

lemma indexof_0 [simp]: "indexof va (pgtables ! 0) = 0"
  by (simp add: indexof_def pgtables_def)

definition pdx :: "u32 \<Rightarrow> nat" where "pdx va = unat va div 2 ^ 22"
definition ptx :: "u32 \<Rightarrow> nat" where "ptx va = unat va div 4096 mod 1024"

lemma indexof_pdx [simp]: "indexof va (pgtables ! Suc 0) = pdx va"
proof -
  have eq: "(0xffc00000 :: u32) = NOT (mask 22)" by (simp add: mask_eq_exp_minus_1)
  have "drop_bit 22 (va AND 0xffc00000) = drop_bit 22 va"
    unfolding eq by (rule bit_word_eqI) (auto simp: bit_simps dest: bit_imp_le_length)
  then show ?thesis by (simp add: indexof_def pgtables_def unat_drop_bit pdx_def)
qed

lemma indexof_ptx [simp]: "indexof va (pgtables ! 2) = ptx va"
proof -
  have eq: "(0x003ff000 :: u32) = push_bit 12 (mask 10)" by (simp add: mask_eq_exp_minus_1)
  have "drop_bit 12 (va AND 0x003ff000) = take_bit 10 (drop_bit 12 va)"
    unfolding eq by (rule bit_word_eqI) (auto simp: bit_simps dest: bit_imp_le_length)
  then show ?thesis by (simp add: indexof_def pgtables_def unat_take_bit_eq unat_drop_bit ptx_def)
qed

lemma indexof_less [simp]: "pdx va < 1024" "ptx va < 1024"
  using unat_bound32 [of va] by (simp_all add: pdx_def ptx_def)

text \<open>The two indices and the offset determine the address.\<close>

lemma unat_baseof: "unat (baseof x) = unat x div 4096 * 4096"
proof -
  have "baseof x = push_bit 12 (drop_bit 12 x)"
    unfolding baseof_mask by (rule bit_word_eqI) (auto simp: bit_simps)
  then show ?thesis using unat_bound32 [of x] by (simp add: unat_push_bit unat_drop_bit)
qed

lemma same_page: "baseof va = baseof va' \<longleftrightarrow> pdx va = pdx va' \<and> ptx va = ptx va'"
proof -
  have "baseof va = baseof va' \<longleftrightarrow> unat va div 4096 = unat va' div 4096"
    by (simp add: word_unat_eq_iff unat_baseof)
  also have "\<dots> \<longleftrightarrow> unat va div 4096 div 1024 = unat va' div 4096 div 1024 \<and> unat va div 4096 mod 1024 = unat va' div 4096 mod 1024"
    by (metis div_mult_mod_eq)
  finally show ?thesis by (simp add: pdx_def ptx_def div_mult2_eq [symmetric])
qed

section \<open>The processor's translation, and tables in order\<close>

text \<open>
  What the processor does with the value of \<open>cr3\<close>: two levels, each entry present or a page
  fault, and the user and write permissions of both levels combined.
\<close>

definition pt_walk :: "gmem \<Rightarrow> u32 \<Rightarrow> u32 \<Rightarrow> (u32 \<times> bool \<times> bool) option" where
  "pt_walk m cr va =
     (let e = ld32 m (slot (baseof cr) (pdx va)) in
      if e AND PTE_P = 0 then None
      else
        let t = ld32 m (slot (baseof e) (ptx va)) in
        if t AND PTE_P = 0 then None
        else Some (baseof t OR (va AND mask 12),
                   e AND PTE_U \<noteq> 0 \<and> t AND PTE_U \<noteq> 0, e AND PTE_W \<noteq> 0 \<and> t AND PTE_W \<noteq> 0))"

definition pde :: "gmem \<Rightarrow> ptr \<Rightarrow> nat \<Rightarrow> u32" where
  "pde m p i = ld32 m (slot (baseof (ld32 m p)) i)"

definition present :: "u32 \<Rightarrow> bool" where
  "present e \<longleftrightarrow> e AND PTE_P \<noteq> 0"

text \<open>The word at \<open>p\<close>, \<open>as->ptr\<close>, lies in no table, and no two tables are the same page.\<close>

definition off_page :: "ptr \<Rightarrow> ptr \<Rightarrow> bool" where
  "off_page p b \<longleftrightarrow> (\<forall>j < 1024. slot b j \<noteq> p)"

definition tables_ok :: "gmem \<Rightarrow> ptr \<Rightarrow> bool" where
  "tables_ok m p \<longleftrightarrow> word_aligned p \<and> present (ld32 m p) \<and> off_page p (baseof (ld32 m p)) \<and>
     (\<forall>i < 1024. present (pde m p i) \<longrightarrow>
        baseof (pde m p i) \<noteq> baseof (ld32 m p) \<and> off_page p (baseof (pde m p i)) \<and>
        (\<forall>j < 1024. j \<noteq> i \<longrightarrow> present (pde m p j) \<longrightarrow> baseof (pde m p j) \<noteq> baseof (pde m p i)))"

text \<open>A page that is in none of the tables.\<close>

definition fresh_page :: "gmem \<Rightarrow> ptr \<Rightarrow> ptr \<Rightarrow> bool" where
  "fresh_page m p b \<longleftrightarrow> aligned b \<and> off_page p b \<and> b \<noteq> baseof (ld32 m p) \<and>
     (\<forall>i < 1024. present (pde m p i) \<longrightarrow> baseof (pde m p i) \<noteq> b)"

definition zero_page :: "ptr \<Rightarrow> gmem \<Rightarrow> gmem" where
  "zero_page b m = fold (\<lambda>i. st32 (slot b i) 0) [0..<1024] m"

lemma ld_zero:
  "aligned b \<Longrightarrow> word_aligned q \<Longrightarrow> ld32 (zero_page b m) q = (if \<exists>i < 1024. slot b i = q then 0 else ld32 m q)"
  using ld_fold_zero [of b q "[0..<1024]" m] unfolding zero_page_def set_upt by (auto simp del: upt.simps upt_rec_numeral)

lemma pgallocz_eq:
  "pgallocz A s = (case pgalloc A pgsize (alloc s) of (b, a) \<Rightarrow>
     bindR (guardR (b \<noteq> 0) (Panic ''cannot allocate page'')) (\<lambda>_. Inr (b, s\<lparr>vmem := zero_page b (vmem s), alloc := a\<rparr>)))"
proof -
  have "unat pgsize div 4 = 1024" by (simp add: pgsize_def)
  then show ?thesis unfolding pgallocz_def zero_page_def Let_def by (simp only: split: prod.split)
qed

definition put_table :: "gmem \<Rightarrow> ptr \<Rightarrow> nat \<Rightarrow> ptr \<Rightarrow> u32 \<Rightarrow> gmem" where
  "put_table m p i b fl = st32 (slot (baseof (ld32 m p)) i) (b OR PTE_P OR fl) (zero_page b m)"

lemma ld_put_table:
  "aligned b \<Longrightarrow> word_aligned q \<Longrightarrow> i < 1024 \<Longrightarrow> ld32 (put_table m p i b fl) q =
     (if q = slot (baseof (ld32 m p)) i then b OR PTE_P OR fl else if \<exists>k < 1024. slot b k = q then 0 else ld32 m q)"
  by (auto simp: put_table_def ld_st ld_zero)

lemma present_table [simp]: "present (b OR PTE_P OR fl)"
  by (auto simp: present_def bit.conj_disj_distrib2)

lemma baseof_table: "aligned b \<Longrightarrow> baseof fl = 0 \<Longrightarrow> baseof (b OR PTE_P OR fl) = b"
  by simp

text \<open>An empty table in place of an absent entry.\<close>

lemma put_table_ok:
  assumes ok: "tables_ok m p" and i: "i < 1024" "\<not> present (pde m p i)"
    and b: "fresh_page m p b" and fl: "baseof fl = 0"
  shows "ld32 (put_table m p i b fl) p = ld32 m p \<and>
    (\<forall>j < 1024. pde (put_table m p i b fl) p j = (if j = i then b OR PTE_P OR fl else pde m p j)) \<and>
    (\<forall>j < 1024. \<forall>k < 1024. j \<noteq> i \<longrightarrow> present (pde m p j) \<longrightarrow>
       ld32 (put_table m p i b fl) (slot (baseof (pde m p j)) k) = ld32 m (slot (baseof (pde m p j)) k)) \<and>
    (\<forall>k < 1024. ld32 (put_table m p i b fl) (slot b k) = 0)"
proof -
  let ?m = "put_table m p i b fl" and ?pd = "baseof (ld32 m p)"
  have al: "aligned b" "b \<noteq> ?pd" using b by (simp_all add: fresh_page_def)
  have root: "ld32 ?m p = ld32 m p"
    using ok b i(1) al by (auto simp: ld_put_table tables_ok_def fresh_page_def off_page_def)
  moreover have "pde ?m p j = (if j = i then b OR PTE_P OR fl else pde m p j)" if "j < 1024" for j
    using that i(1) al by (auto simp: pde_def root ld_put_table slot_inj)
  moreover have "ld32 ?m (slot (baseof (pde m p j)) k) = ld32 m (slot (baseof (pde m p j)) k)"
    if "j < 1024" "k < 1024" "j \<noteq> i" "present (pde m p j)" for j k
  proof -
    have "baseof (pde m p j) \<noteq> ?pd" using ok that by (simp add: tables_ok_def)
    moreover have "baseof (pde m p j) \<noteq> b" using b that by (simp add: fresh_page_def)
    ultimately show ?thesis using that i(1) al by (auto simp: ld_put_table slot_inj)
  qed
  moreover have "ld32 ?m (slot b k) = 0" if "k < 1024" for k
    using that i(1) al by (auto simp: ld_put_table slot_inj)
  ultimately show ?thesis by blast
qed

lemma put_table_tables_ok:
  assumes ok: "tables_ok m p" and i: "i < 1024" "\<not> present (pde m p i)"
    and b: "fresh_page m p b" and fl: "baseof fl = 0"
  shows "tables_ok (put_table m p i b fl) p"
proof -
  note w = put_table_ok [OF assms]
  have al: "aligned b" using b by (simp add: fresh_page_def)
  show ?thesis
    using ok b w baseof_table [OF al fl] unfolding tables_ok_def fresh_page_def by auto
qed

lemma put_table_walk:
  assumes ok: "tables_ok m p" and i: "i < 1024" "\<not> present (pde m p i)"
    and b: "fresh_page m p b" and fl: "baseof fl = 0"
  shows "pt_walk (put_table m p i b fl) (ld32 m p) = pt_walk m (ld32 m p)"
proof
  fix va
  note w = put_table_ok [OF assms]
  have al: "aligned b" using b by (simp add: fresh_page_def)
  have e: "ld32 m' (slot (baseof (ld32 m p)) j) = pde m' p j" if "ld32 m' p = ld32 m p" for m' j
    using that by (simp add: pde_def)
  show "pt_walk (put_table m p i b fl) (ld32 m p) va = pt_walk m (ld32 m p) va"
  proof (cases "pdx va = i")
    case True
    then show ?thesis
      using w i baseof_table [OF al fl] by (simp add: pt_walk_def e present_def Let_def del: baseof_flags)
  next
    case False
    then show ?thesis using w by (auto simp: pt_walk_def e present_def Let_def)
  qed
qed

text \<open>A new value of a table's entry.\<close>

definition put_entry :: "gmem \<Rightarrow> ptr \<Rightarrow> u32 \<Rightarrow> u32 \<Rightarrow> gmem" where
  "put_entry m p va w = st32 (slot (baseof (pde m p (pdx va))) (ptx va)) w m"

lemma put_entry_ok:
  assumes ok: "tables_ok m p" and pr: "present (pde m p (pdx va))"
  shows "ld32 (put_entry m p va w) p = ld32 m p \<and>
    (\<forall>j < 1024. pde (put_entry m p va w) p j = pde m p j) \<and>
    (\<forall>j < 1024. \<forall>k < 1024. present (pde m p j) \<longrightarrow>
       ld32 (put_entry m p va w) (slot (baseof (pde m p j)) k) =
         (if j = pdx va \<and> k = ptx va then w else ld32 m (slot (baseof (pde m p j)) k)))"
proof -
  let ?m = "put_entry m p va w" and ?t = "baseof (pde m p (pdx va))"
  have t: "?t \<noteq> baseof (ld32 m p)" "off_page p ?t" "word_aligned p"
    using ok pr by (simp_all add: tables_ok_def)
  have ne: "slot ?t (ptx va) \<noteq> p" using t by (simp add: off_page_def)
  have root: "ld32 ?m p = ld32 m p"
    using t ne by (simp add: put_entry_def ld_st)
  moreover have "pde ?m p j = pde m p j" if "j < 1024" for j
    using t(1) that unfolding pde_def root by (simp add: put_entry_def ld_st slot_inj pde_def)
  moreover have "ld32 ?m (slot (baseof (pde m p j)) k) = (if j = pdx va \<and> k = ptx va then w else ld32 m (slot (baseof (pde m p j)) k))"
    if "j < 1024" "k < 1024" "present (pde m p j)" for j k
  proof -
    have "baseof (pde m p j) = ?t \<longleftrightarrow> j = pdx va"
      using ok pr that unfolding tables_ok_def by (metis indexof_less(1))
    then show ?thesis using that by (auto simp: put_entry_def ld_st slot_inj)
  qed
  ultimately show ?thesis by blast
qed

lemma put_entry_tables_ok:
  "tables_ok m p \<Longrightarrow> present (pde m p (pdx va)) \<Longrightarrow> tables_ok (put_entry m p va w) p"
  using put_entry_ok [of m p va w] unfolding tables_ok_def by auto

lemma put_entry_walk:
  assumes ok: "tables_ok m p" and pr: "present (pde m p (pdx va))"
  shows "pt_walk (put_entry m p va w) (ld32 m p) va' =
    (if baseof va' = baseof va then
       if present w then
         Some (baseof w OR (va' AND mask 12), pde m p (pdx va) AND PTE_U \<noteq> 0 \<and> w AND PTE_U \<noteq> 0,
               pde m p (pdx va) AND PTE_W \<noteq> 0 \<and> w AND PTE_W \<noteq> 0)
       else None
     else pt_walk m (ld32 m p) va')"
proof -
  note w = put_entry_ok [OF assms]
  have e: "ld32 m' (slot (baseof (ld32 m p)) j) = pde m' p j" if "ld32 m' p = ld32 m p" for m' j
    using that by (simp add: pde_def)
  show ?thesis using w pr by (auto simp: pt_walk_def e present_def same_page Let_def)
qed

section \<open>Walks and mappings\<close>

lemma slot_0 [simp]: "slot p 0 = p"
  by (simp add: slot_def)

lemma two_levels: "ptlevels = Suc (Suc 0)"
  by (simp add: ptlevels_def)

lemma indexof_Suc_Suc [simp]: "indexof va (pgtables ! Suc (Suc 0)) = ptx va"
  using indexof_ptx by (simp only: numeral_2_eq_2)

lemma tables_root: "tables_ok m p \<Longrightarrow> ld32 m p AND PTE_P \<noteq> 0"
  by (simp add: tables_ok_def present_def)

lemma ptwalk_present:
  assumes "tables_ok (vmem s) (as_ptr_at as)" "present (pde (vmem s) (as_ptr_at as) (pdx va))"
  shows "ptwalk A as va fl s = Inr (slot (baseof (pde (vmem s) (as_ptr_at as) (pdx va))) (ptx va), s)"
  using tables_root [OF assms(1)] assms(2) by (simp add: ptwalk_def two_levels present_def pde_def Let_def)

lemma ptwalk_absent:
  assumes "tables_ok (vmem s) (as_ptr_at as)" "\<not> present (pde (vmem s) (as_ptr_at as) (pdx va))"
    and "pgalloc A pgsize (alloc s) = (b, a)"
  shows "ptwalk A as va fl s = bindR (guardR (b \<noteq> 0) (Panic ''cannot allocate page'')) (\<lambda>_.
     Inr (slot b (ptx va), s\<lparr>vmem := put_table (vmem s) (as_ptr_at as) (pdx va) b fl, alloc := a\<rparr>))"
  using tables_root [OF assms(1)] assms(2,3)
  by (cases "b = 0") (simp_all add: ptwalk_def two_levels present_def pde_def pgallocz_eq put_table_def Let_def)

text \<open>What the allocator must return when a table is missing.\<close>

definition alloc_ok :: "'a pgops \<Rightarrow> ptr \<Rightarrow> u32 \<Rightarrow> 'a vme \<Rightarrow> bool" where
  "alloc_ok A as va s \<longleftrightarrow>
     present (pde (vmem s) (as_ptr_at as) (pdx va)) \<or> fst (pgalloc A pgsize (alloc s)) = 0 \<or>
     fresh_page (vmem s) (as_ptr_at as) (fst (pgalloc A pgsize (alloc s)))"

lemma ptwalk_ok:
  assumes ok: "tables_ok (vmem s) (as_ptr_at as)" and al: "alloc_ok A as va s" and fl: "baseof fl = 0"
    and w: "ptwalk A as va fl s = Inr (e, s')"
  shows "tables_ok (vmem s') (as_ptr_at as) \<and> ld32 (vmem s') (as_ptr_at as) = ld32 (vmem s) (as_ptr_at as) \<and>
    e = slot (baseof (pde (vmem s') (as_ptr_at as) (pdx va))) (ptx va) \<and>
    present (pde (vmem s') (as_ptr_at as) (pdx va)) \<and>
    pt_walk (vmem s') (ld32 (vmem s) (as_ptr_at as)) = pt_walk (vmem s) (ld32 (vmem s) (as_ptr_at as)) \<and>
    (\<forall>j < 1024. pde (vmem s') (as_ptr_at as) j = pde (vmem s) (as_ptr_at as) j \<or>
       j = pdx va \<and> (\<exists>b. aligned b \<and> pde (vmem s') (as_ptr_at as) j = b OR PTE_P OR fl))"
proof (cases "present (pde (vmem s) (as_ptr_at as) (pdx va))")
  case True
  then have "e = slot (baseof (pde (vmem s) (as_ptr_at as) (pdx va))) (ptx va)" "s' = s"
    using w unfolding ptwalk_present [OF ok True] by auto
  then show ?thesis using ok True by simp
next
  case False
  obtain b a where b: "pgalloc A pgsize (alloc s) = (b, a)" by (cases "pgalloc A pgsize (alloc s)")
  have "b \<noteq> 0" using w by (auto simp: ptwalk_absent [OF ok False b] guardR_def)
  then have fr: "fresh_page (vmem s) (as_ptr_at as) b" using al False b by (simp add: alloc_ok_def)
  then have ab: "aligned b" by (simp add: fresh_page_def)
  have s': "e = slot b (ptx va)" "vmem s' = put_table (vmem s) (as_ptr_at as) (pdx va) b fl"
    using w by (auto simp: ptwalk_absent [OF ok False b] bindR_Inr_iff guardR_Inr_iff)
  note t = put_table_ok [OF ok indexof_less(1) False fr fl] put_table_tables_ok [OF ok indexof_less(1) False fr fl]
    put_table_walk [OF ok indexof_less(1) False fr fl]
  show ?thesis using t baseof_table [OF ab fl] ab unfolding s' by auto
qed

text \<open>
  Tables of an address space: in the user area a present first level entry allows user
  accesses and writes, so that the last level decides.
\<close>

definition vm_ok :: "gmem \<Rightarrow> ptr \<Rightarrow> bool" where
  "vm_ok m p \<longleftrightarrow> tables_ok m p \<and>
     (\<forall>i. 256 \<le> i \<and> i < 512 \<longrightarrow> present (pde m p i) \<longrightarrow> pde m p i AND PTE_U \<noteq> 0 \<and> pde m p i AND PTE_W \<noteq> 0)"

lemma user_pdx: "IN_RANGE va uvm_area \<Longrightarrow> 256 \<le> pdx va \<and> pdx va < 512"
proof -
  assume "IN_RANGE va uvm_area"
  then have "1073741824 \<le> unat va" "unat va < 2147483648"
    by (simp_all add: IN_RANGE_def uvm_area_def vm_areas_def RANGE_def word_le_nat_alt word_less_nat_alt)
  then have "256 * 4194304 \<le> unat va" "unat va < 512 * 4194304" by simp_all
  then show ?thesis unfolding pdx_def by (simp add: less_mult_imp_div_less less_eq_div_iff_mult_less_eq)
qed

lemma user_flags: "baseof (PTE_W OR PTE_U) = 0" "(b OR PTE_P OR (PTE_W OR PTE_U)) AND PTE_U \<noteq> 0"
  "(b OR PTE_P OR (PTE_W OR PTE_U)) AND PTE_W \<noteq> 0"
  by (simp_all add: bit.conj_disj_distrib2)

lemma ptwalk_user:
  assumes "vm_ok (vmem s) (as_ptr_at as)" "alloc_ok A as va s" "ptwalk A as va (PTE_W OR PTE_U) s = Inr (e, s')"
  shows "vm_ok (vmem s') (as_ptr_at as)"
proof -
  have t: "tables_ok (vmem s) (as_ptr_at as)" using assms(1) by (simp add: vm_ok_def)
  note w = ptwalk_ok [OF t assms(2) user_flags(1) assms(3)]
  have "pde (vmem s') (as_ptr_at as) i AND PTE_U \<noteq> 0 \<and> pde (vmem s') (as_ptr_at as) i AND PTE_W \<noteq> 0"
    if "256 \<le> i" "i < 512" "present (pde (vmem s') (as_ptr_at as) i)" for i
  proof -
    have "pde (vmem s') (as_ptr_at as) i = pde (vmem s) (as_ptr_at as) i \<or>
        (\<exists>b. pde (vmem s') (as_ptr_at as) i = b OR PTE_P OR (PTE_W OR PTE_U))"
    proof -
      have "i < 1024" using that(2) by simp
      then show ?thesis using w by blast
    qed
    then show ?thesis using assms(1) that user_flags(2,3) unfolding vm_ok_def by auto
  qed
  then show ?thesis using w by (auto simp: vm_ok_def)
qed

lemma put_entry_vm_ok:
  "vm_ok m p \<Longrightarrow> present (pde m p (pdx va)) \<Longrightarrow> vm_ok (put_entry m p va w) p"
  using put_entry_ok [of m p va w] put_entry_tables_ok [of m p va w] by (auto simp: vm_ok_def)

lemma walk_entry:
  "present (pde m p (pdx va)) \<Longrightarrow>
   pt_walk m (ld32 m p) va = None \<longleftrightarrow> ld32 m (slot (baseof (pde m p (pdx va))) (ptx va)) AND PTE_P = 0"
  by (simp add: pt_walk_def pde_def present_def Let_def)

definition new_entry :: "u32 \<Rightarrow> u32 \<Rightarrow> u32" where
  "new_entry pa prot = (if prot = MMAP_NONE then 0
     else pa OR PTE_P OR PTE_U OR (if prot AND MMAP_WRITE \<noteq> 0 then PTE_W else 0))"

lemma map_page_walk:
  assumes vm: "vm_ok (vmem s) (as_ptr_at as)" and al: "alloc_ok A as va s"
    and r: "IN_RANGE va uvm_area" "baseof va = va" "baseof pa = pa"
    and w: "ptwalk A as va (PTE_W OR PTE_U) s = Inr (e, s1)"
  shows "map_page A as va pa prot s =
    (if (pt_walk (vmem s) (ld32 (vmem s) (as_ptr_at as)) va = None) = (prot = MMAP_NONE) then
       Inl (Panic (if prot = MMAP_NONE then ''unmapping a non-mapped page'' else ''remapping a mapped page''))
     else Inr (s1\<lparr>vmem := put_entry (vmem s1) (as_ptr_at as) va (new_entry pa prot)\<rparr>))"
proof -
  let ?p = "as_ptr_at as"
  have t: "tables_ok (vmem s) ?p" using vm by (simp add: vm_ok_def)
  note w1 = ptwalk_ok [OF t al user_flags(1) w]
  have pr: "present (pde (vmem s1) ?p (pdx va))" and e: "e = slot (baseof (pde (vmem s1) ?p (pdx va))) (ptx va)"
    and t1: "tables_ok (vmem s1) ?p"
    using w1 by blast+
  have none: "pt_walk (vmem s) (ld32 (vmem s) ?p) va = None \<longleftrightarrow> ld32 (vmem s1) e AND PTE_P = 0"
    using walk_entry [OF pr] w1 by simp
  have st: "st32 e w (vmem s1) = put_entry (vmem s1) ?p va w" for w
    by (simp add: put_entry_def e)
  have again: "ptwalk A as va (PTE_W OR PTE_U) (s1\<lparr>vmem := put_entry (vmem s1) ?p va w\<rparr>) =
      Inr (slot (baseof (pde (put_entry (vmem s1) ?p va w) ?p (pdx va))) (ptx va), s1\<lparr>vmem := put_entry (vmem s1) ?p va w\<rparr>)" for w
    using ptwalk_present [of "s1\<lparr>vmem := put_entry (vmem s1) ?p va w\<rparr>" as va A]
      put_entry_tables_ok [OF t1 pr] put_entry_ok [OF t1 pr] pr by simp
  show ?thesis
    using r by (simp add: map_page_def ROUNDDOWN_page w none st again new_entry_def guardR_def)
qed

lemma new_entry_bits:
  "prot \<noteq> MMAP_NONE \<Longrightarrow> present (new_entry pa prot)"
  "prot \<noteq> MMAP_NONE \<Longrightarrow> new_entry pa prot AND PTE_U \<noteq> 0"
  "prot \<noteq> MMAP_NONE \<Longrightarrow> baseof pa = pa \<Longrightarrow> new_entry pa prot AND PTE_W \<noteq> 0 \<longleftrightarrow> prot AND MMAP_WRITE \<noteq> 0"
  "prot \<noteq> MMAP_NONE \<Longrightarrow> baseof pa = pa \<Longrightarrow> baseof (new_entry pa prot) = pa"
  "\<not> present 0"
proof -
  have "pa AND PTE_W = 0" if "baseof pa = pa"
    using aligned_and_flag [of pa PTE_W] aligned_baseof [of pa] that by simp
  then show "prot \<noteq> MMAP_NONE \<Longrightarrow> baseof pa = pa \<Longrightarrow> new_entry pa prot AND PTE_W \<noteq> 0 \<longleftrightarrow> prot AND MMAP_WRITE \<noteq> 0"
    by (simp add: new_entry_def bit.conj_disj_distrib2)
qed (simp_all add: new_entry_def present_def bit.conj_disj_distrib2)

section \<open>Page allocators\<close>

text \<open>
  What \<open>vme.c\<close> needs of \<open>pgalloc\<close>: a page it returns is not in use, and lies in a region of its
  own.  \<open>left\<close> is a number of pages that can still be allocated.
\<close>

locale page_source =
  fixes A :: "'a pgops"
    and inv :: "'a \<Rightarrow> bool"
    and used :: "'a \<Rightarrow> ptr set"
    and left :: "'a \<Rightarrow> nat"
    and region :: "ptr set"
  assumes page: "inv a \<Longrightarrow> pgalloc A pgsize a = (b, a') \<Longrightarrow>
    inv a' \<and> used a \<subseteq> used a' \<and> (0 < left a \<longrightarrow> b \<noteq> 0) \<and> left a \<le> left a' + 1 \<and>
    (b \<noteq> 0 \<longrightarrow> aligned b \<and> b \<in> region \<and> b \<notin> used a \<and> b \<in> used a')"
    and used_region: "inv a \<Longrightarrow> used a \<subseteq> region"
begin

text \<open>All tables of the address space come from the allocator.\<close>

definition owned :: "'a vme \<Rightarrow> ptr \<Rightarrow> bool" where
  "owned s p \<longleftrightarrow> inv (alloc s) \<and> (\<forall>b \<in> region. off_page p b) \<and> baseof (ld32 (vmem s) p) \<in> used (alloc s) \<and>
     (\<forall>i < 1024. present (pde (vmem s) p i) \<longrightarrow> baseof (pde (vmem s) p i) \<in> used (alloc s))"

lemma owned_fresh:
  assumes "owned s p" "pgalloc A pgsize (alloc s) = (b, a)" "b \<noteq> 0"
  shows "fresh_page (vmem s) p b"
  using page [of "alloc s" b a] assms unfolding owned_def fresh_page_def by blast

lemma owned_alloc_ok: "owned s (as_ptr_at as) \<Longrightarrow> alloc_ok A as va s"
  using owned_fresh [of s "as_ptr_at as"] unfolding alloc_ok_def by (metis prod.collapse)

lemma ptwalk_owned:
  assumes ok: "tables_ok (vmem s) (as_ptr_at as)" and own: "owned s (as_ptr_at as)" and fl: "baseof fl = 0"
    and w: "ptwalk A as va fl s = Inr (e, s')"
  shows "owned s' (as_ptr_at as) \<and>
    left (alloc s) \<le> left (alloc s') + (if present (pde (vmem s) (as_ptr_at as) (pdx va)) then 0 else 1)"
proof (cases "present (pde (vmem s) (as_ptr_at as) (pdx va))")
  case True
  then show ?thesis using own w unfolding ptwalk_present [OF ok True] by auto
next
  case False
  let ?p = "as_ptr_at as"
  obtain b a where b: "pgalloc A pgsize (alloc s) = (b, a)" by (cases "pgalloc A pgsize (alloc s)")
  have s': "b \<noteq> 0" "vmem s' = put_table (vmem s) ?p (pdx va) b fl" "alloc s' = a"
    using w by (auto simp: ptwalk_absent [OF ok False b] bindR_Inr_iff guardR_Inr_iff)
  note fr = owned_fresh [OF own b s'(1)]
  then have ab: "aligned b" by (simp add: fresh_page_def)
  note t = put_table_ok [OF ok indexof_less(1) False fr fl]
  have pg: "inv a" "used (alloc s) \<subseteq> used a" "left (alloc s) \<le> left a + 1" "b \<in> used a"
    using page [OF _ b] s'(1) own by (auto simp: owned_def)
  then have "owned s' ?p"
    using own t baseof_table [OF ab fl] unfolding owned_def s' by auto
  then show ?thesis using pg s' False by simp
qed

lemma ptwalk_enough:
  assumes ok: "tables_ok (vmem s) (as_ptr_at as)" and own: "owned s (as_ptr_at as)"
    and l: "present (pde (vmem s) (as_ptr_at as) (pdx va)) \<or> 0 < left (alloc s)"
  shows "\<exists>e s'. ptwalk A as va fl s = Inr (e, s')"
proof (cases "present (pde (vmem s) (as_ptr_at as) (pdx va))")
  case True
  then show ?thesis by (simp add: ptwalk_present [OF ok])
next
  case False
  obtain b a where b: "pgalloc A pgsize (alloc s) = (b, a)" by (cases "pgalloc A pgsize (alloc s)")
  then have "b \<noteq> 0" using page [OF _ b] own l False by (simp add: owned_def)
  then show ?thesis by (simp add: ptwalk_absent [OF ok False b])
qed

lemma put_entry_owned:
  assumes "tables_ok (vmem s) p" "owned s p" "present (pde (vmem s) p (pdx va))"
  shows "owned (s\<lparr>vmem := put_entry (vmem s) p va w\<rparr>) p"
  using put_entry_ok [OF assms(1,3), of w] assms(2) unfolding owned_def by simp

end

text \<open>
  \<open>malloc\<close> of the class library as the page allocator, on a heap that starts on a page boundary:
  it never reuses memory, so its pages are the multiples of the page size below \<open>next\<close>.
\<close>

definition malloc_pages :: "Area \<Rightarrow> allocator pgops" where
  "malloc_pages heap = \<lparr>pgalloc = malloc heap, pgfree = free\<rparr>"

definition next_page :: "Area \<Rightarrow> allocator \<Rightarrow> ptr" where
  "next_page heap a = (if malloc_initialized a then next_addr a else area_start heap)"

definition pages_inv :: "Area \<Rightarrow> allocator \<Rightarrow> bool" where
  "pages_inv heap a \<longleftrightarrow> aligned (area_start heap) \<and> area_start heap \<noteq> 0 \<and> unat (area_end heap) + 4096 < 2 ^ 32 \<and>
     aligned (next_page heap a) \<and> area_start heap \<le> next_page heap a \<and>
     unat (next_page heap a) \<le> unat (area_end heap) + 4096"

definition pages_used :: "Area \<Rightarrow> allocator \<Rightarrow> ptr set" where
  "pages_used heap a = {b. aligned b \<and> area_start heap \<le> b \<and> b < next_page heap a}"

definition pages_left :: "Area \<Rightarrow> allocator \<Rightarrow> nat" where
  "pages_left heap a =
     (if next_page heap a \<le> area_end heap then (unat (area_end heap) - unat (next_page heap a)) div 4096 + 1 else 0)"

definition heap_region :: "Area \<Rightarrow> ptr set" where
  "heap_region heap = {b. aligned b \<and> area_start heap \<le> b \<and> b \<le> area_end heap}"

lemma malloc_page:
  "malloc heap pgsize a =
     (let n = next_page heap a; a = a\<lparr>next_addr := n, malloc_initialized := True\<rparr> in
      if n > area_end heap then (0, a) else (n, a\<lparr>next_addr := n + 4096\<rparr>))"
proof -
  have "unat (ROUNDUP pgsize 8) = 4096" by (subst unat_ROUNDUP) (simp_all add: pgsize_def)
  then have "unat (ROUNDUP pgsize 8) = unat (4096 :: u32)" by simp
  then have "ROUNDUP pgsize 8 = 4096" by (simp only: word_unat_eq_iff)
  then show ?thesis by (simp add: malloc_def next_page_def pgsize_def Let_def)
qed

interpretation mp: page_source "malloc_pages heap" "pages_inv heap" "pages_used heap" "pages_left heap" "heap_region heap"
  for heap
proof
  fix a b a'
  assume inv: "pages_inv heap a" and r: "pgalloc (malloc_pages heap) pgsize a = (b, a')"
  let ?n = "next_page heap a"
  have m: "malloc heap pgsize a = (b, a')" using r by (simp add: malloc_pages_def)
  have n0: "?n \<noteq> 0" using inv by (auto simp: pages_inv_def)
  show "pages_inv heap a' \<and> pages_used heap a \<subseteq> pages_used heap a' \<and> (0 < pages_left heap a \<longrightarrow> b \<noteq> 0) \<and>
      pages_left heap a \<le> pages_left heap a' + 1 \<and>
      (b \<noteq> 0 \<longrightarrow> aligned b \<and> b \<in> heap_region heap \<and> b \<notin> pages_used heap a \<and> b \<in> pages_used heap a')"
  proof (cases "?n > area_end heap")
    case True
    then have "b = 0" "next_page heap a' = ?n" using m by (auto simp: malloc_page Let_def next_page_def)
    then show ?thesis using inv True by (auto simp: pages_inv_def pages_used_def pages_left_def)
  next
    case False
    then have b: "b = ?n" and n': "next_page heap a' = ?n + 4096"
      using m by (auto simp: malloc_page Let_def next_page_def)
    have le: "unat ?n \<le> unat (area_end heap)" using False by (simp add: word_le_nat_alt not_less)
    then have u: "unat (?n + 4096) = unat ?n + 4096"
      using inv by (simp add: unat_word_ariths pages_inv_def)
    have al: "aligned (?n + 4096)" using inv u by (simp add: aligned_dvd pages_inv_def)
    have "?n < ?n + 4096" using u by (simp add: word_less_nat_alt)
    moreover have "pages_left heap a \<le> pages_left heap a' + 1"
      using le u by (auto simp: pages_left_def n' word_le_nat_alt div_le_mono)
    moreover have "unat (?n + 4096) \<le> unat (area_end heap) + 4096" using u le by simp
    moreover have i: "aligned ?n" "area_start heap \<le> ?n" "?n \<le> area_end heap"
      using inv False by (simp_all add: pages_inv_def)
    moreover have "area_start heap \<le> ?n + 4096"
      using i(2) \<open>?n < ?n + 4096\<close> by (rule order_trans [OF _ less_imp_le])
    moreover have "pages_used heap a \<subseteq> pages_used heap a'"
      unfolding pages_used_def n' using \<open>?n < ?n + 4096\<close> by (blast intro: less_trans)
    moreover have "b \<in> heap_region heap \<and> b \<notin> pages_used heap a \<and> b \<in> pages_used heap a'"
      unfolding pages_used_def heap_region_def n' b using i \<open>?n < ?n + 4096\<close> by simp
    moreover have "pages_inv heap a'"
      unfolding pages_inv_def n'
      using inv al \<open>area_start heap \<le> ?n + 4096\<close> \<open>unat (?n + 4096) \<le> unat (area_end heap) + 4096\<close>
      by (simp only: pages_inv_def simp_thms)
    ultimately show ?thesis using n0 unfolding b by blast
  qed
next
  fix a
  assume inv: "pages_inv heap a"
  have "b \<le> area_end heap" if al: "aligned b" and lt: "b < next_page heap a" for b
  proof -
    obtain i where "unat b = 4096 * i"
      using al unfolding aligned_dvd by (rule dvdE)
    moreover obtain j where "unat (next_page heap a) = 4096 * j"
      using inv unfolding pages_inv_def aligned_dvd by (elim conjE dvdE)
    moreover from calculation have "i < j" using lt by (simp add: word_less_nat_alt)
    ultimately have "unat b + 4096 \<le> unat (next_page heap a)" by simp
    then show ?thesis using inv by (simp add: pages_inv_def word_le_nat_alt)
  qed
  then show "pages_used heap a \<subseteq> heap_region heap"
    by (auto simp: pages_used_def heap_region_def)
qed

lemma map_page_eq:
  assumes "vm_ok (vmem s) (as_ptr_at as)" and "alloc_ok A as va s"
    and "map_page A as va pa prot s = Inr s'"
  defines "cr \<equiv> ld32 (vmem s) (as_ptr_at as)"
  shows "vm_ok (vmem s') (as_ptr_at as) \<and> ld32 (vmem s') (as_ptr_at as) = cr \<and>
    pt_walk (vmem s') cr va' =
      (if baseof va' = va then
         (if prot = MMAP_NONE then None else Some (pa OR (va' AND mask 12), True, prot AND MMAP_WRITE \<noteq> 0))
       else pt_walk (vmem s) cr va')"
proof -
  let ?p = "as_ptr_at as"
  have r: "IN_RANGE va uvm_area" "baseof va = va" "baseof pa = pa"
    using assms(3) by (auto simp: map_page_def bindR_Inr_iff guardR_Inr_iff ROUNDDOWN_page)
  obtain e s1 where w: "ptwalk A as va (PTE_W OR PTE_U) s = Inr (e, s1)"
    using assms(3) by (auto simp: map_page_def bindR_Inr_iff guardR_Inr_iff)
  have s': "s' = s1\<lparr>vmem := put_entry (vmem s1) ?p va (new_entry pa prot)\<rparr>"
    using assms(3) unfolding map_page_walk [OF assms(1,2) r w] by (simp split: if_splits)
  have t: "tables_ok (vmem s) ?p" using assms(1) by (simp add: vm_ok_def)
  note w1 = ptwalk_ok [OF t assms(2) user_flags(1) w]
  have pr: "present (pde (vmem s1) ?p (pdx va))" and t1: "tables_ok (vmem s1) ?p" and v1: "vm_ok (vmem s1) ?p"
    using w1 ptwalk_user [OF assms(1,2) w] by blast+
  have fl: "pde (vmem s1) ?p (pdx va) AND PTE_U \<noteq> 0" "pde (vmem s1) ?p (pdx va) AND PTE_W \<noteq> 0"
    using v1 pr user_pdx [OF r(1)] by (simp_all add: vm_ok_def)
  have root: "ld32 (vmem s1) ?p = cr" using w1 by (simp add: cr_def)
  have old: "pt_walk (vmem s1) cr = pt_walk (vmem s) cr" using w1 unfolding cr_def by blast
  show ?thesis
    using put_entry_walk [OF t1 pr, of "new_entry pa prot" va'] put_entry_ok [OF t1 pr, of "new_entry pa prot"]
      put_entry_vm_ok [OF v1 pr] fl r(2,3) new_entry_bits
    unfolding root old s' by (cases "prot = MMAP_NONE") (simp_all add: new_entry_def)
qed

section \<open>An address space as a map of pages\<close>

text \<open>
  What an address space promises: a partial map from user pages to a page and whether it is
  writable.
\<close>

type_synonym pagemap = "u32 \<Rightarrow> (u32 \<times> bool) option"

definition abs_map :: "pagemap \<Rightarrow> u32 \<times> u32 \<times> u32 \<Rightarrow> pagemap" where
  "abs_map f = (\<lambda>(va, pa, prot). f(va := if prot = MMAP_NONE then None else Some (pa, prot AND MMAP_WRITE \<noteq> 0)))"

definition abs_walk :: "pagemap \<Rightarrow> u32 \<Rightarrow> (u32 \<times> bool \<times> bool) option" where
  "abs_walk f va = (case f (baseof va) of None \<Rightarrow> None | Some (pa, w) \<Rightarrow> Some (pa OR (va AND mask 12), True, w))"

text \<open>A client's sequence of calls of \<open>map\<close>.\<close>

fun map_pages :: "'a pgops \<Rightarrow> ptr \<Rightarrow> (u32 \<times> u32 \<times> u32) list \<Rightarrow> 'a vme \<Rightarrow> 'a vme result" where
  "map_pages A as [] s = Inr s"
| "map_pages A as ((va, pa, prot) # ops) s = bindR (map_page A as va pa prot s) (map_pages A as ops)"

definition realizes :: "gmem \<Rightarrow> ptr \<Rightarrow> pagemap \<Rightarrow> bool" where
  "realizes m p f \<longleftrightarrow> vm_ok m p \<and> (\<forall>va. IN_RANGE va uvm_area \<longrightarrow> pt_walk m (ld32 m p) va = abs_walk f va)"


lemma map_page_range: "map_page A as va pa prot s = Inr s' \<Longrightarrow> baseof va = va \<and> IN_RANGE va uvm_area"
  by (auto simp: map_page_def bindR_Inr_iff guardR_Inr_iff ROUNDDOWN_page)

context page_source
begin

lemma map_page_owned:
  assumes "vm_ok (vmem s) (as_ptr_at as)" and own: "owned s (as_ptr_at as)"
    and r: "map_page A as va pa prot s = Inr s'"
  shows "owned s' (as_ptr_at as)"
proof -
  have i: "IN_RANGE va uvm_area" "baseof va = va" "baseof pa = pa"
    using r by (auto simp: map_page_def bindR_Inr_iff guardR_Inr_iff ROUNDDOWN_page)
  obtain e s1 where w: "ptwalk A as va (PTE_W OR PTE_U) s = Inr (e, s1)"
    using r by (auto simp: map_page_def bindR_Inr_iff guardR_Inr_iff)
  have t: "tables_ok (vmem s) (as_ptr_at as)" using assms(1) by (simp add: vm_ok_def)
  have s': "s' = s1\<lparr>vmem := put_entry (vmem s1) (as_ptr_at as) va (new_entry pa prot)\<rparr>"
    using r unfolding map_page_walk [OF assms(1) owned_alloc_ok [OF own] i w] by (simp split: if_splits)
  note w1 = ptwalk_ok [OF t owned_alloc_ok [OF own] user_flags(1) w] ptwalk_owned [OF t own user_flags(1) w]
  show ?thesis unfolding s' by (rule put_entry_owned) (use w1 in blast)+
qed

lemma map_page_realizes:
  assumes re: "realizes (vmem s) (as_ptr_at as) f" and own: "owned s (as_ptr_at as)"
    and r: "map_page A as va pa prot s = Inr s'"
  shows "realizes (vmem s') (as_ptr_at as) (abs_map f (va, pa, prot)) \<and> owned s' (as_ptr_at as) \<and>
    ld32 (vmem s') (as_ptr_at as) = ld32 (vmem s) (as_ptr_at as) \<and>
    (\<forall>va'. \<not> IN_RANGE va' uvm_area \<longrightarrow>
       pt_walk (vmem s') (ld32 (vmem s) (as_ptr_at as)) va' = pt_walk (vmem s) (ld32 (vmem s) (as_ptr_at as)) va')"
proof -
  have vm: "vm_ok (vmem s) (as_ptr_at as)" using re by (simp add: realizes_def)
  note e = map_page_eq [OF vm owned_alloc_ok [OF own] r]
  have "baseof va' \<noteq> va" if "\<not> IN_RANGE va' uvm_area" for va'
  proof
    assume "baseof va' = va"
    then have "pdx va' = pdx va"
      using map_page_range [OF r] same_page [of va' va] by simp
    then have "256 \<le> pdx va' \<and> pdx va' < 512" using user_pdx map_page_range [OF r] by simp
    then have "1073741824 \<le> unat va'" "unat va' < 2147483648"
      unfolding pdx_def by (simp_all add: less_eq_div_iff_mult_less_eq div_less_iff_less_mult)
    then show False
      using that by (simp add: IN_RANGE_def uvm_area_def vm_areas_def RANGE_def word_le_nat_alt word_less_nat_alt)
  qed
  then show ?thesis
    using e re map_page_owned [OF vm own r] unfolding realizes_def
    by (auto simp: abs_walk_def abs_map_def)
qed

lemma map_pages_realizes:
  "realizes (vmem s) (as_ptr_at as) f \<Longrightarrow> owned s (as_ptr_at as) \<Longrightarrow> map_pages A as ops s = Inr s' \<Longrightarrow>
   realizes (vmem s') (as_ptr_at as) (foldl abs_map f ops) \<and> owned s' (as_ptr_at as) \<and>
   ld32 (vmem s') (as_ptr_at as) = ld32 (vmem s) (as_ptr_at as) \<and>
   (\<forall>va'. \<not> IN_RANGE va' uvm_area \<longrightarrow>
      pt_walk (vmem s') (ld32 (vmem s) (as_ptr_at as)) va' = pt_walk (vmem s) (ld32 (vmem s) (as_ptr_at as)) va')"
proof (induction ops arbitrary: s f)
  case (Cons op ops)
  obtain va pa prot where op: "op = (va, pa, prot)" by (cases op)
  obtain s1 where s1: "map_page A as va pa prot s = Inr s1" and r: "map_pages A as ops s1 = Inr s'"
    using Cons.prems(3) by (auto simp: op bindR_Inr_iff)
  note m = map_page_realizes [OF Cons.prems(1,2) s1]
  have "realizes (vmem s1) (as_ptr_at as) (abs_map f op)" using m by (simp add: op)
  from Cons.IH [OF this _ r] m show ?case by (simp add: op)
qed simp

end

section \<open>The loops over areas\<close>

primrec run_steps :: "(u32 \<Rightarrow> 's \<Rightarrow> 's result) \<Rightarrow> u32 \<Rightarrow> nat \<Rightarrow> u32 \<Rightarrow> 's \<Rightarrow> 's result" where
  "run_steps f step 0 cur s = Inr s"
| "run_steps f step (Suc n) cur s = bindR (f cur s) (run_steps f step n (cur + step))"

lemma for_step_run:
  "(\<And>k. k < n \<Longrightarrow> cur + of_nat k * step \<noteq> e) \<Longrightarrow> e = cur + of_nat n * step \<Longrightarrow>
   for_step e step f cur s = Some (run_steps f step n cur s)"
proof (induction n arbitrary: cur s)
  case 0
  then show ?case by (subst for_step.simps) simp
next
  case (Suc n)
  have "cur \<noteq> e" using Suc.prems(1) [of 0] by simp
  moreover have "for_step e step f (cur + step) s' = Some (run_steps f step n (cur + step) s')" for s'
    using Suc.prems(1) [of "Suc k" for k] Suc.prems(2) by (intro Suc.IH) (auto simp: algebra_simps)
  ultimately show ?case by (subst for_step.simps) (simp split: sum.split)
qed

text \<open>A loop over the units \<open>i\<close> to \<open>i + n\<close> of size \<open>u\<close>; the last may end at address 0.\<close>

lemma for_units:
  assumes "u * M = 2 ^ 32" "i + n \<le> M" "0 < i \<or> n < M"
  shows "for_step (of_nat ((i + n) * u)) (of_nat u) f (of_nat (i * u)) s = Some (run_steps f (of_nat u) n (of_nat (i * u)) s)"
proof (rule for_step_run)
  fix k assume k: "k < n"
  show "of_nat (i * u) + of_nat k * of_nat u \<noteq> (of_nat ((i + n) * u) :: u32)"
  proof
    have u: "0 < u" using assms(1) by (cases u) simp_all
    assume "of_nat (i * u) + of_nat k * of_nat u = (of_nat ((i + n) * u) :: u32)"
    then have "unat (of_nat ((i + k) * u) :: u32) = unat (of_nat ((i + n) * u) :: u32)"
      by (simp add: algebra_simps)
    then have e: "(i + k) * u mod 2 ^ 32 = (i + n) * u mod 2 ^ 32"
      by (simp only: unat_of_nat) simp
    have l: "(i + k) * u < 2 ^ 32" using k assms(1,2) u by (metis add_less_cancel_left less_le_trans mult.commute mult_less_cancel2)
    show False
    proof (cases "i + n = M")
      case True
      then have "(i + n) * u = 2 ^ 32" using assms(1) by (simp add: mult.commute)
      then have "(i + k) * u = 0" using e l by simp
      then show False using u k assms(3) True by auto
    next
      case False
      then have "(i + n) * u < 2 ^ 32" using assms(1,2) u by (metis le_neq_implies_less mult.commute mult_less_cancel2)
      then show False using e l k u by simp
    qed
  qed
qed (simp add: algebra_simps)

lemma pdx_unit [simp]: "i < 1024 \<Longrightarrow> pdx (of_nat (i * 4194304)) = i"
  by (simp add: pdx_def unat_of_nat del: of_nat_mult)

lemma copy_kernel_run:
  assumes "aligned d" "aligned (kpt s)" "d \<noteq> kpt s" "i + n \<le> 1024"
  shows "\<exists>m. run_steps (copy_kernel_entry d) 4194304 n (of_nat (i * 4194304)) s = Inr (s\<lparr>vmem := m\<rparr>) \<and>
    (\<forall>j. i \<le> j \<and> j < i + n \<longrightarrow> ld32 m (slot d j) = ld32 (vmem s) (slot (kpt s) j)) \<and>
    (\<forall>q. word_aligned q \<longrightarrow> (\<forall>j. i \<le> j \<and> j < i + n \<longrightarrow> q \<noteq> slot d j) \<longrightarrow> ld32 m q = ld32 (vmem s) q)"
  using assms
proof (induction n arbitrary: i s)
  case (Suc n)
  let ?s = "s\<lparr>vmem := st32 (slot d i) (ld32 (vmem s) (slot (kpt s) i)) (vmem s)\<rparr>"
  have c: "copy_kernel_entry d (of_nat (i * 4194304)) s = Inr ?s"
    using Suc.prems(4) by (simp add: copy_kernel_entry_def del: of_nat_mult)
  have next': "of_nat (i * 4194304) + 4194304 = (of_nat (Suc i * 4194304) :: u32)" by (simp add: algebra_simps)
  obtain m where m: "run_steps (copy_kernel_entry d) 4194304 n (of_nat (Suc i * 4194304)) ?s = Inr (?s\<lparr>vmem := m\<rparr>)"
    and in': "\<And>j. Suc i \<le> j \<Longrightarrow> j < Suc i + n \<Longrightarrow> ld32 m (slot d j) = ld32 (vmem ?s) (slot (kpt s) j)"
    and out: "\<And>q. word_aligned q \<Longrightarrow> (\<And>j. Suc i \<le> j \<Longrightarrow> j < Suc i + n \<Longrightarrow> q \<noteq> slot d j) \<Longrightarrow> ld32 m q = ld32 (vmem ?s) q"
    using Suc.IH [of ?s "Suc i"] Suc.prems by auto
  have "ld32 m (slot d j) = ld32 (vmem s) (slot (kpt s) j)" if "i \<le> j" "j < i + Suc n" for j
  proof (cases "j = i")
    case True
    have "ld32 m (slot d i) = ld32 (vmem ?s) (slot d i)"
      using Suc.prems by (intro out) (auto simp: slot_inj)
    then show ?thesis using True by simp
  next
    case False
    then have "ld32 m (slot d j) = ld32 (vmem ?s) (slot (kpt s) j)" using that by (intro in') simp_all
    also have "\<dots> = ld32 (vmem s) (slot (kpt s) j)"
      using Suc.prems that by (simp add: ld_st slot_inj)
    finally show ?thesis .
  qed
  moreover have "ld32 m q = ld32 (vmem s) q" if "word_aligned q" "\<And>j. i \<le> j \<Longrightarrow> j < i + Suc n \<Longrightarrow> q \<noteq> slot d j" for q
  proof -
    have "ld32 m q = ld32 (vmem ?s) q" using that by (intro out) simp_all
    also have "\<dots> = ld32 (vmem s) q" using that(1) that(2) [of i] Suc.prems by (simp add: ld_st)
    finally show ?thesis .
  qed
  moreover have "run_steps (copy_kernel_entry d) 4194304 (Suc n) (of_nat (i * 4194304)) s = Inr (s\<lparr>vmem := m\<rparr>)"
    by (simp only: run_steps.simps c bindR_simps next' m) simp
  ultimately show ?case by blast
next
  case 0
  then show ?case by (intro exI [of _ "vmem s"]) auto
qed

text \<open>\<open>protect\<close> copies the entries 0 to 255 and 1012 to 1023 of the kernel's first level.\<close>

lemma protect_copies:
  assumes "aligned d" "aligned (kpt s)" "d \<noteq> kpt s"
  shows "\<exists>m. for_areas vm_areas (push_bit (pt_shift (pgtables ! 1)) 1) (copy_kernel_entry d) s = Some (Inr (s\<lparr>vmem := m\<rparr>)) \<and>
    (\<forall>j < 1024. ld32 m (slot d j) = (if j < 256 \<or> 1012 \<le> j then ld32 (vmem s) (slot (kpt s) j) else ld32 (vmem s) (slot d j))) \<and>
    (\<forall>q. word_aligned q \<longrightarrow> (\<forall>j < 1024. q \<noteq> slot d j) \<longrightarrow> ld32 m q = ld32 (vmem s) q)"
proof -
  have step: "(push_bit (pt_shift (pgtables ! 1)) 1 :: u32) = 4194304"
    by (simp add: pgtables_def push_bit_eq_mult)
  obtain m1 where m1: "run_steps (copy_kernel_entry d) 4194304 256 (of_nat (0 * 4194304)) s = Inr (s\<lparr>vmem := m1\<rparr>)"
    and in1: "\<And>j. j < 256 \<Longrightarrow> ld32 m1 (slot d j) = ld32 (vmem s) (slot (kpt s) j)"
    and out1: "\<And>q. word_aligned q \<Longrightarrow> (\<And>j. j < 256 \<Longrightarrow> q \<noteq> slot d j) \<Longrightarrow> ld32 m1 q = ld32 (vmem s) q"
    using copy_kernel_run [OF assms, of 0 256] by auto
  obtain m2 where m2: "run_steps (copy_kernel_entry d) 4194304 12 (of_nat (1012 * 4194304)) (s\<lparr>vmem := m1\<rparr>) = Inr (s\<lparr>vmem := m2\<rparr>)"
    and in2: "\<And>j. 1012 \<le> j \<Longrightarrow> j < 1024 \<Longrightarrow> ld32 m2 (slot d j) = ld32 m1 (slot (kpt s) j)"
    and out2: "\<And>q. word_aligned q \<Longrightarrow> (\<And>j. 1012 \<le> j \<Longrightarrow> j < 1024 \<Longrightarrow> q \<noteq> slot d j) \<Longrightarrow> ld32 m2 q = ld32 m1 q"
    using copy_kernel_run [of d "s\<lparr>vmem := m1\<rparr>" 1012 12] assms by auto
  have a1: "for_step 0x40000000 4194304 (copy_kernel_entry d) 0 s = Some (Inr (s\<lparr>vmem := m1\<rparr>))"
    using for_units [of 4194304 1024 0 256 "copy_kernel_entry d" s] m1 by simp
  have zero: "(4294967296 :: u32) = 0" by (subst word_unat_eq_iff) simp
  have a2: "for_step 0 4194304 (copy_kernel_entry d) 0xfd000000 (s\<lparr>vmem := m1\<rparr>) = Some (Inr (s\<lparr>vmem := m2\<rparr>))"
    using for_units [of 4194304 1024 1012 12 "copy_kernel_entry d" "s\<lparr>vmem := m1\<rparr>"] m2 by (simp add: zero)
  have f: "for_areas vm_areas 4194304 (copy_kernel_entry d) s = Some (Inr (s\<lparr>vmem := m2\<rparr>))"
    using a1 a2 by (simp add: vm_areas_def RANGE_def)
  have "ld32 m2 (slot d j) = (if j < 256 \<or> 1012 \<le> j then ld32 (vmem s) (slot (kpt s) j) else ld32 (vmem s) (slot d j))"
    if "j < 1024" for j
  proof -
    have "ld32 m1 (slot (kpt s) j) = ld32 (vmem s) (slot (kpt s) j)"
      using assms that by (intro out1) (auto simp: slot_inj)
    moreover have "ld32 m1 (slot d j) = ld32 (vmem s) (slot d j)" if "256 \<le> j"
      using assms \<open>j < 1024\<close> that by (intro out1) (auto simp: slot_inj)
    moreover have "ld32 m2 (slot d j) = ld32 m1 (slot d j)" if "j < 1012"
      using assms \<open>j < 1024\<close> that by (intro out2) (auto simp: slot_inj)
    ultimately show ?thesis using in1 [of j] in2 [of j] that by auto
  qed
  moreover have "ld32 m2 q = ld32 (vmem s) q" if "word_aligned q" "\<forall>j < 1024. q \<noteq> slot d j" for q
    using out2 [of q] out1 [of q] that by simp
  ultimately show ?thesis unfolding step using f by blast
qed

section \<open>The kernel's tables\<close>

definition kernel_dirs :: "nat set" where
  "kernel_dirs = {0..<256} \<union> {1012..<1024}"

definition page_no :: "u32 \<Rightarrow> nat" where
  "page_no va = unat va div 4096"

lemma page_unit:
  "i < 1048576 \<Longrightarrow> page_no (of_nat (i * 4096)) = i"
  "i < 1048576 \<Longrightarrow> pdx (of_nat (i * 4096)) = i div 1024"
  "i < 1048576 \<Longrightarrow> aligned (of_nat (i * 4096))"
proof -
  assume i: "i < 1048576"
  have "i * 4096 div 4194304 = i div 1024"
    using div_mult_mult2 [of 4096 i 1024] by simp
  then show "page_no (of_nat (i * 4096)) = i" "pdx (of_nat (i * 4096)) = i div 1024" "aligned (of_nat (i * 4096))"
    using i by (simp_all add: page_no_def pdx_def aligned_dvd unat_of_nat del: of_nat_mult)
qed

lemma page_no_eq: "baseof va = baseof va' \<longleftrightarrow> page_no va = page_no va'"
  by (simp add: page_no_def word_unat_eq_iff unat_baseof)

lemma base_offset: "baseof va OR (va AND mask 12) = va"
  unfolding baseof_mask by (rule bit_word_eqI) (auto simp: bit_simps)

context page_source
begin

text \<open>The pages \<open>D\<close> are mapped to themselves, for the kernel, and nothing else is mapped.\<close>

definition identity :: "nat \<Rightarrow> 'a vme \<Rightarrow> ptr \<Rightarrow> nat set \<Rightarrow> bool" where
  "identity c s p D \<longleftrightarrow> tables_ok (vmem s) p \<and> owned s p \<and>
     (\<forall>i < 1024. present (pde (vmem s) p i) \<longrightarrow> pde (vmem s) p i AND PTE_U = 0 \<and> pde (vmem s) p i AND PTE_W \<noteq> 0) \<and>
     (\<forall>va. pt_walk (vmem s) (ld32 (vmem s) p) va = (if page_no va \<in> D then Some (va, False, True) else None)) \<and>
     card {i \<in> kernel_dirs. \<not> present (pde (vmem s) p i)} + c \<le> left (alloc s)"

lemma kernel_entry_bits:
  "aligned v \<Longrightarrow> (v OR PTE_P OR PTE_W) AND PTE_U = 0" "(v OR PTE_P OR PTE_W) AND PTE_W \<noteq> 0"
  "aligned v \<Longrightarrow> baseof (v OR PTE_P OR PTE_W) = v"
  using aligned_and_flag [of v PTE_U] by (simp_all add: bit.conj_disj_distrib2)

lemma map_kernel_page_step:
  assumes id: "identity c s (as_ptr_at as) D" and i: "i < 1048576" "i \<notin> D" "i div 1024 \<in> kernel_dirs"
  shows "\<exists>s'. map_kernel_page A as (of_nat (i * 4096)) s = Inr s' \<and> identity c s' (as_ptr_at as) (insert i D) \<and>
    cr0 s' = cr0 s"
proof -
  let ?p = "as_ptr_at as" and ?va = "of_nat (i * 4096) :: u32" and ?K = "\<lambda>s. {i \<in> kernel_dirs. \<not> present (pde (vmem s) (as_ptr_at as) i)}"
  note u = page_unit [OF i(1)]
  have t: "tables_ok (vmem s) ?p" and own: "owned s ?p" and l: "card (?K s) + c \<le> left (alloc s)"
    using id by (simp_all add: identity_def)
  have fin: "finite (?K s)" by (simp add: kernel_dirs_def)
  have "present (pde (vmem s) ?p (pdx ?va)) \<or> 0 < left (alloc s)"
  proof (rule disjCI)
    assume "\<not> 0 < left (alloc s)"
    then have "?K s = {}" using l fin by simp
    then show "present (pde (vmem s) ?p (pdx ?va))" using i(3) u(2) by auto
  qed
  then obtain e s1 where w: "ptwalk A as ?va PTE_W s = Inr (e, s1)"
    using ptwalk_enough [OF t own] by blast
  have fl: "baseof PTE_W = 0" by simp
  note w1 = ptwalk_ok [OF t owned_alloc_ok [OF own] fl w] ptwalk_owned [OF t own fl w]
  let ?w = "?va OR PTE_P OR PTE_W" and ?s' = "s1\<lparr>vmem := put_entry (vmem s1) ?p ?va (?va OR PTE_P OR PTE_W)\<rparr>"
  have t1: "tables_ok (vmem s1) ?p" and pr: "present (pde (vmem s1) ?p (pdx ?va))" and own1: "owned s1 ?p"
    and root: "ld32 (vmem s1) ?p = ld32 (vmem s) ?p"
    using w1 by blast+
  have r: "map_kernel_page A as ?va s = Inr ?s'"
    using w w1 by (simp add: map_kernel_page_def put_entry_def)
  note pe = put_entry_ok [OF t1 pr, of ?w]
  have e1: "pde (vmem s1) ?p j AND PTE_U = 0 \<and> pde (vmem s1) ?p j AND PTE_W \<noteq> 0"
    if "j < 1024" "present (pde (vmem s1) ?p j)" for j
  proof -
    have "pde (vmem s1) ?p j = pde (vmem s) ?p j \<or> (\<exists>b. aligned b \<and> pde (vmem s1) ?p j = b OR PTE_P OR PTE_W)"
      using w1 that(1) by blast
    then show ?thesis using id that kernel_entry_bits unfolding identity_def by auto
  qed
  have walk: "pt_walk (vmem ?s') (ld32 (vmem s) ?p) va = (if page_no va \<in> insert i D then Some (va, False, True) else None)" for va
  proof (cases "page_no va = i")
    case True
    then have b: "baseof va = baseof ?va" using u(1) by (simp add: page_no_eq del: of_nat_mult)
    then have "?va OR (va AND mask 12) = va"
      using base_offset [of va] u(3) by (simp del: of_nat_mult)
    then show ?thesis
      using put_entry_walk [OF t1 pr, of ?w va] b e1 [OF indexof_less(1) pr] kernel_entry_bits(1,3) [OF u(3)] kernel_entry_bits(2) True
      by (simp add: root del: of_nat_mult)
  next
    case False
    then have "baseof va \<noteq> baseof ?va" using u(1) by (simp add: page_no_eq del: of_nat_mult)
    moreover have "pt_walk (vmem s1) (ld32 (vmem s) ?p) = pt_walk (vmem s) (ld32 (vmem s) ?p)" using w1 by blast
    ultimately show ?thesis
      using put_entry_walk [OF t1 pr, of ?w va] id False by (simp add: root identity_def del: of_nat_mult)
  qed
  have k: "card (?K ?s') + c \<le> left (alloc s1)"
  proof -
    have "?K ?s' \<subseteq> ?K s - {pdx ?va}"
    proof
      fix j assume j: "j \<in> ?K ?s'"
      then have "j < 1024" by (auto simp: kernel_dirs_def)
      then have "j \<noteq> pdx ?va" "pde (vmem s1) ?p j = pde (vmem s) ?p j" using j pe pr w1 by auto
      then show "j \<in> ?K s - {pdx ?va}" using j pe \<open>j < 1024\<close> by auto
    qed
    then have "card (?K ?s') + c \<le> card (?K s - {pdx ?va}) + c" using fin by (simp add: card_mono)
    also have "\<dots> \<le> left (alloc s1)"
    proof (cases "present (pde (vmem s) ?p (pdx ?va))")
      case True
      then show ?thesis using w1 l card_mono [OF fin, of "?K s - {pdx ?va}"] by fastforce
    next
      case False
      then have "pdx ?va \<in> ?K s" using i(3) u(2) by simp
      then have "card (?K s - {pdx ?va}) + 1 \<le> card (?K s)" using card_Suc_Diff1 [OF fin, of "pdx ?va"] by linarith
      then show ?thesis using w1 l False by simp
    qed
    finally show ?thesis .
  qed
  have "owned ?s' ?p" by (rule put_entry_owned [OF t1 own1 pr])
  moreover have "cr0 s1 = cr0 s"
    using w by (cases "present (pde (vmem s) ?p (pdx ?va))"; cases "pgalloc A pgsize (alloc s)")
      (auto simp: ptwalk_present [OF t] ptwalk_absent [OF t] bindR_Inr_iff)
  ultimately show ?thesis
    using r put_entry_tables_ok [OF t1 pr] pe e1 walk k root unfolding identity_def by (intro exI [of _ ?s']) auto
qed

end

text \<open>The first walk finds no table at all and allocates the root as well.\<close>

lemma ptwalk_no_root:
  assumes "ld32 (vmem s) (as_ptr_at as) = 0" "pgalloc A pgsize (alloc s) = (b, a)" "b \<noteq> 0" "aligned b"
    and "baseof fl = 0"
    and p: "word_aligned (as_ptr_at as)" "off_page (as_ptr_at as) b"
  shows "ptwalk A as va fl s =
    ptwalk A as va fl (s\<lparr>vmem := st32 (as_ptr_at as) (b OR PTE_P OR fl) (zero_page b (vmem s)), alloc := a\<rparr>)"
proof -
  have n: "(b OR PTE_P OR fl) AND PTE_P \<noteq> 0" using present_table [of b fl] by (simp add: present_def)
  show ?thesis
    using assms n by (simp add: ptwalk_def two_levels pgallocz_eq Let_def del: present_table)
qed

context page_source
begin

lemma first_table:
  assumes z: "ld32 (vmem s) (as_ptr_at as) = 0" and inv: "inv (alloc s)" and l: "269 + c \<le> left (alloc s)"
    and p: "word_aligned (as_ptr_at as)" "\<forall>b \<in> region. off_page (as_ptr_at as) b"
  shows "\<exists>s0. identity c s0 (as_ptr_at as) {} \<and> cr0 s0 = cr0 s \<and> (\<forall>cur. map_kernel_page A as cur s = map_kernel_page A as cur s0)"
proof -
  obtain b a where b: "pgalloc A pgsize (alloc s) = (b, a)" by (cases "pgalloc A pgsize (alloc s)")
  have pg: "inv a" "b \<noteq> 0" "268 + c \<le> left a" "aligned b" "b \<in> region" "b \<in> used a"
    using page [OF inv b] l by auto
  let ?p = "as_ptr_at as" and ?s = "s\<lparr>vmem := st32 (as_ptr_at as) (b OR PTE_P OR PTE_W) (zero_page b (vmem s)), alloc := a\<rparr>"
  have off: "off_page ?p b" using p pg by blast
  have root: "ld32 (vmem ?s) ?p = b OR PTE_P OR PTE_W" by simp
  have base: "baseof (ld32 (vmem ?s) ?p) = b" unfolding root using pg by simp
  have "ld32 (vmem ?s) (slot b i) = 0" if "i < 1024" for i
    using that pg p off by (auto simp: ld_st ld_zero off_page_def)
  then have 0: "pde (vmem ?s) ?p i = 0" if "i < 1024" for i
    using that unfolding pde_def base by simp
  have no: "\<not> present (pde (vmem ?s) ?p i)" if "i < 1024" for i
    using 0 [OF that] by (simp add: present_def)
  have "tables_ok (vmem ?s) ?p"
    using p off no base unfolding tables_ok_def by (simp add: root)
  moreover have "owned ?s ?p"
    using p pg no base unfolding owned_def by simp
  moreover have "pt_walk (vmem ?s) (ld32 (vmem ?s) ?p) va = None" for va
    using 0 [of "pdx va"] by (simp add: pt_walk_def pde_def Let_def del: baseof_flags)
  moreover have "card {i \<in> kernel_dirs. \<not> present (pde (vmem ?s) ?p i)} + c \<le> left (alloc ?s)"
  proof -
    have "card {i \<in> kernel_dirs. \<not> present (pde (vmem ?s) ?p i)} \<le> card kernel_dirs"
      by (rule card_mono) (auto simp: kernel_dirs_def)
    also have "card kernel_dirs = 268"
      unfolding kernel_dirs_def by (subst card_Un_disjoint) auto
    finally show ?thesis using pg by simp
  qed
  ultimately have "identity c ?s ?p {}"
    using no unfolding identity_def by auto
  moreover have "map_kernel_page A as cur s = map_kernel_page A as cur ?s" for cur
    using ptwalk_no_root [OF z b pg(2,4) _ p(1) off, of PTE_W cur] by (simp add: map_kernel_page_def)
  ultimately show ?thesis by (intro exI [of _ ?s]) simp
qed

lemma map_kernel_run:
  assumes "identity c s (as_ptr_at as) D" "i + n \<le> 1048576" "\<And>j. i \<le> j \<Longrightarrow> j < i + n \<Longrightarrow> j \<notin> D \<and> j div 1024 \<in> kernel_dirs"
  shows "\<exists>s'. run_steps (map_kernel_page A as) 4096 n (of_nat (i * 4096)) s = Inr s' \<and>
    identity c s' (as_ptr_at as) (D \<union> {i..<i + n}) \<and> cr0 s' = cr0 s"
  using assms
proof (induction n arbitrary: i s D)
  case (Suc n)
  obtain s1 where s1: "map_kernel_page A as (of_nat (i * 4096)) s = Inr s1" "identity c s1 (as_ptr_at as) (insert i D)"
      "cr0 s1 = cr0 s"
    using map_kernel_page_step [OF Suc.prems(1), of i] Suc.prems(2) Suc.prems(3) [of i] by auto
  have "Suc i + n \<le> 1048576" using Suc.prems(2) by simp
  moreover have "j \<notin> insert i D \<and> j div 1024 \<in> kernel_dirs" if "Suc i \<le> j" "j < Suc i + n" for j
    using Suc.prems(3) [of j] that by simp
  ultimately obtain s' where s': "run_steps (map_kernel_page A as) 4096 n (of_nat (Suc i * 4096)) s1 = Inr s'"
      "identity c s' (as_ptr_at as) (insert i D \<union> {Suc i..<Suc i + n})" "cr0 s' = cr0 s1"
    using Suc.IH [OF s1(2)] by blast
  have next': "of_nat (i * 4096) + 4096 = (of_nat (Suc i * 4096) :: u32)" by (simp add: algebra_simps)
  have "run_steps (map_kernel_page A as) 4096 (Suc n) (of_nat (i * 4096)) s = Inr s'"
    by (simp only: run_steps.simps s1(1) bindR_simps next' s'(1))
  moreover have "insert i D \<union> {Suc i..<Suc i + n} = D \<union> {i..<i + Suc n}" by auto
  ultimately show ?case using s' s1 by auto
qed auto

lemma vme_init_identity:
  assumes inv: "inv (alloc s)" and l: "269 + c \<le> left (alloc s)"
    and p: "word_aligned (as_ptr_at as)" "\<forall>b \<in> region. off_page (as_ptr_at as) b"
  shows "\<exists>s'. vme_init A 0 as s = Some (Inr (True, s')) \<and> identity c s' (as_ptr_at as) ({0..<262144} \<union> {1036288..<1048576}) \<and>
    kpt s' = baseof (ld32 (vmem s') (as_ptr_at as)) \<and> cr3 s' = kpt s' \<and> cr0 s' = cr0 s OR CR0_PG"
proof -
  let ?s = "s\<lparr>vmem := st32 (as_ptr_at as) 0 (vmem s)\<rparr>" and ?f = "map_kernel_page A as"
  obtain s0 where s0: "identity c s0 (as_ptr_at as) {}" "cr0 s0 = cr0 s" "\<And>cur. ?f cur ?s = ?f cur s0"
    using first_table [of ?s as c] assms by auto
  have "j div 1024 \<in> kernel_dirs" if "j < 262144 \<or> (1036288 \<le> j \<and> j < 1048576)" for j
    using that by (auto simp: kernel_dirs_def less_eq_div_iff_mult_less_eq div_less_iff_less_mult)
  note dirs = this
  obtain s1 where s1: "run_steps ?f 4096 262144 (of_nat (0 * 4096)) s0 = Inr s1" "identity c s1 (as_ptr_at as) ({} \<union> {0..<0 + 262144})"
      "cr0 s1 = cr0 s"
    using map_kernel_run [OF s0(1), of 0 262144] dirs s0(2) by auto
  obtain s2 where s2: "run_steps ?f 4096 12288 (of_nat (1036288 * 4096)) s1 = Inr s2"
      "identity c s2 (as_ptr_at as) ({} \<union> {0..<0 + 262144} \<union> {1036288..<1036288 + 12288})" "cr0 s2 = cr0 s"
    using map_kernel_run [OF s1(2), of 1036288 12288] dirs s1(3) by auto
  have "run_steps ?f 4096 262144 (of_nat (0 * 4096)) ?s = run_steps ?f 4096 262144 (of_nat (0 * 4096)) s0"
  proof -
    have "run_steps ?f 4096 (Suc n) cur ?s = run_steps ?f 4096 (Suc n) cur s0" for n cur
      by (simp only: run_steps.simps s0(3))
    from this [of 262143] show ?thesis by (simp only: Suc_numeral semiring_norm)
  qed
  then have a1: "for_step 0x40000000 4096 ?f 0 ?s = Some (Inr s1)"
    using for_units [of 4096 1048576 0 262144 ?f ?s] s1(1) by simp
  have zero: "(4294967296 :: u32) = 0" by (subst word_unat_eq_iff) simp
  have a2: "for_step 0 4096 ?f 0xfd000000 s1 = Some (Inr s2)"
    using for_units [of 4096 1048576 1036288 12288 ?f s1] s2(1) by (simp add: zero)
  have "for_areas vm_areas pgsize ?f ?s = Some (Inr s2)"
    using a1 a2 by (simp add: vm_areas_def RANGE_def pgsize_def)
  moreover have "identity c (s2\<lparr>kpt := k, cr3 := k, cr0 := r\<rparr>) (as_ptr_at as) D = identity c s2 (as_ptr_at as) D" for k r D
    by (simp add: identity_def owned_def)
  ultimately show ?thesis
    using s2 by (simp add: vme_init_def Let_def)
qed

end

section \<open>A new address space\<close>

text \<open>The four words of an \<open>AddrSpace\<close>, outside every page the allocator gives out.\<close>

definition as_off :: "ptr set \<Rightarrow> ptr \<Rightarrow> bool" where
  "as_off region as \<longleftrightarrow> (\<forall>w \<in> {as, as + 4, as + 8, as_ptr_at as}. word_aligned w \<and> (\<forall>b \<in> region. off_page w b))"

lemma as_words: "as_ptr_at as \<noteq> as" "as_ptr_at as \<noteq> as + 4" "as_ptr_at as \<noteq> as + 8"
  by (simp_all add: as_ptr_at_def)

definition walk_entries :: "gmem \<Rightarrow> u32 \<Rightarrow> u32 \<Rightarrow> (u32 \<times> bool \<times> bool) option" where
  "walk_entries m e va =
     (if \<not> present e then None
      else
        let t = ld32 m (slot (baseof e) (ptx va)) in
        if \<not> present t then None
        else Some (baseof t OR (va AND mask 12),
                   e AND PTE_U \<noteq> 0 \<and> t AND PTE_U \<noteq> 0, e AND PTE_W \<noteq> 0 \<and> t AND PTE_W \<noteq> 0))"

lemma pt_walk_entries: "pt_walk m cr va = walk_entries m (ld32 m (slot (baseof cr) (pdx va))) va"
  by (simp add: pt_walk_def walk_entries_def present_def Let_def)

lemma pt_walk_base [simp]: "pt_walk m (baseof cr) = pt_walk m cr"
  by (simp add: pt_walk_def fun_eq_iff Let_def)

context page_source
begin

text \<open>
  \<open>protect\<close> gives an address space with no user page, which shares the kernel's tables.
\<close>

lemma protect_empty:
  assumes k: "tables_ok (vmem s) pk" "owned s pk" "kpt s = baseof (ld32 (vmem s) pk)"
    and l: "fst (pgalloc A pgsize (alloc s)) \<noteq> 0" and as: "as_off region as"
  shows "\<exists>s'. protect A as s = Some (Inr s') \<and> realizes (vmem s') (as_ptr_at as) (\<lambda>_. None) \<and> owned s' (as_ptr_at as) \<and>
    left (alloc s) \<le> left (alloc s') + 1 \<and>
    (\<forall>va. pt_walk (vmem s') (ld32 (vmem s') (as_ptr_at as)) va =
       (if pdx va < 256 \<or> 1012 \<le> pdx va then pt_walk (vmem s) (kpt s) va else None))"
proof -
  obtain b a where b: "pgalloc A pgsize (alloc s) = (b, a)" by (cases "pgalloc A pgsize (alloc s)")
  have "b \<noteq> 0" using l b by simp
  then have pg: "inv a" "used (alloc s) \<subseteq> used a" "b \<noteq> 0" "aligned b" "b \<in> region" "b \<notin> used (alloc s)" "b \<in> used a"
      "left (alloc s) \<le> left a + 1"
    using page [OF _ b] k by (auto simp: owned_def)
  have ur: "used a \<subseteq> region" using used_region [OF pg(1)] .
  let ?s1 = "s\<lparr>vmem := zero_page b (vmem s), alloc := a\<rparr>" and ?p = "as_ptr_at as" and ?K = "\<lambda>i. ld32 (vmem s) (slot (kpt s) i)"
  have ku: "kpt s \<in> used (alloc s)" "aligned (kpt s)" "b \<noteq> kpt s" using k pg(6) by (auto simp: owned_def)
  have kd: "?K i = pde (vmem s) pk i" for i by (simp add: pde_def k(3))
  have kt: "baseof (?K i) \<in> used (alloc s) \<and> baseof (?K i) \<noteq> kpt s \<and>
      (\<forall>j < 1024. j \<noteq> i \<longrightarrow> present (?K j) \<longrightarrow> baseof (?K j) \<noteq> baseof (?K i))"
    if "i < 1024" "present (?K i)" for i
    using k that unfolding kd owned_def tables_ok_def by auto
  obtain m where m: "for_areas vm_areas (push_bit (pt_shift (pgtables ! 1)) 1) (copy_kernel_entry b) ?s1 = Some (Inr (?s1\<lparr>vmem := m\<rparr>))"
    and in': "\<And>j. j < 1024 \<Longrightarrow> ld32 m (slot b j) = (if j < 256 \<or> 1012 \<le> j then ld32 (zero_page b (vmem s)) (slot (kpt s) j) else ld32 (zero_page b (vmem s)) (slot b j))"
    and out: "\<And>q. word_aligned q \<Longrightarrow> (\<And>j. j < 1024 \<Longrightarrow> q \<noteq> slot b j) \<Longrightarrow> ld32 m q = ld32 (zero_page b (vmem s)) q"
    using protect_copies [of b ?s1] pg ku by auto
  let ?m = "st32 ?p (b OR PTE_P OR PTE_U) (st32 (as + 8) (area_end uvm_area) (st32 (as + 4) (area_start uvm_area) (st32 as pgsize m)))"
  let ?s' = "?s1\<lparr>vmem := ?m\<rparr>"
  have r: "protect A as s = Some (Inr ?s')"
    using m b pg(3) by (simp add: protect_def pgallocz_eq)
  have frame: "ld32 ?m (slot t j) = ld32 m (slot t j)" if "t \<in> region" "aligned t" "j < 1024" for t j
  proof -
    have w: "word_aligned w \<and> w \<noteq> slot t j" if "w \<in> {as, as + 4, as + 8, ?p}" for w
      using as that \<open>t \<in> region\<close> \<open>j < 1024\<close> unfolding as_off_def off_page_def by metis
    from w [of as] w [of "as + 4"] w [of "as + 8"] w [of ?p] show ?thesis
      using that(2,3) by (simp add: ld_st)
  qed
  have root: "ld32 ?m ?p = b OR PTE_P OR PTE_U" by simp
  have base: "baseof (ld32 ?m ?p) = b" unfolding root using pg by simp
  have e: "pde ?m ?p j = (if j < 256 \<or> 1012 \<le> j then ?K j else 0)" if "j < 1024" for j
  proof -
    have "pde ?m ?p j = ld32 m (slot b j)" unfolding pde_def base using frame pg that by simp
    also have "\<dots> = (if j < 256 \<or> 1012 \<le> j then ?K j else 0)"
      using in' [OF that] pg ku that by (auto simp: ld_zero slot_inj)
    finally show ?thesis .
  qed
  have sub: "ld32 ?m (slot (baseof (?K i)) j) = ld32 (vmem s) (slot (baseof (?K i)) j)"
    if "i < 1024" "present (?K i)" "j < 1024" for i j
  proof -
    have t: "baseof (?K i) \<in> region" "baseof (?K i) \<noteq> b" using kt [OF that(1,2)] pg ur by auto
    then have "ld32 m (slot (baseof (?K i)) j) = ld32 (zero_page b (vmem s)) (slot (baseof (?K i)) j)"
      using that(3) pg by (intro out) (auto simp: slot_inj)
    then show ?thesis using frame [OF t(1) _ that(3)] t that(3) pg by (auto simp: ld_zero slot_inj)
  qed
  have np: "\<not> present 0" by (simp add: present_def)
  have ok: "tables_ok ?m ?p"
  proof -
    have "baseof (pde ?m ?p i) \<noteq> b \<and> off_page ?p (baseof (pde ?m ?p i)) \<and>
        (\<forall>j < 1024. j \<noteq> i \<longrightarrow> present (pde ?m ?p j) \<longrightarrow> baseof (pde ?m ?p j) \<noteq> baseof (pde ?m ?p i))"
      if "i < 1024" "present (pde ?m ?p i)" for i
      using that kt [of i] e np pg ur as unfolding as_off_def by (auto split: if_splits)
    then show ?thesis using as pg base unfolding tables_ok_def as_off_def by (auto simp: root)
  qed
  have walk: "pt_walk ?m (ld32 ?m ?p) va = (if pdx va < 256 \<or> 1012 \<le> pdx va then pt_walk (vmem s) (kpt s) va else None)" for va
  proof -
    have K: "pt_walk (vmem s) (kpt s) va = walk_entries (vmem s) (?K (pdx va)) va"
      using ku by (simp add: pt_walk_entries)
    have "pt_walk ?m (ld32 ?m ?p) va = walk_entries ?m (pde ?m ?p (pdx va)) va"
      by (simp only: pt_walk_entries pde_def)
    then show ?thesis
      using e [of "pdx va"] sub [of "pdx va" "ptx va"] unfolding K by (auto simp: walk_entries_def np Let_def)
  qed
  have "owned ?s' ?p"
    using as pg base ur kt e np unfolding owned_def as_off_def by (auto split: if_splits)
  moreover have "realizes ?m ?p (\<lambda>_. None)"
    unfolding realizes_def vm_ok_def
  proof (intro conjI allI impI ok)
    fix va assume "IN_RANGE va uvm_area"
    then have "256 \<le> pdx va" "pdx va < 512" using user_pdx by blast+
    then show "pt_walk ?m (ld32 ?m ?p) va = abs_walk (\<lambda>_. None) va" unfolding walk by (simp add: abs_walk_def)
  next
    fix i assume "256 \<le> i \<and> i < 512" "present (pde ?m ?p i)"
    then have False using e [of i] np by simp
    then show "pde ?m ?p i AND PTE_U \<noteq> 0" "pde ?m ?p i AND PTE_W \<noteq> 0" by simp_all
  qed
  ultimately show ?thesis using r walk pg by (intro exI [of _ ?s']) simp
qed

end

section \<open>Releasing an address space\<close>

definition user_entry :: "u32 \<Rightarrow> bool" where
  "user_entry e \<longleftrightarrow> e AND PTE_P \<noteq> 0 \<and> e AND PTE_U \<noteq> 0"

lemma teardown_table: "teardown (Suc 0) A pt s = s\<lparr>alloc := pgfree A pt (alloc s)\<rparr>"
proof -
  have f: "fold (\<lambda>index s. let e = ld32 (vmem s) (slot pt index) in
      if e AND PTE_P \<noteq> 0 \<and> e AND PTE_U \<noteq> 0 then teardown 0 A (baseof e) s else s) xs s = s" for xs s
    by (induction xs arbitrary: s) (simp_all add: Let_def)
  show ?thesis
    by (subst teardown.simps(2)) (simp only: f Let_def [of "ptlevels - 0"] Let_def [of "s :: 'a vme" for s], simp add: two_levels)
qed

text \<open>The tables of a directory whose entries allow user accesses, in order.\<close>

definition user_tables :: "gmem \<Rightarrow> ptr \<Rightarrow> ptr list" where
  "user_tables m d = map (\<lambda>i. baseof (ld32 m (slot d i))) (filter (\<lambda>i. user_entry (ld32 m (slot d i))) [0..<1024])"

lemma teardown_dir:
  "teardown (Suc (Suc 0)) A d s = s\<lparr>alloc := fold (pgfree A) (user_tables (vmem s) d @ [d]) (alloc s)\<rparr>"
proof -
  have f: "fold (\<lambda>index s. let e = ld32 (vmem s) (slot d index) in
        if e AND PTE_P \<noteq> 0 \<and> e AND PTE_U \<noteq> 0 then teardown (Suc 0) A (baseof e) s else s) xs s =
      s\<lparr>alloc := fold (pgfree A) (map (\<lambda>i. baseof (ld32 (vmem s) (slot d i))) (filter (\<lambda>i. user_entry (ld32 (vmem s) (slot d i))) xs)) (alloc s)\<rparr>"
    for xs and s :: "'a vme"
    by (induction xs arbitrary: s) (simp_all add: teardown_table user_entry_def Let_def del: teardown.simps)
  have b: "2 ^ pt_bits (pgtables ! (ptlevels - Suc 0)) = (1024 :: nat)" by (simp add: two_levels pgtables_def)
  show ?thesis
    by (subst teardown.simps, unfold Let_def b f [unfolded Let_def]) (simp add: two_levels user_tables_def)
qed

lemma unprotect_eq:
  assumes "user_entry (ld32 (vmem s) (as_ptr_at as))"
  defines "d \<equiv> baseof (ld32 (vmem s) (as_ptr_at as))"
  shows "unprotect A as s = s\<lparr>alloc := fold (pgfree A) (user_tables (vmem s) d @ [d]) (alloc s)\<rparr>"
proof -
  have b: "pt_bits (pgtables ! 0) = 0" by (simp add: pgtables_def)
  show ?thesis
    using assms(1) unfolding unprotect_def two_levels teardown.simps(2) [of "Suc (Suc 0)"] d_def
    by (simp add: b teardown_dir user_entry_def Let_def del: teardown.simps)
qed

lemma user_tables_distinct:
  assumes "tables_ok m p"
  shows "distinct (user_tables m (baseof (ld32 m p)) @ [baseof (ld32 m p)])"
  using assms unfolding user_tables_def tables_ok_def
  by (auto simp: distinct_map inj_on_def pde_def user_entry_def present_def)

section \<open>Properties\<close>

text \<open>
  When \<open>map\<close> succeeds, the processor translates every address of the page \<open>va\<close> to the page
  \<open>pa\<close>, writable as asked (or not at all, when it was unmapped), every other address as before,
  and the tables stay in order.
\<close>

theorem map_page_translates:
  assumes "vm_ok (vmem s) (as_ptr_at as)" and "alloc_ok A as va s"
    and "map_page A as va pa prot s = Inr s'"
  defines "cr \<equiv> ld32 (vmem s) (as_ptr_at as)"
  shows "vm_ok (vmem s') (as_ptr_at as) \<and> ld32 (vmem s') (as_ptr_at as) = cr \<and>
    pt_walk (vmem s') cr va' =
      (if baseof va' = va then
         (if prot = MMAP_NONE then None else Some (pa OR (va' AND mask 12), True, prot AND MMAP_WRITE \<noteq> 0))
       else pt_walk (vmem s) cr va')"
  unfolding cr_def by (rule map_page_eq [OF assms(1-3)])

text \<open>An address space with an empty directory, and an allocator that counts up.\<close>

definition demo_user :: "u32 vme" where
  "demo_user = \<lparr>vmem = st32 (as_ptr_at 0x500) 0x8005 (\<lambda>_. 0), kpt = 0, cr3 = 0, cr0 = 0, alloc = 0x9000\<rparr>"

definition demo_pages :: "u32 pgops" where
  "demo_pages = \<lparr>pgalloc = (\<lambda>n a. (a, a + n)), pgfree = (\<lambda>p a. a)\<rparr>"

lemma demo_root [simp]: "ld32 (vmem demo_user) (as_ptr_at 0x500) = 0x8005" "baseof 0x8005 = 0x8000"
  by (simp_all add: demo_user_def baseof_def pgsize_def)

lemma demo_off: "unat w < 0x8000 \<Longrightarrow> aligned b \<Longrightarrow> 0x8000 \<le> unat b \<Longrightarrow> off_page w b"
  unfolding off_page_def by (metis unat_slot le_add1 le_trans not_le)

lemma demo_word: "word_aligned (as_ptr_at 0x500)"
  by (simp add: word_aligned_def as_ptr_at_def)

lemma demo_pde: "i < 1024 \<Longrightarrow> pde (vmem demo_user) (as_ptr_at 0x500) i = 0"
proof -
  assume i: "i < 1024"
  have a: "aligned (0x8000 :: u32)" by (simp add: aligned_dvd)
  have "off_page (as_ptr_at 0x500) (0x8000 :: u32)" by (rule demo_off) (simp_all add: as_ptr_at_def aligned_dvd)
  then have "as_ptr_at 0x500 \<noteq> slot 0x8000 i" using i unfolding off_page_def by metis
  then have "ld32 (vmem demo_user) (slot 0x8000 i) = ld32 (\<lambda>_. 0) (slot 0x8000 i)"
    using ld_st [OF demo_word word_aligned_slot [OF a i], of "0x8005" "\<lambda>_. 0"] by (simp add: demo_user_def)
  moreover have "ld32 (\<lambda>_. 0) q = 0" for q by (simp add: ld32_def le_word_def)
  ultimately show ?thesis by (simp add: pde_def)
qed

lemma demo_tables: "tables_ok (vmem demo_user) (as_ptr_at 0x500)" "vm_ok (vmem demo_user) (as_ptr_at 0x500)"
proof -
  have "off_page (as_ptr_at 0x500) (0x8000 :: u32)" by (rule demo_off) (simp_all add: as_ptr_at_def aligned_dvd)
  then show t: "tables_ok (vmem demo_user) (as_ptr_at 0x500)"
    by (simp add: tables_ok_def demo_pde present_def demo_word PTE_P_def)
  then show "vm_ok (vmem demo_user) (as_ptr_at 0x500)"
    by (simp add: vm_ok_def demo_pde present_def)
qed

lemma demo_alloc: "alloc_ok demo_pages 0x500 va demo_user"
proof -
  have "off_page (as_ptr_at 0x500) (0x9000 :: u32)" by (rule demo_off) (simp_all add: as_ptr_at_def aligned_dvd)
  then show ?thesis
    by (simp add: alloc_ok_def fresh_page_def demo_pde present_def demo_pages_def aligned_dvd)
      (simp add: demo_user_def aligned_dvd)
qed

lemma demo_map: "\<exists>s'. map_page demo_pages 0x500 0x40000000 0x123000 MMAP_WRITE demo_user = Inr s'"
proof -
  have pg: "pgalloc demo_pages pgsize (alloc demo_user) = (0x9000, 0xa000)"
    by (simp add: demo_pages_def demo_user_def pgsize_def)
  have np: "\<not> present (pde (vmem demo_user) (as_ptr_at 0x500) (pdx 0x40000000))"
    by (simp add: demo_pde present_def)
  obtain e s1 where w: "ptwalk demo_pages 0x500 0x40000000 (PTE_W OR PTE_U) demo_user = Inr (e, s1)"
    using ptwalk_absent [OF demo_tables(1) np pg] by simp
  have n: "pt_walk (vmem demo_user) (ld32 (vmem demo_user) (as_ptr_at 0x500)) 0x40000000 = None"
    using np by (simp add: pt_walk_def pde_def present_def Let_def)
  have r: "IN_RANGE 0x40000000 uvm_area" "baseof 0x40000000 = 0x40000000" "baseof 0x123000 = 0x123000"
    by (simp_all add: IN_RANGE_def uvm_area_def vm_areas_def RANGE_def baseof_def pgsize_def)
  show ?thesis
    using map_page_walk [OF demo_tables(2) demo_alloc r w, of MMAP_WRITE] n by (simp add: MMAP_NONE_def MMAP_WRITE_def)
qed

theorem map_page_translates_witness:
  "\<exists>s'. map_page demo_pages 0x500 0x40000000 0x123000 MMAP_WRITE demo_user = Inr s' \<and>
     pt_walk (vmem s') 0x8005 0x40000abc = Some (0x123abc, True, True)"
proof -
  obtain s' where s': "map_page demo_pages 0x500 0x40000000 0x123000 MMAP_WRITE demo_user = Inr s'"
    using demo_map by blast
  show ?thesis
    using map_page_translates [OF demo_tables(2) demo_alloc s', of "0x40000abc"] s'
    by (simp add: baseof_def pgsize_def MMAP_NONE_def MMAP_WRITE_def mask_eq_exp_minus_1)
qed

text \<open>
  \<open>map\<close> panics instead exactly when the address is outside the user area, an address is not
  that of a page, a table is missing and none can be allocated, a page to map is mapped, or a
  page to unmap is not.
\<close>

theorem map_page_panics:
  assumes "vm_ok (vmem s) (as_ptr_at as)" and "alloc_ok A as va s"
  defines "cr \<equiv> ld32 (vmem s) (as_ptr_at as)"
  shows "(\<exists>msg. map_page A as va pa prot s = Inl (Panic msg)) \<longleftrightarrow>
    \<not> IN_RANGE va uvm_area \<or> baseof va \<noteq> va \<or> baseof pa \<noteq> pa \<or>
    (\<not> present (pde (vmem s) (as_ptr_at as) (pdx va)) \<and> fst (pgalloc A pgsize (alloc s)) = 0) \<or>
    (pt_walk (vmem s) cr va = None) = (prot = MMAP_NONE)"
proof (cases "IN_RANGE va uvm_area \<and> baseof va = va \<and> baseof pa = pa")
  case True
  then have r: "IN_RANGE va uvm_area" "baseof va = va" "baseof pa = pa" by simp_all
  have t: "tables_ok (vmem s) (as_ptr_at as)" using assms(1) by (simp add: vm_ok_def)
  show ?thesis
  proof (cases "\<not> present (pde (vmem s) (as_ptr_at as) (pdx va)) \<and> fst (pgalloc A pgsize (alloc s)) = 0")
    case True
    then have "ptwalk A as va (PTE_W OR PTE_U) s = Inl (Panic ''cannot allocate page'')"
      using ptwalk_absent [OF t] by (cases "pgalloc A pgsize (alloc s)") simp
    then show ?thesis using True r by (simp add: map_page_def ROUNDDOWN_page)
  next
    case False
    then obtain e s1 where "ptwalk A as va (PTE_W OR PTE_U) s = Inr (e, s1)"
      using ptwalk_present [OF t, of va A] ptwalk_absent [OF t, of va A]
      by (cases "pgalloc A pgsize (alloc s)"; cases "present (pde (vmem s) (as_ptr_at as) (pdx va))") fastforce+
    then show ?thesis using map_page_walk [OF assms(1,2) r] r False by (simp add: cr_def)
  qed
next
  case False
  then show ?thesis by (auto simp: map_page_def ROUNDDOWN_page guardR_def)
qed

theorem map_page_panics_witness:
  "\<exists>msg. map_page demo_pages 0x500 0x40000001 0x123000 MMAP_WRITE demo_user = Inl (Panic msg)"
  by (subst map_page_panics [OF demo_tables(2) demo_alloc]) (simp add: baseof_def pgsize_def)

definition demo_vme :: "allocator vme" where
  "demo_vme = \<lparr>vmem = (\<lambda>_. 0), kpt = 0, cr3 = 0, cr0 = 0x11,
     alloc = \<lparr>next_addr = 0, malloc_initialized = False\<rparr>\<rparr>"

definition demo_heap :: Area where "demo_heap = RANGE 0x100000 0x2000000"

lemma demo_heap_ok: "pages_inv demo_heap (alloc demo_vme)" "269 \<le> pages_left demo_heap (alloc demo_vme)"
  by (simp_all add: pages_inv_def pages_left_def next_page_def demo_heap_def demo_vme_def RANGE_def aligned_dvd)

lemma below_heap:
  assumes "unat w < 0x100000" "b \<in> heap_region demo_heap"
  shows "off_page w b"
  unfolding off_page_def
proof (intro allI impI notI)
  fix j :: nat assume "j < 1024" "slot b j = w"
  moreover have "aligned b" "0x100000 \<le> unat b"
    using assms(2) by (simp_all add: heap_region_def demo_heap_def RANGE_def word_le_nat_alt)
  ultimately show False using assms(1) unat_slot [of b j] by simp
qed

lemma demo_as: "as_off (heap_region demo_heap) 0x500" "as_off (heap_region demo_heap) 0x600"
  by (auto simp: as_off_def as_ptr_at_def word_aligned_def intro!: below_heap)

text \<open>
  C15. \<open>vme_init\<close> with the class library's \<open>malloc\<close> as page allocator and room for 269 pages:
  it returns, paging is on, and the processor translates the first GiB and the device area at
  the top to themselves, writable and for the kernel only; every other address faults.
\<close>

theorem vme_init_maps_kernel:
  assumes "pages_inv heap (alloc s)" and "269 \<le> pages_left heap (alloc s)" and "as_off (heap_region heap) as"
  shows "\<exists>s'. vme_init (malloc_pages heap) 0 as s = Some (Inr (True, s')) \<and> cr0 s' = cr0 s OR CR0_PG \<and> kpt s' = cr3 s' \<and>
    (\<forall>va. pt_walk (vmem s') (cr3 s') va =
       (if unat va < 0x40000000 \<or> 0xfd000000 \<le> unat va then Some (va, False, True) else None))"
proof -
  obtain s' where s': "vme_init (malloc_pages heap) 0 as s = Some (Inr (True, s'))"
    and id: "mp.identity heap 0 s' (as_ptr_at as) ({0..<262144} \<union> {1036288..<1048576})"
    and k: "kpt s' = baseof (ld32 (vmem s') (as_ptr_at as))" "cr3 s' = kpt s'" "cr0 s' = cr0 s OR CR0_PG"
  proof -
    have "word_aligned (as_ptr_at as)" "\<forall>b \<in> heap_region heap. off_page (as_ptr_at as) b"
      using assms(3) by (auto simp: as_off_def)
    from mp.vme_init_identity [OF assms(1) _ this, of 0] assms(2) show thesis using that by auto
  qed
  have "page_no va \<in> {0..<262144} \<union> {1036288..<1048576} \<longleftrightarrow> unat va < 0x40000000 \<or> 0xfd000000 \<le> unat va" for va :: u32
    using unat_bound32 [of va] by (auto simp: page_no_def div_less_iff_less_mult less_eq_div_iff_mult_less_eq)
  then show ?thesis using s' id k by (auto simp: mp.identity_def)
qed

theorem vme_init_maps_kernel_witness:
  "\<exists>s'. vme_init (malloc_pages demo_heap) 0 0x500 demo_vme = Some (Inr (True, s')) \<and>
     pt_walk (vmem s') (cr3 s') 0x12345678 = Some (0x12345678, False, True) \<and> pt_walk (vmem s') (cr3 s') 0x50000000 = None"
proof -
  obtain s' where "vme_init (malloc_pages demo_heap) 0 0x500 demo_vme = Some (Inr (True, s'))"
    and w: "\<And>va. pt_walk (vmem s') (cr3 s') va = (if unat va < 0x40000000 \<or> 0xfd000000 \<le> unat va then Some (va, False, True) else None)"
    using vme_init_maps_kernel [OF demo_heap_ok demo_as(1)] by blast
  then show ?thesis using w [of "0x12345678"] w [of "0x50000000"] by simp
qed


text \<open>
  C7. A new address space refines a map of pages: after \<open>vme_init\<close> and \<open>protect\<close>, and after any
  sequence of calls of \<open>map\<close> that succeeds, the processor translates every user address as the
  map that the calls describe says, and every other address as the kernel does.
\<close>

theorem address_space_refines:
  assumes "pages_inv heap (alloc s)" and "269 \<le> pages_left heap (alloc s)"
    and "as_off (heap_region heap) kas" and "as_off (heap_region heap) as"
    and "vme_init (malloc_pages heap) 0 kas s = Some (Inr (r, s1))"
    and "protect (malloc_pages heap) as s1 = Some (Inr s2)"
    and "map_pages (malloc_pages heap) as ops s2 = Inr s3"
  shows "pt_walk (vmem s3) (ld32 (vmem s3) (as_ptr_at as)) va =
    (if IN_RANGE va uvm_area then abs_walk (foldl abs_map (\<lambda>_. None) ops) va
     else if unat va < 0x40000000 \<or> 0xfd000000 \<le> unat va then Some (va, False, True) else None)"
proof -
  have k0: "word_aligned (as_ptr_at kas)" "\<forall>b \<in> heap_region heap. off_page (as_ptr_at kas) b"
    using assms(3) by (auto simp: as_off_def)
  obtain s' where s': "vme_init (malloc_pages heap) 0 kas s = Some (Inr (True, s'))"
    and id: "mp.identity heap 0 s' (as_ptr_at kas) ({0..<262144} \<union> {1036288..<1048576})"
    and k: "kpt s' = baseof (ld32 (vmem s') (as_ptr_at kas))"
    using mp.vme_init_identity [OF assms(1) _ k0, of 0] assms(2) by (metis add_0_right)
  have eq: "s' = s1" using s' assms(5) by simp
  have ok: "tables_ok (vmem s1) (as_ptr_at kas)" "mp.owned heap s1 (as_ptr_at kas)"
    using id by (simp_all add: mp.identity_def eq)
  have kw: "pt_walk (vmem s1) (kpt s1) va = (if unat va < 0x40000000 \<or> 0xfd000000 \<le> unat va then Some (va, False, True) else None)" for va
    using id unat_bound32 [of va] k
    by (auto simp: mp.identity_def page_no_def div_less_iff_less_mult less_eq_div_iff_mult_less_eq eq)
  obtain s2' where s2': "protect (malloc_pages heap) as s1 = Some (Inr s2')"
    and re: "realizes (vmem s2') (as_ptr_at as) (\<lambda>_. None)" and ow: "mp.owned heap s2' (as_ptr_at as)"
    and pw: "\<And>va. pt_walk (vmem s2') (ld32 (vmem s2') (as_ptr_at as)) va =
       (if pdx va < 256 \<or> 1012 \<le> pdx va then pt_walk (vmem s1) (kpt s1) va else None)"
      proof -
    have "fst (pgalloc (malloc_pages heap) pgsize (alloc s1)) \<noteq> 0"
      using assms(6) by (auto simp: protect_def pgallocz_def guardR_def split: prod.splits if_splits)
    from mp.protect_empty [OF ok _ this assms(4)] k show thesis using that unfolding eq by blast
  qed
  have "s2' = s2" using s2' assms(6) by simp
  note m = mp.map_pages_realizes [OF re ow, unfolded this, OF assms(7)]
  have d: "pdx va < 256 \<longleftrightarrow> unat va < 0x40000000" "1012 \<le> pdx va \<longleftrightarrow> 0xfd000000 \<le> unat va"
    by (auto simp: pdx_def div_less_iff_less_mult less_eq_div_iff_mult_less_eq)
  show ?thesis using m pw [of va] kw [of va] d \<open>s2' = s2\<close> by (auto simp: realizes_def)
qed

theorem address_space_refines_witness:
  "\<exists>s1 s2 s3. vme_init (malloc_pages demo_heap) 0 0x500 demo_vme = Some (Inr (True, s1)) \<and>
     protect (malloc_pages demo_heap) 0x600 s1 = Some (Inr s2) \<and>
     map_pages (malloc_pages demo_heap) 0x600 [(0x40000000, 0x123000, MMAP_WRITE)] s2 = Inr s3 \<and>
     pt_walk (vmem s3) (ld32 (vmem s3) (as_ptr_at 0x600)) 0x40000abc = Some (0x123abc, True, True)"
proof -
  have k0: "word_aligned (as_ptr_at 0x500)" "\<forall>b \<in> heap_region demo_heap. off_page (as_ptr_at 0x500) b"
    using demo_as(1) by (auto simp: as_off_def)
  have l: "269 + 2 \<le> pages_left demo_heap (alloc demo_vme)"
    by (simp add: pages_left_def next_page_def demo_heap_def demo_vme_def RANGE_def)
  obtain s1 where s1: "vme_init (malloc_pages demo_heap) 0 0x500 demo_vme = Some (Inr (True, s1))"
    and id: "mp.identity demo_heap 2 s1 (as_ptr_at 0x500) ({0..<262144} \<union> {1036288..<1048576})"
    and k: "kpt s1 = baseof (ld32 (vmem s1) (as_ptr_at 0x500))"
    using mp.vme_init_identity [OF demo_heap_ok(1) l k0] by blast
  have ok: "tables_ok (vmem s1) (as_ptr_at 0x500)" "mp.owned demo_heap s1 (as_ptr_at 0x500)" "2 \<le> pages_left demo_heap (alloc s1)"
    using id by (simp_all add: mp.identity_def)
  have "fst (pgalloc (malloc_pages demo_heap) pgsize (alloc s1)) \<noteq> 0"
    using mp.page [of demo_heap "alloc s1"] ok(2,3)
    by (cases "pgalloc (malloc_pages demo_heap) pgsize (alloc s1)") (fastforce simp: mp.owned_def)
  from mp.protect_empty [OF ok(1,2) k this demo_as(2)]
  obtain s2 where s2: "protect (malloc_pages demo_heap) 0x600 s1 = Some (Inr s2)" "realizes (vmem s2) (as_ptr_at 0x600) (\<lambda>_. None)"
      "mp.owned demo_heap s2 (as_ptr_at 0x600)" "pages_left demo_heap (alloc s1) \<le> pages_left demo_heap (alloc s2) + 1"
    by blast
  have v: "vm_ok (vmem s2) (as_ptr_at 0x600)" using s2(2) by (simp add: realizes_def)
  then obtain e t where w: "ptwalk (malloc_pages demo_heap) 0x600 0x40000000 (PTE_W OR PTE_U) s2 = Inr (e, t)"
    using mp.ptwalk_enough [OF _ s2(3), of "0x40000000"] s2(4) ok(3) by (fastforce simp: vm_ok_def)
  have r: "IN_RANGE 0x40000000 uvm_area" "baseof 0x40000000 = 0x40000000" "baseof 0x123000 = 0x123000" "IN_RANGE 0x40000abc uvm_area"
    by (simp_all add: IN_RANGE_def uvm_area_def vm_areas_def RANGE_def baseof_def pgsize_def)
  have "pt_walk (vmem s2) (ld32 (vmem s2) (as_ptr_at 0x600)) 0x40000000 = None"
    using s2(2) r(1) by (simp add: realizes_def abs_walk_def)
  then obtain s3 where s3: "map_pages (malloc_pages demo_heap) 0x600 [(0x40000000, 0x123000, MMAP_WRITE)] s2 = Inr s3"
    using map_page_walk [OF v mp.owned_alloc_ok [OF s2(3)] r(1-3) w, of MMAP_WRITE] by (simp add: MMAP_NONE_def MMAP_WRITE_def)
  from address_space_refines [OF demo_heap_ok demo_as s1 s2(1) s3, of "0x40000abc"] show ?thesis
    using s1 s2(1) s3 r(4)
    by (simp add: abs_walk_def abs_map_def baseof_def pgsize_def MMAP_NONE_def MMAP_WRITE_def mask_eq_exp_minus_1)
qed

text \<open>
  \<open>unprotect\<close> releases the page directory of an address space and the tables its user entries
  point to, each once, and no table of the kernel.
\<close>

theorem unprotect_frees:
  assumes "tables_ok (vmem s) (as_ptr_at as)" and "user_entry (ld32 (vmem s) (as_ptr_at as))"
  shows "\<exists>ps. unprotect A as s = s\<lparr>alloc := fold (pgfree A) ps (alloc s)\<rparr> \<and> distinct ps \<and>
    set ps = {baseof (ld32 (vmem s) (as_ptr_at as))} \<union>
      {baseof (pde (vmem s) (as_ptr_at as) i) |i. i < 1024 \<and> user_entry (pde (vmem s) (as_ptr_at as) i)}"
  using unprotect_eq [OF assms(2), of A] user_tables_distinct [OF assms(1)]
  by (intro exI [of _ "user_tables (vmem s) (baseof (ld32 (vmem s) (as_ptr_at as))) @ [baseof (ld32 (vmem s) (as_ptr_at as))]"])
    (auto simp: user_tables_def pde_def)

theorem unprotect_frees_witness:
  "\<exists>ps. unprotect demo_pages 0x500 demo_user = demo_user\<lparr>alloc := fold (pgfree demo_pages) ps (alloc demo_user)\<rparr> \<and> set ps = {0x8000}"
proof -
  have u: "user_entry (ld32 (vmem demo_user) (as_ptr_at 0x500))" by (simp add: user_entry_def pte_bits)
  have n: "\<not> user_entry 0" by (simp add: user_entry_def)
  have e: "{baseof (pde (vmem demo_user) (as_ptr_at 0x500) i) |i. i < 1024 \<and> user_entry (pde (vmem demo_user) (as_ptr_at 0x500) i)} = {}"
    using n by (auto simp: demo_pde)
  show ?thesis using unprotect_frees [OF demo_tables(1) u, of demo_pages] unfolding e by auto
qed

end
