(* ===== verification/X86_Desc.thy ===== *)
theory X86_Desc
  imports X86_Vme
begin

text \<open>
  Segment and gate descriptors of the 32-bit x86 platform (\<open>am/src/x86/x86.h\<close>): the bit fields and
  the macros that fill them, the list of interrupts, and what the processor reads from a
  descriptor.
\<close>

section \<open>Constants and selectors\<close>

definition DPL_KERN :: u32 where "DPL_KERN = 0"
definition STA_X :: u32 where "STA_X = 0x8"
definition STA_W :: u32 where "STA_W = 0x2"
definition STA_R :: u32 where "STA_R = 0x2"
definition STS_T32A :: u32 where "STS_T32A = 0x9"
definition STS_TG :: u32 where "STS_TG = 0xf"

definition NR_SEG :: u32 where "NR_SEG = 6"
definition SEG_KCODE :: u32 where "SEG_KCODE = 1"
definition SEG_KDATA :: u32 where "SEG_KDATA = 2"
definition SEG_TSS :: u32 where "SEG_TSS = 5"
definition NR_IRQ :: nat where "NR_IRQ = 256"

definition KSEL :: "u32 \<Rightarrow> u32" where
  "KSEL seg = push_bit 3 seg OR DPL_KERN"

section \<open>Segment descriptors\<close>

text \<open>The bit fields, each as wide as declared: storing a value in one cuts it to its width.\<close>

record SegDesc =
  lim_15_0 :: u16
  base_15_0 :: u16
  base_23_16 :: u8
  sd_type :: "4 word"
  sd_s :: "1 word"
  sd_dpl :: "2 word"
  sd_p :: "1 word"
  lim_19_16 :: "4 word"
  sd_avl :: "1 word"
  sd_l :: "1 word"
  sd_db :: "1 word"
  sd_g :: "1 word"
  base_31_24 :: u8

definition SEG16 :: "u32 \<Rightarrow> u32 \<Rightarrow> u32 \<Rightarrow> u32 \<Rightarrow> SegDesc" where
  "SEG16 type' base lim dpl =
     \<lparr>lim_15_0 = ucast (lim AND 0xffff), base_15_0 = ucast (base AND 0xffff),
      base_23_16 = ucast (drop_bit 16 base AND 0xff), sd_type = ucast type', sd_s = 0, sd_dpl = ucast dpl, sd_p = 1,
      lim_19_16 = ucast (drop_bit 16 lim), sd_avl = 0, sd_l = 0, sd_db = 1, sd_g = 0,
      base_31_24 = ucast (drop_bit 24 base)\<rparr>"

definition SEG32 :: "u32 \<Rightarrow> u32 \<Rightarrow> u32 \<Rightarrow> u32 \<Rightarrow> SegDesc" where
  "SEG32 type' base lim dpl =
     \<lparr>lim_15_0 = ucast (drop_bit 12 lim AND 0xffff), base_15_0 = ucast (base AND 0xffff),
      base_23_16 = ucast (drop_bit 16 base AND 0xff), sd_type = ucast type', sd_s = 1, sd_dpl = ucast dpl, sd_p = 1,
      lim_19_16 = ucast (drop_bit 28 lim), sd_avl = 0, sd_l = 0, sd_db = 1, sd_g = 1,
      base_31_24 = ucast (drop_bit 24 base)\<rparr>"

text \<open>The fields in memory: two words, filled from the lowest bit up.\<close>

definition seg_lo :: "SegDesc \<Rightarrow> u32" where
  "seg_lo d = ucast (lim_15_0 d) OR push_bit 16 (ucast (base_15_0 d))"

definition seg_hi :: "SegDesc \<Rightarrow> u32" where
  "seg_hi d =
     ucast (base_23_16 d) OR push_bit 8 (ucast (sd_type d)) OR push_bit 12 (ucast (sd_s d)) OR
     push_bit 13 (ucast (sd_dpl d)) OR push_bit 15 (ucast (sd_p d)) OR push_bit 16 (ucast (lim_19_16 d)) OR
     push_bit 20 (ucast (sd_avl d)) OR push_bit 21 (ucast (sd_l d)) OR push_bit 22 (ucast (sd_db d)) OR
     push_bit 23 (ucast (sd_g d)) OR push_bit 24 (ucast (base_31_24 d))"

section \<open>Gate descriptors\<close>

record GateDesc32 =
  off_15_0 :: u16
  gd_cs :: u16
  gd_args :: "5 word"
  gd_rsv1 :: "3 word"
  gd_type :: "4 word"
  gd_s :: "1 word"
  gd_dpl :: "2 word"
  gd_p :: "1 word"
  off_31_16 :: u16

definition GATE32 :: "u32 \<Rightarrow> u32 \<Rightarrow> u32 \<Rightarrow> u32 \<Rightarrow> GateDesc32" where
  "GATE32 type' cs entry dpl =
     \<lparr>off_15_0 = ucast (entry AND 0xffff), gd_cs = ucast cs, gd_args = 0, gd_rsv1 = 0, gd_type = ucast type',
      gd_s = 0, gd_dpl = ucast dpl, gd_p = 1, off_31_16 = ucast (drop_bit 16 entry)\<rparr>"

definition gate_lo :: "GateDesc32 \<Rightarrow> u32" where
  "gate_lo d = ucast (off_15_0 d) OR push_bit 16 (ucast (gd_cs d))"

definition gate_hi :: "GateDesc32 \<Rightarrow> u32" where
  "gate_hi d =
     ucast (gd_args d) OR push_bit 5 (ucast (gd_rsv1 d)) OR push_bit 8 (ucast (gd_type d)) OR
     push_bit 12 (ucast (gd_s d)) OR push_bit 13 (ucast (gd_dpl d)) OR push_bit 15 (ucast (gd_p d)) OR
     push_bit 16 (ucast (off_31_16 d))"

section \<open>The interrupts\<close>

text \<open>Vector, whether user code may raise it, and whether the processor pushes an error code.\<close>

definition IRQS :: "(nat \<times> bool \<times> bool) list" where
  "IRQS =
    [(0, False, False), (1, False, False), (2, False, False), (3, False, False), (4, False, False),
     (5, False, False), (6, False, False), (7, False, False), (8, False, True), (9, False, False),
     (10, False, True), (11, False, True), (12, False, True), (13, False, True), (14, False, True),
     (15, False, False), (16, False, False), (19, False, False), (31, False, False), (32, False, False),
     (33, False, False), (34, False, False), (35, False, False), (36, False, False), (37, False, False),
     (38, False, False), (39, False, False), (40, False, False), (41, False, False), (42, False, False),
     (43, False, False), (44, False, False), (45, False, False), (46, False, False), (47, False, False),
     (128, True, False), (129, True, False)]"

section \<open>What the processor reads\<close>

text \<open>Base, limit and access rights of a segment, and target and access rights of a gate.\<close>

definition seg_base :: "u32 \<Rightarrow> u32 \<Rightarrow> u32" where
  "seg_base lo hi = drop_bit 16 lo OR push_bit 16 (take_bit 8 hi) OR push_bit 24 (drop_bit 24 hi)"

definition seg_limit :: "u32 \<Rightarrow> u32 \<Rightarrow> u32" where
  "seg_limit lo hi =
     (let l = take_bit 16 lo OR push_bit 16 (take_bit 4 (drop_bit 16 hi))
      in if bit hi 23 then push_bit 12 l OR mask 12 else l)"

definition gate_target :: "u32 \<Rightarrow> u32 \<Rightarrow> u32" where
  "gate_target lo hi = take_bit 16 lo OR push_bit 16 (drop_bit 16 hi)"

definition desc_dpl :: "u32 \<Rightarrow> u32" where "desc_dpl hi = take_bit 2 (drop_bit 13 hi)"
definition desc_type :: "u32 \<Rightarrow> u32" where "desc_type hi = take_bit 5 (drop_bit 8 hi)"

lemma cut_mask [simp]: "ucast (x AND 0xffff :: u32) = (ucast x :: u16)" "ucast (x AND 0xff :: u32) = (ucast x :: u8)"
proof -
  have "(0xffff :: u32) = mask 16" "(0xff :: u32) = mask 8" by (simp_all add: mask_eq_exp_minus_1)
  show "ucast (x AND 0xffff :: u32) = (ucast x :: u16)" "ucast (x AND 0xff :: u32) = (ucast x :: u8)"
    unfolding \<open>(0xffff :: u32) = mask 16\<close> \<open>(0xff :: u32) = mask 8\<close>
    by (auto intro!: bit_word_eqI simp: bit_and_iff bit_mask_iff bit_unsigned_iff simp del: mask_numeral)
qed

text \<open>Bits above the width of a field are zero.\<close>

lemma field_bits:
  "1 \<le> n \<Longrightarrow> \<not> bit (w1 :: 1 word) n" "2 \<le> n \<Longrightarrow> \<not> bit (w2 :: 2 word) n" "3 \<le> n \<Longrightarrow> \<not> bit (w3 :: 3 word) n"
  "4 \<le> n \<Longrightarrow> \<not> bit (w4 :: 4 word) n" "5 \<le> n \<Longrightarrow> \<not> bit (w5 :: 5 word) n" "8 \<le> n \<Longrightarrow> \<not> bit (w8 :: u8) n"
  "16 \<le> n \<Longrightarrow> \<not> bit (w16 :: u16) n" "32 \<le> n \<Longrightarrow> \<not> bit (w32 :: u32) n"
  by (auto dest!: bit_imp_le_length)

lemmas bits_of_or = bit_or_iff bit_push_bit_iff bit_unsigned_iff field_bits

lemma gate_bits:
  "n < 16 \<Longrightarrow> bit (gate_lo d) n = bit (off_15_0 d) n"
  "16 \<le> n \<Longrightarrow> n < 32 \<Longrightarrow> bit (gate_lo d) n = bit (gd_cs d) (n - 16)"
  "16 \<le> n \<Longrightarrow> n < 32 \<Longrightarrow> bit (gate_hi d) n = bit (off_31_16 d) (n - 16)"
  "bit (gate_hi d) 15 = bit (gd_p d) 0"
  "13 \<le> n \<Longrightarrow> n < 15 \<Longrightarrow> bit (gate_hi d) n = bit (gd_dpl d) (n - 13)"
  "bit (gate_hi d) 12 = bit (gd_s d) 0"
  "8 \<le> n \<Longrightarrow> n < 12 \<Longrightarrow> bit (gate_hi d) n = bit (gd_type d) (n - 8)"
  by (simp_all add: gate_lo_def gate_hi_def bits_of_or less_imp_diff_less)

lemma seg_bits:
  "n < 16 \<Longrightarrow> bit (seg_lo d) n = bit (lim_15_0 d) n"
  "16 \<le> n \<Longrightarrow> n < 32 \<Longrightarrow> bit (seg_lo d) n = bit (base_15_0 d) (n - 16)"
  "n < 8 \<Longrightarrow> bit (seg_hi d) n = bit (base_23_16 d) n"
  "8 \<le> n \<Longrightarrow> n < 12 \<Longrightarrow> bit (seg_hi d) n = bit (sd_type d) (n - 8)"
  "bit (seg_hi d) 12 = bit (sd_s d) 0"
  "13 \<le> n \<Longrightarrow> n < 15 \<Longrightarrow> bit (seg_hi d) n = bit (sd_dpl d) (n - 13)"
  "bit (seg_hi d) 15 = bit (sd_p d) 0"
  "16 \<le> n \<Longrightarrow> n < 20 \<Longrightarrow> bit (seg_hi d) n = bit (lim_19_16 d) (n - 16)"
  "bit (seg_hi d) 23 = bit (sd_g d) 0"
  "24 \<le> n \<Longrightarrow> n < 32 \<Longrightarrow> bit (seg_hi d) n = bit (base_31_24 d) (n - 24)"
  by (simp_all add: seg_lo_def seg_hi_def bits_of_or less_imp_diff_less)

text \<open>The processor jumps where the gate was made for, with its rights.\<close>

lemma GATE32_target:
  "gate_target (gate_lo (GATE32 ty cs entry dpl)) (gate_hi (GATE32 ty cs entry dpl)) = entry"
proof (rule bit_word_eqI)
  fix n
  assume "n < LENGTH(32)"
  then show "bit (gate_target (gate_lo (GATE32 ty cs entry dpl)) (gate_hi (GATE32 ty cs entry dpl))) n = bit entry n"
    by (cases "n < 16")
      (simp_all add: gate_target_def bit_or_iff bit_take_bit_iff bit_push_bit_iff bit_drop_bit_eq gate_bits GATE32_def
        bit_unsigned_iff less_diff_conv2)
qed

lemma GATE32_rights:
  "desc_dpl (gate_hi (GATE32 ty cs entry dpl)) = take_bit 2 dpl" (is ?dpl)
  "desc_type (gate_hi (GATE32 ty cs entry dpl)) = take_bit 4 ty" (is ?type)
  "drop_bit 16 (gate_lo (GATE32 ty cs entry dpl)) = take_bit 16 cs" (is ?cs)
  "bit (gate_hi (GATE32 ty cs entry dpl)) 15" (is ?present)
proof -
  let ?g = "GATE32 ty cs entry dpl"
  show ?dpl
  proof (rule bit_word_eqI)
    fix n
    show "bit (desc_dpl (gate_hi ?g)) n = bit (take_bit 2 dpl) n"
      by (cases "n < 2") (simp_all add: desc_dpl_def bit_take_bit_iff bit_drop_bit_eq gate_bits GATE32_def bit_unsigned_iff)
  qed
  show ?type
  proof (rule bit_word_eqI)
    fix n :: nat
    consider "n < 4" | "n = 4" | "5 \<le> n" by linarith
    then show "bit (desc_type (gate_hi ?g)) n = bit (take_bit 4 ty) n"
      by cases (simp_all add: desc_type_def bit_take_bit_iff bit_drop_bit_eq gate_bits GATE32_def bit_unsigned_iff)
  qed
  show ?cs
  proof (rule bit_word_eqI)
    fix n
    show "bit (drop_bit 16 (gate_lo ?g)) n = bit (take_bit 16 cs) n"
      by (cases "n < 16") (auto simp: bit_take_bit_iff bit_drop_bit_eq gate_bits GATE32_def bit_unsigned_iff dest: bit_imp_le_length)
  qed
  show ?present by (simp add: gate_bits GATE32_def)
qed

text \<open>A segment of \<open>SEG32\<close> has its base and, counted in pages, its limit; one of \<open>SEG16\<close> its limit in bytes.\<close>

lemma seg_base_eq:
  assumes "base_15_0 d = ucast base" "base_23_16 d = ucast (drop_bit 16 base)" "base_31_24 d = ucast (drop_bit 24 base)"
  shows "seg_base (seg_lo d) (seg_hi d) = base"
proof (rule bit_word_eqI)
  fix n :: nat
  assume "n < LENGTH(32)"
  then consider "n < 16" | "16 \<le> n" "n < 24" | "24 \<le> n" "n < 32" by fastforce
  then show "bit (seg_base (seg_lo d) (seg_hi d)) n = bit base n"
    by cases (simp_all add: seg_base_def assms bit_or_iff bit_take_bit_iff bit_push_bit_iff bit_drop_bit_eq seg_bits
        bit_unsigned_iff less_diff_conv2 field_bits add.commute)
qed

lemma SEG_base:
  "seg_base (seg_lo (SEG32 ty base lim dpl)) (seg_hi (SEG32 ty base lim dpl)) = base"
  "seg_base (seg_lo (SEG16 ty base lim dpl)) (seg_hi (SEG16 ty base lim dpl)) = base"
  by (rule seg_base_eq; simp add: SEG32_def SEG16_def)+

lemma SEG16_limit:
  assumes "lim < 2 ^ 20"
  shows "seg_limit (seg_lo (SEG16 ty base lim dpl)) (seg_hi (SEG16 ty base lim dpl)) = lim"
proof -
  have "unat lim < 2 ^ 20" using assms by (simp add: word_less_nat_alt)
  then have high: "\<forall>i\<ge>20. \<not> bit lim i" unfolding unat_lt_pow2_iff_bits .
  have "take_bit 16 (seg_lo (SEG16 ty base lim dpl)) OR push_bit 16 (take_bit 4 (drop_bit 16 (seg_hi (SEG16 ty base lim dpl)))) = lim"
  proof (rule bit_word_eqI)
    fix n :: nat
    assume "n < LENGTH(32)"
    then consider "n < 16" | "16 \<le> n" "n < 20" | "20 \<le> n" "n < 32" by fastforce
    then show "bit (take_bit 16 (seg_lo (SEG16 ty base lim dpl)) OR
        push_bit 16 (take_bit 4 (drop_bit 16 (seg_hi (SEG16 ty base lim dpl))))) n = bit lim n"
      using high by cases (simp_all add: bit_or_iff bit_take_bit_iff bit_push_bit_iff bit_drop_bit_eq seg_bits SEG16_def
          bit_unsigned_iff less_diff_conv2)
  qed
  moreover have "\<not> bit (seg_hi (SEG16 ty base lim dpl)) 23" by (simp add: seg_bits SEG16_def)
  ultimately show ?thesis by (simp add: seg_limit_def)
qed

lemma SEG32_limit:
  "seg_limit (seg_lo (SEG32 ty base lim dpl)) (seg_hi (SEG32 ty base lim dpl)) = lim OR mask 12"
proof -
  have "push_bit 12 (take_bit 16 (seg_lo (SEG32 ty base lim dpl)) OR
      push_bit 16 (take_bit 4 (drop_bit 16 (seg_hi (SEG32 ty base lim dpl))))) OR mask 12 = lim OR mask 12"
  proof (rule bit_word_eqI)
    fix n :: nat
    assume "n < LENGTH(32)"
    then consider "n < 12" | "12 \<le> n" "n < 28" | "28 \<le> n" "n < 32" by fastforce
    then show "bit (push_bit 12 (take_bit 16 (seg_lo (SEG32 ty base lim dpl)) OR
      push_bit 16 (take_bit 4 (drop_bit 16 (seg_hi (SEG32 ty base lim dpl))))) OR mask 12) n = bit (lim OR mask 12) n"
      by cases (simp_all add: bit_or_iff bit_take_bit_iff bit_push_bit_iff bit_drop_bit_eq bit_mask_iff seg_bits SEG32_def
          bit_unsigned_iff less_diff_conv2 le_diff_conv2 del: push_bit_or mask_numeral)
  qed
  moreover have "bit (seg_hi (SEG32 ty base lim dpl)) 23" by (simp add: seg_bits SEG32_def)
  ultimately show ?thesis by (simp add: seg_limit_def del: push_bit_or mask_numeral)
qed

lemma SEG_rights:
  assumes "d = SEG32 ty base lim dpl \<or> d = SEG16 ty base lim dpl"
  shows "desc_dpl (seg_hi d) = take_bit 2 dpl" "bit (seg_hi d) 15"
proof -
  have f: "sd_dpl d = ucast dpl" "sd_p d = 1" using assms by (auto simp: SEG32_def SEG16_def)
  show "desc_dpl (seg_hi d) = take_bit 2 dpl"
  proof (rule bit_word_eqI)
    fix n
    show "bit (desc_dpl (seg_hi d)) n = bit (take_bit 2 dpl) n"
      by (cases "n < 2") (simp_all add: desc_dpl_def bit_take_bit_iff bit_drop_bit_eq seg_bits f bit_unsigned_iff)
  qed
  show "bit (seg_hi d) 15" by (simp add: seg_bits f)
qed

end
