(* ===== verification/X86_Ioe.thy ===== *)
theory X86_Ioe
  imports Am_Types
begin

text \<open>
  The devices of the x86 platform, \<open>am/src/x86/qemu/ioe.c\<close>: serial port, clock, keyboard, frame
  buffer, canvas rendering, disk, and the interrupt controllers.  The processor's port and memory
  accesses to the hardware (\<open>x86.h\<close>) are parameters with a state of their own; RAM is a byte
  memory that holds the frame buffer, the video memory and the client's buffers.
\<close>

section \<open>Hardware accesses (\<open>x86.h\<close>) and state\<close>

record 'p hw =
  in8 :: "u16 \<Rightarrow> 'p \<Rightarrow> u8 \<times> 'p"
  in32 :: "u16 \<Rightarrow> 'p \<Rightarrow> u32 \<times> 'p"
  out8 :: "u16 \<Rightarrow> u8 \<Rightarrow> 'p \<Rightarrow> 'p"
  out16 :: "u16 \<Rightarrow> u16 \<Rightarrow> 'p \<Rightarrow> 'p"
  out32 :: "u16 \<Rightarrow> u32 \<Rightarrow> 'p \<Rightarrow> 'p"
  tsc :: "'p \<Rightarrow> u64 \<times> 'p"
  apic_rd :: "u32 \<Rightarrow> 'p \<Rightarrow> u32 \<times> 'p"
  apic_wr :: "u32 \<Rightarrow> u32 \<Rightarrow> 'p \<Rightarrow> 'p"

record rtc =
  year :: u32
  month :: u32
  day :: u32
  hour :: u32
  minute :: u32
  second :: u32

record 'p ioe =
  dev :: 'p
  ram :: gmem
  boot_date :: rtc
  freq_mhz :: u32
  uptsc :: u64
  disp_w :: u16
  disp_h :: u16
  fb :: ptr
  vmem_at :: ptr
  vbuf_at :: ptr
  vbuf_head :: ptr
  lapic :: ptr

definition inb :: "'p hw \<Rightarrow> u32 \<Rightarrow> 'p ioe \<Rightarrow> u8 \<times> 'p ioe" where
  "inb H port s = (let (v, d) = in8 H (ucast port) (dev s) in (v, s\<lparr>dev := d\<rparr>))"

definition inl :: "'p hw \<Rightarrow> u32 \<Rightarrow> 'p ioe \<Rightarrow> u32 \<times> 'p ioe" where
  "inl H port s = (let (v, d) = in32 H (ucast port) (dev s) in (v, s\<lparr>dev := d\<rparr>))"

definition outb :: "'p hw \<Rightarrow> u32 \<Rightarrow> u8 \<Rightarrow> 'p ioe \<Rightarrow> 'p ioe" where
  "outb H port data s = s\<lparr>dev := out8 H (ucast port) data (dev s)\<rparr>"

definition outw :: "'p hw \<Rightarrow> u32 \<Rightarrow> u16 \<Rightarrow> 'p ioe \<Rightarrow> 'p ioe" where
  "outw H port data s = s\<lparr>dev := out16 H (ucast port) data (dev s)\<rparr>"

definition outl :: "'p hw \<Rightarrow> u32 \<Rightarrow> u32 \<Rightarrow> 'p ioe \<Rightarrow> 'p ioe" where
  "outl H port data s = s\<lparr>dev := out32 H (ucast port) data (dev s)\<rparr>"

definition rdtsc :: "'p hw \<Rightarrow> 'p ioe \<Rightarrow> u64 \<times> 'p ioe" where
  "rdtsc H s = (let (v, d) = tsc H (dev s) in (v, s\<lparr>dev := d\<rparr>))"

section \<open>UART\<close>

definition COM1 :: u32 where "COM1 = 0x3f8"

definition uart_init :: "'p hw \<Rightarrow> 'p ioe \<Rightarrow> 'p ioe" where
  "uart_init H s =
     (let s = outb H (COM1 + 2) 0 s;
          s = outb H (COM1 + 3) 0x80 s;
          s = outb H (COM1 + 0) (115200 div 9600) s;
          s = outb H (COM1 + 1) 0 s;
          s = outb H (COM1 + 3) 0x03 s;
          s = outb H (COM1 + 4) 0 s;
          s = outb H (COM1 + 1) 0x01 s;
          (_, s) = inb H (COM1 + 2) s;
          (_, s) = inb H (COM1 + 0) s
      in s)"

definition uart_config :: "'p ioe handler_t" where
  "uart_config buf s =
     (case buf of UART_CONFIG_T present \<Rightarrow> Some (Inr (UART_CONFIG_T True, s)) | _ \<Rightarrow> wrong_buf)"

definition uart_tx :: "'p hw \<Rightarrow> 'p ioe handler_t" where
  "uart_tx H buf s =
     (case buf of UART_TX_T data \<Rightarrow> Some (Inr (buf, outb H COM1 data s)) | _ \<Rightarrow> wrong_buf)"

definition uart_rx :: "'p hw \<Rightarrow> 'p ioe handler_t" where
  "uart_rx H buf s =
     (case buf of
        UART_RX_T data \<Rightarrow>
          (let (st, s) = inb H (COM1 + 5) s in
           if st AND 0x1 \<noteq> 0 then let (c, s) = inb H COM1 s in Some (Inr (UART_RX_T c, s))
           else Some (Inr (UART_RX_T (- 1), s)))
      | _ \<Rightarrow> wrong_buf)"

section \<open>Clock\<close>

text \<open>A register of the clock chip holds two decimal digits.\<close>

definition read_rtc :: "'p hw \<Rightarrow> u8 \<Rightarrow> 'p ioe \<Rightarrow> u32 \<times> 'p ioe" where
  "read_rtc H reg s =
     (let s = outb H 0x70 reg s;
          (v, s) = inb H 0x71 s;
          ret = (ucast v :: u32)
      in ((ret AND 0xf) + drop_bit 4 ret * 10, s))"

text \<open>The initializers of the structure are evaluated in the order they are written.\<close>

definition read_rtc_async :: "'p hw \<Rightarrow> 'p ioe \<Rightarrow> rtc \<times> 'p ioe" where
  "read_rtc_async H s =
     (let (sec, s) = read_rtc H 0 s;
          (min, s) = read_rtc H 2 s;
          (h, s) = read_rtc H 4 s;
          (d, s) = read_rtc H 7 s;
          (mon, s) = read_rtc H 8 s;
          (y, s) = read_rtc H 9 s
      in (\<lparr>year = y + 2000, month = mon, day = d, hour = h, minute = min, second = sec\<rparr>, s))"

text \<open>The delay loop between the two readings has no other effect.\<close>

partial_function (option) wait_sec :: "'p hw \<Rightarrow> 'p ioe \<Rightarrow> (rtc \<times> 'p ioe) option" where
  "wait_sec H s =
     (let (t0, s) = read_rtc_async H s;
          (t1, s) = read_rtc_async H s
      in if second t0 \<noteq> second t1 then Some (t1, s) else wait_sec H s)"

definition seconds :: "rtc \<Rightarrow> u64" where
  "seconds t = ucast (minute t * 60 + second t)"

partial_function (option) estimate_freq :: "'p hw \<Rightarrow> 'p ioe \<Rightarrow> (u32 \<times> 'p ioe) option" where
  "estimate_freq H s =
     Option.bind (wait_sec H s) (\<lambda>(rtc1, s).
       let (tsc1, s) = rdtsc H s; t1 = seconds rtc1 in
       Option.bind (wait_sec H s) (\<lambda>(rtc2, s).
         let (tsc2, s) = rdtsc H s; t2 = seconds rtc2 in
         if t1 \<ge> t2 then estimate_freq H s
         else Some (ucast (drop_bit 20 (tsc2 - tsc1) div (t2 - t1)), s)))"

partial_function (option) rtc_loop :: "'p hw \<Rightarrow> 'p ioe \<Rightarrow> (rtc \<times> 'p ioe) option" where
  "rtc_loop H s =
     (let (r, s) = read_rtc_async H s;
          (tmp, s) = read_rtc H 0 s
      in if tmp \<noteq> second r then rtc_loop H s else Some (r, s))"

definition timer_init :: "'p hw \<Rightarrow> 'p ioe \<Rightarrow> 'p ioe option" where
  "timer_init H s =
     Option.bind (estimate_freq H s) (\<lambda>(f, s).
     Option.bind (rtc_loop H (s\<lparr>freq_mhz := f\<rparr>)) (\<lambda>(r, s).
       let (t, s) = rdtsc H (s\<lparr>boot_date := r\<rparr>) in Some (s\<lparr>uptsc := t\<rparr>)))"

definition timer_config :: "'p ioe handler_t" where
  "timer_config buf s =
     (case buf of TIMER_CONFIG_T present has_rtc \<Rightarrow> Some (Inr (TIMER_CONFIG_T True True, s)) | _ \<Rightarrow> wrong_buf)"

definition timer_rtc :: "'p hw \<Rightarrow> 'p ioe handler_t" where
  "timer_rtc H buf s =
     (case buf of
        TIMER_RTC_T y mo d h mi sec \<Rightarrow>
          Option.bind (rtc_loop H s) (\<lambda>(r, s).
            Some (Inr (TIMER_RTC_T (year r) (month r) (day r) (hour r) (minute r) (second r), s)))
      | _ \<Rightarrow> wrong_buf)"

definition timer_uptime :: "'p hw \<Rightarrow> 'p ioe handler_t" where
  "timer_uptime H buf s =
     (case buf of
        TIMER_UPTIME_T us \<Rightarrow>
          (let (t, s) = rdtsc H s in
           if freq_mhz s = 0 then Some (Inl (Undefined ''division by zero''))
           else Some (Inr (TIMER_UPTIME_T ((t - uptsc s) div ucast (freq_mhz s)), s)))
      | _ \<Rightarrow> wrong_buf)"

section \<open>Keyboard\<close>

text \<open>The designated initializers in order; a later one for the same element replaces an earlier one.\<close>

definition keylut_init :: "(nat \<times> string) list" where
  "keylut_init =
    [(0x01, ''ESCAPE''), (0x02, ''1''), (0x03, ''2''), (0x04, ''3''), (0x05, ''4''), (0x06, ''5''), (0x07, ''6''),
     (0x08, ''7''), (0x09, ''8''), (0x0a, ''9''), (0x0b, ''0''), (0x0c, ''MINUS''), (0x0d, ''EQUALS''),
     (0x0e, ''BACKSPACE''), (0x0f, ''TAB''), (0x10, ''Q''), (0x11, ''W''), (0x12, ''E''), (0x13, ''R''),
     (0x14, ''T''), (0x15, ''Y''), (0x16, ''U''), (0x17, ''I''), (0x18, ''O''), (0x19, ''P''),
     (0x1a, ''LEFTBRACKET''), (0x1b, ''RIGHTBRACKET''), (0x1c, ''RETURN''), (0x1d, ''LCTRL''), (0x1e, ''A''),
     (0x1f, ''S''), (0x20, ''D''), (0x21, ''F''), (0x22, ''G''), (0x23, ''H''), (0x24, ''J''), (0x25, ''K''),
     (0x26, ''L''), (0x27, ''SEMICOLON''), (0x28, ''APOSTROPHE''), (0x29, ''GRAVE''), (0x2a, ''LSHIFT''),
     (0x2b, ''BACKSLASH''), (0x2c, ''Z''), (0x2d, ''X''), (0x2e, ''C''), (0x2f, ''V''), (0x30, ''B''), (0x31, ''N''),
     (0x32, ''M''), (0x33, ''COMMA''), (0x34, ''PERIOD''), (0x35, ''SLASH''), (0x36, ''RSHIFT''), (0x38, ''LALT''),
     (0x38, ''RALT''), (0x39, ''SPACE''), (0x3a, ''CAPSLOCK''), (0x3b, ''F1''), (0x3c, ''F2''), (0x3d, ''F3''),
     (0x3e, ''F4''), (0x3f, ''F5''), (0x40, ''F6''), (0x41, ''F7''), (0x42, ''F8''), (0x43, ''F9''), (0x44, ''F10''),
     (0x48, ''INSERT''), (0x4b, ''HOME''), (0x4d, ''END''), (0x50, ''DELETE''), (0x57, ''F11''), (0x58, ''F12''),
     (0x5b, ''APPLICATION'')]"

definition keylut :: "nat \<Rightarrow> nat" where
  "keylut code = (case map_of (rev keylut_init) code of None \<Rightarrow> 0 | Some k \<Rightarrow> AM_KEY k)"

definition input_config :: "'p ioe handler_t" where
  "input_config buf s =
     (case buf of INPUT_CONFIG_T present \<Rightarrow> Some (Inr (INPUT_CONFIG_T True, s)) | _ \<Rightarrow> wrong_buf)"

definition input_keybrd :: "'p hw \<Rightarrow> 'p ioe handler_t" where
  "input_keybrd H buf s =
     (case buf of
        INPUT_KEYBRD_T keydown keycode \<Rightarrow>
          (let (st, s) = inb H 0x64 s in
           if st AND 0x1 \<noteq> 0 then
             let (code, s) = inb H 0x60 s
             in Some (Inr (INPUT_KEYBRD_T (code < 128) (of_nat (keylut (unat (code AND 0x7f)))), s))
           else Some (Inr (INPUT_KEYBRD_T False (of_nat AM_KEY_NONE), s)))
      | _ \<Rightarrow> wrong_buf)"

section \<open>Frame buffer\<close>

definition VMEM_SIZE :: u32 where "VMEM_SIZE = push_bit 10 512"
definition AM_GPU_TEXTURE :: u16 where "AM_GPU_TEXTURE = 1"
definition AM_GPU_SUBTREE :: u16 where "AM_GPU_SUBTREE = 2"
definition AM_GPU_NULL :: u32 where "AM_GPU_NULL = 0xffffffff"

definition ld16 :: "gmem \<Rightarrow> ptr \<Rightarrow> u16" where
  "ld16 m p = ucast (m p) OR push_bit 8 (ucast (m (p + 1)))"

definition R :: "u32 \<Rightarrow> u8" where "R p = ucast (drop_bit 16 p)"
definition G :: "u32 \<Rightarrow> u8" where "G p = ucast (drop_bit 8 p)"
definition B :: "u32 \<Rightarrow> u8" where "B p = ucast p"

text \<open>A pixel is stored as its three bytes blue, green, red; \<open>px_at a i\<close> is \<open>&a[i]\<close>.\<close>

definition px_at :: "ptr \<Rightarrow> int \<Rightarrow> ptr" where
  "px_at a i = a + of_int (3 * i)"

definition st_pixel :: "ptr \<Rightarrow> u8 \<times> u8 \<times> u8 \<Rightarrow> gmem \<Rightarrow> gmem" where
  "st_pixel p c m = (case c of (b, g, r) \<Rightarrow> m(p := b, p + 1 := g, p + 2 := r))"

definition ld_pixel :: "gmem \<Rightarrow> ptr \<Rightarrow> u8 \<times> u8 \<times> u8" where
  "ld_pixel m p = (m p, m (p + 1), m (p + 2))"

definition to_host :: "'p ioe \<Rightarrow> u32 \<Rightarrow> ptr" where
  "to_host s p = (if p = AM_GPU_NULL then 0 else vmem_at s + p)"

text \<open>A signed addition or multiplication whose result is not an \<open>int\<close> is undefined.\<close>

definition int32 :: "int \<Rightarrow> int result" where
  "int32 i = (if - (2 ^ 31) \<le> i \<and> i < 2 ^ 31 then Inr i else Inl (Undefined ''int''))"

definition gpu_init :: "'p ioe \<Rightarrow> 'p ioe" where
  "gpu_init s =
     (let info = 0x00004000 in
      s\<lparr>disp_w := ld16 (ram s) (info + 18), disp_h := ld16 (ram s) (info + 20), fb := ld32 (ram s) (info + 40)\<rparr>)"

definition gpu_config :: "'p ioe handler_t" where
  "gpu_config buf s =
     (case buf of
        GPU_CONFIG_T present has_accel w h sz \<Rightarrow>
          Some (Inr (GPU_CONFIG_T True False (ucast (disp_w s)) (ucast (disp_h s)) VMEM_SIZE, s))
      | _ \<Rightarrow> wrong_buf)"

definition draw_px :: "ptr \<Rightarrow> ptr \<Rightarrow> nat \<Rightarrow> gmem \<Rightarrow> gmem" where
  "draw_px px pixels i m =
     (let p = ld32 m (pixels + of_nat (4 * i)) in st_pixel (px_at px (int i)) (B p, G p, R p) m)"

definition fbdraw_row :: "ptr \<Rightarrow> int \<Rightarrow> int \<Rightarrow> int \<Rightarrow> int \<Rightarrow> int \<Rightarrow> nat \<Rightarrow> ptr \<Rightarrow> gmem \<Rightarrow> gmem result" where
  "fbdraw_row fbp W H x y len j pixels m =
     bindR (int32 (y + int j)) (\<lambda>row.
       if row < H then
         bindR (int32 (row * W)) (\<lambda>at.
         bindR (int32 (x + at)) (\<lambda>at.
           Inr (fold (draw_px (px_at fbp at) pixels) [0..<nat len] m)))
       else Inr m)"

text \<open>The rows from \<open>j\<close> on, \<open>k\<close> of them; the source advances by \<open>w\<close> words a row.\<close>

primrec fbdraw_rows ::
  "nat \<Rightarrow> nat \<Rightarrow> ptr \<Rightarrow> int \<Rightarrow> int \<Rightarrow> int \<Rightarrow> int \<Rightarrow> int \<Rightarrow> int \<Rightarrow> ptr \<Rightarrow> gmem \<Rightarrow> gmem result" where
  "fbdraw_rows 0 j fbp W H x y w len pixels m = Inr m"
| "fbdraw_rows (Suc k) j fbp W H x y w len pixels m =
     bindR (fbdraw_row fbp W H x y len j pixels m)
       (fbdraw_rows k (Suc j) fbp W H x y w len (pixels + of_int (4 * w)))"

definition gpu_fbdraw :: "'p ioe handler_t" where
  "gpu_fbdraw buf s =
     (case buf of
        GPU_FBDRAW_T x y pixels w h sync \<Rightarrow>
          (let x = sint x; y = sint y; w = sint w; h = sint h; W = uint (disp_w s); Hh = uint (disp_h s) in
           Some (bindR (int32 (x + w)) (\<lambda>xw.
             let len = (if xw \<ge> W then W - x else w) in
             bindR (fbdraw_rows (nat h) 0 (fb s) W Hh x y w len pixels (ram s)) (\<lambda>m.
             Inr (buf, s\<lparr>ram := m\<rparr>)))))
      | _ \<Rightarrow> wrong_buf)"

definition gpu_status :: "'p ioe handler_t" where
  "gpu_status buf s =
     (case buf of GPU_STATUS_T ready \<Rightarrow> Some (Inr (GPU_STATUS_T True, s)) | _ \<Rightarrow> wrong_buf)"

definition gpu_memcpy :: "'p ioe handler_t" where
  "gpu_memcpy buf s =
     (case buf of
        GPU_MEMCPY_T dest src size' \<Rightarrow>
          (let dst = to_host s dest; n = nat (sint size') in
           if n \<noteq> 0 \<and> dst = 0 then Some (Inl (Undefined ''null pointer''))
           else Some (Inr (buf, s\<lparr>ram := fold (\<lambda>i m. m(dst + of_nat i := m (src + of_nat i))) [0..<n] (ram s)\<rparr>)))
      | _ \<Rightarrow> wrong_buf)"

section \<open>Canvases\<close>

definition vbuf_alloc :: "u32 \<Rightarrow> 'p ioe \<Rightarrow> (ptr \<times> 'p ioe) result" where
  "vbuf_alloc size' s =
     (let ret = vbuf_head s; s = s\<lparr>vbuf_head := vbuf_head s + size'\<rparr> in
      bindR (guardR (\<not> vbuf_head s > vbuf_at s + VMEM_SIZE) (Panic ''no memory'')) (\<lambda>_.
      Inr (ret, s\<lparr>ram := fold (\<lambda>i m. m(ret + of_nat i := 0)) [0..<nat (sint size')] (ram s)\<rparr>)))"

text \<open>One pixel of the canvas \<open>cv\<close>, scaled from its local pixels; the fields are 16 bits wide.\<close>

definition blit_px :: "ptr \<Rightarrow> int \<Rightarrow> ptr \<Rightarrow> ptr \<Rightarrow> int \<Rightarrow> int \<Rightarrow> int \<times> int \<Rightarrow> gmem \<Rightarrow> gmem result" where
  "blit_px cv W px px_local w h = (\<lambda>(i, j) m.
     let x = uint (ld16 m (cv + 6)) + i; y = uint (ld16 m (cv + 8)) + j;
         w1 = uint (ld16 m (cv + 10)); h1 = uint (ld16 m (cv + 12)) in
     bindR (int32 (W * y)) (\<lambda>_. bindR (int32 (W * y + x)) (\<lambda>at.
     bindR (int32 (j * h)) (\<lambda>jh. bindR (int32 (w * (jh div h1))) (\<lambda>wj.
     bindR (int32 (i * w)) (\<lambda>iw. bindR (int32 (wj + iw div w1)) (\<lambda>from.
       Inr (st_pixel (px_at px at) (ld_pixel m (px_at px_local from)) m))))))))"

text \<open>The two loops; their bounds are read once, as no pixel is drawn over a canvas that is in use.\<close>

primrec fold_result :: "('x \<Rightarrow> 's \<Rightarrow> 's result) \<Rightarrow> 'x list \<Rightarrow> 's \<Rightarrow> 's result" where
  "fold_result f [] s = Inr s"
| "fold_result f (x # xs) s = bindR (f x s) (fold_result f xs)"

definition blit :: "ptr \<Rightarrow> u16 \<Rightarrow> ptr \<Rightarrow> ptr \<Rightarrow> u16 \<Rightarrow> u16 \<Rightarrow> 'p ioe \<Rightarrow> 'p ioe result" where
  "blit cv W px px_local w h s =
     (let w1 = unat (ld16 (ram s) (cv + 10)); h1 = unat (ld16 (ram s) (cv + 12)) in
      bindR (fold_result (blit_px cv (uint W) px px_local (uint w) (uint h))
               (concat (map (\<lambda>i. map (\<lambda>j. (int i, int j)) [0..<h1]) [0..<w1])) (ram s)) (\<lambda>m.
      Inr (s\<lparr>ram := m\<rparr>)))"

text \<open>
  \<open>render\<close> of a canvas into \<open>px\<close> of a parent of width \<open>W\<close>, and its loop over the children of a
  canvas, as one recursion.
\<close>

datatype render_task = Render ptr u16 ptr | Children ptr u16 ptr

definition bindOR :: "'a result option \<Rightarrow> ('a \<Rightarrow> 'b result option) \<Rightarrow> 'b result option" where
  "bindOR m f = Option.bind m (\<lambda>r. case r of Inl e \<Rightarrow> Some (Inl e) | Inr x \<Rightarrow> f x)"

lemma bindOR_mono [partial_function_mono]:
  assumes "mono_option (\<lambda>f. b f)" "\<And>x. mono_option (\<lambda>f. c x f)"
  shows "mono_option (\<lambda>f. bindOR (b f) (\<lambda>x. c x f))"
proof -
  have "mono_option (\<lambda>f. case r of Inl e \<Rightarrow> Some (Inl e) | Inr x \<Rightarrow> c x f)" for r
    by (cases r) (simp_all add: assms(2) option.const_mono)
  then show ?thesis unfolding bindOR_def by (intro bind_mono assms(1))
qed

partial_function (option) render :: "render_task \<Rightarrow> 'p ioe \<Rightarrow> 'p ioe result option" where
  "render t s =
     (case t of
        Render cv W px \<Rightarrow>
          if ld16 (ram s) cv = AM_GPU_TEXTURE then
            Some (blit cv W px (to_host s (ld32 (ram s) (cv + 22))) (ld16 (ram s) (cv + 18)) (ld16 (ram s) (cv + 20)) s)
          else if ld16 (ram s) cv = AM_GPU_SUBTREE then
            bindOR (Some (vbuf_alloc (ucast (ld16 (ram s) (cv + 2)) * ucast (ld16 (ram s) (cv + 4)) * 3) s)) (\<lambda>r.
            bindOR (render (Children (to_host (snd r) (ld32 (ram (snd r)) (cv + 18))) (ld16 (ram s) (cv + 2)) (fst r)) (snd r)) (\<lambda>s'.
            Some (blit cv W px (fst r) (ld16 (ram s) (cv + 2)) (ld16 (ram s) (cv + 4)) s')))
          else Some (Inl (Panic ''invalid node''))
      | Children ch W px \<Rightarrow>
          if ch = 0 then Some (Inr s)
          else
            bindOR (render (Render ch W px) s) (\<lambda>s.
            render (Children (to_host s (ld32 (ram s) (ch + 14))) W px) s))"

definition gpu_render :: "'p ioe handler_t" where
  "gpu_render buf s =
     (case buf of
        GPU_RENDER_T root \<Rightarrow>
          (let s = s\<lparr>vbuf_head := vbuf_at s\<rparr> in
           if root = AM_GPU_NULL then Some (Inl (Undefined ''null pointer''))
           else bindOR (render (Render (to_host s root) (disp_w s) (fb s)) s) (\<lambda>s. Some (Inr (buf, s))))
      | _ \<Rightarrow> wrong_buf)"

section \<open>Disk\<close>

definition BLKSZ :: u32 where "BLKSZ = 512"
definition DISKSZ :: u32 where "DISKSZ = push_bit 20 64"

definition disk_config :: "'p ioe handler_t" where
  "disk_config buf s =
     (case buf of
        DISK_CONFIG_T present blksz blkcnt \<Rightarrow> Some (Inr (DISK_CONFIG_T True BLKSZ (DISKSZ div BLKSZ), s))
      | _ \<Rightarrow> wrong_buf)"

definition disk_status :: "'p ioe handler_t" where
  "disk_status buf s =
     (case buf of DISK_STATUS_T ready \<Rightarrow> Some (Inr (DISK_STATUS_T True, s)) | _ \<Rightarrow> wrong_buf)"

partial_function (option) wait_disk :: "'p hw \<Rightarrow> 'p ioe \<Rightarrow> 'p ioe option" where
  "wait_disk H s = (let (v, s) = inb H 0x1f7 s in if v AND 0xc0 \<noteq> 0x40 then wait_disk H s else Some s)"

text \<open>One sector to the data port, or from it, word by word.\<close>

definition disk_out :: "'p hw \<Rightarrow> ptr \<Rightarrow> 'p ioe \<Rightarrow> 'p ioe" where
  "disk_out H p s = fold (\<lambda>i s. outl H 0x1f0 (ld32 (ram s) (p + of_nat (4 * i))) s) [0..<unat BLKSZ div 4] s"

definition disk_in :: "'p hw \<Rightarrow> ptr \<Rightarrow> 'p ioe \<Rightarrow> 'p ioe" where
  "disk_in H p s =
     fold (\<lambda>i s. let (v, s) = inl H 0x1f0 s in s\<lparr>ram := st32 (p + of_nat (4 * i)) v (ram s)\<rparr>) [0..<unat BLKSZ div 4] s"

definition disk_cmd :: "'p hw \<Rightarrow> bool \<Rightarrow> u32 \<Rightarrow> 'p ioe \<Rightarrow> 'p ioe" where
  "disk_cmd H write blkno s =
     (let s = outb H 0x1f2 1 s;
          s = outb H 0x1f3 (ucast blkno) s;
          s = outb H 0x1f4 (ucast (drop_bit 8 blkno)) s;
          s = outb H 0x1f5 (ucast (drop_bit 16 blkno)) s;
          s = outb H 0x1f6 (ucast (drop_bit 24 blkno OR 0xe0)) s
      in outb H 0x1f7 (if write then 0x30 else 0x20) s)"

primrec disk_loop :: "nat \<Rightarrow> 'p hw \<Rightarrow> bool \<Rightarrow> u32 \<Rightarrow> ptr \<Rightarrow> 'p ioe \<Rightarrow> 'p ioe option" where
  "disk_loop 0 H write blkno p s = Some s"
| "disk_loop (Suc remain) H write blkno p s =
     Option.bind (wait_disk H s) (\<lambda>s.
     Option.bind (wait_disk H (disk_cmd H write blkno s)) (\<lambda>s.
       let s = (if write then disk_out H p s else disk_in H p s)
       in disk_loop remain H write (blkno + 1) (p + BLKSZ) s))"

definition disk_blkio :: "'p hw \<Rightarrow> 'p ioe handler_t" where
  "disk_blkio H buf s =
     (case buf of
        DISK_BLKIO_T write p blkno blkcnt \<Rightarrow>
          Option.bind (disk_loop (unat blkcnt) H write blkno p s) (\<lambda>s. Some (Inr (buf, s)))
      | _ \<Rightarrow> wrong_buf)"

section \<open>Device table\<close>

definition audio_config :: "'p ioe handler_t" where
  "audio_config buf s =
     (case buf of AUDIO_CONFIG_T present bufsize \<Rightarrow> Some (Inr (AUDIO_CONFIG_T False bufsize, s)) | _ \<Rightarrow> wrong_buf)"

definition net_config :: "'p ioe handler_t" where
  "net_config buf s =
     (case buf of NET_CONFIG_T present \<Rightarrow> Some (Inr (NET_CONFIG_T False, s)) | _ \<Rightarrow> wrong_buf)"

datatype hfun =
  H_uart_config | H_uart_tx | H_uart_rx | H_timer_config | H_timer_rtc | H_timer_uptime | H_input_config
| H_input_keybrd | H_gpu_config | H_gpu_fbdraw | H_gpu_status | H_gpu_memcpy | H_gpu_render | H_audio_config
| H_disk_config | H_disk_status | H_disk_blkio | H_net_config | H_fail

definition lut :: "(devreg \<times> hfun) list" where
  "lut = [(AM_UART_CONFIG, H_uart_config), (AM_UART_TX, H_uart_tx), (AM_UART_RX, H_uart_rx),
          (AM_TIMER_CONFIG, H_timer_config), (AM_TIMER_RTC, H_timer_rtc), (AM_TIMER_UPTIME, H_timer_uptime),
          (AM_INPUT_CONFIG, H_input_config), (AM_INPUT_KEYBRD, H_input_keybrd), (AM_GPU_CONFIG, H_gpu_config),
          (AM_GPU_FBDRAW, H_gpu_fbdraw), (AM_GPU_STATUS, H_gpu_status), (AM_GPU_MEMCPY, H_gpu_memcpy),
          (AM_GPU_RENDER, H_gpu_render), (AM_AUDIO_CONFIG, H_audio_config), (AM_DISK_CONFIG, H_disk_config),
          (AM_DISK_STATUS, H_disk_status), (AM_DISK_BLKIO, H_disk_blkio), (AM_NET_CONFIG, H_net_config)]"

primrec run_hfun :: "'p hw \<Rightarrow> hfun \<Rightarrow> 'p ioe handler_t" where
  "run_hfun H H_uart_config = uart_config"
| "run_hfun H H_uart_tx = uart_tx H"
| "run_hfun H H_uart_rx = uart_rx H"
| "run_hfun H H_timer_config = timer_config"
| "run_hfun H H_timer_rtc = timer_rtc H"
| "run_hfun H H_timer_uptime = timer_uptime H"
| "run_hfun H H_input_config = input_config"
| "run_hfun H H_input_keybrd = input_keybrd H"
| "run_hfun H H_gpu_config = gpu_config"
| "run_hfun H H_gpu_fbdraw = gpu_fbdraw"
| "run_hfun H H_gpu_status = gpu_status"
| "run_hfun H H_gpu_memcpy = gpu_memcpy"
| "run_hfun H H_gpu_render = gpu_render"
| "run_hfun H H_audio_config = audio_config"
| "run_hfun H H_disk_config = disk_config"
| "run_hfun H H_disk_status = disk_status"
| "run_hfun H H_disk_blkio = disk_blkio H"
| "run_hfun H H_net_config = net_config"
| "run_hfun H H_fail = io_fail"

definition ioe_init :: "'p hw \<Rightarrow> u32 \<Rightarrow> hfun option list \<times> 'p ioe \<Rightarrow> (hfun option list \<times> 'p ioe) result option" where
  "ioe_init H cpu ls =
     (if cpu \<noteq> 0 then Some (Inl (Panic ''init IOE in non-bootstrap CPU''))
      else
        let tab = fill_lut H_fail (fst ls); s = uart_init H (snd ls) in
        Option.bind (timer_init H s) (\<lambda>s. Some (Inr (tab, gpu_init s))))"

definition ioe_read :: "'p hw \<Rightarrow> hfun option list \<Rightarrow> u32 \<Rightarrow> 'p ioe handler_t" where
  "ioe_read H tab reg = call_lut (run_hfun H) tab reg"

definition ioe_write :: "'p hw \<Rightarrow> hfun option list \<Rightarrow> u32 \<Rightarrow> 'p ioe handler_t" where
  "ioe_write H tab reg = call_lut (run_hfun H) tab reg"

text \<open>A handler takes the structure of its register and returns one.\<close>

definition typed_run :: "devreg \<Rightarrow> io_data \<Rightarrow> (io_data \<times> 's) result option \<Rightarrow> bool" where
  "typed_run r buf res \<longleftrightarrow> (\<forall>buf' s'. res = Some (Inr (buf', s')) \<longrightarrow> buf_reg buf = r \<and> buf_reg buf' = r)"

lemma typed_run_simps [simp]:
  "typed_run r buf wrong_buf" "typed_run r buf (Some (Inl e))" "typed_run r buf None"
  "typed_run r buf (Some (Inr (b, s))) \<longleftrightarrow> buf_reg buf = r \<and> buf_reg b = r"
  by (auto simp: typed_run_def wrong_buf_def)

lemma typed_run_bind [simp]:
  "(\<And>x. typed_run r buf (f x)) \<Longrightarrow> typed_run r buf (Option.bind m f)"
  by (cases m) simp_all

lemma typed_run_bindOR [simp]:
  assumes "\<And>x. typed_run r buf (f x)"
  shows "typed_run r buf (bindOR m f)"
proof (cases m)
  case (Some res)
  then show ?thesis using assms by (cases res) (simp_all add: bindOR_def)
qed (simp add: bindOR_def)

lemma typed_run_bindR [simp]:
  "(\<And>x. typed_run r buf (Some (f x))) \<Longrightarrow> typed_run r buf (Some (bindR m f))"
  by (cases m) simp_all

lemma handlers_typed:
  "typed_run AM_UART_CONFIG buf (uart_config buf s)"
  "typed_run AM_UART_TX buf (uart_tx H buf s)"
  "typed_run AM_UART_RX buf (uart_rx H buf s)"
  "typed_run AM_TIMER_CONFIG buf (timer_config buf s)"
  "typed_run AM_TIMER_RTC buf (timer_rtc H buf s)"
  "typed_run AM_TIMER_UPTIME buf (timer_uptime H buf s)"
  "typed_run AM_INPUT_CONFIG buf (input_config buf s)"
  "typed_run AM_INPUT_KEYBRD buf (input_keybrd H buf s)"
  "typed_run AM_GPU_CONFIG buf (gpu_config buf s)"
  "typed_run AM_GPU_STATUS buf (gpu_status buf s)"
  "typed_run AM_GPU_MEMCPY buf (gpu_memcpy buf s)"
  "typed_run AM_GPU_FBDRAW buf (gpu_fbdraw buf s)"
  "typed_run AM_GPU_RENDER buf (gpu_render buf s)"
  "typed_run AM_AUDIO_CONFIG buf (audio_config buf s)"
  "typed_run AM_DISK_CONFIG buf (disk_config buf s)"
  "typed_run AM_DISK_STATUS buf (disk_status buf s)"
  "typed_run AM_DISK_BLKIO buf (disk_blkio H buf s)"
  "typed_run AM_NET_CONFIG buf (net_config buf s)"
  subgoal by (simp add: uart_config_def Let_def case_prod_beta split: io_data.split)
  subgoal by (simp add: uart_tx_def Let_def case_prod_beta split: io_data.split)
  subgoal by (simp add: uart_rx_def Let_def case_prod_beta split: io_data.split)
  subgoal by (simp add: timer_config_def Let_def case_prod_beta split: io_data.split)
  subgoal by (simp add: timer_rtc_def Let_def case_prod_beta split: io_data.split)
  subgoal by (simp add: timer_uptime_def Let_def case_prod_beta split: io_data.split)
  subgoal by (simp add: input_config_def Let_def case_prod_beta split: io_data.split)
  subgoal by (simp add: input_keybrd_def Let_def case_prod_beta split: io_data.split)
  subgoal by (simp add: gpu_config_def Let_def case_prod_beta split: io_data.split)
  subgoal by (simp add: gpu_status_def Let_def case_prod_beta split: io_data.split)
  subgoal by (simp add: gpu_memcpy_def Let_def case_prod_beta split: io_data.split)
  subgoal by (simp add: gpu_fbdraw_def Let_def case_prod_beta split: io_data.split)
  subgoal by (simp add: gpu_render_def Let_def case_prod_beta split: io_data.split)
  subgoal by (simp add: audio_config_def Let_def case_prod_beta split: io_data.split)
  subgoal by (simp add: disk_config_def Let_def case_prod_beta split: io_data.split)
  subgoal by (simp add: disk_status_def Let_def case_prod_beta split: io_data.split)
  subgoal by (simp add: disk_blkio_def Let_def case_prod_beta split: io_data.split)
  subgoal by (simp add: net_config_def Let_def case_prod_beta split: io_data.split)
  done

interpretation x86_io: typed_io_table lut H_fail "run_hfun H" for H :: "'p hw"
proof
  show "run_hfun H H_fail = io_fail" by simp
next
  fix r h buf buf' and s s' :: "'p ioe"
  assume "(r, h) \<in> set lut" "run_hfun H h buf s = Some (Inr (buf', s'))"
  moreover from this(1) have "typed_run r buf (run_hfun H h buf s)" by (auto simp: lut_def handlers_typed)
  ultimately show "buf_reg buf = r \<and> buf_reg buf' = r" by (simp add: typed_run_def)
qed

section \<open>Interrupt controllers\<close>

definition LAPIC_ID :: u32 where "LAPIC_ID = 0x0020 div 4"
definition LAPIC_VER :: u32 where "LAPIC_VER = 0x0030 div 4"
definition LAPIC_TPR :: u32 where "LAPIC_TPR = 0x0080 div 4"
definition LAPIC_EOI :: u32 where "LAPIC_EOI = 0x00B0 div 4"
definition LAPIC_SVR :: u32 where "LAPIC_SVR = 0x00F0 div 4"
definition SVR_ENABLE :: u32 where "SVR_ENABLE = 0x00000100"
definition LAPIC_ESR :: u32 where "LAPIC_ESR = 0x0280 div 4"
definition ICRLO :: u32 where "ICRLO = 0x0300 div 4"
definition ICR_INIT :: u32 where "ICR_INIT = 0x00000500"
definition ICR_STARTUP :: u32 where "ICR_STARTUP = 0x00000600"
definition ICR_DELIVS :: u32 where "ICR_DELIVS = 0x00001000"
definition ICR_ASSERT :: u32 where "ICR_ASSERT = 0x00004000"
definition ICR_LEVEL :: u32 where "ICR_LEVEL = 0x00008000"
definition ICR_BCAST :: u32 where "ICR_BCAST = 0x00080000"
definition ICRHI :: u32 where "ICRHI = 0x0310 div 4"
definition LVT_TIMER :: u32 where "LVT_TIMER = 0x0320 div 4"
definition TIMER_X1 :: u32 where "TIMER_X1 = 0x0000000B"
definition TIMER_PERIODIC :: u32 where "TIMER_PERIODIC = 0x00020000"
definition LVT_PCINT :: u32 where "LVT_PCINT = 0x0340 div 4"
definition LVT_LINT0 :: u32 where "LVT_LINT0 = 0x0350 div 4"
definition LVT_LINT1 :: u32 where "LVT_LINT1 = 0x0360 div 4"
definition LVT_ERROR :: u32 where "LVT_ERROR = 0x0370 div 4"
definition LVT_MASKED :: u32 where "LVT_MASKED = 0x00010000"
definition LAPIC_TICR :: u32 where "LAPIC_TICR = 0x0380 div 4"
definition LAPIC_TDCR :: u32 where "LAPIC_TDCR = 0x03E0 div 4"
definition IOAPIC_ADDR :: u32 where "IOAPIC_ADDR = 0xFEC00000"
definition REG_VER :: u32 where "REG_VER = 0x01"
definition REG_TABLE :: u32 where "REG_TABLE = 0x10"
definition INT_DISABLED :: u32 where "INT_DISABLED = 0x00010000"
definition T_IRQ0 :: u32 where "T_IRQ0 = 32"
definition IRQ_TIMER :: u32 where "IRQ_TIMER = 0"
definition IRQ_KBD :: u32 where "IRQ_KBD = 1"
definition IRQ_COM1 :: u32 where "IRQ_COM1 = 4"
definition IRQ_ERROR :: u32 where "IRQ_ERROR = 19"
definition IRQ_SPURIOUS :: u32 where "IRQ_SPURIOUS = 31"

definition mmio_rd :: "'p hw \<Rightarrow> ptr \<Rightarrow> 'p ioe \<Rightarrow> u32 \<times> 'p ioe" where
  "mmio_rd H a s = (let (v, d) = apic_rd H a (dev s) in (v, s\<lparr>dev := d\<rparr>))"

definition mmio_wr :: "'p hw \<Rightarrow> ptr \<Rightarrow> u32 \<Rightarrow> 'p ioe \<Rightarrow> 'p ioe" where
  "mmio_wr H a v s = s\<lparr>dev := apic_wr H a v (dev s)\<rparr>"

definition lapicw :: "'p hw \<Rightarrow> u32 \<Rightarrow> u32 \<Rightarrow> 'p ioe \<Rightarrow> 'p ioe" where
  "lapicw H index value s =
     (let s = mmio_wr H (lapic s + 4 * index) value s in snd (mmio_rd H (lapic s + 4 * LAPIC_ID) s))"

partial_function (option) wait_delivs :: "'p hw \<Rightarrow> 'p ioe \<Rightarrow> 'p ioe option" where
  "wait_delivs H s =
     (let (v, s) = mmio_rd H (lapic s + 4 * ICRLO) s in if v AND ICR_DELIVS \<noteq> 0 then wait_delivs H s else Some s)"

definition percpu_initlapic :: "'p hw \<Rightarrow> 'p ioe \<Rightarrow> 'p ioe option" where
  "percpu_initlapic H s =
     (let s = lapicw H LAPIC_SVR (SVR_ENABLE OR (T_IRQ0 + IRQ_SPURIOUS)) s;
          s = lapicw H LAPIC_TDCR TIMER_X1 s;
          s = lapicw H LVT_TIMER (TIMER_PERIODIC OR (T_IRQ0 + IRQ_TIMER)) s;
          s = lapicw H LAPIC_TICR 10000000 s;
          s = lapicw H LVT_LINT0 LVT_MASKED s;
          s = lapicw H LVT_LINT1 LVT_MASKED s;
          (v, s) = mmio_rd H (lapic s + 4 * LAPIC_VER) s;
          s = (if drop_bit 16 v AND 0xFF \<ge> 4 then lapicw H LVT_PCINT LVT_MASKED s else s);
          s = lapicw H LVT_ERROR (T_IRQ0 + IRQ_ERROR) s;
          s = lapicw H LAPIC_ESR 0 s;
          s = lapicw H LAPIC_ESR 0 s;
          s = lapicw H LAPIC_EOI 0 s;
          s = lapicw H ICRHI 0 s;
          s = lapicw H ICRLO (ICR_BCAST OR ICR_INIT OR ICR_LEVEL) s
      in Option.bind (wait_delivs H s) (\<lambda>s. Some (lapicw H LAPIC_TPR 0 s)))"

definition lapic_eoi :: "'p hw \<Rightarrow> 'p ioe \<Rightarrow> 'p ioe" where
  "lapic_eoi H s = (if lapic s \<noteq> 0 then lapicw H LAPIC_EOI 0 s else s)"

definition st16 :: "ptr \<Rightarrow> u16 \<Rightarrow> gmem \<Rightarrow> gmem" where
  "st16 p w m = m(p := ucast w, p + 1 := ucast (drop_bit 8 w))"

definition lapic_bootap :: "'p hw \<Rightarrow> u32 \<Rightarrow> ptr \<Rightarrow> 'p ioe \<Rightarrow> 'p ioe" where
  "lapic_bootap H apicid addr s =
     (let s = outb H 0x70 0xF s;
          s = outb H 0x71 0x0A s;
          wrv = push_bit 4 0x40 OR 0x67;
          s = s\<lparr>ram := st16 (wrv + 2) (ucast (drop_bit 4 addr)) (st16 wrv 0 (ram s))\<rparr>;
          s = lapicw H ICRHI (push_bit 24 apicid) s;
          s = lapicw H ICRLO (ICR_INIT OR ICR_LEVEL OR ICR_ASSERT) s;
          s = lapicw H ICRLO (ICR_INIT OR ICR_LEVEL) s
      in fold (\<lambda>_ s. lapicw H ICRLO (ICR_STARTUP OR drop_bit 12 addr) (lapicw H ICRHI (push_bit 24 apicid) s)) [0..<2] s)"

definition ioapicread :: "'p hw \<Rightarrow> u32 \<Rightarrow> 'p ioe \<Rightarrow> u32 \<times> 'p ioe" where
  "ioapicread H reg s = mmio_rd H (IOAPIC_ADDR + 16) (mmio_wr H IOAPIC_ADDR reg s)"

definition ioapicwrite :: "'p hw \<Rightarrow> u32 \<Rightarrow> u32 \<Rightarrow> 'p ioe \<Rightarrow> 'p ioe" where
  "ioapicwrite H reg data s = mmio_wr H (IOAPIC_ADDR + 16) data (mmio_wr H IOAPIC_ADDR reg s)"

definition ioapic_init :: "'p hw \<Rightarrow> 'p ioe \<Rightarrow> 'p ioe" where
  "ioapic_init H s =
     (let (v, s) = ioapicread H REG_VER s; maxintr = unat (drop_bit 16 v AND 0xFF) in
      fold (\<lambda>i s. ioapicwrite H (REG_TABLE + 2 * of_nat i + 1) 0
                    (ioapicwrite H (REG_TABLE + 2 * of_nat i) (INT_DISABLED OR (T_IRQ0 + of_nat i)) s))
        [0..<Suc maxintr] s)"

definition ioapic_enable :: "'p hw \<Rightarrow> u32 \<Rightarrow> u32 \<Rightarrow> 'p ioe \<Rightarrow> 'p ioe" where
  "ioapic_enable H irq cpunum s =
     ioapicwrite H (REG_TABLE + 2 * irq + 1) (push_bit 24 cpunum) (ioapicwrite H (REG_TABLE + 2 * irq) (T_IRQ0 + irq) s)"

section \<open>The frame buffer\<close>

text \<open>Pixels \<open>ps\<close>, each with the address of its colour, drawn in their order.\<close>

definition rgb :: "u32 \<Rightarrow> u8 \<times> u8 \<times> u8" where
  "rgb p = (B p, G p, R p)"

definition paint :: "ptr \<Rightarrow> (int \<times> ptr) list \<Rightarrow> gmem \<Rightarrow> gmem" where
  "paint f = fold (\<lambda>(i, q) m. st_pixel (px_at f i) (rgb (ld32 m q)) m)"

definition in_frame :: "ptr \<Rightarrow> int \<Rightarrow> ptr \<Rightarrow> bool" where
  "in_frame f P a \<longleftrightarrow> uint (a - f) < 3 * P"

definition source_ok :: "ptr \<Rightarrow> int \<Rightarrow> ptr \<Rightarrow> bool" where
  "source_ok f P q \<longleftrightarrow> (\<forall>c\<in>{0, 1, 2, 3}. \<not> in_frame f P (q + c))"

lemma uint_of_int32: "uint (of_int k :: u32) = k mod 2 ^ 32"
  by (simp add: unsigned_of_int take_bit_eq_mod)

lemma px_offset:
  assumes "0 \<le> i" "i < P" "3 * P \<le> 2 ^ 32" "c \<in> {0, 1, 2}"
  shows "uint (px_at f i + of_int c - f) = 3 * i + c"
proof -
  have "px_at f i + of_int c - f = of_int (3 * i + c)" by (simp add: px_at_def)
  then have "uint (px_at f i + of_int c - f) = (3 * i + c) mod 2 ^ 32" by (simp only: uint_of_int32)
  then show ?thesis using assms by auto
qed

lemma st_pixel_other:
  assumes "\<And>c. c \<in> {0, 1, 2} \<Longrightarrow> a \<noteq> px_at f i + of_int c"
  shows "st_pixel (px_at f i) col m a = m a"
  using assms [of 0] assms [of 1] assms [of 2] by (auto simp: st_pixel_def split: prod.splits)

lemma st_pixel_outside:
  assumes "0 \<le> i" "i < P" "3 * P \<le> 2 ^ 32" "\<not> in_frame f P a"
  shows "st_pixel (px_at f i) col m a = m a"
proof (intro st_pixel_other notI)
  fix c :: int
  assume "c \<in> {0, 1, 2}" "a = px_at f i + of_int c"
  then have "uint (a - f) = 3 * i + c" using px_offset [OF assms(1-3)] by blast
  then show False using \<open>c \<in> {0, 1, 2}\<close> assms(1,2,4) by (auto simp: in_frame_def)
qed

lemma ld_st_pixel_same: "ld_pixel (st_pixel p col m) p = col"
  by (cases col) (simp add: ld_pixel_def st_pixel_def)

lemma ld_st_pixel_other:
  assumes "0 \<le> i" "i < P" "0 \<le> j" "j < P" "3 * P \<le> 2 ^ 32" "i \<noteq> j"
  shows "ld_pixel (st_pixel (px_at f i) col m) (px_at f j) = ld_pixel m (px_at f j)"
proof -
  have "st_pixel (px_at f i) col m (px_at f j + of_int c) = m (px_at f j + of_int c)" if "c \<in> {0, 1, 2}" for c
  proof (intro st_pixel_other)
    fix d :: int
    assume "d \<in> {0, 1, 2}"
    then show "px_at f j + of_int c \<noteq> px_at f i + of_int d"
      using px_offset [OF assms(1,2,5), of d f] px_offset [OF assms(3-5), of c f] that assms(6) by force
  qed
  from this [of 0] this [of 1] this [of 2] show ?thesis by (simp add: ld_pixel_def)
qed
lemma ld32_outside:
  assumes "source_ok f P q" "\<And>a. \<not> in_frame f P a \<Longrightarrow> m' a = m a"
  shows "ld32 m' q = ld32 m q"
  using assms(1) assms(2) [of q] assms(2) [of "q + 1"] assms(2) [of "q + 2"] assms(2) [of "q + 3"]
  by (simp add: source_ok_def ld32_def)

text \<open>The pixels to draw lie in the frame, their colours outside.\<close>

definition drawable :: "ptr \<Rightarrow> int \<Rightarrow> (int \<times> ptr) list \<Rightarrow> bool" where
  "drawable f P ps \<longleftrightarrow> 3 * P \<le> 2 ^ 32 \<and> (\<forall>(i, q)\<in>set ps. 0 \<le> i \<and> i < P \<and> source_ok f P q)"

lemma paint_outside:
  "drawable f P ps \<Longrightarrow> \<not> in_frame f P a \<Longrightarrow> paint f ps m a = m a"
  by (induction ps rule: rev_induct) (auto simp: paint_def drawable_def st_pixel_outside)

lemma paint_snoc:
  assumes "drawable f P (ps @ [(i, q)])"
  shows "paint f (ps @ [(i, q)]) m = st_pixel (px_at f i) (rgb (ld32 m q)) (paint f ps m)"
proof -
  have "drawable f P ps" "source_ok f P q" using assms by (auto simp: drawable_def)
  then have "ld32 (paint f ps m) q = ld32 m q" by (meson ld32_outside paint_outside)
  then show ?thesis by (simp add: paint_def)
qed

lemma paint_untouched:
  assumes "drawable f P ps" "0 \<le> i" "i < P" "i \<notin> fst ` set ps"
  shows "ld_pixel (paint f ps m) (px_at f i) = ld_pixel m (px_at f i)"
  using assms
proof (induction ps rule: rev_induct)
  case (snoc p ps)
  obtain j q where p: "p = (j, q)" by fastforce
  show ?case using snoc.prems snoc.IH unfolding p
    by (subst paint_snoc [OF snoc.prems(1) [unfolded p]], subst ld_st_pixel_other [of j P]) (auto simp: drawable_def)
qed (simp add: paint_def)

lemma paint_drawn:
  assumes "drawable f P ps" "(i, q) \<in> set ps" "\<And>q'. (i, q') \<in> set ps \<Longrightarrow> q' = q"
  shows "ld_pixel (paint f ps m) (px_at f i) = rgb (ld32 m q)"
  using assms
proof (induction ps rule: rev_induct)
  case (snoc p ps)
  obtain j q' where p: "p = (j, q')" by fastforce
  have S: "paint f (ps @ [p]) m = st_pixel (px_at f j) (rgb (ld32 m q')) (paint f ps m)"
    unfolding p by (rule paint_snoc [OF snoc.prems(1) [unfolded p]])
  show ?case
  proof (cases "j = i")
    case True
    then have "q' = q" using snoc.prems(3) p by simp
    then show ?thesis unfolding S True by (simp only: ld_st_pixel_same)
  next
    case False
    then have "(i, q) \<in> set ps" using snoc.prems(2) p by auto
    moreover have "drawable f P ps" using snoc.prems(1) by (auto simp: drawable_def)
    moreover have "q'' = q" if "(i, q'') \<in> set ps" for q'' using snoc.prems(3) [of q''] that by (metis UnI1 set_append)
    ultimately have "ld_pixel (paint f ps m) (px_at f i) = rgb (ld32 m q)" by (intro snoc.IH)
    moreover have "0 \<le> i" "i < P" "0 \<le> j" "j < P" "3 * P \<le> 2 ^ 32"
      using snoc.prems(1,2) p by (auto simp: drawable_def)
    ultimately show ?thesis unfolding S using ld_st_pixel_other [of j P i f] False by simp
  qed
qed simp

text \<open>The rows of \<open>gpu_fbdraw\<close> as a list of pixels.\<close>

definition row_pixels :: "int \<Rightarrow> int \<Rightarrow> int \<Rightarrow> int \<Rightarrow> int \<Rightarrow> int \<Rightarrow> ptr \<Rightarrow> nat \<Rightarrow> (int \<times> ptr) list" where
  "row_pixels W H x y w len pixels j =
     (if y + int j < H then
        map (\<lambda>i. (x + (y + int j) * W + int i, pixels + of_int (4 * (int j * w + int i)))) [0..<nat len]
      else [])"

lemma draw_px_paint:
  "fold (draw_px (px_at f at) q) [0..<n] = paint f (map (\<lambda>i. (at + int i, q + of_nat (4 * i))) [0..<n])"
proof -
  have E: "draw_px (px_at f at) q i m = st_pixel (px_at f (at + int i)) (rgb (ld32 m (q + of_nat (4 * i)))) m" for i m
    by (simp add: draw_px_def px_at_def rgb_def Let_def algebra_simps)
  have "draw_px (px_at f at) q =
      (\<lambda>i m. st_pixel (px_at f (at + int i)) (rgb (ld32 m (q + of_nat (4 * i)))) m)"
    by (intro ext) (simp only: E)
  then show ?thesis by (simp add: paint_def fold_map comp_def)
qed

lemma fbdraw_rows_paint:
  assumes "0 \<le> y" "y + int (j + k) < 2 ^ 31" "0 \<le> x" "x \<le> W" "3 * (W * H) \<le> 2 ^ 32" "0 \<le> W"
  shows "fbdraw_rows k j f W H x y w len (pixels + of_int (4 * (int j * w))) m =
    Inr (paint f (concat (map (row_pixels W H x y w len pixels) [j..<j + k])) m)"
  using assms
proof (induction k arbitrary: j m)
  case (Suc k)
  have row: "fbdraw_row f W H x y len j (pixels + of_int (4 * (int j * w))) m = Inr (paint f (row_pixels W H x y w len pixels j) m)"
  proof (cases "y + int j < H")
    case True
    then have "(y + int j) * W \<le> (H - 1) * W" using Suc.prems by (intro mult_right_mono) auto
    then have "x + (y + int j) * W \<le> W * H" using Suc.prems(4) by (simp add: algebra_simps)
    moreover have "0 \<le> (y + int j) * W" using Suc.prems by simp
    moreover have "0 \<le> x + (y + int j) * W" using Suc.prems(3) \<open>0 \<le> (y + int j) * W\<close> by simp
    moreover have "int32 z = Inr z" if "0 \<le> z" "z < 2 ^ 31" for z using that by (simp add: int32_def)
    ultimately have "int32 ((y + int j) * W) = Inr ((y + int j) * W)"
      "int32 (x + (y + int j) * W) = Inr (x + (y + int j) * W)"
      using Suc.prems(3,5) by auto
    moreover have "int32 (y + int j) = Inr (y + int j)" using Suc.prems by (simp add: int32_def)
    ultimately show ?thesis
      using True by (simp add: fbdraw_row_def row_pixels_def draw_px_paint algebra_simps)
  next
    case False
    then show ?thesis using Suc.prems by (simp add: fbdraw_row_def row_pixels_def int32_def paint_def)
  qed
  have IH: "fbdraw_rows k (Suc j) f W H x y w len (pixels + of_int (4 * (int (Suc j) * w))) m' =
      Inr (paint f (concat (map (row_pixels W H x y w len pixels) [Suc j..<Suc j + k])) m')" for m'
    using Suc.prems by (intro Suc.IH) auto
  have at: "pixels + of_int (4 * (int j * w)) + of_int (4 * w) = pixels + of_int (4 * (int (Suc j) * w))"
    by (simp add: algebra_simps)
  have split: "[j..<j + Suc k] = j # [Suc j..<Suc j + k]" by (simp add: upt_rec [of j])
  have paint_append: "paint f (ps @ qs) m = paint f qs (paint f ps m)" for ps qs by (simp add: paint_def)
  show ?case
    by (simp only: fbdraw_rows.simps row bindR_simps at IH split paint_append list.map concat.simps)
qed (simp add: paint_def)

definition rect_pixels :: "int \<Rightarrow> int \<Rightarrow> int \<Rightarrow> int \<Rightarrow> int \<Rightarrow> int \<Rightarrow> int \<Rightarrow> ptr \<Rightarrow> (int \<times> ptr) list" where
  "rect_pixels W H x y w h len pixels = concat (map (row_pixels W H x y w len pixels) [0..<nat h])"

lemma rect_pixels_iff:
  "(i, q) \<in> set (rect_pixels W H x y w h len pixels) \<longleftrightarrow>
     (\<exists>j k. 0 \<le> j \<and> j < h \<and> y + j < H \<and> 0 \<le> k \<and> k < len \<and>
      i = (y + j) * W + (x + k) \<and> q = pixels + of_int (4 * (j * w + k)))"
    (is "?L \<longleftrightarrow> ?R")
proof
  assume ?L
  then obtain j k where "j < nat h" "y + int j < H" "k < nat len" "i = x + (y + int j) * W + int k"
    "q = pixels + of_int (4 * (int j * w + int k))"
    by (auto simp: rect_pixels_def row_pixels_def split: if_splits)
  then show ?R by (intro exI [of _ "int j"] exI [of _ "int k"]) auto
next
  assume ?R
  then obtain j k where "0 \<le> j" "j < h" "y + j < H" "0 \<le> k" "k < len" "i = (y + j) * W + (x + k)"
    "q = pixels + of_int (4 * (j * w + k))" by blast
  then have "(i, q) \<in> set (row_pixels W H x y w len pixels (nat j))" "nat j < nat h"
    by (auto simp: row_pixels_def algebra_simps intro!: image_eqI [of _ _ "nat k"])
  then show ?L by (auto simp: rect_pixels_def)
qed

lemma index_less:
  assumes "0 \<le> row" "row < H" "0 \<le> col" "col < (W :: int)"
  shows "0 \<le> row * W + col" "row * W + col < W * H"
proof -
  show "0 \<le> row * W + col" using assms by simp
  have "row * W \<le> (H - 1) * W" using assms by (intro mult_right_mono) auto
  then show "row * W + col < W * H" using assms(4) by (simp add: algebra_simps)
qed

lemma index_inj:
  assumes "0 \<le> c" "c < W" "0 \<le> c'" "c' < (W :: int)" "r * W + c = r' * W + c'"
  shows "r = r' \<and> c = c'"
proof -
  have "(r * W + c) div W = r" "(r' * W + c') div W = r'" using assms(1-4) by (simp_all add: div_add1_eq)
  then show ?thesis using assms(5) by simp
qed

lemma rect_drawable:
  assumes "0 \<le> x" "0 \<le> y" "len \<le> w" "x + len \<le> W" "3 * (W * H) \<le> 2 ^ 32"
    "\<And>k. 0 \<le> k \<Longrightarrow> k < w * h \<Longrightarrow> source_ok f (W * H) (pixels + of_int (4 * k))"
  shows "drawable f (W * H) (rect_pixels W H x y w h len pixels)"
  unfolding drawable_def
proof (intro conjI ballI, goal_cases)
  case (2 p)
  obtain j k where "0 \<le> j" "j < h" "y + j < H" "0 \<le> k" "k < len"
    and p: "fst p = (y + j) * W + (x + k)" "snd p = pixels + of_int (4 * (j * w + k))"
    using 2 rect_pixels_iff [of "fst p" "snd p"] by auto
  then show ?case
    using index_less [of "y + j" H "x + k" W] index_less [of j h k w] assms(1-5) assms(6) [of "j * w + k"]
    by (simp add: case_prod_beta mult.commute [of h])
qed (use assms(5) in simp)

text \<open>
  C33. A rectangle drawn in the frame shows its pixels where it lies in the frame; all other pixels
  and all memory outside the frame keep their values.
\<close>

theorem gpu_fbdraw_draws:
  assumes pos: "0 \<le> sint x" "0 \<le> sint y" "0 \<le> sint w"
    and fit: "sint x \<le> uint (disp_w s)" "sint x + sint w < 2 ^ 31" "sint y + sint h < 2 ^ 31"
    and frame: "3 * (uint (disp_w s) * uint (disp_h s)) \<le> 2 ^ 32"
    and source: "\<And>k. 0 \<le> k \<Longrightarrow> k < sint w * sint h \<Longrightarrow>
      source_ok (fb s) (uint (disp_w s) * uint (disp_h s)) (pixels + of_int (4 * k))"
  shows "\<exists>m. gpu_fbdraw (GPU_FBDRAW_T x y pixels w h sync) s =
        Some (Inr (GPU_FBDRAW_T x y pixels w h sync, s\<lparr>ram := m\<rparr>)) \<and>
      (\<forall>col row. 0 \<le> col \<longrightarrow> col < uint (disp_w s) \<longrightarrow> 0 \<le> row \<longrightarrow> row < uint (disp_h s) \<longrightarrow>
        ld_pixel m (px_at (fb s) (row * uint (disp_w s) + col)) =
          (if sint x \<le> col \<and> col < sint x + sint w \<and> sint y \<le> row \<and> row < sint y + sint h
           then rgb (ld32 (ram s) (pixels + of_int (4 * ((row - sint y) * sint w + (col - sint x)))))
           else ld_pixel (ram s) (px_at (fb s) (row * uint (disp_w s) + col)))) \<and>
      (\<forall>a. \<not> in_frame (fb s) (uint (disp_w s) * uint (disp_h s)) a \<longrightarrow> m a = ram s a)"
proof -
  define X Y W' H' V L where d: "X = sint x" "Y = sint y" "W' = uint (disp_w s)" "H' = uint (disp_h s)" "V = sint w"
    "L = (if X + V \<ge> W' then W' - X else V)"
  define ps where "ps = rect_pixels W' H' X Y V (sint h) L pixels"
  have L: "0 \<le> L" "L \<le> V" "X + L \<le> W'" using pos fit by (auto simp: d)
  have draw: "drawable (fb s) (W' * H') ps"
    unfolding ps_def using L pos frame source by (intro rect_drawable) (simp_all add: d)
  have row: "ld_pixel (paint (fb s) ps (ram s)) (px_at (fb s) (r * W' + c)) =
      (if X \<le> c \<and> c < X + V \<and> Y \<le> r \<and> r < Y + sint h
       then rgb (ld32 (ram s) (pixels + of_int (4 * ((r - Y) * V + (c - X)))))
       else ld_pixel (ram s) (px_at (fb s) (r * W' + c)))"
    if c: "0 \<le> c" "c < W'" and r: "0 \<le> r" "r < H'" for c r
  proof -
    have inL: "c < X + V \<longleftrightarrow> c < X + L" using c by (simp add: d)
    have "(r * W' + c, q) \<in> set ps \<longleftrightarrow> X \<le> c \<and> c < X + L \<and> Y \<le> r \<and> r < Y + sint h \<and>
        q = pixels + of_int (4 * ((r - Y) * V + (c - X)))" for q
    proof
      assume "(r * W' + c, q) \<in> set ps"
      then obtain j k where jk: "0 \<le> j" "j < sint h" "0 \<le> k" "k < L" "r * W' + c = (Y + j) * W' + (X + k)"
        "q = pixels + of_int (4 * (j * V + k))"
        unfolding ps_def rect_pixels_iff by blast
      then have "r = Y + j \<and> c = X + k" using c L pos by (intro index_inj) (auto simp: d)
      then show "X \<le> c \<and> c < X + L \<and> Y \<le> r \<and> r < Y + sint h \<and> q = pixels + of_int (4 * ((r - Y) * V + (c - X)))"
        using jk by simp
    next
      assume "X \<le> c \<and> c < X + L \<and> Y \<le> r \<and> r < Y + sint h \<and> q = pixels + of_int (4 * ((r - Y) * V + (c - X)))"
      then show "(r * W' + c, q) \<in> set ps" unfolding ps_def rect_pixels_iff
        using r by (intro exI [of _ "r - Y"] exI [of _ "c - X"]) simp
    qed
    note iff = this
    show ?thesis
    proof (cases "X \<le> c \<and> c < X + L \<and> Y \<le> r \<and> r < Y + sint h")
      case True
      then show ?thesis using paint_drawn [OF draw, of "r * W' + c"] inL by (simp add: iff)
    next
      case False
      then have "r * W' + c \<notin> fst ` set ps" using iff by (auto simp del: of_int_mult of_int_add)
      then show ?thesis using False inL paint_untouched [OF draw] index_less [OF r c] by auto
    qed
  qed
  have "fbdraw_rows (nat (sint h)) 0 (fb s) W' H' X Y V L pixels (ram s) = Inr (paint (fb s) ps (ram s))"
  proof -
    have "0 \<le> Y" "Y + int (0 + nat (sint h)) < 2 ^ 31" "0 \<le> X" "X \<le> W'" "3 * (W' * H') \<le> 2 ^ 32" "0 \<le> W'"
      using pos fit frame d sint_lt [of y] by auto
    from fbdraw_rows_paint [OF this, of "fb s" V L pixels "ram s"] show ?thesis
      by (simp add: ps_def rect_pixels_def)
  qed
  then have "gpu_fbdraw (GPU_FBDRAW_T x y pixels w h sync) s =
      Some (Inr (GPU_FBDRAW_T x y pixels w h sync, s\<lparr>ram := paint (fb s) ps (ram s)\<rparr>))"
  proof -
    have "int32 (X + V) = Inr (X + V)" using pos fit by (simp add: int32_def d)
    moreover assume "fbdraw_rows (nat (sint h)) 0 (fb s) W' H' X Y V L pixels (ram s) = Inr (paint (fb s) ps (ram s))"
    ultimately show ?thesis
      by (simp only: gpu_fbdraw_def io_data.case Let_def d(1-5) [symmetric] bindR_simps d(6) [symmetric])
  qed
  then show ?thesis using row paint_outside [OF draw] by (intro exI [of _ "paint (fb s) ps (ram s)"]) (simp add: d)
qed

definition demo_screen :: "unit ioe" where
  "demo_screen = \<lparr>dev = (), ram = (\<lambda>a. ucast a), boot_date = \<lparr>year = 0, month = 0, day = 0, hour = 0, minute = 0, second = 0\<rparr>,
     freq_mhz = 2000, uptsc = 0, disp_w = 4, disp_h = 2, fb = 0x1000, vmem_at = 0x3000, vbuf_at = 0x5000,
     vbuf_head = 0x5000, lapic = 0\<rparr>"

theorem gpu_fbdraw_draws_witness:
  "\<exists>m. gpu_fbdraw (GPU_FBDRAW_T 3 1 0x2000 2 2 True) demo_screen =
      Some (Inr (GPU_FBDRAW_T 3 1 0x2000 2 2 True, demo_screen\<lparr>ram := m\<rparr>)) \<and>
    ld_pixel m (px_at 0x1000 7) = (0, 1, 2) \<and> m 0x2000 = 0"
proof -
  have fields: "disp_w demo_screen = 4" "disp_h demo_screen = 2" "fb demo_screen = 0x1000"
    "ram demo_screen = (\<lambda>a. ucast a)"
    by (simp_all add: demo_screen_def)
  have "source_ok 0x1000 8 (0x2000 + of_int (4 * k))" if "0 \<le> k" "k < 4" for k
  proof -
    have "k \<in> {0, 1, 2, 3}" using that by auto
    then show ?thesis by (auto simp: source_ok_def in_frame_def)
  qed
  then have source: "source_ok (fb demo_screen) (uint (disp_w demo_screen) * uint (disp_h demo_screen)) (0x2000 + of_int (4 * k))"
    if "0 \<le> k" "k < sint (2 :: u32) * sint (2 :: u32)" for k using that by (simp add: fields)
  have "0 \<le> sint (3 :: u32)" "0 \<le> sint (1 :: u32)" "0 \<le> sint (2 :: u32)" "sint (3 :: u32) \<le> uint (disp_w demo_screen)"
    "sint (3 :: u32) + sint (2 :: u32) < 2 ^ 31" "sint (1 :: u32) + sint (2 :: u32) < 2 ^ 31"
    "3 * (uint (disp_w demo_screen) * uint (disp_h demo_screen)) \<le> 2 ^ 32"
    by (simp_all add: fields)
  note D = gpu_fbdraw_draws [OF this, of "0x2000" True]
  show ?thesis
  proof (rule exE [OF D], goal_cases)
    case (1 k)
    then show ?case by (rule source)
  next
    case (2 m)
    have "ld_pixel m (px_at 0x1000 7) = (0, 1, 2)"
      using spec [OF spec [OF conjunct1 [OF conjunct2 [OF 2]], of 3], of 1] by (simp add: fields rgb_def ld32_def le_word_def R_def G_def B_def)
    moreover have "m 0x2000 = 0" using spec [OF conjunct2 [OF conjunct2 [OF 2]], of "0x2000"] by (simp add: in_frame_def fields)
    ultimately show ?case using conjunct1 [OF 2] by blast
  qed
qed

section \<open>Keyboard and clock\<close>

text \<open>
  A scan code stands for at most one key and a key has at most one scan code, but no scan code
  gives the left Alt key: the entry of the right one has the same number and comes later.
\<close>

theorem keylut_unique:
  "inj_on keylut {c. keylut c \<noteq> AM_KEY_NONE} \<and> (\<forall>c. keylut c \<noteq> AM_KEY ''LALT'')"
proof -
  have dom: "c \<in> set [1..<92]" if "keylut c \<noteq> AM_KEY_NONE" for c
  proof -
    have "c \<in> fst ` set keylut_init"
      using that by (force simp: keylut_def AM_KEY_NONE_def dest!: map_of_SomeD split: option.splits)
    moreover have "list_all (\<lambda>i. 1 \<le> i \<and> i < 92) (map fst keylut_init)" by code_simp
    ultimately show ?thesis by (auto simp: list_all_iff)
  qed
  have keys: "map keylut [1..<92] = [1, 15, 16, 17, 18, 19, 20, 21, 22, 23, 24, 25, 26, 27, 28, 29, 30, 31, 32, 33, 34, 35, 36, 37, 38, 39, 40, 54, 67, 43, 44, 45, 46, 47, 48, 49, 50, 51, 52, 53, 14, 55, 41, 56, 57, 58, 59, 60, 61, 62, 63, 64, 65, 66, 0, 71, 70, 42, 2, 3, 4, 5, 6, 7, 8, 9, 10, 11, 0, 0, 0, 77, 0, 0, 79, 0, 80, 0, 0, 78, 0, 0, 0, 0, 0, 0, 12, 13, 0, 0, 68]"
    by code_simp
  have "distinct (List.filter (\<lambda>k. k \<noteq> AM_KEY_NONE) (map keylut [1..<92]))"
    unfolding keys by (simp add: AM_KEY_NONE_def)
  then have "inj_on keylut (set (List.filter ((\<lambda>k. k \<noteq> AM_KEY_NONE) \<circ> keylut) [1..<92]))"
    by (simp add: filter_map distinct_map)
  then have "inj_on keylut {c. keylut c \<noteq> AM_KEY_NONE}" by (rule inj_on_subset) (use dom in auto)
  moreover have lalt: "AM_KEY ''LALT'' = 69" by code_simp
  have "AM_KEY ''LALT'' \<notin> set (map keylut [1..<92])" unfolding keys lalt by simp
  then have "keylut c \<noteq> AM_KEY ''LALT''" for c
    using dom [of c] lalt by (metis AM_KEY_NONE_def image_eqI image_set zero_neq_numeral)
  ultimately show ?thesis by blast
qed

text \<open>
  The clock chip's two-digit registers are read as the number they show.
\<close>

theorem read_rtc_decimal:
  assumes "t < 10" "u < 10" "in8 H 0x71 (out8 H 0x70 reg (dev s)) = (of_nat (16 * t + u), d)"
  shows "read_rtc H reg s = (of_nat (10 * t + u), s\<lparr>dev := d\<rparr>)"
proof -
  have "\<forall>t\<in>set [0..<10]. \<forall>u\<in>set [0..<10].
      (ucast (of_nat (16 * t + u) :: u8) AND 0xf) + drop_bit 4 (ucast (of_nat (16 * t + u) :: u8)) * 10 = (of_nat (10 * t + u) :: u32)"
    by code_simp
  then show ?thesis
    using assms by (simp add: read_rtc_def outb_def inb_def Let_def del: upt_conv_Cons)
qed

section \<open>Disk\<close>

text \<open>
  The command of the disk driver gives the drive the sector number in four bytes, with the bits
  that select the first drive and linear addressing in the last one, and then starts the transfer.
\<close>

theorem disk_cmd_lba:
  assumes "blkno < 2 ^ 28"
  shows "\<exists>b0 b1 b2 b3. disk_cmd H write blkno s =
      s\<lparr>dev := out8 H 0x1f7 (if write then 0x30 else 0x20) (out8 H 0x1f6 b3 (out8 H 0x1f5 b2
        (out8 H 0x1f4 b1 (out8 H 0x1f3 b0 (out8 H 0x1f2 1 (dev s))))))\<rparr> \<and>
    le_word b0 b1 b2 (b3 AND 0xf) = blkno \<and> b3 AND 0xf0 = 0xe0"
proof -
  let ?b3 = "byte_of blkno 3 OR 0xe0"
  have "unat blkno < 2 ^ 28" using assms by (simp add: word_less_nat_alt)
  then have "\<forall>i\<ge>28. \<not> bit blkno i" unfolding unat_lt_pow2_iff_bits .
  then have high: "\<not> bit (byte_of blkno 3) n" if "4 \<le> n" for n using that by (simp add: bit_byte_of)
  have "?b3 AND 0xf = byte_of blkno 3" "?b3 AND 0xf0 = 0xe0"
    using high [of 4] high [of 5] high [of 6] high [of 7]
    by (auto intro!: bit_word_eqI simp: bit_simps less_Suc_eq numeral_eq_Suc)
  moreover have "disk_cmd H write blkno s =
      s\<lparr>dev := out8 H 0x1f7 (if write then 0x30 else 0x20) (out8 H 0x1f6 ?b3 (out8 H 0x1f5 (byte_of blkno 2)
        (out8 H 0x1f4 (byte_of blkno 1) (out8 H 0x1f3 (byte_of blkno 0) (out8 H 0x1f2 1 (dev s))))))\<rparr>"
    by (simp add: disk_cmd_def outb_def Let_def byte_of_def unsigned_or_eq)
  ultimately show ?thesis using le_word_byte_of [of blkno] by metis
qed

text \<open>A bus that records what is written to its ports; the clock chip answers with the register number.\<close>

definition log_hw :: "(u16 \<times> u8) list hw" where
  "log_hw = \<lparr>in8 = (\<lambda>p d. (case d of [] \<Rightarrow> 0 | e # _ \<Rightarrow> snd e, d)), in32 = (\<lambda>p d. (0, d)),
     out8 = (\<lambda>p v d. (p, v) # d), out16 = (\<lambda>p v d. d), out32 = (\<lambda>p v d. d), tsc = (\<lambda>d. (0, d)),
     apic_rd = (\<lambda>a d. (0, d)), apic_wr = (\<lambda>a v d. d)\<rparr>"

definition demo_log :: "(u16 \<times> u8) list ioe" where
  "demo_log = \<lparr>dev = [], ram = (\<lambda>_. 0), boot_date = \<lparr>year = 0, month = 0, day = 0, hour = 0, minute = 0, second = 0\<rparr>,
     freq_mhz = 2000, uptsc = 0, disp_w = 4, disp_h = 2, fb = 0x1000, vmem_at = 0x3000, vbuf_at = 0x5000,
     vbuf_head = 0x5000, lapic = 0\<rparr>"

theorem read_rtc_decimal_witness:
  "read_rtc log_hw 0x59 demo_log = (59, demo_log\<lparr>dev := [(0x70, 0x59)]\<rparr>)"
  using read_rtc_decimal [of 5 9 log_hw "0x59" demo_log "[(0x70, 0x59)]"] by (simp add: log_hw_def demo_log_def)

theorem disk_cmd_lba_witness:
  "\<exists>b0 b1 b2 b3. dev (disk_cmd log_hw True 0x1234567 demo_log) =
      [(0x1f7, 0x30), (0x1f6, b3), (0x1f5, b2), (0x1f4, b1), (0x1f3, b0), (0x1f2, 1)] \<and>
    le_word b0 b1 b2 (b3 AND 0xf) = 0x1234567"
  using disk_cmd_lba [of "0x1234567" log_hw True demo_log] by (fastforce simp: log_hw_def demo_log_def)

section \<open>Device table\<close>

text \<open>
  After \<open>ioe_init\<close> a register ends in the handler the table names for it, or panics when it
  names none; a second processor cannot initialise the table.
\<close>

theorem x86_ioe_cases:
  assumes "ioe_init H cpu (lut_entries lut, s0) = Some (Inr (tab, s1))"
  shows "cpu = 0 \<and> ioe_read H tab (of_nat (reg_id r)) buf s =
     (case map_of lut r of
        None \<Rightarrow> Some (Inl (Panic ''access nonexist register''))
      | Some h \<Rightarrow> run_hfun H h buf s)"
proof -
  have "cpu = 0" "tab = fill_lut H_fail (lut_entries lut)"
    using assms by (auto simp: ioe_init_def Let_def bind_eq_Some_conv split: if_splits)
  then show ?thesis
    using x86_io.io_reg [of H r buf s] by (simp add: ioe_read_def x86_io.io_def io_fail_def split: option.splits)
qed

text \<open>A clock chip that moves on with every sixth access, up to 4.\<close>

definition clock_hw :: "nat hw" where
  "clock_hw = \<lparr>in8 = (\<lambda>p d. if p = 0x71 then (of_nat (min (d div 6) 4), d + 1) else (0, d)), in32 = (\<lambda>p d. (0, d)),
     out8 = (\<lambda>p v d. d), out16 = (\<lambda>p v d. d), out32 = (\<lambda>p v d. d), tsc = (\<lambda>d. (of_nat (d * 2 ^ 28), d)),
     apic_rd = (\<lambda>a d. (0, d)), apic_wr = (\<lambda>a v d. d)\<rparr>"

definition demo_clock :: "nat ioe" where
  "demo_clock = \<lparr>dev = 0, ram = (\<lambda>_. 0), boot_date = \<lparr>year = 0, month = 0, day = 0, hour = 0, minute = 0, second = 0\<rparr>,
     freq_mhz = 2000, uptsc = 0, disp_w = 4, disp_h = 2, fb = 0x1000, vmem_at = 0x3000, vbuf_at = 0x5000,
     vbuf_head = 0x5000, lapic = 0\<rparr>"

lemma clock_reg:
  "read_rtc clock_hw reg s = (of_nat (min (dev s div 6) 4), s\<lparr>dev := dev s + 1\<rparr>)"
proof -
  have "\<forall>v\<in>{0, 1, 2, 3, 4}. (ucast (of_nat v :: u8) AND 0xf) + drop_bit 4 (ucast (of_nat v :: u8)) * 10 = (of_nat v :: u32)"
    by simp
  moreover have "min (dev s div 6) 4 \<in> {0, 1, 2, 3, 4}" by (auto simp: min_def)
  ultimately have "(ucast (of_nat (min (dev s div 6) 4) :: u8) AND 0xf) +
      drop_bit 4 (ucast (of_nat (min (dev s div 6) 4) :: u8)) * 10 = (of_nat (min (dev s div 6) 4) :: u32)"
    by (rule bspec)
  then show ?thesis by (simp add: read_rtc_def outb_def inb_def clock_hw_def Let_def)
qed

lemma clock_date:
  "read_rtc_async clock_hw s =
    (\<lparr>year = of_nat (min ((dev s + 5) div 6) 4) + 2000, month = of_nat (min ((dev s + 4) div 6) 4),
      day = of_nat (min ((dev s + 3) div 6) 4), hour = of_nat (min ((dev s + 2) div 6) 4),
      minute = of_nat (min ((dev s + 1) div 6) 4), second = of_nat (min (dev s div 6) 4)\<rparr>, s\<lparr>dev := dev s + 6\<rparr>)"
  by (simp add: read_rtc_async_def clock_reg add.commute [of _ "dev s"])

lemma clock_wait:
  "dev s = 0 \<Longrightarrow> wait_sec clock_hw s = Some (fst (read_rtc_async clock_hw (s\<lparr>dev := 6\<rparr>)), s\<lparr>dev := 12\<rparr>)"
  "dev s = 12 \<Longrightarrow> wait_sec clock_hw s = Some (fst (read_rtc_async clock_hw (s\<lparr>dev := 18\<rparr>)), s\<lparr>dev := 24\<rparr>)"
  by (subst wait_sec.simps, simp add: clock_date)+

lemma clock_loop: "dev s = 24 \<Longrightarrow> rtc_loop clock_hw s = Some (fst (read_rtc_async clock_hw s), s\<lparr>dev := 31\<rparr>)"
  by (subst rtc_loop.simps) (simp add: clock_date clock_reg)

lemma clock_tsc: "rdtsc clock_hw s = (of_nat (dev s * 2 ^ 28), s)"
  by (simp add: rdtsc_def clock_hw_def)

lemma clock_freq: "dev s = 0 \<Longrightarrow> \<exists>f. estimate_freq clock_hw s = Some (f, s\<lparr>dev := 24\<rparr>)"
  by (subst estimate_freq.simps) (simp add: clock_wait clock_tsc clock_date seconds_def)

lemma clock_init: "dev s = 0 \<Longrightarrow> \<exists>s'. timer_init clock_hw s = Some s'"
  using clock_freq [of s] by (auto simp: timer_init_def clock_loop clock_tsc)

theorem x86_ioe_cases_witness:
  "\<exists>tab s1. ioe_init clock_hw 0 (lut_entries lut, demo_clock) = Some (Inr (tab, s1)) \<and>
    ioe_read clock_hw tab 15 (AUDIO_CTRL_T 0 0 0) s1 = Some (Inl (Panic ''access nonexist register''))"
proof -
  have "dev (uart_init clock_hw demo_clock) = 0"
    by (simp add: uart_init_def outb_def inb_def clock_hw_def demo_clock_def COM1_def Let_def)
  then obtain tab s1 where I: "ioe_init clock_hw 0 (lut_entries lut, demo_clock) = Some (Inr (tab, s1))"
    using clock_init [of "uart_init clock_hw demo_clock"] by (auto simp: ioe_init_def)
  then show ?thesis using x86_ioe_cases [OF I, of AM_AUDIO_CTRL "AUDIO_CTRL_T 0 0 0" s1] by (simp add: lut_def)
qed

end
