(* ===== verification/X86_Cte.thy ===== *)
theory X86_Cte
  imports X86_Desc X86_Ioe
begin

text \<open>
  Interrupts and contexts of the 32-bit x86 platform: \<open>am/src/x86/qemu/cte.c\<close> and the entry and exit
  code of \<open>trap32.S\<close>.  The interrupt table, the task state and the contexts are words of memory at
  addresses the linker fixes; the client's handler is a parameter.
\<close>

section \<open>State\<close>

text \<open>The devices and memory, and the control registers the code uses.\<close>

record 'p x86 =
  io :: "'p ioe"
  reg_cr2 :: u32
  reg_cr3 :: u32
  int_flag :: bool
  idtr :: "ptr \<times> u16"
  gdtr :: "ptr \<times> u16"
  task_reg :: u16
  heap_area :: Area
  am_ncpu :: u32

text \<open>Addresses of the linked image: the variables \<open>__am_cpuinfo\<close>, \<open>idt\<close> and \<open>ap_ready\<close>, and code labels.\<close>

record image =
  cpuinfo_at :: ptr
  idt_at :: ptr
  irq_at :: "nat \<Rightarrow> ptr"
  irqall_at :: ptr
  kcontext_start_at :: ptr
  panic_on_return_at :: ptr
  image_end :: ptr
  ap_ready_at :: ptr

abbreviation mem :: "'p x86 \<Rightarrow> gmem" where
  "mem s \<equiv> ram (io s)"

definition upd_mem :: "(gmem \<Rightarrow> gmem) \<Rightarrow> 'p x86 \<Rightarrow> 'p x86" where
  "upd_mem f s = s\<lparr>io := (io s)\<lparr>ram := f (ram (io s))\<rparr>\<rparr>"

text \<open>
  A \<open>struct cpu_local\<close> is the pointer \<open>uvm\<close>, six segment descriptors, a task state of 104 bytes and
  a stack of 8192 bytes.
\<close>

definition cpu_local_at :: "image \<Rightarrow> u32 \<Rightarrow> ptr" where "cpu_local_at L cpu = cpuinfo_at L + cpu * 8348"
definition gdt_at :: "image \<Rightarrow> u32 \<Rightarrow> ptr" where "gdt_at L cpu = cpu_local_at L cpu + 4"
definition tss_at :: "image \<Rightarrow> u32 \<Rightarrow> ptr" where "tss_at L cpu = cpu_local_at L cpu + 52"
definition stack_top :: "image \<Rightarrow> u32 \<Rightarrow> ptr" where "stack_top L cpu = cpu_local_at L cpu + 156 + 8192"

definition cpu_current :: "'p hw \<Rightarrow> 'p x86 \<Rightarrow> u32 \<times> 'p x86" where
  "cpu_current H s = (let (v, d) = mmio_rd H (lapic (io s) + 4 * 8) (io s) in (drop_bit 24 v, s\<lparr>io := d\<rparr>))"

definition set_idt :: "ptr \<Rightarrow> u32 \<Rightarrow> 'p x86 \<Rightarrow> 'p x86" where
  "set_idt idt n s = s\<lparr>idtr := (idt, ucast n)\<rparr>"

definition set_cr3 :: "u32 \<Rightarrow> 'p x86 \<Rightarrow> 'p x86" where
  "set_cr3 pdir s = s\<lparr>reg_cr3 := pdir\<rparr>"

section \<open>Interrupt handler\<close>

text \<open>Vectors of exceptions (\<open>x86.h\<close>).\<close>

definition EX_DE :: u32 where "EX_DE = 0"
definition EX_UD :: u32 where "EX_UD = 6"
definition EX_NM :: u32 where "EX_NM = 7"
definition EX_DF :: u32 where "EX_DF = 8"
definition EX_TS :: u32 where "EX_TS = 10"
definition EX_NP :: u32 where "EX_NP = 11"
definition EX_SS :: u32 where "EX_SS = 12"
definition EX_GP :: u32 where "EX_GP = 13"
definition EX_PF :: u32 where "EX_PF = 14"
definition EX_SYSCALL :: u32 where "EX_SYSCALL = 0x80"
definition EX_YIELD :: u32 where "EX_YIELD = 0x81"

lemmas EX_defs = EX_DE_def EX_UD_def EX_NM_def EX_DF_def EX_TS_def EX_NP_def EX_SS_def EX_GP_def EX_PF_def
  EX_SYSCALL_def EX_YIELD_def

text \<open>The event of an interrupt, from its vector, its error code and the faulting address.\<close>

definition irq_event :: "u32 \<Rightarrow> u32 \<Rightarrow> u32 \<Rightarrow> Event" where
  "irq_event irq errcode cr2 =
     (let ev = (\<lambda>e m. \<lparr>event = e, cause = 0, ref_of = 0, msg = m\<rparr>) in
      if irq = T_IRQ0 + 0 then ev EVENT_IRQ_TIMER ''timer interrupt (lapic)''
      else if irq = T_IRQ0 + 1 then ev EVENT_IRQ_IODEV ''I/O device IRQ1 (keyboard)''
      else if irq = T_IRQ0 + 4 then ev EVENT_IRQ_IODEV ''I/O device IRQ4 (COM1)''
      else if irq = EX_SYSCALL then ev EVENT_SYSCALL ''int $0x80 system call''
      else if irq = EX_YIELD then ev EVENT_YIELD ''int $0x81 yield''
      else if irq = EX_DE then ev EVENT_ERROR ''DE #0 divide by zero''
      else if irq = EX_UD then ev EVENT_ERROR ''UD #6 invalid opcode''
      else if irq = EX_NM then ev EVENT_ERROR ''NM #7 coprocessor error''
      else if irq = EX_DF then ev EVENT_ERROR ''DF #8 double fault''
      else if irq = EX_TS then ev EVENT_ERROR ''TS #10 invalid TSS''
      else if irq = EX_NP then ev EVENT_ERROR ''NP #11 segment/gate not present''
      else if irq = EX_SS then ev EVENT_ERROR ''SS #12 stack fault''
      else if irq = EX_GP then ev EVENT_ERROR ''GP #13, general protection fault''
      else if irq = EX_PF then
        (let c = (if errcode AND 1 \<noteq> 0 then MMAP_NONE else 0) in
         \<lparr>event = EVENT_PAGEFAULT, cause = (if errcode AND 2 \<noteq> 0 then c OR MMAP_WRITE else c OR MMAP_READ),
          ref_of = cr2, msg = ''PF #14, page fault, @cause: PROT_XXX''\<rparr>)
      else \<lparr>event = EVENT_ERROR, cause = errcode, ref_of = 0, msg = ''unrecognized interrupt/exception''\<rparr>)"

type_synonym 'p event_handler = "Event \<Rightarrow> ptr \<Rightarrow> 'p x86 \<Rightarrow> (ptr \<times> 'p x86) result"

text \<open>
  The fields of a \<open>Context\<close> are words 0 to 14, and a \<open>struct trap_frame\<close> adds \<open>irq\<close>, \<open>errcode\<close>,
  \<open>eip\<close>, \<open>cs\<close>, \<open>eflags\<close>, \<open>esp\<close> and \<open>ss\<close> as words 15 to 21.
\<close>

definition save_context :: "'p hw \<Rightarrow> image \<Rightarrow> ptr \<Rightarrow> 'p x86 \<Rightarrow> 'p x86" where
  "save_context H L tf s =
     (let w = (\<lambda>i s. ld32 (mem s) (slot tf i)); set = (\<lambda>i v. upd_mem (st32 (slot tf i) v));
          s = set 10 (w 17 s) s;
          s = set 11 (w 18 s) s;
          s = set 12 (w 19 s) s;
          (cpu, s) = cpu_current H s;
          s = set 6 (ld32 (mem s) (tss_at L cpu + 4)) s;
          s = set 14 (USEL SEG_UDATA) s;
          s = set 13 (if w 18 s AND DPL_USER \<noteq> 0 then w 20 s else tf + 88 - 8) s
      in set 0 (reg_cr3 s) s)"

definition irq_ack :: "'p hw \<Rightarrow> ptr \<Rightarrow> 'p x86 \<Rightarrow> 'p x86" where
  "irq_ack H tf s =
     (let irq = ld32 (mem s) (slot tf 15) in
      if T_IRQ0 + 0 \<le> irq \<and> irq < T_IRQ0 + 32 then s\<lparr>io := lapic_eoi H (io s)\<rparr> else s)"

definition switch_to :: "'p hw \<Rightarrow> image \<Rightarrow> ptr \<Rightarrow> 'p x86 \<Rightarrow> 'p x86" where
  "switch_to H L c s =
     (if ld32 (mem s) (slot c 0) \<noteq> 0 then
        let s = set_cr3 (ld32 (mem s) (slot c 0)) s;
            (cpu, s) = cpu_current H s;
            s = upd_mem (st32 (tss_at L cpu + 8) (KSEL SEG_KDATA)) s;
            (cpu, s) = cpu_current H s
        in upd_mem (st32 (tss_at L cpu + 4) (ld32 (mem s) (slot c 6))) s
      else s)"

text \<open>The handler, which ends in \<open>__am_iret\<close> with the context it returns.\<close>

definition irq_handle :: "'p hw \<Rightarrow> image \<Rightarrow> 'p event_handler option \<Rightarrow> ptr \<Rightarrow> 'p x86 \<Rightarrow> (ptr \<times> 'p x86) result" where
  "irq_handle H L user_handler tf s =
     (let s = irq_ack H tf (save_context H L tf s);
          ev = irq_event (ld32 (mem s) (slot tf 15)) (ld32 (mem s) (slot tf 16)) (reg_cr2 s)
      in case user_handler of
           None \<Rightarrow> Inl (Undefined ''null pointer'')
         | Some h \<Rightarrow>
             bindR (h ev tf s) (\<lambda>(c, s).
             bindR (guardR (c \<noteq> 0) (Panic ''returning to NULL context'')) (\<lambda>_. Inr (c, switch_to H L c s))))"

section \<open>Initialisation\<close>

definition st_gate :: "ptr \<Rightarrow> GateDesc32 \<Rightarrow> gmem \<Rightarrow> gmem" where
  "st_gate p d m = st32 (p + 4) (gate_hi d) (st32 p (gate_lo d) m)"

definition idt_entry :: "image \<Rightarrow> nat \<Rightarrow> ptr \<Rightarrow> u32 \<Rightarrow> gmem \<Rightarrow> gmem" where
  "idt_entry L i entry dpl = st_gate (idt_at L + of_nat (8 * i)) (GATE32 STS_TG (KSEL SEG_KCODE) entry dpl)"

definition cte_init ::
  "'p hw \<Rightarrow> image \<Rightarrow> 'p event_handler option \<Rightarrow> 'p x86 \<Rightarrow> (bool \<times> 'p event_handler option \<times> 'p x86) result" where
  "cte_init H L handler s =
     (let (cpu, s) = cpu_current H s in
      bindR (guardR (cpu = 0) (Panic ''init CTE in non-bootstrap CPU'')) (\<lambda>_.
      bindR (guardR (handler \<noteq> None) (Panic ''no interrupt handler'')) (\<lambda>_.
        let s = upd_mem (fold (\<lambda>i. idt_entry L i (irqall_at L) DPL_KERN) [0..<NR_IRQ]) s;
            s = upd_mem (fold (\<lambda>(i, user, err). idt_entry L i (irq_at L i) (if user then DPL_USER else DPL_KERN)) IRQS) s
        in Inr (True, handler, s))))"

definition ienabled :: "'p x86 \<Rightarrow> bool" where "ienabled s = int_flag s"

definition iset :: "bool \<Rightarrow> 'p x86 \<Rightarrow> 'p x86" where
  "iset enable s = (if enable then s\<lparr>int_flag := True\<rparr> else s\<lparr>int_flag := False\<rparr>)"

definition kcontext :: "image \<Rightarrow> Area \<Rightarrow> ptr \<Rightarrow> u32 \<Rightarrow> gmem \<Rightarrow> ptr \<times> gmem" where
  "kcontext L kstack entry arg m =
     (let ctx = area_end kstack - x86_ctx_size;
          m = fold (\<lambda>i. st32 (slot ctx i) 0) [0..<15] m;
          m = st32 (slot ctx 1) (KSEL SEG_KDATA) m;
          m = st32 (slot ctx 11) (KSEL SEG_KCODE) m;
          m = st32 (slot ctx 10) (kcontext_start_at L) m;
          m = st32 (slot ctx 12) FL_IF m;
          m = st32 (slot ctx 13) (area_end kstack) m;
          m = st32 (slot ctx 2) arg m;
          m = st32 (slot ctx 3) entry m
      in (ctx, m))"

definition panic_on_return :: "unit result" where
  "panic_on_return = Inl (Panic ''kernel context returns'')"

definition percpu_initirq :: "'p hw \<Rightarrow> image \<Rightarrow> 'p x86 \<Rightarrow> 'p x86" where
  "percpu_initirq H L s =
     (let s = s\<lparr>io := ioapic_enable H IRQ_KBD 0 (io s)\<rparr>;
          s = s\<lparr>io := ioapic_enable H IRQ_COM1 0 (io s)\<rparr>
      in set_idt (idt_at L) (of_nat (8 * NR_IRQ)) s)"

section \<open>Entry and exit (\<open>trap32.S\<close>)\<close>

record regs =
  eax :: u32
  ebx :: u32
  ecx :: u32
  edx :: u32
  esi :: u32
  edi :: u32
  ebp :: u32
  esp :: u32
  eip :: u32
  eflags :: u32
  cs :: u16
  ds :: u16
  es :: u16
  ss :: u16

definition push :: "u32 \<Rightarrow> regs \<times> gmem \<Rightarrow> regs \<times> gmem" where
  "push w rm = (let p = esp (fst rm) - 4 in ((fst rm)\<lparr>esp := p\<rparr>, st32 p w (snd rm)))"

text \<open>
  The processor's part of an interrupt: code of a user continues on the stack of the task state
  (at \<open>tss\<close>), its stack pointer saved first.  \<open>err\<close> is the error code, when there is one, and the
  stub pushes it when there is none, and the number of the interrupt.
\<close>

definition interrupt_frame :: "ptr \<Rightarrow> u32 option \<Rightarrow> u32 \<Rightarrow> regs \<Rightarrow> gmem \<Rightarrow> regs \<times> gmem" where
  "interrupt_frame tss err irq x m =
     (let rm = (if cs x AND 3 \<noteq> 0
                then push (esp x) (push (ucast (ss x)) (x\<lparr>esp := ld32 m (tss + 4), ss := ucast (ld32 m (tss + 8))\<rparr>, m))
                else (x, m));
          rm = push (eip x) (push (ucast (cs x)) (push (eflags x) rm));
          rm = push (case err of None \<Rightarrow> 0 | Some e \<Rightarrow> e) rm
      in push irq rm)"

text \<open>\<open>trap\<close> until it calls the handler; its frame is at the stack pointer.\<close>

definition trap :: "regs \<times> gmem \<Rightarrow> regs \<times> gmem" where
  "trap rm =
     (let x = fst rm;
          rm = (x\<lparr>esp := esp x - 20, eflags := eflags x AND NOT FL_IF\<rparr>, snd rm);
          rm = push 0 (push (esi x) (push (edi x) (push (ebp x) rm)));
          rm = push (eax x) (push (ebx x) (push (ecx x) (push (edx x) rm)));
          a = (eax x AND 0xffff0000) OR ucast (ds x);
          rm = push 0 (push a rm);
          k = ucast (KSEL SEG_KDATA)
      in ((fst rm)\<lparr>eax := (a AND 0xffff0000) OR ucast k, ds := k, es := k, ss := k\<rparr>, snd rm))"

text \<open>\<open>__am_iret\<close>, to the instruction it returns to.\<close>

definition am_iret :: "ptr \<Rightarrow> regs \<Rightarrow> gmem \<Rightarrow> regs \<times> gmem" where
  "am_iret c x m =
     (let w = (\<lambda>i. ld32 m (slot c i));
          x = x\<lparr>ds := ucast (w 1), es := ucast (w 1)\<rparr>
      in if (ucast (w 11) :: u16) = ucast (KSEL SEG_KCODE) then
           let edi' = w 13;
               m = st32 (edi' - 4) (w 12) m;
               m = st32 (edi' - 8) (ld32 m (slot c 11)) m;
               m = st32 (edi' - 12) (ld32 m (slot c 10)) m;
               m = st32 (edi' - 16) (ld32 m (slot c 9)) m;
               m = st32 (edi' - 20) (ld32 m (slot c 8)) m;
               m = st32 (edi' - 24) (ld32 m (slot c 7)) m
           in (x\<lparr>eax := w 2, ebx := w 3, ecx := w 4, edx := w 5, esi := ld32 m (edi' - 24), edi := ld32 m (edi' - 20),
                 ebp := ld32 m (edi' - 16), eip := ld32 m (edi' - 12), cs := ucast (ld32 m (edi' - 8)),
                 eflags := ld32 m (edi' - 4), esp := edi'\<rparr>, m)
         else
           (x\<lparr>eax := w 2, ebx := w 3, ecx := w 4, edx := w 5, esi := w 7, edi := w 8, ebp := w 9, eip := w 10,
              cs := ucast (w 11), eflags := w 12, esp := w 13, ss := ucast (w 14)\<rparr>, m))"

text \<open>\<open>__am_kcontext_start\<close>: the first instructions of a kernel thread.\<close>

definition kcontext_start :: "image \<Rightarrow> regs \<times> gmem \<Rightarrow> regs \<times> gmem" where
  "kcontext_start L rm =
     (let x = fst rm; rm = push (panic_on_return_at L) (push (eax x) rm) in ((fst rm)\<lparr>eip := ebx x\<rparr>, snd rm))"

text \<open>An interrupt from the processor's part to the return.\<close>

definition interrupt ::
  "'p hw \<Rightarrow> image \<Rightarrow> 'p event_handler option \<Rightarrow> ptr \<Rightarrow> u32 option \<Rightarrow> u32 \<Rightarrow> regs \<Rightarrow> 'p x86 \<Rightarrow> (regs \<times> 'p x86) result" where
  "interrupt H L h tss err irq x s =
     (let (x, m) = trap (interrupt_frame tss err irq x (mem s))
      in bindR (irq_handle H L h (esp x) (upd_mem (\<lambda>_. m) s)) (\<lambda>(c, s).
           let (x, m) = am_iret c x (mem s) in Inr (x, upd_mem (\<lambda>_. m) s)))"

section \<open>Words of a frame\<close>

lemma upd_mem_simps [simp]:
  "io (upd_mem f s) = (io s)\<lparr>ram := f (ram (io s))\<rparr>" "reg_cr2 (upd_mem f s) = reg_cr2 s"
  "reg_cr3 (upd_mem f s) = reg_cr3 s"
  by (simp_all add: upd_mem_def)

lemma cpu_current_simps [simp]:
  "mem (snd (cpu_current H s)) = mem s" "reg_cr2 (snd (cpu_current H s)) = reg_cr2 s"
  "reg_cr3 (snd (cpu_current H s)) = reg_cr3 s"
  by (simp_all add: cpu_current_def mmio_rd_def split: prod.splits)

lemma cpu_number: "fst (cpu_current H s) < 256"
proof -
  have "drop_bit 24 w < 256" for w :: u32
    using unat_bound32 [of w] by (simp add: word_less_nat_alt unat_drop_bit)
  then show ?thesis by (simp add: cpu_current_def split: prod.splits)
qed

lemma lapic_eoi_ram [simp]: "ram (lapic_eoi H s) = ram s"
  by (simp add: lapic_eoi_def lapicw_def mmio_wr_def mmio_rd_def Let_def split: prod.splits)

lemma ld32_slot [simp]:
  "i < 2 ^ 29 \<Longrightarrow> j < 2 ^ 29 \<Longrightarrow> ld32 (st32 (slot c i) w m) (slot c j) = (if i = j then w else ld32 m (slot c j))"
  using apart_offsets [of i j c] ld32_st32_apart by (simp add: slot_def)

lemma ld32_slot_0 [simp]:
  "j < 2 ^ 29 \<Longrightarrow> ld32 (st32 c w m) (slot c j) = (if j = 0 then w else ld32 m (slot c j))"
  "j < 2 ^ 29 \<Longrightarrow> ld32 (st32 (slot c j) w m) c = (if j = 0 then w else ld32 m c)"
  using ld32_slot [of 0 j c w m] ld32_slot [of j 0 c w m] by simp_all

lemma slot_back: "j \<le> i \<Longrightarrow> slot f i - of_nat (4 * j) = slot f (i - j)"
  by (simp add: slot_def of_nat_diff algebra_simps)

lemma slot_sub [simp]:
  assumes "(4 :: nat) dvd numeral k" "numeral k \<le> 4 * i"
  shows "slot f i - numeral k = slot f (i - numeral k div 4)"
proof -
  obtain j where j: "(numeral k :: nat) = 4 * j" using assms(1) by (elim dvdE)
  then have k: "(numeral k :: u32) = of_nat (4 * j)" by (metis of_nat_numeral)
  show ?thesis unfolding k j using slot_back [of j i f] assms(2) [unfolded j] by simp
qed

lemma save_context_words:
  assumes "i < 22"
  shows "ld32 (mem (save_context H L tf s)) (slot tf i) =
    (if i = 0 then reg_cr3 s else if i = 6 then ld32 (mem (save_context H L tf s)) (slot tf 6)
     else if i = 10 then ld32 (mem s) (slot tf 17) else if i = 11 then ld32 (mem s) (slot tf 18)
     else if i = 12 then ld32 (mem s) (slot tf 19)
     else if i = 13 then (if ld32 (mem s) (slot tf 18) AND DPL_USER \<noteq> 0 then ld32 (mem s) (slot tf 20) else tf + 80)
     else if i = 14 then USEL SEG_UDATA else ld32 (mem s) (slot tf i))"
  using assms by (simp add: save_context_def Let_def case_prod_beta)

text \<open>The frame that \<open>trap\<close> completes, and the one of an interrupt of the kernel or of a user.\<close>

definition frame_ok :: "ptr \<Rightarrow> u32 option \<Rightarrow> u32 \<Rightarrow> regs \<Rightarrow> gmem \<Rightarrow> bool" where
  "frame_ok f err irq x m \<longleftrightarrow>
     ld32 m f = 0 \<and> ucast (ld32 m (slot f 1)) = ds x \<and> ld32 m (slot f 2) = eax x \<and> ld32 m (slot f 3) = ebx x \<and>
     ld32 m (slot f 4) = ecx x \<and> ld32 m (slot f 5) = edx x \<and> ld32 m (slot f 7) = esi x \<and> ld32 m (slot f 8) = edi x \<and>
     ld32 m (slot f 9) = ebp x \<and> ld32 m (slot f 15) = irq \<and>
     ld32 m (slot f 16) = (case err of None \<Rightarrow> 0 | Some e \<Rightarrow> e) \<and> ld32 m (slot f 17) = eip x \<and>
     ld32 m (slot f 18) = ucast (cs x) \<and> ld32 m (slot f 19) = eflags x \<and>
     (cs x AND 3 \<noteq> 0 \<longrightarrow> ld32 m (slot f 20) = esp x \<and> ld32 m (slot f 21) = ucast (ss x))"

lemma ds_word: "ucast ((a AND 0xffff0000 :: u32) OR ucast (d :: u16)) = d"
proof -
  have m: "(0xffff0000 :: u32) = push_bit 16 (mask 16)" by (simp add: mask_eq_exp_minus_1)
  show ?thesis unfolding m
    by (auto intro!: bit_word_eqI simp: bit_or_iff bit_and_iff bit_push_bit_iff bit_mask_iff bit_unsigned_iff simp del: mask_numeral)
qed

lemma trap_frame:
  assumes "if cs x AND 3 \<noteq> 0 then ld32 m (tss + 4) = slot f 22 else esp x = slot f 20"
  obtains y M where "trap (interrupt_frame tss err irq x m) = (y, M)" "esp y = f" "ss y = ucast (KSEL SEG_KDATA)"
    "frame_ok f err irq x M"
proof -
  obtain y M where "trap (interrupt_frame tss err irq x m) = (y, M)" by fastforce
  moreover have "esp y = f \<and> ss y = ucast (KSEL SEG_KDATA) \<and> frame_ok f err irq x M"
    by (cases "cs x AND 3 = 0")
      (use calculation assms in \<open>auto simp: interrupt_frame_def trap_def Let_def push_def frame_ok_def ds_word\<close>)
  ultimately show thesis using that by blast
qed

text \<open>A handler that goes on with the interrupted context.\<close>

definition resumes :: "'p event_handler \<Rightarrow> bool" where
  "resumes h \<longleftrightarrow> (\<forall>ev c s. \<exists>s'. h ev c s = Inr (c, s') \<and> (\<forall>i<22. ld32 (mem s') (slot c i) = ld32 (mem s) (slot c i)))"

text \<open>The words of the frame are not those of a task state.\<close>

definition off_tss :: "image \<Rightarrow> ptr \<Rightarrow> bool" where
  "off_tss L f \<longleftrightarrow> (\<forall>cpu<256. \<forall>i<22. apart (tss_at L cpu + 4) (slot f i) \<and> apart (tss_at L cpu + 8) (slot f i))"

lemma irq_ack_mem [simp]: "mem (irq_ack H tf s) = mem s"
  by (simp add: irq_ack_def Let_def)

lemma switch_to_words:
  assumes "off_tss L f" "i < 22"
  shows "ld32 (mem (switch_to H L c s)) (slot f i) = ld32 (mem s) (slot f i)"
proof -
  have "ld32 (st32 (tss_at L (fst (cpu_current H s')) + 4) v m) (slot f i) = ld32 m (slot f i)"
    "ld32 (st32 (tss_at L (fst (cpu_current H s')) + 8) v m) (slot f i) = ld32 m (slot f i)" for v m s'
    using assms cpu_number [of H s'] by (simp_all add: off_tss_def ld32_st32_apart)
  then show ?thesis by (simp add: switch_to_def set_cr3_def Let_def case_prod_beta)
qed

lemma user_selector: "ucast (c :: u16) AND DPL_USER = 0 \<longleftrightarrow> c AND 3 = 0"
proof -
  have m: "DPL_USER = mask 2" "(3 :: u16) = mask 2" by (simp_all add: DPL_USER_def mask_eq_exp_minus_1)
  have "unat (ucast c :: u32) = unat c" using unsigned_less [of c, where 'a = nat] by (simp add: unat_ucast)
  then show ?thesis unfolding m and_low_mask_eq_0_iff by simp
qed

lemma irq_handle_resumes:
  assumes "resumes h" "frame_ok f err irq x (mem s)" "f \<noteq> 0" "off_tss L f"
  shows "\<exists>s'. irq_handle H L (Some h) f s = Inr (f, s') \<and>
    (\<forall>i. i < 10 \<longrightarrow> i \<noteq> 0 \<longrightarrow> i \<noteq> 6 \<longrightarrow> ld32 (mem s') (slot f i) = ld32 (mem s) (slot f i)) \<and>
    ld32 (mem s') (slot f 10) = eip x \<and> ld32 (mem s') (slot f 11) = ucast (cs x) \<and> ld32 (mem s') (slot f 12) = eflags x \<and>
    ld32 (mem s') (slot f 13) = (if cs x AND 3 \<noteq> 0 then esp x else f + 80) \<and> ld32 (mem s') (slot f 14) = USEL SEG_UDATA"
proof -
  define s1 where "s1 = save_context H L f s"
  define s2 where "s2 = irq_ack H f s1"
  obtain s3 where s3: "h (irq_event (ld32 (mem s2) (slot f 15)) (ld32 (mem s2) (slot f 16)) (reg_cr2 s2)) f s2 = Inr (f, s3)"
    "\<And>i. i < 22 \<Longrightarrow> ld32 (mem s3) (slot f i) = ld32 (mem s1) (slot f i)"
    using assms(1) irq_ack_mem [of H f s1] unfolding resumes_def s2_def by metis
  then have "irq_handle H L (Some h) f s = Inr (f, switch_to H L f s3)"
    using assms(3) by (simp add: irq_handle_def Let_def flip: s1_def s2_def)
  moreover have "ld32 (mem (switch_to H L f s3)) (slot f i) = ld32 (mem s1) (slot f i)" if "i < 22" for i
    using switch_to_words [OF assms(4) that] s3(2) [OF that] by metis
  moreover have "ucast (cs x) AND DPL_USER = 0 \<longleftrightarrow> cs x AND 3 = 0" by (simp add: user_selector)
  ultimately show ?thesis
    using assms(2) by (intro exI [of _ "switch_to H L f s3"]) (simp add: s1_def save_context_words frame_ok_def)
qed

section \<open>Interrupts return\<close>

lemma irq_handle_frame:
  assumes "resumes h" "frame_ok f err irq x M" "f \<noteq> 0" "off_tss L f"
  obtains s' where "irq_handle H L (Some h) f (upd_mem (\<lambda>_. M) s) = Inr (f, s')"
    "\<forall>i. i < 10 \<longrightarrow> i \<noteq> 0 \<longrightarrow> i \<noteq> 6 \<longrightarrow> ld32 (mem s') (slot f i) = ld32 M (slot f i)"
    "ld32 (mem s') (slot f 10) = eip x" "ld32 (mem s') (slot f 11) = ucast (cs x)" "ld32 (mem s') (slot f 12) = eflags x"
    "ld32 (mem s') (slot f 13) = (if cs x AND 3 \<noteq> 0 then esp x else slot f 20)" "ld32 (mem s') (slot f 14) = USEL SEG_UDATA"
proof -
  have "frame_ok f err irq x (mem (upd_mem (\<lambda>_. M) s))" "f + 80 = slot f 20" using assms(2) by (simp_all add: slot_def)
  from irq_handle_resumes [OF assms(1) this(1) assms(3,4), of H] show thesis
    unfolding \<open>f + 80 = slot f 20\<close> using that by auto
qed

text \<open>
  C18. An interrupt of kernel code whose handler resumes the interrupted context changes no register:
  not the stack pointer, although the processor does not pop it, and not the flags, although
  interrupts are off meanwhile.  Only \<open>es\<close>, which the frame does not hold, becomes equal to \<open>ds\<close>.
\<close>

theorem interrupt_kernel_roundtrip:
  assumes "resumes h" "cs x = ucast (KSEL SEG_KCODE)" "ss x = ucast (KSEL SEG_KDATA)"
    and "esp x \<noteq> 80" "off_tss L (esp x - 80)"
  shows "\<exists>s'. interrupt H L (Some h) tss err irq x s = Inr (x\<lparr>es := ds x\<rparr>, s')"
proof -
  define f where "f = esp x - 80"
  have cs: "cs x = 8" "cs x AND 3 = 0" and ss: "ss x = 16"
    using assms(2,3) by (simp_all add: KSEL_def DPL_KERN_def SEG_KCODE_def SEG_KDATA_def push_bit_eq_mult)
  have e: "esp x = slot f 20" by (simp add: f_def slot_def)
  obtain y M where y: "trap (interrupt_frame tss err irq x (mem s)) = (y, M)" "esp y = f"
    "ss y = ucast (KSEL SEG_KDATA)" "frame_ok f err irq x M"
    using trap_frame [of x "mem s" tss f err irq] cs e by auto
  obtain s' where s': "irq_handle H L (Some h) f (upd_mem (\<lambda>_. M) s) = Inr (f, s')"
    "\<forall>i. i < 10 \<longrightarrow> i \<noteq> 0 \<longrightarrow> i \<noteq> 6 \<longrightarrow> ld32 (mem s') (slot f i) = ld32 M (slot f i)"
    "ld32 (mem s') (slot f 10) = eip x" "ld32 (mem s') (slot f 11) = ucast (cs x)" "ld32 (mem s') (slot f 12) = eflags x"
    "ld32 (mem s') (slot f 13) = slot f 20"
    using irq_handle_frame [OF assms(1) y(4)] assms(4,5) cs unfolding f_def by (metis right_minus_eq)
  have w: "ld32 (mem s') (slot f i) = ld32 M (slot f i)" if "i \<in> {1, 2, 3, 4, 5, 7, 8, 9}" for i
    using s'(2) that by auto
  have "fst (am_iret f y (mem s')) = x\<lparr>es := ds x\<rparr>"
    using y(3,4) s'(3-6) cs ss assms(2,3) e
    by (intro regs.equality) (simp_all add: am_iret_def Let_def frame_ok_def w KSEL_def DPL_KERN_def SEG_KCODE_def)
  then show ?thesis using y(1,2) s'(1)
    by (simp add: interrupt_def case_prod_beta)
qed

text \<open>
  C35. An interrupt of user code, on the stack of its task state, whose handler resumes it changes
  no register of the user, except that \<open>es\<close> becomes equal to \<open>ds\<close>.
\<close>

theorem interrupt_user_roundtrip:
  assumes "resumes h" "cs x = ucast (USEL SEG_UCODE)" "ss x = ucast (USEL SEG_UDATA)"
    and "ld32 (mem s) (tss + 4) = slot f 22" "f \<noteq> 0" "off_tss L f"
  shows "\<exists>s'. interrupt H L (Some h) tss err irq x s = Inr (x\<lparr>es := ds x\<rparr>, s')"
proof -
  have cs: "cs x = 27" "cs x AND 3 \<noteq> 0" and ss: "ss x = 35"
    using assms(2,3) by (simp_all add: USEL_def DPL_USER_def SEG_UCODE_def SEG_UDATA_def push_bit_eq_mult)
  obtain y M where y: "trap (interrupt_frame tss err irq x (mem s)) = (y, M)" "esp y = f" "frame_ok f err irq x M"
    using trap_frame [of x "mem s" tss f err irq] cs assms(4) by metis
  obtain s' where s': "irq_handle H L (Some h) f (upd_mem (\<lambda>_. M) s) = Inr (f, s')"
    "\<forall>i. i < 10 \<longrightarrow> i \<noteq> 0 \<longrightarrow> i \<noteq> 6 \<longrightarrow> ld32 (mem s') (slot f i) = ld32 M (slot f i)"
    "ld32 (mem s') (slot f 10) = eip x" "ld32 (mem s') (slot f 11) = ucast (cs x)" "ld32 (mem s') (slot f 12) = eflags x"
    "ld32 (mem s') (slot f 13) = esp x" "ld32 (mem s') (slot f 14) = USEL SEG_UDATA"
    using irq_handle_frame [OF assms(1) y(3) assms(5,6)] cs by metis
  have w: "ld32 (mem s') (slot f i) = ld32 M (slot f i)" if "i \<in> {1, 2, 3, 4, 5, 7, 8, 9}" for i
    using s'(2) that by auto
  have "fst (am_iret f y (mem s')) = x\<lparr>es := ds x\<rparr>"
    using y(3) s'(3-7) cs ss assms(2,3)
    by (intro regs.equality) (simp_all add: am_iret_def Let_def frame_ok_def w KSEL_def DPL_KERN_def SEG_KCODE_def)
  then show ?thesis using y(1,2) s'(1) by (simp add: interrupt_def case_prod_beta)
qed

lemma zero_words: "i < n \<Longrightarrow> n \<le> 2 ^ 29 \<Longrightarrow> ld32 (fold (\<lambda>i. st32 (slot c i) 0) [0..<n] m) (slot c i) = 0"
  by (induction n) (auto simp: less_Suc_eq)

text \<open>
  C8. An interrupt whose handler switches to a context made by \<open>kcontext\<close> enters the kernel thread
  with interrupts on: control is at its entry, its argument is the argument of a call on its own
  stack, and the return address of that call leads to the panic.
\<close>

theorem x86_kcontext_enters:
  assumes "kcontext L kstack entry arg m0 = (c, m1)"
    and "irq_handle H L h (esp (fst (trap (interrupt_frame tss err irq x (mem s)))))
      (upd_mem (\<lambda>_. snd (trap (interrupt_frame tss err irq x (mem s)))) s) = Inr (c, s')"
    and "\<And>i. i < 15 \<Longrightarrow> ld32 (mem s') (slot c i) = ld32 m1 (slot c i)"
  shows "\<exists>y s''. interrupt H L h tss err irq x s = Inr (y, s'') \<and> eip y = kcontext_start_at L \<and>
    (let (z, m) = kcontext_start L (y, mem s'') in
      eip z = entry \<and> esp z = area_end kstack - 8 \<and> ld32 m (esp z) = panic_on_return_at L \<and> ld32 m (esp z + 4) = arg \<and>
      cs z = ucast (KSEL SEG_KCODE) \<and> ds z = ucast (KSEL SEG_KDATA) \<and> es z = ucast (KSEL SEG_KDATA) \<and> eflags z = FL_IF)"
proof -
  define y where "y = fst (trap (interrupt_frame tss err irq x (mem s)))"
  have c: "c = area_end kstack - 60" "slot c 15 = area_end kstack"
    using assms(1) by (auto simp: kcontext_def x86_ctx_size_def Let_def slot_def)
  have z: "ld32 (fold (\<lambda>i. st32 (slot c i) 0) [0..<15] m0) (slot c i) = 0" if "i < 15" for i
    using that by (rule zero_words) simp
  have w: "ld32 (mem s') (slot c i) =
      (if i = 1 then KSEL SEG_KDATA else if i = 2 then arg else if i = 3 then entry else if i = 10 then kcontext_start_at L
       else if i = 11 then KSEL SEG_KCODE else if i = 12 then FL_IF else if i = 13 then slot c 15 else 0)" if "i < 15" for i
    using assms(1) assms(3) [OF that] that z [OF that] c
    by (auto simp: kcontext_def x86_ctx_size_def Let_def)
  define m2 where "m2 = mem s'"
  have "ld32 m2 c = 0" using w [of 0] by (simp add: m2_def)
  note W = this w [folded m2_def]
  define e where "e = area_end kstack"
  have e: "e = slot c 15" by (simp only: e_def c(2))
  obtain z m3 where z: "am_iret c y m2 = (z, m3)" by fastforce
  then have "z = y\<lparr>ds := ucast (KSEL SEG_KDATA), es := ucast (KSEL SEG_KDATA), eax := arg, ebx := entry, ecx := 0, edx := 0, esi := 0,
      edi := 0, ebp := 0, eip := kcontext_start_at L, cs := ucast (KSEL SEG_KCODE), eflags := FL_IF, esp := e\<rparr>"
    by (auto simp: am_iret_def Let_def W e)
  moreover have "interrupt H L h tss err irq x s = Inr (z, upd_mem (\<lambda>_. m3) s')"
    using assms(2) z by (simp add: interrupt_def case_prod_beta y_def m2_def)
  moreover have "slot c 13 + 4 = slot c 14" by (simp add: slot_def)
  ultimately show ?thesis
    unfolding e_def [symmetric]
    by (intro exI [of _ z] exI [of _ "upd_mem (\<lambda>_. m3) s'"]) (simp add: kcontext_start_def push_def Let_def e)
qed

section \<open>The interrupt table\<close>

definition idt_word :: "image \<Rightarrow> gmem \<Rightarrow> nat \<Rightarrow> u32 \<times> u32" where
  "idt_word L m i = (ld32 m (slot (idt_at L) (2 * i)), ld32 m (slot (idt_at L) (2 * i + 1)))"

lemma idt_word_entry:
  assumes "i < 256" "j < 256"
  shows "idt_word L (idt_entry L i entry dpl m) j =
    (if i = j then (gate_lo (GATE32 STS_TG (KSEL SEG_KCODE) entry dpl), gate_hi (GATE32 STS_TG (KSEL SEG_KCODE) entry dpl))
     else idt_word L m j)"
proof -
  have "idt_at L + of_nat (8 * i) = slot (idt_at L) (2 * i)" "slot (idt_at L) (2 * i) + 4 = slot (idt_at L) (2 * i + 1)"
    by (simp_all add: slot_def algebra_simps)
  moreover have "2 * a \<noteq> Suc (2 * b)" "Suc (2 * b) \<noteq> 2 * a" for a b :: nat by presburger+
  ultimately show ?thesis using assms by (simp add: idt_word_def idt_entry_def st_gate_def)
qed

lemma idt_word_fold:
  assumes "\<forall>x\<in>set xs. fst x < 256" "j < 256"
  shows "idt_word L (fold (\<lambda>(i, e, d). idt_entry L i e d) xs m) j =
    (case map_of (rev xs) j of
       None \<Rightarrow> idt_word L m j
     | Some (e, d) \<Rightarrow> (gate_lo (GATE32 STS_TG (KSEL SEG_KCODE) e d), gate_hi (GATE32 STS_TG (KSEL SEG_KCODE) e d)))"
  using assms(1)
proof (induction xs rule: rev_induct)
  case (snoc x xs)
  then show ?case using assms(2) by (cases x) (auto simp: idt_word_entry)
qed simp

text \<open>
  C20. After \<open>cte_init\<close> each of the 256 vectors is a present trap gate into the kernel's code segment
  whose target is the stub of its number when it has one and the common one otherwise, and only the
  system call and the yield may be raised by user code.
\<close>

theorem cte_init_gates:
  assumes "cte_init H L handler s = Inr (b, h, s')" "v < 256"
  shows "\<exists>lo hi. idt_word L (mem s') v = (lo, hi) \<and>
    gate_target lo hi = (if v \<in> fst ` set IRQS then irq_at L v else irqall_at L) \<and>
    drop_bit 16 lo = KSEL SEG_KCODE \<and> desc_type hi = STS_TG \<and> bit hi 15 \<and>
    desc_dpl hi = (if v = 0x80 \<or> v = 0x81 then DPL_USER else DPL_KERN)"
proof -
  define ks where "ks = map fst IRQS"
  define f where "f i = (irq_at L i, if i = 0x80 \<or> i = 0x81 then DPL_USER else DPL_KERN)" for i
  define xs where "xs = map (\<lambda>i. (i, irqall_at L, DPL_KERN)) [0..<256] @ map (\<lambda>i. (i, f i)) ks"
  have "fold (\<lambda>(i, user, err). idt_entry L i (irq_at L i) (if user then DPL_USER else DPL_KERN)) IRQS =
      fold (\<lambda>(i, e, d). idt_entry L i e d) (map (\<lambda>i. (i, f i)) ks)"
    by (simp add: IRQS_def ks_def f_def fun_eq_iff)
  then have m: "mem s' = fold (\<lambda>(i, e, d). idt_entry L i e d) xs (mem s)"
    using assms(1) by (auto simp: cte_init_def xs_def NR_IRQ_def fold_map comp_def Let_def case_prod_beta bindR_Inr_iff guardR_Inr_iff)
  have "list_all (\<lambda>i. i < 256) ks" unfolding ks_def by code_simp
  then have "\<forall>x\<in>set xs. fst x < 256" by (auto simp: xs_def list_all_iff)
  then have "idt_word L (mem s') v = (case map_of (rev xs) v of
       None \<Rightarrow> idt_word L (mem s) v
     | Some (e, d) \<Rightarrow> (gate_lo (GATE32 STS_TG (KSEL SEG_KCODE) e d), gate_hi (GATE32 STS_TG (KSEL SEG_KCODE) e d)))"
    unfolding m using assms(2) by (rule idt_word_fold)
  moreover have "map_of (rev xs) v = Some (if v \<in> set ks then f v else (irqall_at L, DPL_KERN))"
    using assms(2) by (simp add: xs_def rev_map map_of_map_restrict map_add_def restrict_map_def)
  moreover have "v = 0x80 \<or> v = 0x81 \<longrightarrow> v \<in> set ks" by (auto simp: ks_def IRQS_def)
  ultimately show ?thesis
    using GATE32_target [of STS_TG "KSEL SEG_KCODE"] GATE32_rights [of STS_TG "KSEL SEG_KCODE"]
    by (auto simp: f_def ks_def STS_TG_def KSEL_def SEG_KCODE_def DPL_KERN_def DPL_USER_def)
qed

section \<open>Examples\<close>

definition demo_image :: image where
  "demo_image = \<lparr>cpuinfo_at = 0x200000, idt_at = 0x100000, irq_at = (\<lambda>i. 0x110000 + of_nat (16 * i)), irqall_at = 0x120000,
     kcontext_start_at = 0x121000, panic_on_return_at = 0x122000, image_end = 0x500000, ap_ready_at = 0x130000\<rparr>"

definition demo_x86 :: "(u16 \<times> u8) list x86" where
  "demo_x86 = \<lparr>io = demo_log\<lparr>ram := st32 0x200038 0x80058 (\<lambda>_. 0)\<rparr>, reg_cr2 = 0, reg_cr3 = 0x1000, int_flag = True,
     idtr = (0, 0), gdtr = (0, 0), task_reg = 0, heap_area = RANGE 0 0, am_ncpu = 0\<rparr>"

definition demo_regs :: "u16 \<Rightarrow> u16 \<Rightarrow> regs" where
  "demo_regs c d = \<lparr>eax = 1, ebx = 2, ecx = 3, edx = 4, esi = 5, edi = 6, ebp = 7, esp = 0x90000, eip = 0x50000, eflags = 0x202,
     cs = c, ds = d, es = d, ss = d\<rparr>"

lemma apart_above:
  assumes "unat p + 4 \<le> unat q" "unat q + 4 \<le> 2 ^ 32"
  shows "apart q p"
proof -
  have "unat (q - p) = unat q - unat p" "unat (p - q) = 2 ^ 32 + unat p - unat q"
    using assms by (simp_all add: unat_sub_if' word_le_nat_alt)
  moreover have "unat p \<le> unat q" "unat q \<le> 2 ^ 32 + unat p" using assms by simp_all
  ultimately show ?thesis using assms by (simp add: apart_def le_diff_conv2)
qed

lemma off_tss_demo:
  assumes "unat f + 88 \<le> 0x200000"
  shows "off_tss demo_image f"
  unfolding off_tss_def
proof (intro allI impI)
  fix cpu :: u32 and i :: nat
  assume "cpu < 256" "i < 22"
  then have "unat cpu < 256" by (simp add: word_less_nat_alt)
  then have "unat (0x200000 + cpu * 8348 + 52 + k) = 0x200000 + unat cpu * 8348 + 52 + unat k" if "unat k \<le> 8" for k :: u32
    using that by (simp add: unat_word_ariths)
  from this [of 4] this [of 8] have t: "unat (tss_at demo_image cpu + 4) = 0x200000 + unat cpu * 8348 + 56"
    "unat (tss_at demo_image cpu + 8) = 0x200000 + unat cpu * 8348 + 60"
    by (simp_all add: tss_at_def cpu_local_at_def demo_image_def)
  have "unat (slot f i) = unat f + 4 * i"
    using assms \<open>i < 22\<close> by (simp add: slot_def unat_word_ariths unat_of_nat)
  then show "apart (tss_at demo_image cpu + 4) (slot f i) \<and> apart (tss_at demo_image cpu + 8) (slot f i)"
    using t assms \<open>i < 22\<close> \<open>unat cpu < 256\<close> by (intro conjI apart_above) simp_all
qed

lemma resumes_demo: "resumes (\<lambda>ev c s. Inr (c, s))"
  by (simp add: resumes_def)

theorem interrupt_kernel_roundtrip_witness:
  "\<exists>s'. interrupt log_hw demo_image (Some (\<lambda>ev c s. Inr (c, s))) 0x200034 None 32 (demo_regs 8 16) demo_x86 =
      Inr (demo_regs 8 16, s')"
  using interrupt_kernel_roundtrip [OF resumes_demo, of "demo_regs 8 16" demo_image log_hw "0x200034" None 32 demo_x86]
    off_tss_demo [of "esp (demo_regs 8 16) - 80"]
  by (simp add: demo_regs_def KSEL_def DPL_KERN_def SEG_KCODE_def SEG_KDATA_def)

theorem interrupt_user_roundtrip_witness:
  "\<exists>s'. interrupt log_hw demo_image (Some (\<lambda>ev c s. Inr (c, s))) 0x200034 (Some 4) 14 (demo_regs 27 35) demo_x86 =
      Inr (demo_regs 27 35, s')"
proof -
  have "ld32 (mem demo_x86) (0x200034 + 4) = slot 0x80000 22" by (simp add: demo_x86_def slot_def)
  then show ?thesis
    using interrupt_user_roundtrip [OF resumes_demo, of "demo_regs 27 35" demo_x86 "0x200034" "0x80000" demo_image log_hw "Some 4" 14]
      off_tss_demo [of "0x80000"]
    by (simp add: demo_regs_def USEL_def DPL_USER_def SEG_UCODE_def SEG_UDATA_def)
qed

theorem cte_init_gates_witness:
  "\<exists>s'. cte_init log_hw demo_image (Some (\<lambda>ev c s. Inr (c, s))) demo_x86 = Inr (True, Some (\<lambda>ev c s. Inr (c, s)), s') \<and>
    (\<exists>lo hi. idt_word demo_image (mem s') 0x81 = (lo, hi) \<and> gate_target lo hi = 0x110810 \<and> desc_dpl hi = 3)"
proof -
  have "fst (cpu_current log_hw demo_x86) = 0" by (simp add: cpu_current_def mmio_rd_def log_hw_def)
  then obtain s' where I: "cte_init log_hw demo_image (Some (\<lambda>ev c s. Inr (c, s))) demo_x86 = Inr (True, Some (\<lambda>ev c s. Inr (c, s)), s')"
    by (auto simp: cte_init_def case_prod_beta)
  have "0x81 \<in> fst ` set IRQS" "irq_at demo_image 0x81 = 0x110810" by (simp_all add: IRQS_def demo_image_def)
  then have "\<exists>lo hi. idt_word demo_image (mem s') 0x81 = (lo, hi) \<and> gate_target lo hi = 0x110810 \<and> desc_dpl hi = 3"
    using cte_init_gates [OF I, of "0x81"] by (auto simp: DPL_USER_def)
  then show ?thesis using I by blast
qed

text \<open>A handler that switches to a new kernel thread.\<close>

definition demo_switch :: "'p event_handler" where
  "demo_switch ev c s = (let (c, m) = kcontext demo_image (RANGE 0xA0000 0xB0000) 0x60000 7 (mem s) in Inr (c, upd_mem (\<lambda>_. m) s))"

lemma demo_switch_handle:
  "\<exists>m0 c m1 s'. kcontext demo_image (RANGE 0xA0000 0xB0000) 0x60000 7 m0 = (c, m1) \<and>
     irq_handle H demo_image (Some demo_switch) tf s = Inr (c, s') \<and> mem s' = m1"
proof -
  define s2 where "s2 = irq_ack H tf (save_context H demo_image tf s)"
  obtain c m1 where k: "kcontext demo_image (RANGE 0xA0000 0xB0000) 0x60000 7 (mem s2) = (c, m1)" by fastforce
  then have c: "c = 0xAFFC4" by (auto simp: kcontext_def Let_def RANGE_def x86_ctx_size_def)
  have "ld32 m1 (slot c 0) = 0"
    using k zero_words [of 0 15 c "mem s2"] by (auto simp: kcontext_def Let_def RANGE_def x86_ctx_size_def)
  then have "irq_handle H demo_image (Some demo_switch) tf s = Inr (c, upd_mem (\<lambda>_. m1) s2)"
    using k c by (simp add: irq_handle_def demo_switch_def switch_to_def flip: s2_def)
  then show ?thesis using k by (intro exI [of _ "mem s2"] exI [of _ c] exI [of _ m1] exI [of _ "upd_mem (\<lambda>_. m1) s2"]) simp
qed

theorem x86_kcontext_enters_witness:
  "\<exists>y s'. interrupt log_hw demo_image (Some demo_switch) 0x200034 None 32 (demo_regs 8 16) demo_x86 = Inr (y, s') \<and>
     eip (fst (kcontext_start demo_image (y, mem s'))) = 0x60000"
proof -
  let ?t = "trap (interrupt_frame 0x200034 None 32 (demo_regs 8 16) (mem demo_x86))"
  obtain m0 c m1 s' where k: "kcontext demo_image (RANGE 0xA0000 0xB0000) 0x60000 7 m0 = (c, m1)"
    "irq_handle log_hw demo_image (Some demo_switch) (esp (fst ?t)) (upd_mem (\<lambda>_. snd ?t) demo_x86) = Inr (c, s')" "mem s' = m1"
    using demo_switch_handle by blast
  have "ld32 (mem s') (slot c i) = ld32 m1 (slot c i)" for i by (simp add: k(3))
  from x86_kcontext_enters [OF k(1,2) this] show ?thesis by (simp add: Let_def case_prod_beta) blast
qed

end
