(* ===== verification/X86_Trm.thy ===== *)
theory X86_Trm
  imports X86_Cte
begin

text \<open>
  Start, output and halt of the 32-bit x86 platform (\<open>am/src/x86/qemu/trm.c\<close>), and its
  processors (\<open>mpe.c\<close>): the boot processor starts the others one after the other.
\<close>

section \<open>Output and halt\<close>

definition putch :: "'p hw \<Rightarrow> u8 \<Rightarrow> 'p x86 \<Rightarrow> 'p x86" where
  "putch H ch s = s\<lparr>io := outb H COM1 ch (io s)\<rparr>"

definition BOOTREC_ADDR :: ptr where "BOOTREC_ADDR = 0x07000"
definition MAX_CPU :: nat where "MAX_CPU = 8"

text \<open>The fields of the boot record.\<close>

definition jmp_code_at :: ptr where "jmp_code_at = BOOTREC_ADDR"
definition is_ap_at :: ptr where "is_ap_at = BOOTREC_ADDR + 4"

definition stop_the_world :: "'p hw \<Rightarrow> 'p x86 \<Rightarrow> 'p x86" where
  "stop_the_world H s =
     (let s = upd_mem (st32 jmp_code_at 0x0000feeb) s in
      fold (\<lambda>cpu s. let (c, s) = cpu_current H s in
              if of_nat cpu \<noteq> c then s\<lparr>io := lapic_bootap H (of_nat cpu) BOOTREC_ADDR (io s)\<rparr> else s)
        [0..<nat (sint (am_ncpu s))] s)"

definition char_code :: "char \<Rightarrow> u8" where
  "char_code c = of_nat (of_char c)"

definition hex_digits :: string where "hex_digits = ''0123456789abcdef''"

definition put_hex :: "'p hw \<Rightarrow> nat \<Rightarrow> 'p x86 \<Rightarrow> 'p x86 result" where
  "put_hex H i s =
     (if i < 16 then Inr (putch H (char_code (hex_digits ! i)) s)
      else if i = 16 then Inr (putch H 0 s) else Inl (Undefined ''hex''))"

definition halt_char :: "'p hw \<Rightarrow> u32 \<Rightarrow> char \<Rightarrow> 'p x86 \<Rightarrow> 'p x86 result" where
  "halt_char H code ch s =
     (if ch = CHR ''$'' then let (c, s) = cpu_current H s in put_hex H (unat c) s
      else if ch = CHR ''0'' \<or> ch = CHR ''4'' then
        put_hex H (unat (signed_drop_bit (of_char ch - of_char (CHR ''0'')) code AND 0xf)) s
      else Inr (putch H (char_code ch) s))"

definition halt_fmt :: string where
  "halt_fmt = ''CPU #$ Halt (40).'' @ [CHR 0x0A]"

text \<open>The processor then waits for ever.\<close>

definition halt :: "'p hw \<Rightarrow> u32 \<Rightarrow> 'p x86 \<Rightarrow> 'p x86 result" where
  "halt H code s =
     (let s = stop_the_world H (iset False s) in
      bindR (fold_result (halt_char H code) halt_fmt s) (\<lambda>s. Inr (s\<lparr>io := outw H 0x604 0x2000 (io s)\<rparr>)))"

section \<open>Boot\<close>

definition heap_init :: "'p hw \<Rightarrow> image \<Rightarrow> 'p x86 \<Rightarrow> Area \<times> 'p x86" where
  "heap_init H L s =
     (let d = outb H 0x70 0x34 (io s);
          (lo, d) = inb H 0x71 d;
          d = outb H 0x70 0x35 d;
          (hi, d) = inb H 0x71 d;
          lo = ucast lo :: u32;
          hi = ucast hi + 1 :: u32
      in (RANGE (ROUNDUP (image_end L) (push_bit 20 1)) (push_bit 16 (lo OR push_bit 8 hi)), s\<lparr>io := d\<rparr>))"

text \<open>The search for the descriptor of the multiprocessor table, and the count of its processors.\<close>

primrec mp_scan :: "nat \<Rightarrow> ptr \<Rightarrow> gmem \<Rightarrow> ptr option" where
  "mp_scan 0 st m = None"
| "mp_scan (Suc n) st m = (if ld32 m st = 0x5f504d5f then Some st else mp_scan n (st + 1) m)"

text \<open>\<open>off\<close> is the distance from the table, whose header has 44 bytes.\<close>

function mp_count :: "gmem \<Rightarrow> ptr \<Rightarrow> nat \<Rightarrow> nat \<Rightarrow> nat \<Rightarrow> nat result" where
  "mp_count m conf len off ncpu =
     (if off < len then
        if m (conf + of_nat off) = 0 then
          if ncpu + 1 > MAX_CPU then Inl (Panic ''cannot support > MAX_CPU processors'')
          else mp_count m conf len (off + 12 + 8) (ncpu + 1)
        else mp_count m conf len (off + 8) ncpu
      else Inr ncpu)"
  by pat_completeness auto
termination
  by (relation "measure (\<lambda>(m, conf, len, off, ncpu). len - off)") auto

declare mp_count.simps [simp del]

definition lapic_init :: "'p x86 \<Rightarrow> 'p x86 result" where
  "lapic_init s =
     (case mp_scan (unat (0xffffff - 0xf0000 :: u32)) 0xf0000 (mem s) of
        None \<Rightarrow> Inl (Panic ''internal error (likely a bug in AM)'')
      | Some st \<Rightarrow>
          (let conf = ld32 (mem s) (st + 4); s = s\<lparr>io := (io s)\<lparr>lapic := ld32 (mem s) (conf + 36)\<rparr>\<rparr> in
           bindR (mp_count (mem s) conf (unat (ld16 (mem s) (conf + 4))) 44 (unat (am_ncpu s))) (\<lambda>n.
           Inr (s\<lparr>am_ncpu := of_nat n\<rparr>))))"

definition st_seg :: "ptr \<Rightarrow> u32 \<Rightarrow> SegDesc \<Rightarrow> gmem \<Rightarrow> gmem" where
  "st_seg gdt i d m = st32 (gdt + 8 * i + 4) (seg_hi d) (st32 (gdt + 8 * i) (seg_lo d) m)"

definition set_gdt :: "ptr \<Rightarrow> u32 \<Rightarrow> 'p x86 \<Rightarrow> 'p x86" where
  "set_gdt gdt n s = s\<lparr>gdtr := (gdt, ucast n)\<rparr>"

definition set_tr :: "u32 \<Rightarrow> 'p x86 \<Rightarrow> 'p x86" where
  "set_tr selector s = s\<lparr>task_reg := ucast selector\<rparr>"

definition percpu_initgdt :: "'p hw \<Rightarrow> image \<Rightarrow> 'p x86 \<Rightarrow> 'p x86" where
  "percpu_initgdt H L s =
     (let (cpu, s) = cpu_current H s; gdt = gdt_at L cpu;
          (cpu, s) = cpu_current H s; tss = tss_at L cpu;
          s = upd_mem (st_seg gdt SEG_KCODE (SEG32 (STA_X OR STA_R) 0 0xffffffff DPL_KERN)) s;
          s = upd_mem (st_seg gdt SEG_KDATA (SEG32 STA_W 0 0xffffffff DPL_KERN)) s;
          s = upd_mem (st_seg gdt SEG_UCODE (SEG32 (STA_X OR STA_R) 0 0xffffffff DPL_USER)) s;
          s = upd_mem (st_seg gdt SEG_UDATA (SEG32 STA_W 0 0xffffffff DPL_USER)) s;
          s = upd_mem (st_seg gdt SEG_TSS (SEG16 STS_T32A tss (104 - 1) DPL_KERN)) s
      in set_tr (KSEL SEG_TSS) (set_gdt gdt (8 * NR_SEG) s))"

definition percpu_init :: "'p hw \<Rightarrow> image \<Rightarrow> 'p x86 \<Rightarrow> 'p x86 option" where
  "percpu_init H L s =
     (let s = percpu_initgdt H L s in
      Option.bind (percpu_initlapic H (io s)) (\<lambda>d. Some (percpu_initirq H L (s\<lparr>io := d\<rparr>))))"

definition bootcpu_init :: "'p hw \<Rightarrow> image \<Rightarrow> 'p x86 \<Rightarrow> 'p x86 result option" where
  "bootcpu_init H L s =
     (let (h, s) = heap_init H L s; s = s\<lparr>heap_area := h\<rparr> in
      case lapic_init s of
        Inl e \<Rightarrow> Some (Inl e)
      | Inr s \<Rightarrow>
          (let s = s\<lparr>io := ioapic_init H (io s)\<rparr>
           in Option.bind (percpu_init H L s) (\<lambda>s. Some (Inr s))))"

text \<open>
  \<open>_start_c\<close>; the program is a parameter, and so is what the other processors do.  The call of
  \<open>main\<close> is on the stack of the processor.
\<close>

definition start_c ::
  "'p hw \<Rightarrow> image \<Rightarrow> ('p x86 \<Rightarrow> (u32 \<times> 'p x86) result option) \<Rightarrow> ('p x86 \<Rightarrow> 'p x86 result option) \<Rightarrow> 'p x86 \<Rightarrow> 'p x86 result option" where
  "start_c H L main othercpu s =
     (if ld32 (mem s) is_ap_at \<noteq> 0 then othercpu s
      else bindOR (bootcpu_init H L s) (\<lambda>s. bindOR (main s) (\<lambda>(ret, s). Some (halt H ret s))))"

section \<open>Processors\<close>

definition xchg :: "ptr \<Rightarrow> u32 \<Rightarrow> 'p x86 \<Rightarrow> u32 \<times> 'p x86" where
  "xchg addr newval s = (ld32 (mem s) addr, upd_mem (st32 addr newval) s)"

definition atomic_xchg :: "ptr \<Rightarrow> u32 \<Rightarrow> 'p x86 \<Rightarrow> u32 \<times> 'p x86" where
  "atomic_xchg addr newval s = xchg addr newval s"

definition cpu_count :: "'p x86 \<Rightarrow> u32" where
  "cpu_count s = am_ncpu s"

text \<open>
  The steps of \<open>mpe_init\<close> on the boot processor and of \<open>othercpu_entry\<close> on another one.  Each store
  of \<open>mpe_init\<close>, each message to a processor and each exchange of the flag is a step of its own; the
  processors share the memory and the devices.  \<open>percpu_init\<close>, which writes only the tables of its own
  processor and its own interrupt controller, is a single step.  The descriptor registers in \<open>sys\<close>
  are those of the processor that was initialised last; no step reads them.
\<close>

definition mpe_prepare :: "'p x86 \<Rightarrow> 'p x86" where
  "mpe_prepare s = upd_mem (st32 jmp_code_at 0x000bfde9) s"

definition mpe_mark :: "'p x86 \<Rightarrow> 'p x86" where
  "mpe_mark s = upd_mem (st32 is_ap_at 1) s"

definition mpe_boot :: "'p hw \<Rightarrow> nat \<Rightarrow> 'p x86 \<Rightarrow> 'p x86" where
  "mpe_boot H cpu s = s\<lparr>io := lapic_bootap H (of_nat cpu) BOOTREC_ADDR (io s)\<rparr>"

datatype boot_pc = Boot nat | Marked nat | Wait nat | Entered

datatype ap_pc = Off | Starting | Initialised | Running

record 'p mp =
  sys :: "'p x86"
  boot_pc :: boot_pc
  ap_pc :: "nat \<Rightarrow> ap_pc"

text \<open>
  \<open>mp_act H L p\<close>: a step of processor \<open>p\<close>; the boot processor is number 0.  \<open>H n\<close> is the hardware as
  processor \<open>n\<close> sees it: each has a local interrupt controller of its own.
\<close>

inductive mp_act :: "(nat \<Rightarrow> 'p hw) \<Rightarrow> image \<Rightarrow> nat \<Rightarrow> 'p mp \<Rightarrow> 'p mp \<Rightarrow> bool" for H :: "nat \<Rightarrow> 'p hw" and L :: image where
  mark: "boot_pc c = Boot n \<Longrightarrow> n < unat (am_ncpu (sys c)) \<Longrightarrow>
    mp_act H L 0 c (c\<lparr>sys := mpe_mark (sys c), boot_pc := Marked n\<rparr>)"
| boot: "boot_pc c = Marked n \<Longrightarrow>
    mp_act H L 0 c (c\<lparr>sys := mpe_boot (H 0) n (sys c), boot_pc := Wait n, ap_pc := (ap_pc c)(n := Starting)\<rparr>)"
| wait: "boot_pc c = Wait n \<Longrightarrow> xchg (ap_ready_at L) 0 (sys c) = (v, s) \<Longrightarrow>
    mp_act H L 0 c (c\<lparr>sys := s, boot_pc := (if v \<noteq> 1 then Wait n else Boot (n + 1))\<rparr>)"
| enter: "boot_pc c = Boot n \<Longrightarrow> \<not> n < unat (am_ncpu (sys c)) \<Longrightarrow> mp_act H L 0 c (c\<lparr>boot_pc := Entered\<rparr>)"
| ap_init: "ap_pc c n = Starting \<Longrightarrow> ld32 (mem (sys c)) is_ap_at \<noteq> 0 \<Longrightarrow> percpu_init (H n) L (sys c) = Some s \<Longrightarrow>
    mp_act H L n c (c\<lparr>sys := s, ap_pc := (ap_pc c)(n := Initialised)\<rparr>)"
| ap_ready: "ap_pc c n = Initialised \<Longrightarrow> xchg (ap_ready_at L) 1 (sys c) = (v, s) \<Longrightarrow>
    mp_act H L n c (c\<lparr>sys := s, ap_pc := (ap_pc c)(n := Running)\<rparr>)"

definition mp_step :: "(nat \<Rightarrow> 'p hw) \<Rightarrow> image \<Rightarrow> 'p mp \<Rightarrow> 'p mp \<Rightarrow> bool" where
  "mp_step H L c c' \<longleftrightarrow> (\<exists>p. mp_act H L p c c')"

section \<open>Starting the processors\<close>

lemma lapicw_ram [simp]: "ram (lapicw H i v d) = ram d"
  by (simp add: lapicw_def mmio_wr_def mmio_rd_def Let_def split: prod.splits)

lemma wait_delivs_ram:
  assumes "wait_delivs H d = Some d'"
  shows "ram d' = ram d"
  by (rule wait_delivs.raw_induct [OF _ assms, where P = "\<lambda>H d d'. ram d' = ram d"])
    (auto simp: mmio_rd_def split: prod.splits if_splits)

lemma percpu_initlapic_ram: "percpu_initlapic H d = Some d' \<Longrightarrow> ram d' = ram d"
  by (auto simp: percpu_initlapic_def mmio_rd_def Let_def bind_eq_Some_conv split: prod.splits if_splits dest!: wait_delivs_ram)

lemma ioapic_enable_ram [simp]: "ram (ioapic_enable H irq cpu d) = ram d"
  by (simp add: ioapic_enable_def ioapicwrite_def mmio_wr_def)

lemma percpu_initirq_simps [simp]: "mem (percpu_initirq H L s) = mem s" "am_ncpu (percpu_initirq H L s) = am_ncpu s"
  by (simp_all add: percpu_initirq_def set_idt_def)

text \<open>The flag of the handshake lies apart from the boot record, the warm reset vector and the descriptor tables.\<close>

definition ready_apart :: "image \<Rightarrow> bool" where
  "ready_apart L \<longleftrightarrow>
     apart is_ap_at (ap_ready_at L) \<and> (\<forall>k<4. \<forall>j<4. (0x467 :: ptr) + of_nat k \<noteq> ap_ready_at L + of_nat j) \<and>
     (\<forall>cpu<256. \<forall>i<12. apart (slot (gdt_at L cpu) i) (ap_ready_at L) \<and> apart (slot (gdt_at L cpu) i) is_ap_at)"

lemma bootap_ram: "ram (lapic_bootap H apicid addr d) = st16 0x469 (ucast (drop_bit 4 addr)) (st16 0x467 0 (ram d))"
  by (simp add: lapic_bootap_def outb_def Let_def upt_rec)

lemma ld32_st16:
  assumes "\<forall>k<2. \<forall>j<4. q + of_nat k \<noteq> p + of_nat j"
  shows "ld32 (st16 q w m) p = ld32 m p"
proof -
  have "st16 q w m (p + of_nat j) = m (p + of_nat j)" if "j < 4" for j
    using assms [rule_format, of 0 j] assms [rule_format, of 1 j] that by (auto simp: st16_def)
  from this [of 0] this [of 1] this [of 2] this [of 3] show ?thesis by (simp add: ld32_def)
qed

lemma below_offset:
  fixes a b :: ptr
  assumes "unat a + 4 \<le> unat b" "unat b + 4 \<le> 2 ^ 32" "k < 4" "j < 4"
  shows "a + of_nat k \<noteq> b + of_nat j"
proof
  assume "a + of_nat k = b + of_nat j"
  moreover have "unat (a + of_nat k) = unat a + k" "unat (b + of_nat j) = unat b + j"
    using assms by (simp_all add: unat_word_ariths unat_of_nat)
  ultimately show False using assms by simp
qed

lemma mpe_boot_words:
  assumes "ready_apart L"
  shows "ld32 (mem (mpe_boot H n s)) (ap_ready_at L) = ld32 (mem s) (ap_ready_at L)"
    and "ld32 (mem (mpe_boot H n s)) is_ap_at = ld32 (mem s) is_ap_at"
    and "am_ncpu (mpe_boot H n s) = am_ncpu s"
proof -
  have k: "(0x467 :: ptr) + of_nat k \<noteq> ap_ready_at L + of_nat j" if "k < 4" "j < 4" for k j
    using assms that by (simp add: ready_apart_def)
  have "\<forall>k<2. \<forall>j<4. (0x467 :: ptr) + of_nat k \<noteq> ap_ready_at L + of_nat j" using k by simp
  moreover have "\<forall>k<2. \<forall>j<4. (0x469 :: ptr) + of_nat k \<noteq> ap_ready_at L + of_nat j"
  proof (intro allI impI)
    fix k j :: nat
    assume "k < 2" "j < 4"
    then show "(0x469 :: ptr) + of_nat k \<noteq> ap_ready_at L + of_nat j" using k [of "k + 2" j] by (simp add: add.assoc)
  qed
  ultimately show "ld32 (mem (mpe_boot H n s)) (ap_ready_at L) = ld32 (mem s) (ap_ready_at L)"
    by (simp add: mpe_boot_def bootap_ram ld32_st16)
  have "\<forall>k<2. \<forall>j<4. q + of_nat k \<noteq> is_ap_at + of_nat j" if "unat q + 4 \<le> 0x7004" for q :: ptr
    using that by (intro allI impI below_offset) (simp_all add: is_ap_at_def BOOTREC_ADDR_def)
  then have "\<forall>k<2. \<forall>j<4. (0x467 :: ptr) + of_nat k \<noteq> is_ap_at + of_nat j"
    "\<forall>k<2. \<forall>j<4. (0x469 :: ptr) + of_nat k \<noteq> is_ap_at + of_nat j" by simp_all
  then show "ld32 (mem (mpe_boot H n s)) is_ap_at = ld32 (mem s) is_ap_at"
    by (simp add: mpe_boot_def bootap_ram ld32_st16)
  show "am_ncpu (mpe_boot H n s) = am_ncpu s" by (simp add: mpe_boot_def)
qed

lemma mpe_mark_words:
  assumes "ready_apart L"
  shows "ld32 (mem (mpe_mark s)) (ap_ready_at L) = ld32 (mem s) (ap_ready_at L)"
    "ld32 (mem (mpe_mark s)) is_ap_at = 1" "am_ncpu (mpe_mark s) = am_ncpu s"
  using assms by (simp_all add: mpe_mark_def upd_mem_def ready_apart_def ld32_st32_apart)

lemma am_ncpu_simps [simp]:
  "am_ncpu (upd_mem f s) = am_ncpu s" "am_ncpu (snd (cpu_current H s)) = am_ncpu s"
  by (simp_all add: upd_mem_def cpu_current_def split: prod.splits)

lemma st_seg_slots:
  "st_seg gdt SEG_KCODE d m = st32 (slot gdt 3) (seg_hi d) (st32 (slot gdt 2) (seg_lo d) m)"
  "st_seg gdt SEG_KDATA d m = st32 (slot gdt 5) (seg_hi d) (st32 (slot gdt 4) (seg_lo d) m)"
  "st_seg gdt SEG_UCODE d m = st32 (slot gdt 7) (seg_hi d) (st32 (slot gdt 6) (seg_lo d) m)"
  "st_seg gdt SEG_UDATA d m = st32 (slot gdt 9) (seg_hi d) (st32 (slot gdt 8) (seg_lo d) m)"
  "st_seg gdt SEG_TSS d m = st32 (slot gdt 11) (seg_hi d) (st32 (slot gdt 10) (seg_lo d) m)"
  by (simp_all add: st_seg_def slot_def SEG_KCODE_def SEG_KDATA_def SEG_UCODE_def SEG_UDATA_def SEG_TSS_def add.commute)

text \<open>The descriptor table as its 12 words.\<close>

definition gdt_words :: "ptr \<Rightarrow> ptr \<Rightarrow> gmem \<Rightarrow> gmem" where
  "gdt_words gdt tss m =
     fold (\<lambda>(i, d) m. st32 (slot gdt (2 * i + 1)) (seg_hi d) (st32 (slot gdt (2 * i)) (seg_lo d) m))
       [(1, SEG32 (STA_X OR STA_R) 0 0xffffffff DPL_KERN), (2, SEG32 STA_W 0 0xffffffff DPL_KERN),
        (3, SEG32 (STA_X OR STA_R) 0 0xffffffff DPL_USER), (4, SEG32 STA_W 0 0xffffffff DPL_USER),
        (5, SEG16 STS_T32A tss 103 DPL_KERN)] m"

lemma percpu_initgdt_mem:
  "\<exists>cpu<256. \<exists>cpu'<256. mem (percpu_initgdt H L s) = gdt_words (gdt_at L cpu) (tss_at L cpu') (mem s) \<and>
     gdtr (percpu_initgdt H L s) = (gdt_at L cpu, 48) \<and> task_reg (percpu_initgdt H L s) = 40"
proof -
  define cpu s1 where "cpu = fst (cpu_current H s)" and "s1 = snd (cpu_current H s)"
  define cpu' where "cpu' = fst (cpu_current H s1)"
  have "mem (percpu_initgdt H L s) = gdt_words (gdt_at L cpu) (tss_at L cpu') (mem s)"
    by (simp add: percpu_initgdt_def Let_def case_prod_beta set_tr_def set_gdt_def st_seg_slots gdt_words_def
        cpu_def cpu'_def s1_def)
  moreover have "gdtr (percpu_initgdt H L s) = (gdt_at L cpu, 48)" "task_reg (percpu_initgdt H L s) = 40"
    by (simp_all add: percpu_initgdt_def Let_def case_prod_beta set_tr_def set_gdt_def NR_SEG_def KSEL_def SEG_TSS_def
        DPL_KERN_def cpu_def push_bit_eq_mult)
  moreover have "cpu < 256" "cpu' < 256" by (simp_all add: cpu_def cpu'_def cpu_number)
  ultimately show ?thesis by blast
qed

lemma percpu_initgdt_ncpu [simp]: "am_ncpu (percpu_initgdt H L s) = am_ncpu s"
  by (simp add: percpu_initgdt_def Let_def case_prod_beta set_tr_def set_gdt_def)

lemma percpu_init_words:
  assumes "ready_apart L" "percpu_init H L s = Some s'" "p = ap_ready_at L \<or> p = is_ap_at"
  shows "ld32 (mem s') p = ld32 (mem s) p"
proof -
  obtain cpu cpu' where m: "cpu < 256" "mem (percpu_initgdt H L s) = gdt_words (gdt_at L cpu) (tss_at L cpu') (mem s)"
    using percpu_initgdt_mem by blast
  have a: "apart (slot (gdt_at L cpu) i) p" if "i < 12" for i
    using assms(1,3) m(1) that by (auto simp: ready_apart_def)
  have "mem s' = gdt_words (gdt_at L cpu) (tss_at L cpu') (mem s)"
    using assms(2) m(2) by (auto simp: percpu_init_def Let_def bind_eq_Some_conv dest!: percpu_initlapic_ram)
  then show "ld32 (mem s') p = ld32 (mem s) p"
    by (simp add: gdt_words_def a ld32_st32_apart)
qed

lemma percpu_init_ncpu: "percpu_init H L s = Some s' \<Longrightarrow> am_ncpu s' = am_ncpu s"
  by (auto simp: percpu_init_def Let_def bind_eq_Some_conv)

text \<open>
  What holds at every step: the processors are started in order, one at a time, and the flag is set
  exactly while the last one started has announced itself and the boot processor has not seen it.
\<close>

definition mp_inv :: "image \<Rightarrow> nat \<Rightarrow> 'p mp \<Rightarrow> bool" where
  "mp_inv L N c \<longleftrightarrow>
     unat (am_ncpu (sys c)) = N \<and>
     (case boot_pc c of
        Boot n \<Rightarrow> 1 \<le> n \<and> n \<le> max 1 N \<and> ld32 (mem (sys c)) (ap_ready_at L) = 0 \<and>
          (\<forall>i. ap_pc c i = (if 1 \<le> i \<and> i < n then Running else Off))
      | Marked n \<Rightarrow> 1 \<le> n \<and> n < N \<and> ld32 (mem (sys c)) is_ap_at = 1 \<and> ld32 (mem (sys c)) (ap_ready_at L) = 0 \<and>
          (\<forall>i. ap_pc c i = (if 1 \<le> i \<and> i < n then Running else Off))
      | Wait n \<Rightarrow> 1 \<le> n \<and> n < N \<and> ld32 (mem (sys c)) is_ap_at = 1 \<and>
          (\<forall>i. i \<noteq> n \<longrightarrow> ap_pc c i = (if 1 \<le> i \<and> i < n then Running else Off)) \<and> ap_pc c n \<noteq> Off \<and>
          ld32 (mem (sys c)) (ap_ready_at L) = (if ap_pc c n = Running then 1 else 0)
      | Entered \<Rightarrow> \<forall>i. ap_pc c i = (if 1 \<le> i \<and> i < N then Running else Off))"

lemma mp_inv_starting:
  assumes "mp_inv L N c" "ap_pc c i = Starting \<or> ap_pc c i = Initialised"
  shows "boot_pc c = Wait i"
proof (cases "boot_pc c")
  case (Wait n)
  then have "i \<noteq> n \<longrightarrow> ap_pc c i = (if 1 \<le> i \<and> i < n then Running else Off)" using assms(1) by (simp add: mp_inv_def)
  then show ?thesis using assms(2) Wait by (auto split: if_splits)
qed (use assms in \<open>auto simp: mp_inv_def split: if_splits\<close>)

lemma mp_inv_act:
  assumes "ready_apart L" "mp_inv L N c" "mp_act H L p c c'"
  shows "mp_inv L N c'"
  using assms(3)
proof cases
  case (mark n)
  then show ?thesis using assms(2) mpe_mark_words [OF assms(1), of "sys c"] by (auto simp: mp_inv_def)
next
  case (boot n)
  then show ?thesis using assms(2) mpe_boot_words [OF assms(1), of "H 0" n "sys c"]
    by (auto simp: mp_inv_def)
next
  case (wait n v s)
  have "apart (ap_ready_at L) is_ap_at" using assms(1) by (simp add: ready_apart_def apart_sym)
  then show ?thesis using wait assms(2)
    by (auto simp: mp_inv_def xchg_def ld32_st32_apart less_Suc_eq split: if_splits)
next
  case (enter n)
  then show ?thesis using assms(2) by (auto simp: mp_inv_def)
next
  case (ap_init s)
  have "boot_pc c = Wait p" using mp_inv_starting [OF assms(2)] ap_init(2) by blast
  then show ?thesis using ap_init(1,2) assms(2) percpu_init_words [OF assms(1) ap_init(4)] percpu_init_ncpu [OF ap_init(4)]
    by (simp add: mp_inv_def)
next
  case (ap_ready v s)
  have "apart (ap_ready_at L) is_ap_at" using assms(1) by (simp add: ready_apart_def apart_sym)
  moreover have "boot_pc c = Wait p" using mp_inv_starting [OF assms(2)] ap_ready(2) by blast
  moreover have "s = upd_mem (st32 (ap_ready_at L) 1) (sys c)" using ap_ready(3) by (simp add: xchg_def)
  ultimately show ?thesis using ap_ready(1) assms(2)
    by (simp add: mp_inv_def ld32_st32_apart)
qed

lemma mp_inv_step: "ready_apart L \<Longrightarrow> mp_inv L N c \<Longrightarrow> mp_step H L c c' \<Longrightarrow> mp_inv L N c'"
  using mp_inv_act by (auto simp: mp_step_def)

text \<open>The start: the boot processor runs alone, the flag is 0.\<close>

definition mp_start :: "image \<Rightarrow> nat \<Rightarrow> 'p mp \<Rightarrow> bool" where
  "mp_start L N c \<longleftrightarrow>
     unat (am_ncpu (sys c)) = N \<and> boot_pc c = Boot 1 \<and> (\<forall>i. ap_pc c i = Off) \<and> ld32 (mem (sys c)) (ap_ready_at L) = 0"

lemma mp_inv_reachable:
  assumes "ready_apart L" "mp_start L N c0" "(mp_step H L)\<^sup>*\<^sup>* c0 c"
  shows "mp_inv L N c"
  using assms(3)
proof (induction rule: rtranclp_induct)
  case base
  then show ?case using assms(2) by (auto simp: mp_inv_def mp_start_def)
next
  case (step c c')
  then show ?case using mp_inv_step [OF assms(1)] by blast
qed

text \<open>
  C19. The program's entry is called on the boot processor only when every other processor has been
  initialised, and while they start at most one of them runs the start code, so the boot record and
  the flag serve one processor at a time.
\<close>

theorem mpe_init_safe:
  assumes "ready_apart L" "mp_start L N c0" "(mp_step H L)\<^sup>*\<^sup>* c0 c"
  shows "(boot_pc c = Entered \<longrightarrow> (\<forall>i. 1 \<le> i \<and> i < N \<longrightarrow> ap_pc c i = Running)) \<and>
    (ap_pc c i \<in> {Starting, Initialised} \<longrightarrow> ap_pc c j \<in> {Starting, Initialised} \<longrightarrow> i = j) \<and>
    (N \<le> i \<longrightarrow> ap_pc c i = Off)"
proof -
  have I: "mp_inv L N c" using mp_inv_reachable [OF assms] .
  have "boot_pc c = Entered \<longrightarrow> (\<forall>i. 1 \<le> i \<and> i < N \<longrightarrow> ap_pc c i = Running)" using I by (auto simp: mp_inv_def)
  moreover have "i = j" if "ap_pc c i \<in> {Starting, Initialised}" "ap_pc c j \<in> {Starting, Initialised}"
    using mp_inv_starting [OF I, of i] mp_inv_starting [OF I, of j] that by auto
  moreover have "ap_pc c i = Off" if "N \<le> i"
    using I that by (cases "boot_pc c") (auto simp: mp_inv_def split: if_splits)
  ultimately show ?thesis by blast
qed

text \<open>What is left to do, and the processor whose step brings the end nearer.\<close>

definition mp_left :: "nat \<Rightarrow> 'p mp \<Rightarrow> nat" where
  "mp_left N c =
     (case boot_pc c of
        Boot n \<Rightarrow> 5 * (N - n) + 1
      | Marked n \<Rightarrow> 5 * (N - Suc n) + 5
      | Wait n \<Rightarrow> 5 * (N - Suc n) + (case ap_pc c n of Starting \<Rightarrow> 4 | Initialised \<Rightarrow> 3 | _ \<Rightarrow> 2)
      | Entered \<Rightarrow> 0)"

definition mp_helpful :: "'p mp \<Rightarrow> nat" where
  "mp_helpful c =
     (case boot_pc c of Wait n \<Rightarrow> if ap_pc c n = Running then 0 else n | _ \<Rightarrow> 0)"

lemma mp_helpful_enabled:
  assumes "mp_inv L N c" "boot_pc c \<noteq> Entered" "\<And>n s. percpu_init (H n) L s \<noteq> None"
  shows "\<exists>c'. mp_act H L (mp_helpful c) c c'"
proof (cases "boot_pc c")
  case (Boot n)
  then show ?thesis
    using mp_act.mark [of c n H L] mp_act.enter [of c n H L] by (cases "n < N") (auto simp: mp_helpful_def)
next
  case (Marked n)
  then show ?thesis using mp_act.boot [of c n H L] by (auto simp: mp_helpful_def)
next
  case (Wait n)
  then have n: "ld32 (mem (sys c)) is_ap_at = 1" "ap_pc c n \<noteq> Off" using assms(1) by (simp_all add: mp_inv_def)
  obtain s where s: "percpu_init (H n) L (sys c) = Some s" using assms(3) by blast
  obtain v t where t: "xchg (ap_ready_at L) 1 (sys c) = (v, t)" by fastforce
  obtain v' t' where t': "xchg (ap_ready_at L) 0 (sys c) = (v', t')" by fastforce
  show ?thesis
    using n Wait mp_act.ap_init [of c n H L s] mp_act.ap_ready [of c n L v t H] mp_act.wait [of c n L v' t' H] s t t'
    by (cases "ap_pc c n") (auto simp: mp_helpful_def)
qed (use assms(2) in simp)

lemma mp_helpful_lowers:
  assumes "mp_inv L N c" "mp_act H L (mp_helpful c) c c'"
  shows "mp_left N c' < mp_left N c"
  using assms(2)
proof cases
  case (wait n v s)
  then have "v = 1" using assms(1) by (auto simp: mp_inv_def mp_helpful_def xchg_def split: if_splits)
  then show ?thesis using wait assms(1) by (auto simp: mp_left_def mp_inv_def split: ap_pc.split)
next
  case (ap_init s)
  then show ?thesis using mp_inv_starting [OF assms(1), of "mp_helpful c"] by (simp add: mp_left_def)
next
  case (ap_ready v s)
  then show ?thesis using mp_inv_starting [OF assms(1), of "mp_helpful c"] by (simp add: mp_left_def)
qed (use assms(1) in \<open>auto simp: mp_left_def mp_inv_def\<close>)

lemma mp_others_keep:
  assumes "mp_inv L N c" "mp_act H L p c c'" "p \<noteq> mp_helpful c"
  shows "mp_left N c' = mp_left N c \<and> mp_helpful c' = mp_helpful c"
  using assms(2)
proof cases
  case (wait n v s)
  then have "v \<noteq> 1" using assms(1,3) by (auto simp: mp_inv_def mp_helpful_def xchg_def split: if_splits)
  then show ?thesis using wait by (simp add: mp_left_def mp_helpful_def)
next
  case (ap_init s)
  then show ?thesis using mp_inv_starting [OF assms(1), of p] assms(3) by (simp add: mp_helpful_def)
next
  case (ap_ready v s)
  then show ?thesis using mp_inv_starting [OF assms(1), of p] assms(3) by (simp add: mp_helpful_def)
qed (use assms(3) in \<open>simp_all add: mp_helpful_def\<close>)

text \<open>Nothing happens after the program has been entered.\<close>

lemma mp_entered_idle: "mp_inv L N c \<Longrightarrow> boot_pc c = Entered \<Longrightarrow> \<not> mp_act H L p c c'"
  by (auto elim!: mp_act.cases dest: mp_inv_starting)

lemma mp_completes:
  assumes "ready_apart L" "mp_inv L N c" "\<And>n s. percpu_init (H n) L s \<noteq> None"
  shows "\<exists>c'. (mp_step H L)\<^sup>*\<^sup>* c c' \<and> boot_pc c' = Entered"
  using assms(2)
proof (induction "mp_left N c" arbitrary: c rule: less_induct)
  case less
  show ?case
  proof (cases "boot_pc c = Entered")
    case False
    then obtain d where d: "mp_act H L (mp_helpful c) c d"
      using mp_helpful_enabled [where H = H, OF less.prems _ assms(3)] by blast
    then have "mp_step H L c d" by (auto simp: mp_step_def)
    moreover obtain c' where "(mp_step H L)\<^sup>*\<^sup>* d c'" "boot_pc c' = Entered"
      using less.hyps [OF mp_helpful_lowers [OF less.prems d] mp_inv_act [OF assms(1) less.prems d]] by blast
    ultimately show ?thesis by (meson converse_rtranclp_into_rtranclp)
  qed blast
qed

section \<open>Fair runs\<close>

text \<open>
  An infinite run, in which nothing may happen for a while.  It is fair when every processor either
  steps again and again or is again and again unable to.
\<close>

definition mp_run :: "(nat \<Rightarrow> 'p hw) \<Rightarrow> image \<Rightarrow> (nat \<Rightarrow> 'p mp) \<Rightarrow> bool" where
  "mp_run H L r \<longleftrightarrow> (\<forall>j. mp_step H L (r j) (r (Suc j)) \<or> r (Suc j) = r j)"

definition mp_fair :: "(nat \<Rightarrow> 'p hw) \<Rightarrow> image \<Rightarrow> (nat \<Rightarrow> 'p mp) \<Rightarrow> bool" where
  "mp_fair H L r \<longleftrightarrow>
     (\<forall>p k. \<exists>j \<ge> k. mp_act H L p (r j) (r (Suc j)) \<or> \<not> (\<exists>c'. mp_act H L p (r j) c'))"

lemma mp_run_inv:
  assumes "ready_apart L" "mp_run H L r" "mp_inv L N (r 0)"
  shows "mp_inv L N (r j)"
proof (induction j)
  case (Suc j)
  then show ?case using assms(2) mp_inv_step [OF assms(1) Suc] unfolding mp_run_def by metis
qed (use assms(3) in simp)

text \<open>The helpful processor stays the same until what is left gets less.\<close>

lemma mp_run_waits:
  assumes "ready_apart L" "mp_run H L r" "mp_inv L N (r 0)"
    and "\<And>i. k \<le> i \<Longrightarrow> \<not> mp_left N (r i) < mp_left N (r k)"
  shows "k \<le> j \<Longrightarrow> mp_left N (r j) = mp_left N (r k) \<and> mp_helpful (r j) = mp_helpful (r k)"
proof (induction j rule: dec_induct)
  case (step j)
  have I: "mp_inv L N (r j)" using mp_run_inv [OF assms(1-3)] .
  consider "r (Suc j) = r j" | p where "mp_act H L p (r j) (r (Suc j))"
    using assms(2) unfolding mp_run_def mp_step_def by blast
  then show ?case
  proof cases
    case 2
    have "p \<noteq> mp_helpful (r j)"
      using mp_helpful_lowers [OF I, of H] 2 assms(4) [of "Suc j"] step by auto
    then show ?thesis using mp_others_keep [OF I 2] step.IH by simp
  qed (use step.IH in simp)
qed simp

lemma mp_run_lowers:
  assumes "ready_apart L" "mp_run H L r" "mp_fair H L r" "mp_inv L N (r 0)" "boot_pc (r k) \<noteq> Entered"
    and "\<And>n s. percpu_init (H n) L s \<noteq> None"
  shows "\<exists>i \<ge> k. mp_left N (r i) < mp_left N (r k)"
proof (rule ccontr)
  assume "\<not> ?thesis"
  then have W: "\<And>j. k \<le> j \<Longrightarrow> mp_left N (r j) = mp_left N (r k) \<and> mp_helpful (r j) = mp_helpful (r k)"
    using mp_run_waits [OF assms(1,2,4)] by blast
  let ?p = "mp_helpful (r k)"
  obtain j where j: "k \<le> j" "mp_act H L ?p (r j) (r (Suc j)) \<or> \<not> (\<exists>c'. mp_act H L ?p (r j) c')"
    using assms(3) unfolding mp_fair_def by blast
  have I: "mp_inv L N (r i)" for i using mp_run_inv [OF assms(1,2,4)] .
  have "0 < mp_left N (r k)" using assms(5) by (simp add: mp_left_def split: boot_pc.split ap_pc.split)
  then have "boot_pc (r j) \<noteq> Entered" using W [OF j(1)] by (auto simp: mp_left_def)
  then have "mp_act H L ?p (r j) (r (Suc j))"
    using j W [OF j(1)] mp_helpful_enabled [where H = H, OF I _ assms(6)] by metis
  then show False using mp_helpful_lowers [OF I, of H j "r (Suc j)"] W [OF j(1)] W [of "Suc j"] j(1) by simp
qed

lemma mp_run_enters:
  assumes "ready_apart L" "mp_run H L r" "mp_fair H L r" "mp_inv L N (r 0)"
    and "\<And>n s. percpu_init (H n) L s \<noteq> None"
  shows "\<exists>k. boot_pc (r k) = Entered"
proof -
  have "\<exists>i. boot_pc (r i) = Entered" for k :: nat
  proof (induction "mp_left N (r k)" arbitrary: k rule: less_induct)
    case less
    then show ?case using mp_run_lowers [where H = H, OF assms(1-4) _ assms(5)] by blast
  qed
  then show ?thesis by blast
qed

lemma mp_run_stays:
  assumes "ready_apart L" "mp_run H L r" "mp_inv L N (r 0)" "boot_pc (r k) = Entered"
  shows "k \<le> j \<Longrightarrow> r j = r k"
proof (induction j rule: dec_induct)
  case (step j)
  then have "\<not> mp_step H L (r j) (r (Suc j))"
    using mp_entered_idle [OF mp_run_inv [OF assms(1-3)], of j H] assms(4) by (simp add: mp_step_def)
  then show ?case using assms(2) step.IH unfolding mp_run_def by metis
qed simp

text \<open>
  C36. Every fair run of the processors comes to a state in which the boot processor has entered the
  program and all the others have been initialised, have announced it and run the program as well,
  and stays there, if the initialisation of a processor comes to an end.
\<close>

theorem mpe_init_completes:
  assumes "ready_apart L" "mp_start L N (r 0)" "mp_run H L r" "mp_fair H L r"
    and "\<And>n s. percpu_init (H n) L s \<noteq> None"
  shows "\<exists>k. \<forall>j \<ge> k. boot_pc (r j) = Entered \<and> (\<forall>i. 1 \<le> i \<and> i < N \<longrightarrow> ap_pc (r j) i = Running)"
proof -
  have I: "mp_inv L N (r 0)" using mp_inv_reachable [OF assms(1,2) rtranclp.rtrancl_refl] .
  obtain k where k: "boot_pc (r k) = Entered" using mp_run_enters [where H = H, OF assms(1,3,4) I assms(5)] by blast
  have "\<forall>i. 1 \<le> i \<and> i < N \<longrightarrow> ap_pc (r k) i = Running"
    using mp_run_inv [OF assms(1,3) I, of k] k by (simp add: mp_inv_def)
  then show ?thesis using mp_run_stays [OF assms(1,3) I k] k by metis
qed

text \<open>A machine of two processors.\<close>

lemma demo_ready: "ready_apart demo_image"
proof -
  have cpu: "unat cpu \<le> 255" if "cpu < 256" for cpu :: u32
    using that by (simp add: word_less_nat_alt)
  have g: "unat (slot (gdt_at demo_image cpu) i) = 0x200004 + unat cpu * 8348 + 4 * i" if "cpu < 256" "i < 12" for cpu i
    using that cpu [OF that(1)]
    by (simp add: gdt_at_def cpu_local_at_def demo_image_def slot_def unat_word_ariths unat_of_nat)
  have "apart (slot (gdt_at demo_image cpu) i) p" if "cpu < 256" "i < 12" "unat p + 4 \<le> 0x200000" for cpu i p
    using that g [OF that(1,2)] cpu [OF that(1)] by (intro apart_above) simp_all
  moreover have "apart is_ap_at (ap_ready_at demo_image)" unfolding apart_sym [of is_ap_at]
    by (rule apart_above) (simp_all add: is_ap_at_def BOOTREC_ADDR_def demo_image_def)
  moreover have "(0x467 :: ptr) + of_nat k \<noteq> ap_ready_at demo_image + of_nat j" if "k < 4" "j < 4" for k j
    using that by (intro below_offset) (simp_all add: demo_image_def)
  ultimately show ?thesis by (simp add: ready_apart_def demo_image_def is_ap_at_def BOOTREC_ADDR_def)
qed

definition demo_mp :: "(u16 \<times> u8) list mp" where
  "demo_mp = \<lparr>sys = demo_x86\<lparr>am_ncpu := 2\<rparr>, boot_pc = Boot 1, ap_pc = (\<lambda>_. Off)\<rparr>"

lemma demo_start: "mp_start demo_image 2 demo_mp"
  by (simp add: mp_start_def demo_mp_def demo_x86_def demo_image_def ld32_def st32_def le_word_def)

lemma demo_percpu: "percpu_init log_hw demo_image s \<noteq> None"
proof -
  have "wait_delivs log_hw d = Some d" for d
    by (subst wait_delivs.simps) (simp add: mmio_rd_def log_hw_def)
  then show ?thesis by (simp add: percpu_init_def percpu_initlapic_def Let_def case_prod_beta)
qed

text \<open>A path to a state without steps, as a run that stays there.\<close>

lemma demo_mp_run:
  "\<exists>r. r 0 = demo_mp \<and> mp_run (\<lambda>_. log_hw) demo_image r \<and> mp_fair (\<lambda>_. log_hw) demo_image r"
proof -
  let ?H = "\<lambda>_ :: nat. log_hw"
  have I: "mp_inv demo_image 2 demo_mp" using mp_inv_reachable [OF demo_ready demo_start rtranclp.rtrancl_refl] .
  obtain c where c: "(mp_step ?H demo_image)\<^sup>*\<^sup>* demo_mp c" "boot_pc c = Entered"
    using mp_completes [where H = ?H, OF demo_ready I demo_percpu] by blast
  obtain n f where f: "f 0 = demo_mp" "f n = c" "\<forall>i<n. mp_step ?H demo_image (f i) (f (Suc i))"
    using c(1) by (auto simp: rtranclp_power relpowp_fun_conv)
  define r where "r = (\<lambda>j. f (min j n))"
  have "mp_step ?H demo_image (r j) (r (Suc j)) \<or> r (Suc j) = r j" for j
    using f(3) by (cases "j < n") (simp_all add: r_def)
  then have "mp_run ?H demo_image r" by (simp add: mp_run_def)
  moreover have "\<not> mp_act ?H demo_image p (r (max n k)) c'" for p k c'
    using mp_entered_idle [OF mp_inv_reachable [OF demo_ready demo_start c(1)] c(2)] by (simp add: r_def f(2))
  then have "mp_fair ?H demo_image r" unfolding mp_fair_def by (metis max.cobounded2)
  ultimately show ?thesis using f(1) by (intro exI [of _ r]) (simp add: r_def)
qed

theorem mpe_init_completes_witness:
  "\<exists>r k. r 0 = demo_mp \<and> mp_run (\<lambda>_. log_hw) demo_image r \<and> boot_pc (r k) = Entered \<and> ap_pc (r k) 1 = Running"
proof -
  obtain r where r: "r 0 = demo_mp" "mp_run (\<lambda>_. log_hw) demo_image r" "mp_fair (\<lambda>_. log_hw) demo_image r"
    using demo_mp_run by blast
  moreover have "mp_start demo_image 2 (r 0)" using demo_start r(1) by simp
  ultimately show ?thesis
    using mpe_init_completes [where H = "\<lambda>_. log_hw", OF demo_ready _ r(2,3) demo_percpu] by fastforce
qed

theorem mpe_init_safe_witness:
  "\<exists>c'. (mp_step (\<lambda>_. log_hw) demo_image)\<^sup>*\<^sup>* demo_mp c' \<and> boot_pc c' = Entered \<and> ap_pc c' 1 = Running"
proof -
  have "mp_inv demo_image 2 demo_mp" using mp_inv_reachable [OF demo_ready demo_start rtranclp.rtrancl_refl] .
  then obtain c' where c: "(mp_step (\<lambda>_. log_hw) demo_image)\<^sup>*\<^sup>* demo_mp c'" "boot_pc c' = Entered"
    using mp_completes [where H = "\<lambda>_. log_hw", OF demo_ready _ demo_percpu] by blast
  then show ?thesis using mpe_init_safe [OF demo_ready demo_start c(1)] by (metis le_refl one_less_numeral_iff semiring_norm(76))
qed

section \<open>The multiprocessor table\<close>

text \<open>The entries of the table from \<open>off\<close> on: 20 bytes for a processor, 8 for anything else.\<close>

fun entries_at :: "gmem \<Rightarrow> ptr \<Rightarrow> nat \<Rightarrow> bool list \<Rightarrow> bool" where
  "entries_at m conf off [] \<longleftrightarrow> True"
| "entries_at m conf off (cpu # entries) \<longleftrightarrow>
     (m (conf + of_nat off) = 0 \<longleftrightarrow> cpu) \<and> entries_at m conf (off + (if cpu then 20 else 8)) entries"

definition table_size :: "bool list \<Rightarrow> nat" where
  "table_size entries = sum_list (map (\<lambda>cpu. if cpu then 20 else 8) entries)"

text \<open>
  The count of a table is the number of its processor entries, and a panic when there are more
  than eight.
\<close>

theorem mp_count_correct:
  assumes "entries_at m conf off entries" "n \<le> MAX_CPU"
  shows "mp_count m conf (off + table_size entries) off n =
    (if n + length (List.filter (\<lambda>cpu. cpu) entries) \<le> MAX_CPU then Inr (n + length (List.filter (\<lambda>cpu. cpu) entries))
     else Inl (Panic ''cannot support > MAX_CPU processors''))"
  using assms
proof (induction entries arbitrary: off n)
  case Nil
  then show ?case by (simp add: table_size_def mp_count.simps)
next
  case (Cons cpu entries)
  show ?case
  proof (cases cpu)
    case True
    then show ?thesis using Cons.prems Cons.IH [of "off + 20" "n + 1"]
      by (subst mp_count.simps) (simp add: table_size_def add.assoc)
  next
    case False
    then show ?thesis using Cons.prems Cons.IH [of "off + 8" n]
      by (subst mp_count.simps) (simp add: table_size_def add.assoc)
  qed
qed

theorem mp_count_correct_witness:
  "mp_count ((\<lambda>_. 1)(0x102C := 0, 0x1048 := 0)) 0x1000 (44 + 48) 44 0 = Inr 2"
proof -
  have "entries_at ((\<lambda>_. 1)(0x102C := 0, 0x1048 := 0)) 0x1000 44 [True, False, True]" by simp
  from mp_count_correct [OF this, of 0] show ?thesis by (simp add: table_size_def MAX_CPU_def)
qed

section \<open>Segments, memory and messages\<close>

text \<open>
  After \<open>percpu_initgdt\<close> the processor finds in the table it loads four flat segments of 4 GiB,
  two for the kernel and two for the user, and the task state of the processor with its size.
\<close>

theorem percpu_initgdt_segments:
  "\<exists>cpu<256. \<exists>cpu'<256. \<exists>w. w = (\<lambda>i. ld32 (mem (percpu_initgdt H L s)) (slot (gdt_at L cpu) i)) \<and>
     gdtr (percpu_initgdt H L s) = (gdt_at L cpu, 48) \<and>
     list_all (\<lambda>i. seg_base (w (2 * i)) (w (2 * i + 1)) = 0 \<and> seg_limit (w (2 * i)) (w (2 * i + 1)) = 0xffffffff \<and>
        desc_dpl (w (2 * i + 1)) = (if i \<le> 2 then DPL_KERN else DPL_USER) \<and> bit (w (2 * i + 1)) 15) [1, 2, 3, 4] \<and>
     seg_base (w 10) (w 11) = tss_at L cpu' \<and> seg_limit (w 10) (w 11) = 103 \<and> desc_dpl (w 11) = DPL_KERN"
proof -
  obtain cpu cpu' where m: "cpu < 256" "cpu' < 256" "gdtr (percpu_initgdt H L s) = (gdt_at L cpu, 48)"
    "mem (percpu_initgdt H L s) = gdt_words (gdt_at L cpu) (tss_at L cpu') (mem s)"
    using percpu_initgdt_mem by blast
  define w where "w = (\<lambda>i. ld32 (mem (percpu_initgdt H L s)) (slot (gdt_at L cpu) i))"
  have full: "0xffffffff OR mask 12 = (0xffffffff :: u32)" by (simp add: mask_eq_exp_minus_1)
  have dpl: "take_bit 2 DPL_KERN = DPL_KERN" "take_bit 2 DPL_USER = DPL_USER" by (simp_all add: DPL_KERN_def DPL_USER_def)
  note rights = SEG_rights [OF disjI1, OF refl] SEG_rights [OF disjI2, OF refl]
  have "list_all (\<lambda>i. seg_base (w (2 * i)) (w (2 * i + 1)) = 0 \<and> seg_limit (w (2 * i)) (w (2 * i + 1)) = 0xffffffff \<and>
        desc_dpl (w (2 * i + 1)) = (if i \<le> 2 then DPL_KERN else DPL_USER) \<and> bit (w (2 * i + 1)) 15) [1, 2, 3, 4]"
    by (simp add: w_def m(4) gdt_words_def SEG_base SEG32_limit full rights dpl)
  moreover have "seg_base (w 10) (w 11) = tss_at L cpu' \<and> seg_limit (w 10) (w 11) = 103 \<and> desc_dpl (w 11) = DPL_KERN"
    by (simp add: w_def m(4) gdt_words_def SEG_base SEG16_limit rights dpl)
  ultimately show ?thesis using m(1-3) w_def by blast
qed

text \<open>
  The heap of the program ends with the memory the machine's clock chip reports: 16 MiB and \<open>n\<close>
  blocks of 64 KiB.
\<close>

theorem heap_init_end:
  assumes "in8 H 0x71 (out8 H 0x70 0x34 (dev (io s))) = (of_nat (n mod 256), d1)"
    and "in8 H 0x71 (out8 H 0x70 0x35 d1) = (of_nat (n div 256), d2)" "n + 256 < 2 ^ 16"
  shows "unat (area_end (fst (heap_init H L s))) = 2 ^ 24 + n * 2 ^ 16"
proof -
  let ?lo = "ucast (of_nat (n mod 256) :: u8) :: u32" and ?hi = "ucast (of_nat (n div 256) :: u8) + 1 :: u32"
  have lo: "unat ?lo = n mod 256" by (simp add: unat_ucast unat_of_nat)
  have hi: "unat ?hi = n div 256 + 1" using assms(3) by (simp add: unat_word_ariths unat_ucast unat_of_nat)
  have "\<not> bit ?lo i" if "8 \<le> i" for i
    using that by (auto simp: bit_unsigned_iff dest: bit_imp_le_length)
  then have "?lo OR push_bit 8 ?hi = ?lo + push_bit 8 ?hi"
    by (intro disjunctive_add [symmetric]) (auto simp: bit_push_bit_iff)
  moreover have "unat (push_bit 8 ?hi) = n div 256 * 256 + 256"
    using assms(3) by (simp add: unat_push_bit hi)
  ultimately have "unat (?lo OR push_bit 8 ?hi) = n + 256"
    using assms(3) by (simp add: unat_word_ariths lo)
  then have "unat (push_bit 16 (?lo OR push_bit 8 ?hi)) = (n + 256) * 2 ^ 16"
    using assms(3) by (simp only: unat_push_bit) simp
  then show ?thesis using assms(1,2) by (simp add: heap_init_def outb_def inb_def RANGE_def Let_def)
qed

theorem heap_init_end_witness:
  "unat (area_end (fst (heap_init (log_hw\<lparr>in8 := (\<lambda>p d. (0x10, d))\<rparr>) demo_image demo_x86))) = 2 ^ 24 + 0x1010 * 2 ^ 16"
  using heap_init_end [of "log_hw\<lparr>in8 := (\<lambda>p d. (0x10, d))\<rparr>" demo_x86 "0x1010" "[(0x70, 0x34)]" "[(0x70, 0x35), (0x70, 0x34)]" demo_image]
  by (simp add: log_hw_def demo_x86_def demo_log_def)

lemma nibbles: "unat (signed_drop_bit 4 code AND 0xf) = unat code div 16 mod 16" "unat (code AND 0xf) = unat code mod 16"
  for code :: u32
proof -
  have m: "(0xf :: u32) = mask 4" by (simp add: mask_eq_exp_minus_1)
  have "signed_drop_bit 4 code AND 0xf = take_bit 4 (drop_bit 4 code)"
    unfolding m by (rule bit_word_eqI) (auto simp: bit_and_iff bit_mask_iff bit_take_bit_iff bit_signed_drop_bit_iff bit_drop_bit_eq)
  then show "unat (signed_drop_bit 4 code AND 0xf) = unat code div 16 mod 16"
    by (simp add: unat_take_bit_eq unat_drop_bit)
  show "unat (code AND 0xf) = unat code mod 16"
    unfolding m by (simp add: take_bit_eq_mask [symmetric] unat_take_bit_eq del: mask_numeral)
qed

text \<open>
  \<open>halt\<close> prints the number of the processor and the low byte of the code in hexadecimal, and
  then asks the machine to switch off.
\<close>

theorem halt_message:
  fixes H :: "'p hw" and s :: "'p x86"
  assumes cpu: "\<And>a d. apic_rd H a d = (push_bit 24 cpu, d)" "cpu < 16"
  defines "s0 \<equiv> stop_the_world H (iset False s)"
  shows "halt H code s = Inr (s0\<lparr>io := (io s0)\<lparr>dev := out16 H 0x604 0x2000
    (fold (out8 H 0x3f8) (map char_code (''CPU #'' @ [hex_digits ! unat cpu] @ '' Halt ('' @
      [hex_digits ! (unat code div 16 mod 16), hex_digits ! (unat code mod 16)] @ '').'' @ [CHR 0x0A])) (dev (io s0)))\<rparr>\<rparr>)"
proof -
  have c: "unat cpu < 16" using cpu(2) by (simp add: word_less_nat_alt)
  have "unat (drop_bit 24 (push_bit 24 cpu)) = unat cpu" using c by (simp add: unat_drop_bit unat_push_bit)
  then have "drop_bit 24 (push_bit 24 cpu) = cpu" by (simp only: word_unat_eq_iff)
  then have "cpu_current H s = (cpu, s)" for s
    using cpu(1) by (simp add: cpu_current_def mmio_rd_def)
  moreover have "unat (signed_drop_bit 4 code AND 0xf) = unat code div 16 mod 16"
    using nibbles [of code] by simp
  moreover have "unat (code AND 0xf) = unat code mod 16" using nibbles [of code] by simp
  moreover have "putch H ch s = s\<lparr>io := (io s)\<lparr>dev := out8 H 0x3f8 ch (dev (io s))\<rparr>\<rparr>" for ch s
    by (simp add: putch_def outb_def COM1_def)
  ultimately show ?thesis using c
    by (simp add: halt_def halt_fmt_def halt_char_def put_hex_def outw_def flip: s0_def)
qed

theorem halt_message_witness:
  "\<exists>s'. halt log_hw 0xB3 demo_x86 = Inr s' \<and> take 3 (dev (io s')) = [(0x3f8, 0x0A), (0x3f8, 0x2E), (0x3f8, 0x29)] \<and>
     dev (io s') ! 3 = (0x3f8, char_code (CHR ''3'')) \<and> dev (io s') ! 4 = (0x3f8, char_code (CHR ''b''))"
  using halt_message [of log_hw 0 "0xB3" demo_x86] by (simp add: log_hw_def hex_digits_def char_code_def)

end
