(* ===== verification/X86_Boot.thy ===== *)
theory X86_Boot
  imports X86_Ioe Words32
begin

text \<open>
  The boot loader of the x86 platform (\<open>am/src/x86/qemu/boot/main.c\<close>): it reads the kernel, an ELF
  file behind the boot sector and the arguments, from the disk into memory and gives the address to
  jump to.  The disk is behind ports, which are a parameter.
\<close>

section \<open>Reading the disk\<close>

definition SECTSIZE :: u32 where "SECTSIZE = 512"
definition ARGSIZE :: u32 where "ARGSIZE = 1024"
definition BOOTREC_ADDR :: ptr where "BOOTREC_ADDR = 0x07000"
definition MAINARG_ADDR :: ptr where "MAINARG_ADDR = 0x10000"

definition read_disk :: "'p hw \<Rightarrow> ptr \<Rightarrow> u32 \<Rightarrow> 'p ioe \<Rightarrow> 'p ioe option" where
  "read_disk H buf sect s =
     Option.bind (wait_disk H s) (\<lambda>s.
       let s = outb H 0x1f2 1 s;
           s = outb H 0x1f3 (ucast sect) s;
           s = outb H 0x1f4 (ucast (signed_drop_bit 8 sect)) s;
           s = outb H 0x1f5 (ucast (signed_drop_bit 16 sect)) s;
           s = outb H 0x1f6 (ucast (signed_drop_bit 24 sect OR 0xE0)) s;
           s = outb H 0x1f7 0x20 s
       in map_option (\<lambda>s. fold (\<lambda>i s. let (v, s) = inl H 0x1f0 s in s\<lparr>ram := st32 (buf + of_nat (4 * i)) v (ram s)\<rparr>)
            [0..<unat SECTSIZE div 4] s) (wait_disk H s))"

text \<open>The loop of \<open>copy_from_disk\<close>; it does not end when \<open>cur\<close> wraps around below \<open>ed\<close>.\<close>

partial_function (option) copy_loop :: "'p hw \<Rightarrow> ptr \<Rightarrow> ptr \<Rightarrow> u32 \<Rightarrow> 'p ioe \<Rightarrow> 'p ioe option" where
  "copy_loop H cur ed sect s =
     (if cur < ed then Option.bind (read_disk H cur sect s) (\<lambda>s. copy_loop H (cur + SECTSIZE) ed (sect + 1) s)
      else Some s)"

text \<open>\<open>nbytes\<close> and \<open>disk_offset\<close> are \<open>int\<close>; the division is the one of C.\<close>

definition copy_from_disk :: "'p hw \<Rightarrow> ptr \<Rightarrow> u32 \<Rightarrow> u32 \<Rightarrow> 'p ioe \<Rightarrow> 'p ioe option" where
  "copy_from_disk H buf nbytes disk_offset s =
     (let cur = buf AND NOT (SECTSIZE - 1);
          ed = buf + nbytes;
          sect = word_of_int (sint disk_offset sdiv 512) + ARGSIZE div SECTSIZE + 1
      in copy_loop H cur ed sect s)"

section \<open>Loading the program\<close>

text \<open>The loop that clears \<open>n\<close> bytes; its counter runs from \<open>filesz\<close> until it is \<open>memsz\<close>.\<close>

primrec clear_loop :: "nat \<Rightarrow> ptr \<Rightarrow> gmem \<Rightarrow> gmem" where
  "clear_loop 0 bss m = m"
| "clear_loop (Suc n) bss m = clear_loop n (bss + 1) (m(bss := 0))"

definition load_program :: "'p hw \<Rightarrow> u32 \<Rightarrow> u32 \<Rightarrow> ptr \<Rightarrow> u32 \<Rightarrow> 'p ioe \<Rightarrow> 'p ioe option" where
  "load_program H filesz memsz paddr offset s =
     map_option (\<lambda>s. s\<lparr>ram := clear_loop (unat (memsz - filesz)) (paddr + filesz) (ram s)\<rparr>)
       (copy_from_disk H paddr filesz offset s)"

text \<open>The fields of \<open>elf.h\<close> the loader reads: those of 64 bits are cut to 32.\<close>

definition ld16 :: "gmem \<Rightarrow> ptr \<Rightarrow> u32" where
  "ld16 m p = le_word (m p) (m (p + 1)) 0 0"

definition EM_X86_64 :: u32 where "EM_X86_64 = 62"

definition e_machine :: "gmem \<Rightarrow> ptr \<Rightarrow> u32" where "e_machine m elf = ld16 m (elf + 18)"
definition e_entry :: "gmem \<Rightarrow> ptr \<Rightarrow> u32" where "e_entry m elf = ld32 m (elf + 24)"

record phdr_layout =
  e_phoff_at :: ptr
  e_phnum_at :: ptr
  ph_size :: u32
  p_offset_at :: ptr
  p_paddr_at :: ptr
  p_filesz_at :: ptr
  p_memsz_at :: ptr

definition elf32 :: phdr_layout where
  "elf32 = \<lparr>e_phoff_at = 28, e_phnum_at = 44, ph_size = 32, p_offset_at = 4, p_paddr_at = 12, p_filesz_at = 16, p_memsz_at = 20\<rparr>"

definition elf64 :: phdr_layout where
  "elf64 = \<lparr>e_phoff_at = 32, e_phnum_at = 56, ph_size = 56, p_offset_at = 8, p_paddr_at = 24, p_filesz_at = 32, p_memsz_at = 40\<rparr>"

lemma unat_ld16: "unat (ld16 m p) < 65536"
proof -
  have "\<forall>i\<ge>16. \<not> bit (ld16 m p) i" by (auto simp: ld16_def le_word_def bit_simps dest: bit_imp_le_length)
  then have "unat (ld16 m p) < 2 ^ 16" by (simp only: unat_lt_pow2_iff_bits)
  then show ?thesis by simp
qed

text \<open>
  The loop over the program headers; \<open>load_elf32\<close> and \<open>load_elf64\<close> differ in the layout.  The number
  of headers is read from memory in every round, also after a segment has been loaded there.
\<close>

function load_loop :: "'p hw \<Rightarrow> phdr_layout \<Rightarrow> ptr \<Rightarrow> nat \<Rightarrow> ptr \<Rightarrow> 'p ioe \<Rightarrow> 'p ioe option" where
  "load_loop H F elf i ph s =
     (if i < unat (ld16 (ram s) (elf + e_phnum_at F)) then
        Option.bind
          (load_program H (ld32 (ram s) (ph + p_filesz_at F)) (ld32 (ram s) (ph + p_memsz_at F))
             (ld32 (ram s) (ph + p_paddr_at F)) (ld32 (ram s) (ph + p_offset_at F)) s)
          (load_loop H F elf (i + 1) (ph + ph_size F))
      else Some s)"
  by pat_completeness auto
termination
  by (relation "measure (\<lambda>(H, F, elf, i, ph, s). 65536 - i)") (use less_trans [OF _ unat_ld16] in fastforce)+

lemmas load_loop_simps = load_loop.simps
declare load_loop.simps [simp del]

definition load_elf :: "'p hw \<Rightarrow> phdr_layout \<Rightarrow> ptr \<Rightarrow> 'p ioe \<Rightarrow> 'p ioe option" where
  "load_elf H F elf s = load_loop H F elf 0 (elf + ld32 (ram s) (elf + e_phoff_at F)) s"

definition load_elf32 :: "'p hw \<Rightarrow> ptr \<Rightarrow> 'p ioe \<Rightarrow> 'p ioe option" where "load_elf32 H = load_elf H elf32"
definition load_elf64 :: "'p hw \<Rightarrow> ptr \<Rightarrow> 'p ioe \<Rightarrow> 'p ioe option" where "load_elf64 H = load_elf H elf64"

text \<open>The result is the address that is called; \<open>is_ap\<close> is the second word of the boot record.\<close>

definition load_kernel :: "'p hw \<Rightarrow> 'p ioe \<Rightarrow> (ptr \<times> 'p ioe) option" where
  "load_kernel H s =
     (let u = 0x8000;
          is_ap = ld32 (ram s) (BOOTREC_ADDR + 4)
      in map_option (\<lambda>s. (e_entry (ram s) u, s))
          (if is_ap = 0 then
             Option.bind (copy_from_disk H MAINARG_ADDR 1024 (- 1024) s) (\<lambda>s.
             Option.bind (copy_from_disk H u 4096 0 s) (\<lambda>s.
               if e_machine (ram s) u = EM_X86_64 then load_elf64 H u s else load_elf32 H u s))
           else Some s))"

section \<open>A disk\<close>

text \<open>
  A disk with the bytes \<open>img\<close>: reading a sector returns and puts its 512 bytes into memory.  The
  command has 28 bits for the number of the sector.
\<close>

definition sector :: "(nat \<Rightarrow> u8) \<Rightarrow> nat \<Rightarrow> u8 list" where
  "sector img n = map (\<lambda>i. img (512 * n + i)) [0..<512]"

definition disk_holds :: "'p hw \<Rightarrow> (nat \<Rightarrow> u8) \<Rightarrow> bool" where
  "disk_holds H img \<longleftrightarrow>
     (\<forall>buf sect s. unat sect < 2 ^ 28 \<longrightarrow> (\<exists>d. read_disk H buf sect s = Some (s\<lparr>dev := d, ram := put_bytes (ram s) buf (sector img (unat sect))\<rparr>)))"

lemma put_sector:
  "put_bytes m buf (sector img n) a = (if unat (a - buf) < 512 then img (512 * n + unat (a - buf)) else m a)"
  by (simp add: put_bytes_def sector_def)

text \<open>Memory after \<open>n\<close> bytes were read to \<open>p\<close> from offset \<open>o'\<close> of the disk.\<close>

definition loaded :: "(nat \<Rightarrow> u8) \<Rightarrow> ptr \<Rightarrow> nat \<Rightarrow> nat \<Rightarrow> gmem \<Rightarrow> gmem" where
  "loaded img p o' n m = (\<lambda>a. if unat (a - p) < n then img (o' + unat (a - p)) else m a)"

lemma unat_minus_sector:
  assumes "unat (d :: ptr) < 512"
  shows "unat (d - 512) = 2 ^ 32 + unat d - 512"
  using assms by (simp add: unat_sub_if' word_le_nat_alt)

lemma loaded_sectors:
  assumes "512 * Suc k \<le> 2 ^ 32"
  shows "loaded img (cur + 512) (512 * Suc n) (512 * k) (put_bytes m cur (sector img n)) = loaded img cur (512 * n) (512 * Suc k) m"
proof
  fix a
  have d: "a - (cur + 512) = (a - cur) - 512" by simp
  show "loaded img (cur + 512) (512 * Suc n) (512 * k) (put_bytes m cur (sector img n)) a = loaded img cur (512 * n) (512 * Suc k) m a"
  proof (cases "unat (a - cur) < 512")
    case True
    then have "\<not> unat (a - (cur + 512)) < 512 * k" unfolding d unat_minus_sector [OF True] using assms by simp
    then show ?thesis using True by (simp add: loaded_def put_sector)
  next
    case False
    then have "unat (a - (cur + 512)) = unat (a - cur) - 512" unfolding d by (simp add: unat_sub_if' word_le_nat_alt)
    then show ?thesis using False by (auto simp: loaded_def put_sector)
  qed
qed

lemma copy_loop_loaded:
  assumes disk: "disk_holds H img" and room: "unat cur + 512 * k < 2 ^ 32" "unat sect + k \<le> 2 ^ 28"
    and ed: "unat ed \<le> unat cur + 512 * k" "0 < k \<Longrightarrow> unat cur + 512 * (k - 1) < unat ed"
  shows "\<exists>d. copy_loop H cur ed sect s = Some (s\<lparr>dev := d, ram := loaded img cur (512 * unat sect) (512 * k) (ram s)\<rparr>)"
  using room ed
proof (induction k arbitrary: cur sect s)
  case 0
  then have "copy_loop H cur ed sect s = Some s" by (simp add: copy_loop.simps [of H cur] word_less_nat_alt)
  moreover have "s = s\<lparr>dev := dev s, ram := loaded img cur (512 * unat sect) (512 * 0) (ram s)\<rparr>" by (simp add: loaded_def)
  ultimately show ?case by metis
next
  case (Suc k)
  then have lt: "cur < ed" by (simp add: word_less_nat_alt)
  obtain d where r: "read_disk H cur sect s = Some (s\<lparr>dev := d, ram := put_bytes (ram s) cur (sector img (unat sect))\<rparr>)"
    using disk Suc.prems(2) unfolding disk_holds_def by fastforce
  have c: "unat (cur + 512) = unat cur + 512" using Suc.prems(1) by (simp add: unat_word_ariths)
  show ?case
  proof (cases "k = 0")
    case True
    then have "\<not> cur + 512 < ed" using Suc.prems c by (simp add: word_less_nat_alt)
    then have "copy_loop H cur ed sect s = Some (s\<lparr>dev := d, ram := put_bytes (ram s) cur (sector img (unat sect))\<rparr>)"
      using lt r by (simp add: copy_loop.simps [of H cur] copy_loop.simps [of H "cur + 512"] SECTSIZE_def)
    moreover have "put_bytes (ram s) cur (sector img (unat sect)) = loaded img cur (512 * unat sect) (512 * Suc k) (ram s)"
      using True by (auto simp: put_sector loaded_def)
    ultimately show ?thesis by auto
  next
    case False
    then have sct: "unat (sect + 1) = Suc (unat sect)" using Suc.prems(2) by (simp add: unat_word_ariths)
    obtain d' where "copy_loop H (cur + 512) ed (sect + 1) (s\<lparr>dev := d, ram := put_bytes (ram s) cur (sector img (unat sect))\<rparr>) =
        Some (s\<lparr>dev := d', ram := loaded img (cur + 512) (512 * Suc (unat sect)) (512 * k) (put_bytes (ram s) cur (sector img (unat sect)))\<rparr>)"
      using Suc.IH [of "cur + 512" "sect + 1" "s\<lparr>dev := d, ram := put_bytes (ram s) cur (sector img (unat sect))\<rparr>"]
        Suc.prems c sct False by fastforce
    moreover have "512 * Suc k \<le> 2 ^ 32" using Suc.prems(1) by simp
    ultimately show ?thesis
      using lt r loaded_sectors [of k img cur "unat sect" "ram s"] by (simp add: copy_loop.simps [of H cur] SECTSIZE_def) (rule exI, rule refl)
  qed
qed

lemma clear_loop_at: "n \<le> 2 ^ 32 \<Longrightarrow> clear_loop n p m a = (if unat (a - p) < n then 0 else m a)"
proof (induction n arbitrary: p m)
  case (Suc n)
  have d: "a - (p + 1) = a - p - 1" by simp
  show ?case
  proof (cases "a = p")
    case True
    then show ?thesis using Suc by simp
  next
    case False
    then have nz: "a - p \<noteq> 0" by simp
    then have "unat (a - p - 1) = unat (a - p) - 1" by (rule unat_minus_one)
    then have "unat (a - (p + 1)) = unat (a - p) - 1" unfolding d .
    moreover have "0 < unat (a - p)" using nz by (simp add: unat_gt_0)
    ultimately show ?thesis using Suc False by auto
  qed
qed simp

section \<open>A segment\<close>

record segment =
  seg_offset :: u32
  seg_paddr :: ptr
  seg_filesz :: u32
  seg_memsz :: u32

text \<open>The sectors that are read for a segment, where they start, and the bytes written.\<close>

definition seg_sectors :: "segment \<Rightarrow> nat" where
  "seg_sectors g = (unat (seg_paddr g) mod 512 + unat (seg_filesz g) + 511) div 512"

definition seg_start :: "segment \<Rightarrow> nat" where
  "seg_start g = unat (seg_paddr g) - unat (seg_paddr g) mod 512"

definition seg_length :: "segment \<Rightarrow> nat" where
  "seg_length g = (if seg_memsz g = 0 \<and> seg_sectors g = 0 then 0
     else max (512 * seg_sectors g) (unat (seg_paddr g) mod 512 + unat (seg_memsz g)))"

text \<open>
  The linker gives a segment an offset in the file that agrees with its address in the low bits; it
  ends before the end of the address space, and the file has less than 2 GB.
\<close>

definition seg_ok :: "segment \<Rightarrow> bool" where
  "seg_ok g \<longleftrightarrow> unat (seg_paddr g) mod 512 = unat (seg_offset g) mod 512 \<and> unat (seg_filesz g) \<le> unat (seg_memsz g) \<and>
     seg_start g + seg_length g < 2 ^ 32 \<and> unat (seg_offset g) + unat (seg_filesz g) < 2 ^ 31"

text \<open>The bytes of a segment in memory; the file starts in sector 3.\<close>

definition seg_loaded :: "(nat \<Rightarrow> u8) \<Rightarrow> segment \<Rightarrow> gmem \<Rightarrow> bool" where
  "seg_loaded img g m \<longleftrightarrow>
     (\<forall>j<unat (seg_memsz g). m (seg_paddr g + of_nat j) =
        (if j < unat (seg_filesz g) then img (1536 + unat (seg_offset g) + j) else 0))"

lemma and_not_511: "unat (p AND NOT 511) = unat (p :: ptr) - unat p mod 512"
proof -
  have "p AND NOT 511 = p AND NOT (mask 9)" by (simp add: mask_eq_exp_minus_1)
  also have "\<dots> = push_bit 9 (drop_bit 9 p)" by (rule bit_word_eqI) (auto simp: bit_simps)
  also have "\<dots> = p - take_bit 9 p" using bits_ident [of 9 p] by (metis add_diff_cancel_right')
  finally have e: "p AND NOT 511 = p - take_bit 9 p" .
  have "take_bit 9 p \<le> p" by (simp add: word_le_nat_alt unat_take_bit_eq)
  then show ?thesis unfolding e by (simp add: unat_sub unat_take_bit_eq)
qed

lemma sectors_bounds:
  "x \<le> 512 * ((x + 511) div 512)" "0 < (x + 511) div 512 \<Longrightarrow> 512 * ((x + 511) div 512 - 1) < x" "(x + 511) div 512 \<le> x" for x :: nat
  by linarith+

lemma sectors_room: "o' + f < 2 ^ 31 \<Longrightarrow> r < 512 \<Longrightarrow> o' div 512 + 3 + (r + f + 511) div 512 \<le> 2 ^ 28" for o' r f :: nat
  by simp

lemma load_program_memory:
  assumes disk: "disk_holds H img" and ok: "seg_ok g"
  shows "\<exists>d. load_program H (seg_filesz g) (seg_memsz g) (seg_paddr g) (seg_offset g) s =
    Some (s\<lparr>dev := d, ram := clear_loop (unat (seg_memsz g) - unat (seg_filesz g)) (seg_paddr g + seg_filesz g)
      (loaded img (seg_paddr g AND NOT 511) (1536 + 512 * (unat (seg_offset g) div 512)) (512 * seg_sectors g) (ram s))\<rparr>)"
proof -
  let ?p = "seg_paddr g" and ?f = "seg_filesz g" and ?o = "seg_offset g" and ?k = "seg_sectors g"
  let ?cur = "?p AND NOT 511"
  have cur: "unat ?cur = seg_start g" unfolding seg_start_def by (rule and_not_511)
  have len: "512 * ?k \<le> seg_length g" by (simp add: seg_length_def)
  have o31: "unat ?o < 2 ^ 31" using ok by (simp add: seg_ok_def)
  have sint: "sint ?o = int (unat ?o)" using o31 by (simp only: sint32_unat if_True)
  have "sint ?o sdiv 512 = int (unat ?o div 512)"
    by (simp add: sint signed_divide_int_def zdiv_int sgn_if)
  then have sect: "word_of_int (sint ?o sdiv 512) + ARGSIZE div SECTSIZE + 1 = (of_nat (unat ?o div 512 + 3) :: u32)"
    by (simp add: ARGSIZE_def SECTSIZE_def)
  have us: "unat (of_nat (unat ?o div 512 + 3) :: u32) = unat ?o div 512 + 3"
    using o31 by (simp add: unat_of_nat del: of_nat_add of_nat_numeral)
  note ok' = ok [unfolded seg_ok_def]
  have "unat ?p + unat ?f < 2 ^ 32"
  proof (cases "seg_memsz g = 0")
    case True
    then show ?thesis using ok' unat_bound32 [of ?p] by simp
  next
    case False
    then have "unat ?p mod 512 + unat (seg_memsz g) \<le> seg_length g" by (simp add: seg_length_def)
    then have "unat ?p + unat (seg_memsz g) \<le> seg_start g + seg_length g" by (simp add: seg_start_def)
    then show ?thesis using ok' by linarith
  qed
  then have ed: "unat (?p + ?f) = unat ?p + unat ?f" by (simp add: unat_word_ariths)
  have r: "unat ?p mod 512 \<le> unat ?p" by simp
  have "\<exists>d. copy_loop H ?cur (?p + ?f) (of_nat (unat ?o div 512 + 3)) s =
      Some (s\<lparr>dev := d, ram := loaded img ?cur (512 * unat (of_nat (unat ?o div 512 + 3) :: u32)) (512 * ?k) (ram s)\<rparr>)"
  proof (rule copy_loop_loaded [OF disk])
    show "unat ?cur + 512 * ?k < 2 ^ 32" using len ok cur by (simp add: seg_ok_def)
    show "unat (of_nat (unat ?o div 512 + 3) :: u32) + ?k \<le> 2 ^ 28" unfolding us seg_sectors_def
      using ok' by (intro sectors_room) simp_all
    show "unat (?p + ?f) \<le> unat ?cur + 512 * ?k" unfolding ed cur seg_start_def seg_sectors_def
      using sectors_bounds(1) [of "unat ?p mod 512 + unat ?f"] r by linarith
    show "0 < ?k \<Longrightarrow> unat ?cur + 512 * (?k - 1) < unat (?p + ?f)"
      unfolding ed cur seg_start_def seg_sectors_def
      using sectors_bounds(2) [of "unat ?p mod 512 + unat ?f"] r by linarith
  qed
  moreover have "512 * unat (of_nat (unat ?o div 512 + 3) :: u32) = 1536 + 512 * (unat ?o div 512)" unfolding us by simp
  moreover have "unat (seg_memsz g - ?f) = unat (seg_memsz g) - unat ?f"
    using ok by (simp add: seg_ok_def unat_sub word_le_nat_alt)
  moreover have "copy_from_disk H ?p ?f ?o s = copy_loop H ?cur (?p + ?f) (of_nat (unat ?o div 512 + 3)) s"
    unfolding copy_from_disk_def Let_def sect by (simp add: SECTSIZE_def)
  ultimately show ?thesis by (auto simp: load_program_def simp del: of_nat_add)
qed

lemma loaded_outside:
  assumes "unat p + n \<le> 2 ^ 32" "unat a < unat p \<or> unat p + n \<le> unat a"
  shows "loaded img p o' n m a = m a"
proof -
  have "\<not> unat (a - p) < n" using assms unat_bound32 [of a] by (auto simp: unat_sub_if' word_le_nat_alt)
  then show ?thesis by (simp add: loaded_def)
qed

lemma clear_loop_outside:
  assumes "unat p + n \<le> 2 ^ 32" "unat a < unat p \<or> unat p + n \<le> unat a"
  shows "clear_loop n p m a = m a"
proof -
  have "\<not> unat (a - p) < n" using assms unat_bound32 [of a] by (auto simp: unat_sub_if' word_le_nat_alt)
  moreover have "n \<le> 2 ^ 32" using assms(1) by simp
  ultimately show ?thesis by (simp add: clear_loop_at)
qed

text \<open>A segment is loaded, and memory outside the bytes written for it stays as it was.\<close>

lemma load_program_segment:
  assumes disk: "disk_holds H img" and ok: "seg_ok g"
  shows "\<exists>d m. load_program H (seg_filesz g) (seg_memsz g) (seg_paddr g) (seg_offset g) s = Some (s\<lparr>dev := d, ram := m\<rparr>) \<and>
    seg_loaded img g m \<and> (\<forall>a. unat a < seg_start g \<or> seg_start g + seg_length g \<le> unat a \<longrightarrow> m a = ram s a)"
proof -
  let ?p = "seg_paddr g" and ?f = "unat (seg_filesz g)" and ?z = "unat (seg_memsz g)" and ?k = "seg_sectors g"
  let ?cur = "?p AND NOT 511" and ?o = "1536 + 512 * (unat (seg_offset g) div 512)"
  let ?l = "loaded img ?cur ?o (512 * ?k) (ram s)"
  let ?m = "clear_loop (?z - ?f) (?p + seg_filesz g) ?l"
  note ok' = ok [unfolded seg_ok_def]
  have cur: "unat ?cur = seg_start g" unfolding seg_start_def by (rule and_not_511)
  have r: "seg_start g + unat ?p mod 512 = unat ?p" by (simp add: seg_start_def)
  show ?thesis
  proof (cases "seg_memsz g = 0 \<and> ?k = 0")
    case True
    then have "?m a = ram s a" for a using ok' by (simp add: loaded_def)
    moreover have "seg_loaded img g m" for m using True by (simp add: seg_loaded_def)
    ultimately show ?thesis using load_program_memory [OF assms, of s] by blast
  next
    case False
    then have len: "512 * ?k \<le> seg_length g" "unat ?p mod 512 + ?z \<le> seg_length g" by (auto simp: seg_length_def)
    have wrap: "unat ?p + ?z < 2 ^ 32" using len(2) r ok' by linarith
    have pf: "unat (?p + seg_filesz g) = unat ?p + ?f" using wrap ok' by (simp add: unat_word_ariths)
    have at: "unat (?p + of_nat j) = unat ?p + j" if "j < ?z" for j using that wrap by (simp add: unat_word_ariths unat_of_nat)
    have "seg_loaded img g ?m"
      unfolding seg_loaded_def
    proof (intro allI impI)
      fix j assume j: "j < ?z"
      let ?a = "?p + of_nat j"
      show "?m ?a = (if j < ?f then img (1536 + unat (seg_offset g) + j) else 0)"
      proof (cases "j < ?f")
        case True
        have "?m ?a = ?l ?a" using clear_loop_outside [of "?p + seg_filesz g" "?z - ?f" ?a ?l] pf at [OF j] True wrap ok' by simp
        also have "\<dots> = img (?o + (unat ?p mod 512 + j))"
        proof -
          have "unat (?a - ?cur) = unat ?p mod 512 + j"
            using at [OF j] cur r by (simp add: unat_sub_if' word_le_nat_alt)
          moreover have "unat ?p mod 512 + j < 512 * ?k"
            using sectors_bounds(1) [of "unat ?p mod 512 + ?f"] True by (simp add: seg_sectors_def)
          ultimately show ?thesis by (simp add: loaded_def)
        qed
        also have "?o + (unat ?p mod 512 + j) = 1536 + unat (seg_offset g) + j"
          using ok' by simp
        finally show ?thesis using True by simp
      next
        case False
        have "?p + seg_filesz g \<le> ?a" unfolding word_le_nat_alt at [OF j] pf using False by simp
        then have "unat (?a - (?p + seg_filesz g)) = j - ?f" unfolding unat_sub [OF \<open>_ \<le> ?a\<close>] at [OF j] pf by simp
        moreover have "?z - ?f \<le> 2 ^ 32" "j - ?f < ?z - ?f" using wrap j False by linarith+
        ultimately show ?thesis using False by (simp add: clear_loop_at)
      qed
    qed
    moreover have "?m a = ram s a" if a: "unat a < seg_start g \<or> seg_start g + seg_length g \<le> unat a" for a
    proof -
      have "?m a = ?l a" using clear_loop_outside [of "?p + seg_filesz g" "?z - ?f" a ?l] pf a wrap ok' len(2) r by linarith
      also have "\<dots> = ram s a" using loaded_outside [of ?cur "512 * ?k" a img ?o "ram s"] a cur len(1) ok' by linarith
      finally show ?thesis .
    qed
    ultimately show ?thesis using load_program_memory [OF assms, of s] by blast
  qed
qed

section \<open>The whole file\<close>

definition seg_at :: "phdr_layout \<Rightarrow> gmem \<Rightarrow> ptr \<Rightarrow> segment" where
  "seg_at F m ph = \<lparr>seg_offset = ld32 m (ph + p_offset_at F), seg_paddr = ld32 m (ph + p_paddr_at F),
     seg_filesz = ld32 m (ph + p_filesz_at F), seg_memsz = ld32 m (ph + p_memsz_at F)\<rparr>"

fun segments :: "phdr_layout \<Rightarrow> gmem \<Rightarrow> ptr \<Rightarrow> nat \<Rightarrow> segment list" where
  "segments F m ph 0 = []"
| "segments F m ph (Suc n) = seg_at F m ph # segments F m (ph + ph_size F) n"

text \<open>Segments lie above the arguments and do not overlap, in whole sectors.\<close>

definition seg_outside :: "segment \<Rightarrow> nat \<Rightarrow> bool" where
  "seg_outside g a \<longleftrightarrow> a < seg_start g \<or> seg_start g + seg_length g \<le> a"

definition seg_disjoint :: "segment \<Rightarrow> segment \<Rightarrow> bool" where
  "seg_disjoint g h \<longleftrightarrow> seg_length g = 0 \<or> seg_length h = 0 \<or>
     seg_start g + seg_length g \<le> seg_start h \<or> seg_start h + seg_length h \<le> seg_start g"

fun segs_fit :: "segment list \<Rightarrow> bool" where
  "segs_fit [] \<longleftrightarrow> True"
| "segs_fit (g # gs) \<longleftrightarrow> seg_ok g \<and> (seg_length g = 0 \<or> 0x10400 \<le> seg_start g) \<and> list_all (seg_disjoint g) gs \<and> segs_fit gs"

lemma ld32_cong:
  assumes "\<And>i. i < 4 \<Longrightarrow> m' (p + word_of_nat i) = m (p + word_of_nat i)"
  shows "ld32 m' p = ld32 m p"
  using assms [of 0] assms [of 1] assms [of 2] assms [of 3] by (simp add: ld32_def)

text \<open>Two memories with the same first 4096 bytes of the file, which hold the table of segments.\<close>

definition same_header :: "gmem \<Rightarrow> gmem \<Rightarrow> bool" where
  "same_header m m' \<longleftrightarrow> (\<forall>a. 0x8000 \<le> unat a \<longrightarrow> unat a < 0x9000 \<longrightarrow> m' a = m a)"

lemma same_header_ld32:
  assumes "same_header m m'" "0x8000 \<le> unat p" "unat p + 4 \<le> 0x9000"
  shows "ld32 m' p = ld32 m p"
proof (rule ld32_cong)
  fix i :: nat assume "i < 4"
  then have "unat (p + word_of_nat i) = unat p + i" using assms by (simp add: unat_word_ariths unat_of_nat)
  then show "m' (p + word_of_nat i) = m (p + word_of_nat i)" using assms \<open>i < 4\<close> by (simp add: same_header_def)
qed

lemma same_header_field:
  assumes "same_header m m'" "0x8000 \<le> unat ph" "unat ph + n \<le> 0x9000" "unat d + 4 \<le> n"
  shows "ld32 m' (ph + d) = ld32 m (ph + d)"
proof -
  have "unat (ph + d) = unat ph + unat d" using assms by (simp add: unat_word_ariths)
  then show ?thesis using assms by (intro same_header_ld32) simp_all
qed

lemma seg_at_same:
  assumes "same_header m m'" "F \<in> {elf32, elf64}" "0x8000 \<le> unat ph" "unat ph + unat (ph_size F) \<le> 0x9000"
  shows "seg_at F m' ph = seg_at F m ph"
proof -
  have "ld32 m' (ph + d) = ld32 m (ph + d)" if "d \<in> {p_offset_at F, p_paddr_at F, p_filesz_at F, p_memsz_at F}" for d
    using assms that by (intro same_header_field [of m m' ph "unat (ph_size F)"]) (auto simp: elf32_def elf64_def)
  then show ?thesis by (simp add: seg_at_def)
qed

lemma segments_same:
  assumes "same_header m m'" "F \<in> {elf32, elf64}"
  shows "0x8000 \<le> unat ph \<Longrightarrow> unat ph + n * unat (ph_size F) \<le> 0x9000 \<Longrightarrow> segments F m' ph n = segments F m ph n"
proof (induction n arbitrary: ph)
  case (Suc n)
  then have "unat (ph + ph_size F) = unat ph + unat (ph_size F)" by (simp add: unat_word_ariths)
  then show ?case using Suc seg_at_same [OF assms, of ph] by simp
qed simp

lemma seg_loaded_same:
  assumes "seg_loaded img g m" "seg_ok g" "\<And>a. \<not> seg_outside g (unat a) \<Longrightarrow> m' a = m a"
  shows "seg_loaded img g m'"
proof -
  have "m' (seg_paddr g + word_of_nat j) = m (seg_paddr g + word_of_nat j)" if j: "j < unat (seg_memsz g)" for j
  proof -
    have "unat (seg_paddr g) mod 512 + unat (seg_memsz g) \<le> seg_length g" using j by (auto simp: seg_length_def)
    moreover have "seg_start g + unat (seg_paddr g) mod 512 = unat (seg_paddr g)" by (simp add: seg_start_def)
    ultimately have b: "seg_start g \<le> unat (seg_paddr g)" "unat (seg_paddr g) + j < seg_start g + seg_length g" using j by linarith+
    then have "unat (seg_paddr g) + j < 2 ^ 32" using assms(2) by (simp add: seg_ok_def)
    then have "unat (seg_paddr g + word_of_nat j) = unat (seg_paddr g) + j" by (simp add: unat_word_ariths unat_of_nat)
    then show ?thesis using b by (intro assms(3)) (simp add: seg_outside_def)
  qed
  then show ?thesis using assms(1) by (simp add: seg_loaded_def)
qed

lemma same_header_ld16:
  assumes "same_header m m'" "0x8000 \<le> unat p" "unat p + 2 \<le> 0x9000"
  shows "ld16 m' p = ld16 m p"
proof -
  have "unat (p + 1) = unat p + 1" using assms by (simp add: unat_word_ariths)
  then show ?thesis using assms by (simp add: same_header_def ld16_def)
qed

lemma same_header_phnum:
  assumes "same_header m m'" "F \<in> {elf32, elf64}"
  shows "ld16 m' (0x8000 + e_phnum_at F) = ld16 m (0x8000 + e_phnum_at F)"
  using assms(2) by (auto simp: elf32_def elf64_def intro!: same_header_ld16 [OF assms(1)])

lemma load_loop_loads:
  assumes disk: "disk_holds H img" and F: "F \<in> {elf32, elf64}"
  shows "segs_fit (segments F (ram s) ph n) \<Longrightarrow> 0x8000 \<le> unat ph \<Longrightarrow> unat ph + n * unat (ph_size F) \<le> 0x9000 \<Longrightarrow>
    unat (ld16 (ram s) (0x8000 + e_phnum_at F)) = i + n \<Longrightarrow>
    \<exists>d m. load_loop H F 0x8000 i ph s = Some (s\<lparr>dev := d, ram := m\<rparr>) \<and> (\<forall>g\<in>set (segments F (ram s) ph n). seg_loaded img g m) \<and>
      (\<forall>a. (\<forall>g\<in>set (segments F (ram s) ph n). seg_outside g (unat a)) \<longrightarrow> m a = ram s a)"
proof (induction n arbitrary: i ph s)
  case 0
  then show ?case by (intro exI [of _ "dev s"] exI [of _ "ram s"]) (simp add: load_loop_simps [of H])
next
  case (Suc n)
  let ?g = "seg_at F (ram s) ph" and ?gs = "segments F (ram s) (ph + ph_size F) n"
  have fit: "seg_ok ?g" "seg_length ?g = 0 \<or> 0x10400 \<le> seg_start ?g" "list_all (seg_disjoint ?g) ?gs" "segs_fit ?gs"
    using Suc.prems(1) by simp_all
  obtain d m where l: "load_program H (seg_filesz ?g) (seg_memsz ?g) (seg_paddr ?g) (seg_offset ?g) s = Some (s\<lparr>dev := d, ram := m\<rparr>)"
      and g: "seg_loaded img ?g m" and out: "\<And>a. seg_outside ?g (unat a) \<Longrightarrow> m a = ram s a"
    using load_program_segment [OF disk fit(1), of s] unfolding seg_outside_def by blast
  have ph: "unat (ph + ph_size F) = unat ph + unat (ph_size F)" using Suc.prems(3) by (simp add: unat_word_ariths)
  have same: "same_header (ram s) m" using fit(2) by (auto simp: same_header_def seg_outside_def intro!: out)
  have num: "unat (ld16 m (0x8000 + e_phnum_at F)) = Suc i + n"
    using same_header_phnum [OF same F] Suc.prems(4) by simp
  from same have gs: "segments F m (ph + ph_size F) n = ?gs" using Suc.prems ph by (intro segments_same [OF _ F]) simp_all
  let ?s = "s\<lparr>dev := d, ram := m\<rparr>"
  obtain d' m' where r: "load_loop H F 0x8000 (Suc i) (ph + ph_size F) ?s = Some (?s\<lparr>dev := d', ram := m'\<rparr>)"
      and all: "\<forall>h\<in>set ?gs. seg_loaded img h m'"
      and out': "\<And>a. \<forall>h\<in>set ?gs. seg_outside h (unat a) \<Longrightarrow> m' a = m a"
    using Suc.IH [of ?s "ph + ph_size F" "Suc i"] fit(4) Suc.prems ph gs num by auto
  have "seg_loaded img ?g m'"
  proof (rule seg_loaded_same [OF g fit(1)])
    fix a :: ptr assume "\<not> seg_outside ?g (unat a)"
    then show "m' a = m a" using fit(3) by (intro out') (auto simp: list_all_iff seg_disjoint_def seg_outside_def)
  qed
  moreover have "load_loop H F 0x8000 i ph s = Some (s\<lparr>dev := d', ram := m'\<rparr>)"
    using l r Suc.prems(4) by (simp add: seg_at_def load_loop_simps [of H F _ i])
  ultimately show ?case using all out out' by (intro exI [of _ d'] exI [of _ m']) simp
qed

section \<open>Loading the kernel\<close>

text \<open>The first 4096 bytes of the file, as the loader finds them at \<open>0x8000\<close>, and what it reads from them.\<close>

definition hdr :: "(nat \<Rightarrow> u8) \<Rightarrow> gmem" where
  "hdr img = (\<lambda>a. img (1536 + unat (a - 0x8000)))"

definition hdr_layout :: "(nat \<Rightarrow> u8) \<Rightarrow> phdr_layout" where
  "hdr_layout img = (if e_machine (hdr img) 0x8000 = EM_X86_64 then elf64 else elf32)"

definition hdr_table :: "(nat \<Rightarrow> u8) \<Rightarrow> ptr" where
  "hdr_table img = 0x8000 + ld32 (hdr img) (0x8000 + e_phoff_at (hdr_layout img))"

definition hdr_count :: "(nat \<Rightarrow> u8) \<Rightarrow> nat" where
  "hdr_count img = unat (ld16 (hdr img) (0x8000 + e_phnum_at (hdr_layout img)))"

definition hdr_segments :: "(nat \<Rightarrow> u8) \<Rightarrow> segment list" where
  "hdr_segments img = segments (hdr_layout img) (hdr img) (hdr_table img) (hdr_count img)"

text \<open>The table of segments is in the first 4096 bytes and the segments lie above the arguments.\<close>

definition bootable :: "(nat \<Rightarrow> u8) \<Rightarrow> bool" where
  "bootable img \<longleftrightarrow> 0x8000 \<le> unat (hdr_table img) \<and>
     unat (hdr_table img) + hdr_count img * unat (ph_size (hdr_layout img)) \<le> 0x9000 \<and> segs_fit (hdr_segments img)"

lemma hdr_layout_cases: "hdr_layout img \<in> {elf32, elf64}"
  by (simp add: hdr_layout_def)

lemma copy_args:
  assumes "disk_holds H img"
  shows "\<exists>d. copy_from_disk H MAINARG_ADDR 1024 (- 1024) s = Some (s\<lparr>dev := d, ram := loaded img 0x10000 512 1024 (ram s)\<rparr>)"
  using copy_loop_loaded [OF assms, where cur = "0x10000" and k = 2 and sect = 1 and ed = "0x10400" and s = s]
  by (simp add: copy_from_disk_def MAINARG_ADDR_def SECTSIZE_def ARGSIZE_def signed_divide_int_def)

lemma copy_header:
  assumes "disk_holds H img"
  shows "\<exists>d. copy_from_disk H 0x8000 4096 0 s = Some (s\<lparr>dev := d, ram := loaded img 0x8000 1536 4096 (ram s)\<rparr>)"
  using copy_loop_loaded [OF assms, where cur = "0x8000" and k = 8 and sect = 3 and ed = "0x9000" and s = s]
  by (simp add: copy_from_disk_def SECTSIZE_def ARGSIZE_def)

lemma loaded_header: "same_header (hdr img) (loaded img 0x8000 1536 4096 m)"
  by (auto simp: same_header_def hdr_def loaded_def unat_sub word_le_nat_alt)

lemma load_elf_hdr:
  assumes same: "same_header (hdr img) (ram s)"
  shows "load_elf H (hdr_layout img) 0x8000 s = load_loop H (hdr_layout img) 0x8000 0 (hdr_table img) s"
proof -
  have "ld32 (ram s) (0x8000 + e_phoff_at F) = ld32 (hdr img) (0x8000 + e_phoff_at F)" if "F \<in> {elf32, elf64}" for F
    using that same_header_ld32 [OF same] by (auto simp: elf32_def elf64_def)
  then show ?thesis using hdr_layout_cases by (simp add: load_elf_def hdr_table_def)
qed

lemma segs_fit_outside:
  assumes "segs_fit gs" "g \<in> set gs" "unat a < 0x10400"
  shows "seg_outside g (unat a)"
  using assms by (induction gs) (auto simp: seg_outside_def)

lemma load_kernel_steps:
  assumes disk: "disk_holds H img" and boot: "ld32 (ram s) (BOOTREC_ADDR + 4) = 0"
  obtains d where "load_kernel H s = map_option (\<lambda>s. (e_entry (ram s) 0x8000, s))
    (load_loop H (hdr_layout img) 0x8000 0 (hdr_table img)
      (s\<lparr>dev := d, ram := loaded img 0x8000 1536 4096 (loaded img 0x10000 512 1024 (ram s))\<rparr>))"
proof -
  obtain d where args: "copy_from_disk H MAINARG_ADDR 1024 (- 1024) s = Some (s\<lparr>dev := d, ram := loaded img 0x10000 512 1024 (ram s)\<rparr>)"
    using copy_args [OF disk] by blast
  obtain d' where head: "copy_from_disk H 0x8000 4096 0 (s\<lparr>dev := d, ram := loaded img 0x10000 512 1024 (ram s)\<rparr>) =
      Some (s\<lparr>dev := d', ram := loaded img 0x8000 1536 4096 (loaded img 0x10000 512 1024 (ram s))\<rparr>)"
    using copy_header [OF disk, of "s\<lparr>dev := d, ram := loaded img 0x10000 512 1024 (ram s)\<rparr>"] by auto
  let ?s = "s\<lparr>dev := d', ram := loaded img 0x8000 1536 4096 (loaded img 0x10000 512 1024 (ram s))\<rparr>"
  have same: "same_header (hdr img) (ram ?s)" by (simp add: loaded_header)
  then have "e_machine (ram ?s) 0x8000 = e_machine (hdr img) 0x8000"
    by (simp only: e_machine_def) (intro same_header_ld16, simp_all)
  then have "(if e_machine (ram ?s) 0x8000 = EM_X86_64 then load_elf64 H 0x8000 ?s else load_elf32 H 0x8000 ?s) =
      load_loop H (hdr_layout img) 0x8000 0 (hdr_table img) ?s"
    unfolding load_elf_hdr [OF same, symmetric] by (simp add: hdr_layout_def load_elf32_def load_elf64_def)
  then have "load_kernel H s = map_option (\<lambda>s. (e_entry (ram s) 0x8000, s))
      (load_loop H (hdr_layout img) 0x8000 0 (hdr_table img) ?s)"
    using args head boot by (simp add: load_kernel_def)
  then show ?thesis by (rule that)
qed

text \<open>
  C13. On the first processor the loader ends with every segment of the file in memory - the bytes of
  the file followed by zeros up to its size in memory - whatever the order and number of segments, with
  the arguments at their address, memory below the header as it was, and the entry of the file as the
  address it jumps to.
\<close>

theorem load_kernel_loads:
  assumes disk: "disk_holds H img" and boot: "ld32 (ram s) (BOOTREC_ADDR + 4) = 0" and ok: "bootable img"
  shows "\<exists>s'. load_kernel H s = Some (e_entry (hdr img) 0x8000, s') \<and>
    (\<forall>g\<in>set (hdr_segments img). seg_loaded img g (ram s')) \<and>
    (\<forall>j<1024. ram s' (MAINARG_ADDR + of_nat j) = img (512 + j)) \<and>
    (\<forall>a. unat a < 0x8000 \<longrightarrow> ram s' a = ram s a)"
proof -
  obtain d where run: "load_kernel H s = map_option (\<lambda>s. (e_entry (ram s) 0x8000, s))
    (load_loop H (hdr_layout img) 0x8000 0 (hdr_table img)
      (s\<lparr>dev := d, ram := loaded img 0x8000 1536 4096 (loaded img 0x10000 512 1024 (ram s))\<rparr>))"
    by (rule load_kernel_steps [where s = s, OF disk boot])
  let ?m = "loaded img 0x8000 1536 4096 (loaded img 0x10000 512 1024 (ram s))"
  note ok' = ok [unfolded bootable_def]
  have segs: "segments (hdr_layout img) ?m (hdr_table img) (hdr_count img) = hdr_segments img"
    unfolding hdr_segments_def using ok' by (intro segments_same [OF loaded_header hdr_layout_cases]) simp_all
  have num: "unat (ld16 ?m (0x8000 + e_phnum_at (hdr_layout img))) = 0 + hdr_count img"
    using same_header_phnum [OF loaded_header hdr_layout_cases] by (simp add: hdr_count_def)
  obtain d' m where l: "load_loop H (hdr_layout img) 0x8000 0 (hdr_table img) (s\<lparr>dev := d, ram := ?m\<rparr>) =
        Some (s\<lparr>dev := d, ram := ?m\<rparr>\<lparr>dev := d', ram := m\<rparr>)"
      and all: "\<forall>g\<in>set (hdr_segments img). seg_loaded img g m"
      and out: "\<And>a. \<forall>g\<in>set (hdr_segments img). seg_outside g (unat a) \<Longrightarrow> m a = ?m a"
    using load_loop_loads [OF disk hdr_layout_cases [of img], where s = "s\<lparr>dev := d, ram := ?m\<rparr>" and n = "hdr_count img" and ph = "hdr_table img" and i = 0]
      segs num ok' by auto
  have low: "m a = ?m a" if "unat a < 0x10400" for a
    using segs_fit_outside [of "hdr_segments img"] ok' that by (intro out) blast
  have "same_header (hdr img) m" using loaded_header low by (simp add: same_header_def)
  then have "e_entry m 0x8000 = e_entry (hdr img) 0x8000"
    by (simp only: e_entry_def) (intro same_header_ld32, simp_all)
  moreover have "m (MAINARG_ADDR + of_nat j) = img (512 + j)" if "j < 1024" for j
  proof -
    have "unat (MAINARG_ADDR + of_nat j) = 0x10000 + j" using that by (simp add: MAINARG_ADDR_def unat_word_ariths unat_of_nat)
    then show ?thesis using that low [of "MAINARG_ADDR + of_nat j"] by (simp add: loaded_def unat_sub word_le_nat_alt)
  qed
  moreover have "m a = ram s a" if "unat a < 0x8000" for a
    using low [of a] that by (simp add: loaded_outside)
  ultimately show ?thesis using run l all by simp
qed

section \<open>A disk and a file\<close>

text \<open>A disk that is always ready: the registers written last and the place in the image it reads from.\<close>

type_synonym ata = "(u16 \<Rightarrow> u8) \<times> nat"

definition ata_lba :: "(u16 \<Rightarrow> u8) \<Rightarrow> u32" where
  "ata_lba r = le_word (r 0x1f3) (r 0x1f4) (r 0x1f5) (r 0x1f6 AND 0xf)"

definition ata_in :: "(nat \<Rightarrow> u8) \<Rightarrow> ata \<Rightarrow> u32 \<times> ata" where
  "ata_in img d = (let i = snd d in (le_word (img i) (img (i + 1)) (img (i + 2)) (img (i + 3)), (fst d, i + 4)))"

definition ata_out :: "u16 \<Rightarrow> u8 \<Rightarrow> ata \<Rightarrow> ata" where
  "ata_out port v d = (let r = (fst d)(port := v) in (r, if port = 0x1f7 then 512 * unat (ata_lba r) else snd d))"

definition ata_hw :: "(nat \<Rightarrow> u8) \<Rightarrow> ata hw" where
  "ata_hw img = \<lparr>in8 = (\<lambda>port d. (0x40, d)), in32 = (\<lambda>port. ata_in img), out8 = ata_out,
     out16 = (\<lambda>port v d. d), out32 = (\<lambda>port v d. d), tsc = (\<lambda>d. (0, d)), apic_rd = (\<lambda>a d. (0, d)),
     apic_wr = (\<lambda>a v d. d)\<rparr>"

lemma ata_wait: "wait_disk (ata_hw img) s = Some s"
  by (subst wait_disk.simps) (simp add: inb_def ata_hw_def)

lemma put_bytes_word:
  assumes "length xs + 4 \<le> 2 ^ 32"
  shows "st32 (buf + of_nat (length xs)) (le_word a b c d) (put_bytes m buf xs) = put_bytes m buf (xs @ [a, b, c, d])"
proof -
  have "put_bytes m buf (((xs @ [a]) @ [b]) @ [c, d]) = put_bytes m buf ((((xs @ [a]) @ [b]) @ [c]) @ [d])" by simp
  also have "\<dots> = (put_bytes m buf xs)(buf + of_nat (length xs) := a, buf + of_nat (length xs) + 1 := b,
      buf + of_nat (length xs) + 2 := c, buf + of_nat (length xs) + 3 := d)"
    using assms put_bytes_snoc [of xs m buf a] put_bytes_snoc [of "xs @ [a]" m buf b]
      put_bytes_snoc [of "(xs @ [a]) @ [b]" m buf c] put_bytes_snoc [of "((xs @ [a]) @ [b]) @ [c]" m buf d]
    by (simp add: ac_simps)
  finally show ?thesis by (simp add: st32_def)
qed

lemma upt_word: "[0..<4 * Suc n] = [0..<4 * n] @ [4 * n, 4 * n + 1, 4 * n + 2, 4 * n + 3]"
proof -
  have "4 * Suc n = Suc (Suc (Suc (Suc (4 * n))))" by simp
  then show ?thesis by (simp only: upt_Suc_append) simp
qed

lemma inl_ata:
  "dev s = (r, i) \<Longrightarrow> inl (ata_hw img) port s =
     (le_word (img i) (img (i + 1)) (img (i + 2)) (img (i + 3)), s\<lparr>dev := (r, i + 4)\<rparr>)"
  by (simp add: inl_def ata_hw_def ata_in_def)

lemma ata_words:
  "4 * n \<le> 2 ^ 32 \<Longrightarrow> dev s = (r, p) \<Longrightarrow>
   fold (\<lambda>i s. let (v, s) = inl (ata_hw img) 0x1f0 s in s\<lparr>ram := st32 (buf + of_nat (4 * i)) v (ram s)\<rparr>) [0..<n] s =
     s\<lparr>dev := (r, p + 4 * n), ram := put_bytes (ram s) buf (map (\<lambda>i. img (p + i)) [0..<4 * n])\<rparr>"
proof (induction n)
  case (Suc n)
  let ?f = "\<lambda>i. img (p + i)" and ?s = "s\<lparr>dev := (r, p + 4 * n), ram := put_bytes (ram s) buf (map (\<lambda>i. img (p + i)) [0..<4 * n])\<rparr>"
  have l: "put_bytes (ram s) buf (map ?f [0..<4 * Suc n]) =
      st32 (buf + of_nat (4 * n)) (le_word (?f (4 * n)) (?f (4 * n + 1)) (?f (4 * n + 2)) (?f (4 * n + 3))) (ram ?s)"
    using put_bytes_word [of "map ?f [0..<4 * n]" buf] Suc.prems(1) unfolding upt_word by simp
  have "4 * n \<le> 2 ^ 32" using Suc.prems(1) by simp
  note IH = Suc.IH [OF this Suc.prems(2)]
  have "dev ?s = (r, p + 4 * n)" by simp
  note i = inl_ata [OF this]
  let ?h = "\<lambda>i s. let (v, s) = inl (ata_hw img) 0x1f0 s in s\<lparr>ram := st32 (buf + of_nat (4 * i)) v (ram s)\<rparr>"
  have "fold ?h [0..<Suc n] s = ?h n (fold ?h [0..<n] s)" by simp
  also have "\<dots> = ?h n ?s" by (simp only: IH)
  finally show ?case unfolding l i by (simp add: add.assoc)
qed simp

lemma ata_lba_sector:
  assumes "unat sect < 2 ^ 28"
  shows "le_word (ucast sect) (ucast (signed_drop_bit 8 sect)) (ucast (signed_drop_bit 16 sect))
    (ucast (signed_drop_bit 24 sect OR 0xE0) AND 0xf) = (sect :: u32)"
proof -
  have h: "\<forall>i\<ge>28. \<not> bit sect i" using assms unfolding unat_lt_pow2_iff_bits .
  then have "ucast (signed_drop_bit 8 sect) = byte_of sect 1" "ucast (signed_drop_bit 16 sect) = byte_of sect 2"
    by (auto intro!: bit_word_eqI simp: bit_simps bit_byte_of)
  moreover have "ucast (signed_drop_bit 24 sect OR 0xE0) AND 0xf = byte_of sect 3"
    using h by (auto intro!: bit_word_eqI simp: bit_simps bit_byte_of less_Suc_eq numeral_eq_Suc)
  moreover have "ucast sect = byte_of sect 0" by (simp add: byte_of_def)
  ultimately show ?thesis by (simp only: le_word_byte_of)
qed

lemma outb_ata: "outb (ata_hw img) port v s = s\<lparr>dev := ata_out (ucast port) v (dev s)\<rparr>"
  by (simp add: outb_def ata_hw_def)

lemma ata_holds: "disk_holds (ata_hw img) img"
  unfolding disk_holds_def
proof (intro allI impI)
  fix buf :: ptr and sect :: u32 and s :: "ata ioe" assume sect: "unat sect < 2 ^ 28"
  let ?r = "(fst (dev s))(0x1f2 := 1, 0x1f3 := ucast sect, 0x1f4 := ucast (signed_drop_bit 8 sect),
    0x1f5 := ucast (signed_drop_bit 16 sect), 0x1f6 := ucast (signed_drop_bit 24 sect OR 0xE0), 0x1f7 := 0x20)"
  have "ata_lba ?r = sect" using ata_lba_sector [OF sect] by (simp add: ata_lba_def)
  then have "read_disk (ata_hw img) buf sect s =
      Some (fold (\<lambda>i s. let (v, s) = inl (ata_hw img) 0x1f0 s in s\<lparr>ram := st32 (buf + of_nat (4 * i)) v (ram s)\<rparr>) [0..<128]
        (s\<lparr>dev := (?r, 512 * unat sect)\<rparr>))"
    by (simp add: read_disk_def ata_wait outb_ata ata_out_def Let_def SECTSIZE_def)
  also have "\<dots> = Some (s\<lparr>dev := (?r, 512 * unat sect + 512), ram := put_bytes (ram s) buf (sector img (unat sect))\<rparr>)"
    using ata_words [of 128 "s\<lparr>dev := (?r, 512 * unat sect)\<rparr>" ?r "512 * unat sect" img buf] by (simp add: sector_def)
  finally show "\<exists>d. read_disk (ata_hw img) buf sect s = Some (s\<lparr>dev := d, ram := put_bytes (ram s) buf (sector img (unat sect))\<rparr>)"
    by blast
qed

text \<open>A file with two segments, the first with four bytes to clear; its contents count the bytes of the disk.\<close>

definition kernel_img :: "nat \<Rightarrow> u8" where
  "kernel_img i = (if 2048 \<le> i then of_nat i else
     case map_of [(1554, 3), (1560, 4), (1562, 0x10), (1564, 52), (1580, 2),
       (1592, 4), (1593, 2), (1600, 4), (1602, 0x10), (1604, 6), (1608, 10),
       (1625, 4), (1634, 0x11), (1637, 3), (1640, 0x10), (1641, 3)] i of None \<Rightarrow> 0 | Some b \<Rightarrow> b)"

definition boot_state :: "ata ioe" where
  "boot_state = \<lparr>dev = (\<lambda>_. 0, 0), ram = (\<lambda>_. 0), boot_date = \<lparr>year = 0, month = 0, day = 0, hour = 0, minute = 0, second = 0\<rparr>,
     freq_mhz = 0, uptsc = 0, disp_w = 0, disp_h = 0, fb = 0, vmem_at = 0, vbuf_at = 0, vbuf_head = 0, lapic = 0\<rparr>"

lemma kernel_fields:
  "ld32 (hdr kernel_img) 0x8038 = 0x204"
  "ld32 (hdr kernel_img) 0x8040 = 0x100004"
  "ld32 (hdr kernel_img) 0x8044 = 0x6"
  "ld32 (hdr kernel_img) 0x8048 = 0xa"
  "ld32 (hdr kernel_img) 0x8058 = 0x400"
  "ld32 (hdr kernel_img) 0x8060 = 0x110000"
  "ld32 (hdr kernel_img) 0x8064 = 0x300"
  "ld32 (hdr kernel_img) 0x8068 = 0x310"
  by (simp_all add: ld32_def hdr_def kernel_img_def le_word_def)

lemma kernel_segments:
  "hdr_layout kernel_img = elf32" "hdr_table kernel_img = 0x8034" "hdr_count kernel_img = 2"
  "hdr_segments kernel_img = [\<lparr>seg_offset = 0x204, seg_paddr = 0x100004, seg_filesz = 6, seg_memsz = 10\<rparr>,
     \<lparr>seg_offset = 0x400, seg_paddr = 0x110000, seg_filesz = 0x300, seg_memsz = 0x310\<rparr>]"
  "e_entry (hdr kernel_img) 0x8000 = 0x100004"
proof -
  show l: "hdr_layout kernel_img = elf32"
    by (simp add: hdr_layout_def e_machine_def ld16_def hdr_def kernel_img_def le_word_def EM_X86_64_def)
  show t: "hdr_table kernel_img = 0x8034"
    by (simp add: hdr_table_def l elf32_def ld32_def hdr_def kernel_img_def le_word_def)
  show n: "hdr_count kernel_img = 2"
    by (simp add: hdr_count_def l elf32_def ld16_def hdr_def kernel_img_def le_word_def)
  show "hdr_segments kernel_img = [\<lparr>seg_offset = 0x204, seg_paddr = 0x100004, seg_filesz = 6, seg_memsz = 10\<rparr>,
     \<lparr>seg_offset = 0x400, seg_paddr = 0x110000, seg_filesz = 0x300, seg_memsz = 0x310\<rparr>]"
    by (simp add: hdr_segments_def l t n numeral_2_eq_2 seg_at_def elf32_def kernel_fields)
  show "e_entry (hdr kernel_img) 0x8000 = 0x100004"
    by (simp add: e_entry_def ld32_def hdr_def kernel_img_def le_word_def)
qed

lemma kernel_bootable: "bootable kernel_img"
  by (simp add: bootable_def kernel_segments elf32_def seg_ok_def seg_disjoint_def seg_start_def seg_length_def seg_sectors_def)

theorem load_kernel_loads_witness:
  "\<exists>s'. load_kernel (ata_hw kernel_img) boot_state = Some (0x100004, s') \<and>
    (\<forall>j<10. ram s' (0x100004 + of_nat j) = (if j < 6 then of_nat (2052 + j) else 0)) \<and>
    ram s' 0x110000 = of_nat (2560 :: nat) \<and> ram s' 0x11030f = 0"
proof -
  have "ld32 (ram boot_state) (BOOTREC_ADDR + 4) = 0" by (simp add: boot_state_def ld32_def le_word_def)
  from load_kernel_loads [OF ata_holds this kernel_bootable]
  obtain s' where r: "load_kernel (ata_hw kernel_img) boot_state = Some (0x100004, s')"
      and l: "\<forall>g\<in>set (hdr_segments kernel_img). seg_loaded kernel_img g (ram s')"
    unfolding kernel_segments(5) by blast
  have "\<forall>j<10. ram s' (0x100004 + of_nat j) = (if j < 6 then of_nat (2052 + j) else 0)"
    using l unfolding kernel_segments by (auto simp: seg_loaded_def kernel_img_def)
  moreover have s2: "\<forall>j<784. ram s' (0x110000 + of_nat j) = (if j < 768 then kernel_img (2560 + j) else 0)"
    using l unfolding kernel_segments by (auto simp: seg_loaded_def)
  moreover have "ram s' 0x110000 = of_nat (2560 :: nat)" using s2 [rule_format, of 0] by (simp add: kernel_img_def)
  moreover have "ram s' 0x11030f = 0" using s2 [rule_format, of 783] by simp
  ultimately show ?thesis using r by blast
qed

end
