(* ===== verification/Native_Ioe.thy ===== *)
theory Native_Ioe
  imports Am_Types Words32
begin

text \<open>
  Keyboard, sound, disk and clock of the native platform (\<open>am/src/native/ioe\<close>).  Another thread puts
  the events of the window system into a queue the program polls; sound goes through a pipe of the
  host; the disk is a file.  The host gives the answers: the numbers of its keys, the events, how many
  bytes of a write it takes, and the time.
\<close>

section \<open>Bounded queues\<close>

text \<open>
  A queue in an array of \<open>Suc cap\<close> entries with a place to read and a place to write: an entry put
  when \<open>cap\<close> are pending makes both places equal, so that nothing is pending any more.
\<close>

datatype 'a queue_op = Put 'a | Get

fun queue_run :: "('a \<Rightarrow> 's \<Rightarrow> 's) \<Rightarrow> ('s \<Rightarrow> 'a option \<times> 's) \<Rightarrow> 'a queue_op list \<Rightarrow> 's \<Rightarrow> 'a option list \<times> 's" where
  "queue_run put get [] s = ([], s)"
| "queue_run put get (Put x # ops) s = queue_run put get ops (put x s)"
| "queue_run put get (Get # ops) s =
     (let (r, s) = get s; (rs, s) = queue_run put get ops s in (r # rs, s))"

definition list_put :: "nat \<Rightarrow> 'a \<Rightarrow> 'a list \<Rightarrow> 'a list" where
  "list_put cap x q = (if length q < cap then q @ [x] else [])"

fun list_get :: "'a list \<Rightarrow> 'a option \<times> 'a list" where
  "list_get [] = (None, [])"
| "list_get (x # q) = (Some x, q)"

lemma list_put_room [simp]: "length q < cap \<Longrightarrow> list_put cap x q = q @ [x]"
  by (simp add: list_put_def)

locale bounded_queue =
  fixes inv :: "'s \<Rightarrow> bool"
    and items :: "'s \<Rightarrow> 'a list"
    and put :: "'a \<Rightarrow> 's \<Rightarrow> 's"
    and get :: "'s \<Rightarrow> 'a option \<times> 's"
    and cap :: nat
  assumes inv_put: "inv s \<Longrightarrow> inv (put x s)"
    and items_put: "inv s \<Longrightarrow> items (put x s) = list_put cap x (items s)"
    and inv_get: "inv s \<Longrightarrow> inv (snd (get s))"
    and items_get: "inv s \<Longrightarrow> list_get (items s) = (fst (get s), items (snd (get s)))"
begin

lemma run_refines:
  "inv s \<Longrightarrow> \<exists>s'. queue_run put get ops s = (fst (queue_run (list_put cap) list_get ops (items s)), s') \<and> inv s' \<and>
     items s' = snd (queue_run (list_put cap) list_get ops (items s))"
proof (induction ops arbitrary: s)
  case (Cons op ops)
  show ?case
  proof (cases op)
    case (Put x)
    then show ?thesis using Cons.IH [OF inv_put [OF Cons.prems]] by (simp add: items_put Cons.prems)
  next
    case Get
    obtain r s1 where g: "get s = (r, s1)" by fastforce
    then have "inv s1" "list_get (items s) = (r, items s1)" using inv_get [OF Cons.prems] items_get [OF Cons.prems] by simp_all
    then show ?thesis using Get g Cons.IH [of s1] by (auto simp: case_prod_beta)
  qed
qed simp

end

text \<open>While fewer than \<open>cap\<close> entries are pending nothing is lost: what was read and what is pending is what was put.\<close>

fun puts :: "'a queue_op list \<Rightarrow> 'a list" where
  "puts [] = []"
| "puts (Put x # ops) = x # puts ops"
| "puts (Get # ops) = puts ops"

fun got :: "'a option list \<Rightarrow> 'a list" where
  "got [] = []"
| "got (None # rs) = got rs"
| "got (Some x # rs) = x # got rs"

fun room :: "nat \<Rightarrow> 'a queue_op list \<Rightarrow> nat \<Rightarrow> bool" where
  "room cap [] n \<longleftrightarrow> True"
| "room cap (Put x # ops) n \<longleftrightarrow> n < cap \<and> room cap ops (Suc n)"
| "room cap (Get # ops) n \<longleftrightarrow> room cap ops (n - 1)"

lemma list_queue_lossless:
  "room cap ops (length q) \<Longrightarrow> queue_run (list_put cap) list_get ops q = (rs, q') \<Longrightarrow> got rs @ q' = q @ puts ops"
proof (induction ops arbitrary: q rs)
  case (Cons op ops)
  show ?case
  proof (cases op)
    case (Put x)
    then show ?thesis using Cons.IH [of "q @ [x]"] Cons.prems by simp
  next
    case Get
    obtain rs' where rs': "queue_run (list_put cap) list_get ops (snd (list_get q)) = (rs', q')" "rs = fst (list_get q) # rs'"
      using Cons.prems(2) Get by (auto simp: case_prod_beta prod_eq_iff)
    moreover have "room cap ops (length (snd (list_get q)))" using Cons.prems(1) Get by (cases q) simp_all
    ultimately have "got rs' @ q' = snd (list_get q) @ puts ops" using Cons.IH by blast
    then show ?thesis using rs'(2) Get by (cases q) simp_all
  qed
qed simp

section \<open>Keyboard (\<open>input.c\<close>)\<close>

definition KEYDOWN_MASK :: u32 where "KEYDOWN_MASK = 0x8000"
definition KEY_QUEUE_LEN :: nat where "KEY_QUEUE_LEN = 1024"

text \<open>The initializers of \<open>keymap\<close>; \<open>SC k\<close> is the host's number \<open>SDL_SCANCODE_\<close>\<open>k\<close>.\<close>

definition keymap :: "(string \<Rightarrow> nat) \<Rightarrow> u32 list" where
  "keymap SC = fold (\<lambda>k t. t[SC k := of_nat (AM_KEY k)]) AM_KEYS (replicate 256 0)"

record kbd =
  key_queue :: "u32 list"
  key_f :: nat
  key_r :: nat
  kbd_intrs :: nat

definition kbd_init :: kbd where
  "kbd_init = \<lparr>key_queue = replicate KEY_QUEUE_LEN 0, key_f = 0, key_r = 0, kbd_intrs = 0\<rparr>"

text \<open>An event of a key says whether it went down and its number; the window may also be closed.\<close>

datatype sdl_event = SDL_QUIT | SDL_KEY bool nat | SDL_OTHER

text \<open>The code under the lock, one for each thread.\<close>

definition push_code :: "u32 \<Rightarrow> kbd \<Rightarrow> kbd" where
  "push_code am_code s = s\<lparr>key_queue := (key_queue s)[key_r s := am_code], key_r := (key_r s + 1) mod KEY_QUEUE_LEN\<rparr>"

definition pop_code :: "kbd \<Rightarrow> u32 option \<times> kbd" where
  "pop_code s =
     (if key_f s \<noteq> key_r s then (Some (key_queue s ! key_f s), s\<lparr>key_f := (key_f s + 1) mod KEY_QUEUE_LEN\<rparr>)
      else (None, s))"

text \<open>One turn of the loop of \<open>event_thread\<close>; closing the window ends the process.\<close>

datatype kbd_state = Running kbd | Halted u32

definition event_thread :: "(string \<Rightarrow> nat) \<Rightarrow> sdl_event \<Rightarrow> kbd \<Rightarrow> kbd_state result" where
  "event_thread SC e s =
     (case e of
        SDL_QUIT \<Rightarrow> Inr (Halted 0)
      | SDL_KEY keydown scancode \<Rightarrow>
          if 256 \<le> scancode then Inl (Undefined ''keymap'')
          else if keymap SC ! scancode \<noteq> 0 then
            let am_code = keymap SC ! scancode OR (if keydown then KEYDOWN_MASK else 0);
                s = push_code am_code s
            in Inr (Running (s\<lparr>kbd_intrs := kbd_intrs s + 1\<rparr>))
          else Inr (Running s)
      | SDL_OTHER \<Rightarrow> Inr (Running s))"

definition input_config :: bool where "input_config = True"

text \<open>The fields \<open>keydown\<close> and \<open>keycode\<close> of the structure.\<close>

definition key_of_code :: "u32 \<Rightarrow> bool \<times> u32" where
  "key_of_code k = (k AND KEYDOWN_MASK \<noteq> 0, k AND NOT KEYDOWN_MASK)"

definition input_keybrd :: "kbd \<Rightarrow> (bool \<times> u32) \<times> kbd" where
  "input_keybrd s =
     (let (c, s) = pop_code s;
          k = (case c of None \<Rightarrow> of_nat AM_KEY_NONE | Some k \<Rightarrow> k)
      in (key_of_code k, s))"

section \<open>The queue of keys\<close>

definition kbd_inv :: "kbd \<Rightarrow> bool" where
  "kbd_inv s \<longleftrightarrow> length (key_queue s) = KEY_QUEUE_LEN \<and> key_f s < KEY_QUEUE_LEN \<and> key_r s < KEY_QUEUE_LEN"

definition pending :: "kbd \<Rightarrow> u32 list" where
  "pending s = map (\<lambda>i. key_queue s ! ((key_f s + i) mod KEY_QUEUE_LEN)) [0..<(key_r s + KEY_QUEUE_LEN - key_f s) mod KEY_QUEUE_LEN]"

text \<open>The number of entries from \<open>f\<close> to \<open>r\<close> in a ring of \<open>n\<close>.\<close>

definition ring_len :: "nat \<Rightarrow> nat \<Rightarrow> nat \<Rightarrow> nat" where
  "ring_len n f r = (r + n - f) mod n"

lemma ring_len_cases:
  assumes "f < n" "r < n"
  shows "ring_len n f r = (if f \<le> r then r - f else r + n - f)"
proof (cases "f \<le> r")
  case True
  then have e: "r + n - f = (r - f) + n" by simp
  have "(r + n - f) mod n = (r - f) mod n" unfolding e by (rule mod_add_self2)
  then show ?thesis using True assms by (simp add: ring_len_def)
next
  case False
  then show ?thesis using assms by (simp add: ring_len_def)
qed

lemma ring_step:
  assumes "f < n" "i < n"
  shows "(f + i) mod n = (if f + i < n then f + i else f + i - n :: nat)"
proof (cases "f + i < n")
  case False
  then have "(f + i) mod n = (f + i - n) mod n" using le_mod_geq [of n "f + i"] by simp
  then show ?thesis using False assms by simp
qed simp

lemma ring_len_less: "f < n \<Longrightarrow> r < n \<Longrightarrow> ring_len n f r < n"
  by (simp add: ring_len_def)

lemma ring_last:
  assumes "f < n" "r < n"
  shows "(f + ring_len n f r) mod n = r"
  unfolding ring_step [OF assms(1) ring_len_less [OF assms]] using assms by (simp add: ring_len_cases)

lemma ring_before:
  assumes "f < n" "r < n" "i < ring_len n f r"
  shows "(f + i) mod n \<noteq> r"
proof -
  have "i < n" using assms ring_len_less [of f n r] by simp
  then show ?thesis unfolding ring_step [OF assms(1) \<open>i < n\<close>] using assms by (auto simp: ring_len_cases split: if_splits)
qed

lemma ring_suc: "r < n \<Longrightarrow> Suc r mod n = (if Suc r = n then 0 else Suc r)" for r n :: nat
  by (simp add: mod_Suc)

lemma ring_put: "f < n \<Longrightarrow> r < n \<Longrightarrow> ring_len n f (Suc r mod n) = (if ring_len n f r < n - 1 then Suc (ring_len n f r) else 0)"
  by (auto simp: ring_suc ring_len_cases)

lemma ring_get: "f < n \<Longrightarrow> r < n \<Longrightarrow> f \<noteq> r \<Longrightarrow> Suc (ring_len n (Suc f mod n) r) = ring_len n f r"
  by (auto simp: ring_suc ring_len_cases)

lemma ring_empty: "f < n \<Longrightarrow> r < n \<Longrightarrow> ring_len n f r = 0 \<longleftrightarrow> f = r"
  by (auto simp: ring_len_cases)

lemma pending_eq: "pending s = map (\<lambda>i. key_queue s ! ((key_f s + i) mod KEY_QUEUE_LEN)) [0..<ring_len KEY_QUEUE_LEN (key_f s) (key_r s)]"
  by (simp add: pending_def ring_len_def)

lemma push_pending:
  assumes inv: "kbd_inv s"
  shows "pending (push_code c s) = list_put (KEY_QUEUE_LEN - 1) c (pending s)"
proof -
  let ?n = KEY_QUEUE_LEN and ?l = "ring_len KEY_QUEUE_LEN (key_f s) (key_r s)"
  have b: "length (key_queue s) = ?n" "key_f s < ?n" "key_r s < ?n" using inv by (simp_all add: kbd_inv_def)
  show ?thesis
  proof (cases "?l < ?n - 1")
    case True
    have "(key_queue s)[key_r s := c] ! ((key_f s + i) mod ?n) = key_queue s ! ((key_f s + i) mod ?n)" if "i < ?l" for i
      using ring_before [OF b(2,3) that] by simp
    moreover have "(key_queue s)[key_r s := c] ! ((key_f s + ?l) mod ?n) = c" using b by (simp add: ring_last)
    ultimately show ?thesis using True b by (simp add: pending_eq push_code_def ring_put)
  next
    case False
    then show ?thesis using b by (simp add: pending_eq push_code_def ring_put list_put_def)
  qed
qed

lemma pop_pending:
  assumes inv: "kbd_inv s"
  shows "list_get (pending s) = (fst (pop_code s), pending (snd (pop_code s)))"
proof (cases "key_f s = key_r s")
  case True
  then show ?thesis using inv by (simp add: pop_code_def pending_eq kbd_inv_def ring_empty)
next
  case False
  let ?n = KEY_QUEUE_LEN
  have b: "key_f s < ?n" "key_r s < ?n" using inv by (simp_all add: kbd_inv_def)
  have l: "ring_len ?n (key_f s) (key_r s) = Suc (ring_len ?n (Suc (key_f s) mod ?n) (key_r s))" using ring_get [OF b False] by simp
  have "map (\<lambda>i. key_queue s ! ((key_f s + i) mod ?n)) [0..<Suc m] =
      key_queue s ! key_f s # map (\<lambda>i. key_queue s ! ((Suc (key_f s) mod ?n + i) mod ?n)) [0..<m]" for m
    using b by (simp add: upt_conv_Cons map_Suc_upt [symmetric] mod_add_left_eq del: upt_Suc)
  then show ?thesis using False by (simp add: pop_code_def pending_eq l)
qed

interpretation keys: bounded_queue kbd_inv pending push_code pop_code "KEY_QUEUE_LEN - 1"
proof
  show "kbd_inv s \<Longrightarrow> kbd_inv (push_code c s)" for c s by (simp add: kbd_inv_def push_code_def KEY_QUEUE_LEN_def)
  show "kbd_inv s \<Longrightarrow> kbd_inv (snd (pop_code s))" for s by (simp add: kbd_inv_def pop_code_def KEY_QUEUE_LEN_def)
qed (rule push_pending pop_pending; assumption)+

section \<open>Keys pressed and keys read\<close>

text \<open>The two threads in any order: events arrive, the program polls.  The process ends with the window.\<close>

datatype kbd_step = Event sdl_event | Poll

fun kbd_run :: "(string \<Rightarrow> nat) \<Rightarrow> kbd_step list \<Rightarrow> kbd \<Rightarrow> ((bool \<times> u32) list \<times> kbd) result" where
  "kbd_run SC [] s = Inr ([], s)"
| "kbd_run SC (Event e # steps) s =
     bindR (event_thread SC e s) (\<lambda>r. case r of Running s \<Rightarrow> kbd_run SC steps s | Halted code \<Rightarrow> Inr ([], s))"
| "kbd_run SC (Poll # steps) s =
     (let (k, s) = input_keybrd s in bindR (kbd_run SC steps s) (\<lambda>(ks, s). Inr (k # ks, s)))"

text \<open>The keys the window system reports, with the code the program should see.\<close>

fun pressed :: "(string \<Rightarrow> nat) \<Rightarrow> kbd_step list \<Rightarrow> (bool \<times> u32) list" where
  "pressed SC (Event (SDL_KEY down scancode) # steps) =
     (if keymap SC ! scancode = 0 then [] else [(down, keymap SC ! scancode)]) @ pressed SC steps"
| "pressed SC (step # steps) = pressed SC steps"
| "pressed SC [] = []"

fun key_ops :: "(string \<Rightarrow> nat) \<Rightarrow> kbd_step list \<Rightarrow> u32 queue_op list" where
  "key_ops SC (Event (SDL_KEY down scancode) # steps) =
     (if keymap SC ! scancode = 0 then [] else [Put (keymap SC ! scancode OR (if down then KEYDOWN_MASK else 0))]) @ key_ops SC steps"
| "key_ops SC (Event e # steps) = key_ops SC steps"
| "key_ops SC (Poll # steps) = Get # key_ops SC steps"
| "key_ops SC [] = []"

fun plain_step :: "kbd_step \<Rightarrow> bool" where
  "plain_step (Event SDL_QUIT) \<longleftrightarrow> False"
| "plain_step (Event (SDL_KEY down scancode)) \<longleftrightarrow> scancode < 256"
| "plain_step s \<longleftrightarrow> True"

definition poll_result :: "u32 option \<Rightarrow> bool \<times> u32" where
  "poll_result r = (case r of None \<Rightarrow> (False, of_nat AM_KEY_NONE) | Some c \<Rightarrow> key_of_code c)"

lemma keymap_entries: "set (keymap SC) \<subseteq> {c. unat c < 2 ^ 15}"
proof -
  have k: "unat (of_nat (AM_KEY k) :: u32) < 2 ^ 15" for k
  proof -
    have "AM_KEY k \<le> length AM_KEYS + 1" by (simp add: AM_KEY_def length_takeWhile_le)
    also have "\<dots> < 2 ^ 15" by (simp add: AM_KEYS_def)
    finally show ?thesis by (simp add: unat_of_nat)
  qed
  have "set (fold (\<lambda>k t. t[SC k := of_nat (AM_KEY k)]) ks t) \<subseteq> {c. unat c < 2 ^ 15}" if "set t \<subseteq> {c. unat c < 2 ^ 15}" for ks and t :: "u32 list"
    using that
  proof (induction ks arbitrary: t)
    case (Cons a ks)
    have "set (t[SC a := of_nat (AM_KEY a)]) \<subseteq> {c. unat c < 2 ^ 15}"
      using set_update_subset_insert [of t "SC a" "of_nat (AM_KEY a)"] Cons.prems k [of a] by blast
    then show ?case using Cons.IH by simp
  qed simp
  then show ?thesis by (simp add: keymap_def)
qed

lemma keymap_length: "length (keymap SC) = 256"
proof -
  have "length (fold (\<lambda>k t. t[SC k := of_nat (AM_KEY k)]) ks t) = length t" for ks and t :: "u32 list"
    by (induction ks arbitrary: t) simp_all
  then show ?thesis by (simp add: keymap_def)
qed

lemma key_of_code:
  assumes "unat c < 2 ^ 15"
  shows "key_of_code (c OR (if down then KEYDOWN_MASK else 0)) = (down, c)"
proof -
  have h: "\<forall>i\<ge>15. \<not> bit c i" using assms unfolding unat_lt_pow2_iff_bits .
  have m: "bit KEYDOWN_MASK i \<longleftrightarrow> i = 15" for i
  proof -
    have e: "KEYDOWN_MASK = push_bit 15 1" by (simp add: KEYDOWN_MASK_def)
    show ?thesis unfolding e by (simp only: bit_push_bit_iff) (auto simp: bit_1_iff)
  qed
  have 0: "c AND KEYDOWN_MASK = 0" using h m by (intro bit_word_eqI) (auto simp: bit_simps)
  have "(c OR KEYDOWN_MASK) AND KEYDOWN_MASK = KEYDOWN_MASK" by (rule bit_word_eqI) (auto simp: bit_simps)
  moreover have "c AND NOT KEYDOWN_MASK = c" "(c OR KEYDOWN_MASK) AND NOT KEYDOWN_MASK = c"
    using h m by (intro bit_word_eqI; auto simp: bit_simps)+
  ultimately show ?thesis using 0 by (simp add: key_of_code_def) (simp add: KEYDOWN_MASK_def)
qed

lemma push_pop_intrs:
  "push_code c (s\<lparr>kbd_intrs := n\<rparr>) = (push_code c s)\<lparr>kbd_intrs := n\<rparr>"
  "pop_code (s\<lparr>kbd_intrs := n\<rparr>) = (fst (pop_code s), (snd (pop_code s))\<lparr>kbd_intrs := n\<rparr>)"
  by (simp_all add: push_code_def pop_code_def)

lemma queue_intrs:
  "queue_run push_code pop_code ops (s\<lparr>kbd_intrs := n\<rparr>) =
     (fst (queue_run push_code pop_code ops s), (snd (queue_run push_code pop_code ops s))\<lparr>kbd_intrs := n\<rparr>)"
proof (induction ops arbitrary: s)
  case (Cons op ops)
  then show ?case by (cases op) (simp_all add: push_pop_intrs case_prod_beta)
qed simp

lemma kbd_run_queue:
  "list_all plain_step steps \<Longrightarrow>
   kbd_run SC steps s = Inr (map poll_result (fst (queue_run push_code pop_code (key_ops SC steps) s)),
    (snd (queue_run push_code pop_code (key_ops SC steps) s))\<lparr>kbd_intrs := kbd_intrs s + length (pressed SC steps)\<rparr>)"
proof (induction SC steps arbitrary: s rule: key_ops.induct)
  case (1 SC down scancode steps)
  let ?c = "keymap SC ! scancode OR (if down then KEYDOWN_MASK else 0)"
  have i: "kbd_intrs (push_code ?c s) = kbd_intrs s" by (simp add: push_code_def)
  have p: "scancode < 256" "list_all plain_step steps" using 1(2) by simp_all
  show ?case
  proof (cases "keymap SC ! scancode = 0")
    case True
    then show ?thesis using p 1(1) [OF p(2), of s] by (simp add: event_thread_def)
  next
    case False
    then show ?thesis using p 1(1) [OF p(2), of "push_code ?c s\<lparr>kbd_intrs := kbd_intrs s + 1\<rparr>"]
      by (simp add: event_thread_def Let_def queue_intrs i)
  qed
next
  case (3 SC steps)
  have i: "kbd_intrs (snd (pop_code s)) = kbd_intrs s" by (simp add: pop_code_def)
  show ?case using 3
    by (simp add: input_keybrd_def poll_result_def key_of_code_def AM_KEY_NONE_def case_prod_beta Let_def i split: option.split)
qed (simp_all add: event_thread_def)

lemma puts_pressed: "list_all plain_step steps \<Longrightarrow> map key_of_code (puts (key_ops SC steps)) = pressed SC steps"
proof (induction SC steps rule: key_ops.induct)
  case (1 SC down scancode steps)
  then have "keymap SC ! scancode \<in> set (keymap SC)" by (simp add: keymap_length)
  then have "unat (keymap SC ! scancode) < 2 ^ 15" using keymap_entries by blast
  from key_of_code [OF this, of down] 1 show ?case by simp
qed simp_all

text \<open>
  C14. The keyboard of the native platform is a queue: for every order in which key events arrive and
  the program polls, the polls give what a queue of 1023 entries gives, and each key sends one
  interrupt; as long as there is room, what was polled and what is pending are exactly the keys pressed
  and released, in order and each once.  One event more than 1023 loses all that are pending.
\<close>

theorem keyboard_refines:
  assumes "list_all plain_step steps"
  shows "\<exists>rs s'. kbd_run SC steps kbd_init = Inr (map poll_result rs, s') \<and>
    queue_run (list_put 1023) list_get (key_ops SC steps) [] = (rs, pending s') \<and>
    kbd_intrs s' = length (pressed SC steps) \<and>
    (room 1023 (key_ops SC steps) 0 \<longrightarrow> map key_of_code (got rs @ pending s') = pressed SC steps)"
proof -
  let ?ops = "key_ops SC steps"
  have "kbd_inv kbd_init" "pending kbd_init = []"
    by (simp_all add: kbd_inv_def kbd_init_def pending_def KEY_QUEUE_LEN_def)
  from keys.run_refines [OF this(1), of ?ops] obtain rs s'
    where q: "queue_run push_code pop_code ?ops kbd_init = (rs, s')" "queue_run (list_put 1023) list_get ?ops [] = (rs, pending s')"
    unfolding \<open>pending kbd_init = []\<close> by (auto simp: KEY_QUEUE_LEN_def prod_eq_iff)
  have "room 1023 ?ops 0 \<Longrightarrow> map key_of_code (got rs @ pending s') = pressed SC steps"
    using list_queue_lossless [of 1023 ?ops "[]", OF _ q(2)] puts_pressed [OF assms] by simp
  then show ?thesis using kbd_run_queue [OF assms, of SC kbd_init] q
    by (simp add: pending_def kbd_init_def)
qed

lemma keymap_A: "keymap AM_KEY ! 43 = 43" "AM_KEY ''A'' = 43"
  by code_simp+

theorem keyboard_refines_witness:
  "\<exists>s'. kbd_run AM_KEY [Event (SDL_KEY True 43), Poll, Event (SDL_KEY False 43), Event SDL_OTHER, Poll, Poll] kbd_init =
    Inr ([(True, of_nat (AM_KEY ''A'')), (False, of_nat (AM_KEY ''A'')), (False, 0)], s') \<and> kbd_intrs s' = 2"
proof -
  let ?steps = "[Event (SDL_KEY True 43), Poll, Event (SDL_KEY False 43), Event SDL_OTHER, Poll, Poll]"
  have "list_all plain_step ?steps" by simp
  from keyboard_refines [OF this, of AM_KEY] show ?thesis
    by (auto simp: keymap_A poll_result_def key_of_code_def KEYDOWN_MASK_def AM_KEY_NONE_def)
qed

section \<open>Sound (\<open>audio.c\<close>)\<close>

text \<open>
  The bytes in the pipe and the variable \<open>count\<close>.  The pipe does not block: a write that finds no
  room gives \<open>-1\<close> (\<open>None\<close>), otherwise the number of bytes the host took; \<open>answers\<close> are those of the
  host, and if they end the loop is still waiting.
\<close>

record audio =
  pipe :: "u8 list"
  count :: u32

definition accepted :: "nat option \<Rightarrow> nat" where
  "accepted a = (case a of None \<Rightarrow> 0 | Some n \<Rightarrow> n)"

fun audio_write :: "nat option list \<Rightarrow> u8 list \<Rightarrow> nat \<Rightarrow> audio \<Rightarrow> audio option" where
  "audio_write answers buf nwrite s =
     (if nwrite < length buf then
        case answers of
          [] \<Rightarrow> None
        | a # answers \<Rightarrow>
            let n = accepted a
            in audio_write answers buf (nwrite + n) (s\<lparr>pipe := pipe s @ take n buf, count := count s + of_nat n\<rparr>)
      else Some s)"

text \<open>The loop of \<open>audio_play\<close>: a read takes what is there, up to \<open>nread\<close>, to the start of \<open>stream\<close>; an empty pipe is polled for ever.\<close>

partial_function (option) play_loop :: "nat \<Rightarrow> nat \<Rightarrow> u8 list \<Rightarrow> audio \<Rightarrow> (u8 list \<times> audio) option" where
  "play_loop b nread stream s =
     (if b < nread then
        let n = min nread (length (pipe s))
        in play_loop (b + n) nread (take n (pipe s) @ drop n stream) (s\<lparr>pipe := drop n (pipe s)\<rparr>)
      else Some (stream, s))"

definition audio_play :: "u8 list \<Rightarrow> u32 \<Rightarrow> audio \<Rightarrow> (u8 list \<times> audio) result option" where
  "audio_play stream len s =
     (let nread = (if sint (count s) < sint len then count s else len)
      in Option.bind (play_loop 0 (nat (sint nread)) stream s) (\<lambda>(stream, s).
           let s = s\<lparr>count := count s - nread\<rparr>
           in if nread <s len then
                if nread <s 0 then Some (Inl (Undefined ''stream''))
                else Some (Inr (take (unat nread) stream @ replicate (unat len - unat nread) 0, s))
              else Some (Inr (stream, s))))"

definition audio_ctrl :: "audio \<Rightarrow> audio" where
  "audio_ctrl s = s\<lparr>count := 0\<rparr>"

definition audio_status :: "audio \<Rightarrow> u32" where
  "audio_status s = count s"

text \<open>The number of bytes in the pipe is \<open>count\<close>.\<close>

definition audio_ok :: "audio \<Rightarrow> bool" where
  "audio_ok s \<longleftrightarrow> unat (count s) = length (pipe s) \<and> length (pipe s) < 2 ^ 31"

declare audio_write.simps [simp del]

lemma audio_write_prefixes:
  "audio_write answers buf nwrite s = Some s' \<Longrightarrow>
   \<exists>ns rest. map accepted answers = ns @ rest \<and> pipe s' = pipe s @ concat (map (\<lambda>n. take n buf) ns) \<and>
     count s' = count s + of_nat (sum_list ns) \<and> length buf \<le> nwrite + sum_list ns \<and>
     (ns \<noteq> [] \<longrightarrow> nwrite + sum_list (butlast ns) < length buf)"
proof (induction answers arbitrary: nwrite s)
  case Nil
  then show ?case by (simp add: audio_write.simps [of "[]"] split: if_splits)
next
  case (Cons a answers)
  show ?case
  proof (cases "nwrite < length buf")
    case False
    then show ?thesis using Cons.prems
      by - (rule exI [of _ "[]"], rule exI [of _ "map accepted (a # answers)"], simp add: audio_write.simps [of "a # answers"])
  next
    case True
    let ?n = "accepted a" and ?s = "s\<lparr>pipe := pipe s @ take (accepted a) buf, count := count s + of_nat (accepted a)\<rparr>"
    have "audio_write answers buf (nwrite + ?n) ?s = Some s'" using True Cons.prems by (simp add: audio_write.simps [of "a # answers"] Let_def)
    from Cons.IH [OF this] obtain ns rest where ns: "map accepted answers = ns @ rest"
        "pipe s' = pipe ?s @ concat (map (\<lambda>n. take n buf) ns)" "count s' = count ?s + of_nat (sum_list ns)"
        "length buf \<le> nwrite + ?n + sum_list ns" "ns \<noteq> [] \<longrightarrow> nwrite + ?n + sum_list (butlast ns) < length buf"
      by blast
    then show ?thesis using True by (intro exI [of _ "?n # ns"] exI [of _ rest]) (simp add: add.assoc)
  qed
qed

text \<open>
  What is written is heard if the host takes it at once; if it takes a part, the next write starts at
  the beginning of the buffer again, and more bytes than the buffer has may be played.
\<close>

theorem audio_heard:
  assumes "audio_write answers buf 0 s = Some s1" "audio_ok s"
    and "length (pipe s1) + k < 2 ^ 31" "length stream = length (pipe s1) + k" "\<forall>n. Some n \<in> set answers \<longrightarrow> n \<le> length buf"
  shows "\<exists>ns s2. pipe s1 = pipe s @ concat (map (\<lambda>n. take n buf) ns) \<and> length buf \<le> sum_list ns \<and>
    (ns \<noteq> [] \<longrightarrow> sum_list (butlast ns) < length buf) \<and>
    audio_play stream (of_nat (length (pipe s1) + k)) s1 = Some (Inr (pipe s1 @ replicate k 0, s2)) \<and> pipe s2 = [] \<and> audio_ok s2"
proof -
  obtain ns rest where ns: "map accepted answers = ns @ rest" "pipe s1 = pipe s @ concat (map (\<lambda>n. take n buf) ns)"
      "count s1 = count s + of_nat (sum_list ns)" "length buf \<le> sum_list ns" "ns \<noteq> [] \<longrightarrow> sum_list (butlast ns) < length buf"
    using audio_write_prefixes [OF assms(1)] by (metis add_0)
  have "\<forall>n\<in>set (map accepted answers). n \<le> length buf"
    using assms(5) by (auto simp: accepted_def split: option.splits)
  then have "\<forall>n\<in>set ns. n \<le> length buf" unfolding ns(1) by simp
  then have "length (concat (map (\<lambda>n. take n buf) ns)) = sum_list ns"
    by (simp add: length_concat o_def cong: map_cong)
  then have len: "length (pipe s1) = length (pipe s) + sum_list ns" using ns(2) by simp
  let ?L = "length (pipe s1)"
  have w: "(of_nat (unat (count s)) :: u32) = count s" by (metis of_nat_unat ucast_id)
  have c: "count s1 = of_nat ?L" using assms(2) w ns(3) len by (simp add: audio_ok_def)
  have u: "unat (of_nat (?L + k) :: u32) = ?L + k" "unat (of_nat ?L :: u32) = ?L"
    using assms(3) by (simp_all add: unat_of_nat del: of_nat_add)
  have si: "sint (of_nat (?L + k) :: u32) = int (?L + k)" "sint (of_nat ?L :: u32) = int ?L"
    using assms(3) unfolding sint32_unat u by simp_all
  have p: "play_loop 0 ?L stream s1 = Some (pipe s1 @ drop ?L stream, s1\<lparr>pipe := []\<rparr>)"
    using assms(4) by (cases "?L = 0") (simp_all add: play_loop.simps [of 0] play_loop.simps [of ?L])
  have "audio_play stream (of_nat (?L + k)) s1 = Some (Inr (pipe s1 @ replicate k 0, s1\<lparr>pipe := [], count := 0\<rparr>))"
  proof (cases "k = 0")
    case True
    then show ?thesis using assms(4) p c si(2) by (simp add: audio_play_def)
  next
    case False
    have "of_nat ?L <s (of_nat (?L + k) :: u32)" "\<not> of_nat ?L <s (0 :: u32)"
      using False unfolding word_sless_alt si by simp_all
    then show ?thesis using False assms(4) p c si u by (simp add: audio_play_def del: of_nat_add)
  qed
  then show ?thesis using ns(2,4,5) by (intro exI [of _ ns] exI [of _ "s1\<lparr>pipe := [], count := 0\<rparr>"]) (simp add: audio_ok_def)
qed

section \<open>Disk (\<open>disk.c\<close>)\<close>

definition BLKSZ :: u32 where "BLKSZ = 512"

text \<open>The contents of the file, if one is open, the place in it, and the blocks counted when it was opened.\<close>

record disk =
  fp :: "u8 list option"
  fpos :: nat
  disk_size :: u32

definition disk_init :: "u8 list option \<Rightarrow> disk \<Rightarrow> disk" where
  "disk_init diskimg s =
     (case diskimg of
        None \<Rightarrow> s
      | Some bytes \<Rightarrow> s\<lparr>fp := Some bytes, fpos := 0, disk_size := of_nat ((length bytes + 511) div 512)\<rparr>)"

definition disk_config :: "disk \<Rightarrow> bool \<times> u32 \<times> u32" where
  "disk_config s = (fp s \<noteq> None, BLKSZ, disk_size s)"

definition disk_status :: bool where "disk_status = True"

text \<open>
  The functions of the host: a seek to a negative place fails and moves nothing; a write may grow the
  file, with zeros up to its place; a read or write of one item gives 1 if all of it was done, and 0 for
  an item of no bytes.
\<close>

definition fseek_set :: "int \<Rightarrow> disk \<Rightarrow> disk" where
  "fseek_set off s = (if off < 0 then s else s\<lparr>fpos := nat off\<rparr>)"

definition overwrite :: "u8 list \<Rightarrow> nat \<Rightarrow> u8 list \<Rightarrow> u8 list" where
  "overwrite f p xs = take p f @ replicate (p - length f) 0 @ xs @ drop (p + length xs) f"

definition fwrite_item :: "u8 list \<Rightarrow> disk \<Rightarrow> nat \<times> disk" where
  "fwrite_item xs s =
     (if xs = [] then (0, s)
      else (1, s\<lparr>fp := map_option (\<lambda>f. overwrite f (fpos s) xs) (fp s), fpos := fpos s + length xs\<rparr>))"

definition fread_item :: "nat \<Rightarrow> u8 list \<Rightarrow> disk \<Rightarrow> nat \<times> u8 list \<times> disk" where
  "fread_item n f s =
     (let xs = take n (drop (fpos s) f)
      in (if n = 0 \<or> length xs < n then 0 else 1, xs, s\<lparr>fpos := fpos s + length xs\<rparr>))"

text \<open>
  \<open>buf\<close> is the memory at the pointer of the structure, as long as the program has it; the products are
  of type \<open>int\<close>, and a negative number of bytes is a huge \<open>size_t\<close>.
\<close>

definition c_mul_blksz :: "u32 \<Rightarrow> int result" where
  "c_mul_blksz n =
     (let p = sint n * 512
      in if p < - (2 ^ 31) \<or> 2 ^ 31 \<le> p then Inl (Undefined ''int'') else Inr p)"

definition disk_blkio :: "bool \<Rightarrow> u8 list \<Rightarrow> u32 \<Rightarrow> u32 \<Rightarrow> disk \<Rightarrow> (u8 list \<times> disk) result" where
  "disk_blkio write buf blkno blkcnt s =
     (case fp s of
        None \<Rightarrow> Inr (buf, s)
      | Some f \<Rightarrow>
          bindR (c_mul_blksz blkno) (\<lambda>off.
          bindR (c_mul_blksz blkcnt) (\<lambda>size.
          let s = fseek_set off s in
          if size < 0 \<or> int (length buf) < size then Inl (Undefined ''buf'')
          else if write then
            (let (ret, s) = fwrite_item (take (nat size) buf) s
             in if ret = 1 then Inr (buf, s) else Inl (Panic ''ret == 1''))
          else
            (let (ret, xs, s) = fread_item (nat size) f s
             in if ret = 1 then Inr (xs @ drop (nat size) buf, s) else Inl (Panic ''ret == 1'')))))"

text \<open>A block inside the file; the products do not overflow there.\<close>

definition inside :: "u8 list \<Rightarrow> u32 \<Rightarrow> u32 \<Rightarrow> bool" where
  "inside f blkno blkcnt \<longleftrightarrow> blkcnt \<noteq> 0 \<and> 512 * (unat blkno + unat blkcnt) \<le> length f \<and> length f < 2 ^ 31"

lemma c_mul_blksz_small:
  assumes "512 * unat n < 2 ^ 31"
  shows "c_mul_blksz n = Inr (int (512 * unat n))"
proof -
  obtain m where "unat n = m" "uint n = int m" "m < 2 ^ 32" by (rule unat32_split)
  then show ?thesis using assms by (simp add: c_mul_blksz_def sint32_cases)
qed

lemma inside_mul:
  assumes "inside f blkno blkcnt"
  shows "c_mul_blksz blkno = Inr (int (512 * unat blkno))" "c_mul_blksz blkcnt = Inr (int (512 * unat blkcnt))" "0 < unat blkcnt"
  using assms by (simp_all only: c_mul_blksz_small inside_def unat_gt_0) (simp_all add: inside_def c_mul_blksz_small)

lemma disk_read:
  assumes "fp s = Some f" "inside f blkno blkcnt" "length buf = 512 * unat blkcnt"
  shows "disk_blkio False buf blkno blkcnt s =
    Inr (take (512 * unat blkcnt) (drop (512 * unat blkno) f), s\<lparr>fpos := 512 * (unat blkno + unat blkcnt)\<rparr>)"
proof -
  have "length (take (512 * unat blkcnt) (drop (512 * unat blkno) f)) = 512 * unat blkcnt"
    using assms(2) by (auto simp: inside_def min_def)
  then show ?thesis using assms(1,3) inside_mul [OF assms(2)]
    by (simp add: disk_blkio_def fseek_set_def fread_item_def Let_def nat_mult_distrib add_mult_distrib2 del: length_take)
qed

lemma disk_write:
  assumes "fp s = Some f" "inside f blkno blkcnt" "length buf = 512 * unat blkcnt"
  shows "disk_blkio True buf blkno blkcnt s =
    Inr (buf, s\<lparr>fp := Some (overwrite f (512 * unat blkno) buf), fpos := 512 * (unat blkno + unat blkcnt)\<rparr>)"
proof -
  have "buf \<noteq> []" using inside_mul(3) [OF assms(2)] assms(3) by auto
  then show ?thesis using assms inside_mul [OF assms(2)]
    by (simp add: disk_blkio_def fseek_set_def fwrite_item_def Let_def inside_def nat_mult_distrib add_mult_distrib2)
qed

lemma nth_overwrite:
  assumes "p + length xs \<le> length f" "i < length f"
  shows "overwrite f p xs ! i = (if p \<le> i \<and> i < p + length xs then xs ! (i - p) else f ! i)"
  using assms by (auto simp: overwrite_def nth_append min_def)

lemma length_overwrite: "p + length xs \<le> length f \<Longrightarrow> length (overwrite f p xs) = length f"
  by (simp add: overwrite_def)

text \<open>
  C30. The disk of the native platform is an array of blocks: after blocks were written, blocks read
  anywhere in the file are those written where they overlap and the old ones elsewhere.  The last block
  that is counted is not readable when the file does not end with a whole block.
\<close>

theorem disk_blocks:
  assumes "fp s = Some f" "inside f b n" "length xs = 512 * unat n" "inside f c k" "length ys = 512 * unat k"
  shows "\<exists>s' zs s''. disk_blkio True xs b n s = Inr (xs, s') \<and> disk_blkio False ys c k s' = Inr (zs, s'') \<and>
    length zs = 512 * unat k \<and>
    (\<forall>i<512 * unat k. let a = 512 * unat c + i in
       zs ! i = (if 512 * unat b \<le> a \<and> a < 512 * (unat b + unat n) then xs ! (a - 512 * unat b) else f ! a))"
proof -
  let ?f = "overwrite f (512 * unat b) xs" and ?s = "s\<lparr>fp := Some (overwrite f (512 * unat b) xs), fpos := 512 * (unat b + unat n)\<rparr>"
  have room: "512 * unat b + length xs \<le> length f" using assms(2,3) by (simp add: inside_def add_mult_distrib2)
  have in': "inside ?f c k" using assms(4) length_overwrite [OF room] by (simp add: inside_def)
  let ?zs = "take (512 * unat k) (drop (512 * unat c) ?f)"
  have z: "512 * unat c + 512 * unat k \<le> length f" using assms(4) by (simp add: inside_def add_mult_distrib2)
  then have "length ?zs = 512 * unat k" by (simp add: length_overwrite [OF room])
  moreover have "?zs ! i = (if 512 * unat b \<le> 512 * unat c + i \<and> 512 * unat c + i < 512 * (unat b + unat n)
      then xs ! (512 * unat c + i - 512 * unat b) else f ! (512 * unat c + i))" if "i < 512 * unat k" for i
    using that z length_overwrite [OF room] nth_overwrite [OF room, of "512 * unat c + i"] assms(3) by (simp add: add_mult_distrib2)
  moreover have "disk_blkio False ys c k ?s = Inr (?zs, ?s\<lparr>fpos := 512 * (unat c + unat k)\<rparr>)"
    by (rule disk_read) (simp_all add: in' assms(5))
  moreover have "disk_blkio True xs b n s = Inr (xs, ?s)" by (rule disk_write [OF assms(1-3)])
  ultimately show ?thesis by (simp add: Let_def)
qed

theorem disk_blocks_witness:
  "\<exists>s' zs s''. disk_blkio True (replicate 512 7) 1 1 \<lparr>fp = Some (replicate 2048 0), fpos = 0, disk_size = 4\<rparr> = Inr (replicate 512 7, s') \<and>
    disk_blkio False (replicate 1024 9) 1 2 s' = Inr (zs, s'') \<and> zs ! 511 = 7 \<and> zs ! 512 = 0"
proof -
  let ?s = "\<lparr>fp = Some (replicate 2048 0), fpos = 0, disk_size = 4\<rparr>"
  have "inside (replicate 2048 0) 1 1" "inside (replicate 2048 0) 1 2" by (simp_all add: inside_def)
  from disk_blocks [OF _ this(1) _ this(2), of ?s "replicate 512 7" "replicate 1024 9"]
  obtain s' zs s'' where r: "disk_blkio True (replicate 512 7) 1 1 ?s = Inr (replicate 512 7, s')"
      "disk_blkio False (replicate 1024 9) 1 2 s' = Inr (zs, s'')"
    and z: "\<forall>i<1024. zs ! i = (if 512 \<le> 512 + i \<and> 512 + i < 1024 then replicate 512 7 ! (512 + i - 512) else replicate 2048 0 ! (512 + i))"
    unfolding Let_def by auto
  have "zs ! 511 = 7" "zs ! 512 = 0" using z [rule_format, of 511] z [rule_format, of 512] by simp_all
  then show ?thesis using r by blast
qed

theorem disk_last_block:
  assumes "length f mod 512 \<noteq> 0" "length f < 2 ^ 31" "length buf = 512"
  shows "\<exists>s1. disk_init (Some f) s = s1 \<and> 0 < unat (snd (snd (disk_config s1))) \<and>
    disk_blkio False buf (snd (snd (disk_config s1)) - 1) 1 s1 = Inl (Panic ''ret == 1'')"
proof -
  let ?n = "(length f + 511) div 512"
  obtain q r where qr: "length f = 512 * q + r" "0 < r" "r < 512"
    using assms(1) div_mult_mod_eq [of "length f" 512] by (metis mod_less_divisor mult.commute neq0_conv zero_less_numeral)
  then have "?n = Suc q" by (intro div_nat_eqI) simp_all
  then have n: "0 < ?n" "512 * (?n - 1) < length f" "length f < 512 * ?n" "?n \<le> 2 ^ 22" using qr assms(2) by simp_all
  have u: "unat (of_nat ?n - 1 :: u32) = ?n - 1"
  proof -
    have "(of_nat ?n - 1 :: u32) = of_nat (?n - 1)" using n(1) by simp
    moreover have "unat (of_nat (?n - 1) :: u32) = ?n - 1" using n(4) by (simp only: unat_of_nat) simp
    ultimately show ?thesis by simp
  qed
  have m: "c_mul_blksz (of_nat ?n - 1) = Inr (int (512 * (?n - 1)))"
    using c_mul_blksz_small [of "of_nat ?n - 1"] n(2) assms(2) unfolding u by linarith
  have "c_mul_blksz 1 = Inr 512" by (simp add: c_mul_blksz_def)
  moreover have "length (take 512 (drop (512 * (?n - 1)) f)) < 512" using n(3) by simp
  moreover have "0 < unat (of_nat ?n :: u32)" using n(1,4) by (simp only: unat_of_nat) simp
  ultimately show ?thesis using m assms(3)
    by (simp add: disk_init_def disk_config_def disk_blkio_def fseek_set_def fread_item_def Let_def del: of_nat_diff)
qed

section \<open>Clock (\<open>timer.c\<close>)\<close>

text \<open>The time of the host as seconds and microseconds, both of type \<open>long\<close>; the sum is rounded up by half a millisecond.\<close>

definition native_uptime :: "u64 \<times> u64 \<Rightarrow> u64 \<times> u64 \<Rightarrow> u64" where
  "native_uptime boot_time now =
     (let seconds = fst now - fst boot_time;
          useconds = snd now - snd boot_time
      in seconds * 1000000 + (useconds + 500))"

end
