(* ===== verification/Native_Vme.thy ===== *)
theory Native_Vme
  imports Am_Types
begin

text \<open>
  Address spaces of the native platform (\<open>am/src/native/vme.c\<close>), where the program is a process of
  the host: an address space is a list of pages with a hash table from the printed address to the
  page, and a switch unmaps the pages of one list and maps those of the other with \<open>mmap\<close> (the
  functions \<open>__am_pmem_map\<close> and \<open>__am_pmem_unmap\<close> of \<open>platform.c\<close>).  The allocator of pages is
  the client's.  The mappings of the host process and the hash tables of the C library are part of
  the state; a list that has become a cycle is the reason for \<open>None\<close>, a switch that never ends.
\<close>

section \<open>State\<close>

type_synonym addr = u64

definition USER_START :: addr where "USER_START = 0x40000000"
definition USER_END :: addr where "USER_END = 0xc0000000"

definition in_user :: "addr \<Rightarrow> bool" where
  "in_user va \<longleftrightarrow> USER_START \<le> va \<and> va < USER_END"

record PageMap =
  va_of :: addr
  pa_of :: addr
  next_of :: addr
  prot_of :: u32
  is_mapped :: bool
  key_text :: string

text \<open>A table of \<open>hsearch_r\<close>: how many entries it can hold, and the entries.\<close>

record hsearch_data =
  ht_size :: nat
  ht_entries :: "(string \<times> addr) list"

record VMHead =
  first :: addr
  hash :: hsearch_data
  nr_page :: nat

text \<open>
  The objects are found by their addresses.  \<open>os_map\<close> is what the host has mapped at the pages of
  the process: the offset into the file that is the physical memory, and whether it can be read (and
  executed) and written.
\<close>

record 'u native =
  vm_heads :: "addr \<rightharpoonup> VMHead"
  page_maps :: "addr \<Rightarrow> PageMap"
  cpu_vm_head :: addr
  vme_enable :: bool
  pgalloc :: "('u \<Rightarrow> addr \<times> 'u) option"
  usr :: 'u
  am_pgsize :: addr
  os_map :: "addr \<rightharpoonup> addr \<times> bool \<times> bool"

section \<open>The platform\<close>

definition PMEM_START :: addr where "PMEM_START = 0x1000000"

definition am_pmem_map :: "addr \<Rightarrow> addr \<Rightarrow> u32 \<Rightarrow> 'u native \<Rightarrow> 'u native" where
  "am_pmem_map va pa prot s =
     s\<lparr>os_map := (os_map s)(va \<mapsto> (pa - PMEM_START, prot AND MMAP_READ \<noteq> 0, prot AND MMAP_WRITE \<noteq> 0))\<rparr>"

definition am_pmem_unmap :: "addr \<Rightarrow> 'u native \<Rightarrow> 'u native" where
  "am_pmem_unmap va s = s\<lparr>os_map := (os_map s)(va := None)\<rparr>"

section \<open>The code\<close>

definition vme_init :: "('u \<Rightarrow> addr \<times> 'u) \<Rightarrow> 'u native \<Rightarrow> bool \<times> 'u native" where
  "vme_init pgalloc_f s = (True, s\<lparr>pgalloc := Some pgalloc_f, vme_enable := True\<rparr>)"

definition call_pgalloc :: "'u native \<Rightarrow> (addr \<times> 'u native) result" where
  "call_pgalloc s =
     (case pgalloc s of
        None \<Rightarrow> Inl (Undefined ''pgalloc'')
      | Some f \<Rightarrow> let (p, u) = f (usr s) in Inr (p, s\<lparr>usr := u\<rparr>))"

text \<open>\<open>protect\<close> fills the structure with the pointer, the page size and the area it is given.\<close>

record AddrSpace64 =
  as64_pgsize :: addr
  as64_area :: "addr \<times> addr"
  as64_ptr :: addr

definition protect :: "AddrSpace64 option \<Rightarrow> 'u native \<Rightarrow> (AddrSpace64 \<times> 'u native) result" where
  "protect as s =
     bindR (guardR (as \<noteq> None) (Panic ''as != NULL'')) (\<lambda>_.
     bindR (call_pgalloc s) (\<lambda>(h, s).
     bindR (guardR (h \<noteq> 0) (Panic ''h != NULL'')) (\<lambda>_.
       let max_pg = unat ((USER_END - USER_START) div am_pgsize s);
           head = \<lparr>first = 0, hash = \<lparr>ht_size = max_pg, ht_entries = []\<rparr>, nr_page = 0\<rparr>
       in Inr (\<lparr>as64_pgsize = am_pgsize s, as64_area = (USER_START, USER_END), as64_ptr = h\<rparr>,
               s\<lparr>vm_heads := (vm_heads s)(h \<mapsto> head)\<rparr>))))"

definition unprotect :: "AddrSpace64 \<Rightarrow> 'u native \<Rightarrow> 'u native" where
  "unprotect as s = s"

definition set_mapped :: "bool \<Rightarrow> addr \<Rightarrow> 'u native \<Rightarrow> 'u native" where
  "set_mapped b pp s = s\<lparr>page_maps := (page_maps s)(pp := (page_maps s pp)\<lparr>is_mapped := b\<rparr>)\<rparr>"

text \<open>The bodies of the two loops of \<open>__am_switch\<close>, and the loops.\<close>

definition unmap_one :: "addr \<Rightarrow> 'u native \<Rightarrow> 'u native" where
  "unmap_one pp s =
     (if is_mapped (page_maps s pp) then set_mapped False pp (am_pmem_unmap (va_of (page_maps s pp)) s) else s)"

definition map_one :: "addr \<Rightarrow> 'u native \<Rightarrow> 'u native" where
  "map_one pp s =
     (let p = page_maps s pp in set_mapped True pp (am_pmem_map (va_of p) (pa_of p) (prot_of p) s))"

partial_function (option) unmap_pages :: "addr \<Rightarrow> 'u native \<Rightarrow> 'u native option" where
  "unmap_pages pp s =
     (if pp = 0 then Some s
      else let s = unmap_one pp s in unmap_pages (next_of (page_maps s pp)) s)"

partial_function (option) map_pages :: "addr \<Rightarrow> 'u native \<Rightarrow> 'u native result option" where
  "map_pages pp s =
     (if pp = 0 then Some (Inr s)
      else if \<not> in_user (va_of (page_maps s pp)) then Some (Inl (Panic ''IN_RANGE(pp->va, USER_SPACE)''))
      else let s = map_one pp s in map_pages (next_of (page_maps s pp)) s)"

text \<open>A list at a pointer; a dangling pointer is undefined.\<close>

definition first_of :: "addr \<Rightarrow> 'u native \<Rightarrow> addr result" where
  "first_of h s = (case vm_heads s h of None \<Rightarrow> Inl (Undefined ''head'') | Some vh \<Rightarrow> Inr (first vh))"

text \<open>The argument is the field \<open>vm_head\<close> of the context.\<close>

definition am_switch :: "addr \<Rightarrow> 'u native \<Rightarrow> 'u native result option" where
  "am_switch head s =
     (if \<not> vme_enable s then Some (Inr s)
      else if head = cpu_vm_head s then Some (Inr (s\<lparr>cpu_vm_head := head\<rparr>))
      else
        case (if cpu_vm_head s = 0 then Inr 0 else first_of (cpu_vm_head s) s) of
          Inl e \<Rightarrow> Some (Inl e)
        | Inr p \<Rightarrow>
            Option.bind (unmap_pages p s) (\<lambda>s.
            case (if head = 0 then Inr 0 else first_of head s) of
              Inl e \<Rightarrow> Some (Inl e)
            | Inr p \<Rightarrow> map_option (map_sum id (\<lambda>s. s\<lparr>cpu_vm_head := head\<rparr>)) (map_pages p s)))"

text \<open>\<open>snprintf\<close> with \<open>%x\<close>: the pointer is read as an \<open>unsigned int\<close>.\<close>

definition hex_digit :: "nat \<Rightarrow> char" where
  "hex_digit d = ''0123456789abcdef'' ! d"

fun fmt_x :: "nat \<Rightarrow> string" where
  "fmt_x n = (if n < 16 then [hex_digit n] else fmt_x (n div 16) @ [hex_digit (n mod 16)])"

definition key_of :: "addr \<Rightarrow> string" where
  "key_of va = fmt_x (unat (ucast va :: u32))"

text \<open>
  The page for an address: found in the table, or a new one that is entered.  Then \<open>map\<close>; the first
  argument is the field \<open>ptr\<close> of the address space, or \<open>None\<close> for a null pointer.
\<close>

definition find_page :: "addr \<Rightarrow> VMHead \<Rightarrow> 'u native \<Rightarrow> (addr \<times> VMHead \<times> 'u native) result" where
  "find_page va h s =
     (case map_of (ht_entries (hash h)) (key_of va) of
        Some pp \<Rightarrow> Inr (pp, h, s)
      | None \<Rightarrow>
          bindR (call_pgalloc s) (\<lambda>(pp, s).
          bindR (guardR (pp \<noteq> 0) (Undefined ''pp'')) (\<lambda>_.
          let s = s\<lparr>page_maps := (page_maps s)(pp := (page_maps s pp)\<lparr>key_text := key_of va\<rparr>)\<rparr> in
          bindR (guardR (length (ht_entries (hash h)) < ht_size (hash h)) (Panic ''ret != 0'')) (\<lambda>_.
            Inr (pp, h\<lparr>hash := (hash h)\<lparr>ht_entries := (key_of va, pp) # ht_entries (hash h)\<rparr>, nr_page := nr_page h + 1\<rparr>, s)))))"

definition map_page :: "addr option \<Rightarrow> addr \<Rightarrow> addr \<Rightarrow> u32 \<Rightarrow> 'u native \<Rightarrow> 'u native result" where
  "map_page as va pa prot s =
     bindR (guardR (in_user va) (Panic ''IN_RANGE(va, USER_SPACE)'')) (\<lambda>_.
     bindR (guardR (va mod am_pgsize s = 0) (Panic ''va % __am_pgsize == 0'')) (\<lambda>_.
     bindR (guardR (pa mod am_pgsize s = 0) (Panic ''pa % __am_pgsize == 0'')) (\<lambda>_.
     bindR (guardR (as \<noteq> None) (Panic ''as != NULL'')) (\<lambda>_.
     let vm_head = the as in
     bindR (guardR (vm_head \<noteq> 0) (Panic ''vm_head != NULL'')) (\<lambda>_.
     case vm_heads s vm_head of
       None \<Rightarrow> Inl (Undefined ''vm_head'')
     | Some h \<Rightarrow>
         bindR (find_page va h s) (\<lambda>(pp, h, s).
           let s = s\<lparr>page_maps := (page_maps s)(pp := (page_maps s pp)
                       \<lparr>va_of := va, pa_of := pa, prot_of := prot, is_mapped := False, next_of := first h\<rparr>),
                     vm_heads := (vm_heads s)(vm_head \<mapsto> h\<lparr>first := pp\<rparr>)\<rparr>
           in Inr (if vm_head = cpu_vm_head s then map_one pp s else s)))))))"

definition am_in_userspace :: "addr \<Rightarrow> 'u native \<Rightarrow> bool" where
  "am_in_userspace a s \<longleftrightarrow> vme_enable s \<and> cpu_vm_head s \<noteq> 0 \<and> in_user a"

section \<open>Keys\<close>

declare fmt_x.simps [simp del]

definition unhex_digit :: "char \<Rightarrow> nat" where
  "unhex_digit c = length (takeWhile (\<lambda>d. d \<noteq> c) ''0123456789abcdef'')"

lemma unhex_digit: "d < 16 \<Longrightarrow> unhex_digit (hex_digit d) = d"
  by (auto simp: less_Suc_eq numeral_eq_Suc hex_digit_def unhex_digit_def)

lemma fmt_x_inverse: "foldl (\<lambda>a c. a * 16 + unhex_digit c) 0 (fmt_x n) = n"
proof (induction n rule: fmt_x.induct)
  case (1 n)
  then show ?case by (cases "n < 16") (simp_all add: fmt_x.simps [of n] unhex_digit)
qed

lemma key_of_inj:
  assumes "in_user a" "in_user b" "key_of a = key_of b"
  shows "a = b"
proof -
  have u: "unat (ucast w :: u32) = unat w" if "in_user w" for w
  proof -
    have "unat w < 2 ^ 32" using that by (simp add: in_user_def USER_END_def word_less_nat_alt)
    then show ?thesis by (simp add: unat_ucast)
  qed
  have "unat (ucast a :: u32) = unat (ucast b :: u32)"
    using assms(3) fmt_x_inverse unfolding key_of_def by metis
  then show ?thesis using u assms(1,2) by (simp add: word_unat_eq_iff)
qed

section \<open>Lists of pages\<close>

fun path :: "(addr \<Rightarrow> PageMap) \<Rightarrow> addr \<Rightarrow> addr list \<Rightarrow> bool" where
  "path P p [] \<longleftrightarrow> p = 0"
| "path P p (x # xs) \<longleftrightarrow> p = x \<and> x \<noteq> 0 \<and> path P (next_of (P x)) xs"

lemma path_cong: "path P p xs \<Longrightarrow> (\<And>x. x \<in> set xs \<Longrightarrow> next_of (Q x) = next_of (P x)) \<Longrightarrow> path Q p xs"
  by (induction xs arbitrary: p) simp_all

lemma path_0: "path P p xs \<Longrightarrow> 0 \<notin> set xs"
  by (induction xs arbitrary: p) auto

lemma unmap_one_page [simp]:
  "next_of (page_maps (unmap_one x s) y) = next_of (page_maps s y)" "va_of (page_maps (unmap_one x s) y) = va_of (page_maps s y)"
  "pa_of (page_maps (unmap_one x s) y) = pa_of (page_maps s y)" "prot_of (page_maps (unmap_one x s) y) = prot_of (page_maps s y)"
  "is_mapped (page_maps (unmap_one x s) y) \<longleftrightarrow> is_mapped (page_maps s y) \<and> y \<noteq> x"
  by (auto simp: unmap_one_def set_mapped_def am_pmem_unmap_def)

lemma map_one_page [simp]:
  "next_of (page_maps (map_one x s) y) = next_of (page_maps s y)" "va_of (page_maps (map_one x s) y) = va_of (page_maps s y)"
  "pa_of (page_maps (map_one x s) y) = pa_of (page_maps s y)" "prot_of (page_maps (map_one x s) y) = prot_of (page_maps s y)"
  "is_mapped (page_maps (map_one x s) y) \<longleftrightarrow> is_mapped (page_maps s y) \<or> y = x"
  by (auto simp: map_one_def set_mapped_def am_pmem_map_def Let_def)

lemma one_other [simp]:
  "vm_heads (unmap_one x s) = vm_heads s" "cpu_vm_head (unmap_one x s) = cpu_vm_head s" "vme_enable (unmap_one x s) = vme_enable s"
  "pgalloc (unmap_one x s) = pgalloc s" "usr (unmap_one x s) = usr s" "am_pgsize (unmap_one x s) = am_pgsize s"
  "vm_heads (map_one x s) = vm_heads s" "cpu_vm_head (map_one x s) = cpu_vm_head s" "vme_enable (map_one x s) = vme_enable s"
  "pgalloc (map_one x s) = pgalloc s" "usr (map_one x s) = usr s" "am_pgsize (map_one x s) = am_pgsize s"
  by (auto simp: unmap_one_def map_one_def set_mapped_def am_pmem_unmap_def am_pmem_map_def Let_def)

text \<open>What the host maps for a page.\<close>

definition pte :: "PageMap \<Rightarrow> addr \<times> bool \<times> bool" where
  "pte p = (pa_of p - PMEM_START, prot_of p AND MMAP_READ \<noteq> 0, prot_of p AND MMAP_WRITE \<noteq> 0)"

lemma os_map_one: "os_map (map_one x s) = (os_map s)(va_of (page_maps s x) \<mapsto> pte (page_maps s x))"
  by (simp add: map_one_def set_mapped_def am_pmem_map_def Let_def pte_def)

lemma os_unmap_one:
  "os_map (unmap_one x s) = (if is_mapped (page_maps s x) then (os_map s)(va_of (page_maps s x) := None) else os_map s)"
  by (simp add: unmap_one_def set_mapped_def am_pmem_unmap_def)

lemma pte_cong: "pa_of p = pa_of q \<Longrightarrow> prot_of p = prot_of q \<Longrightarrow> pte p = pte q"
  by (simp add: pte_def)

text \<open>The loops along a list that ends.\<close>

lemma unmap_pages_path: "path (page_maps s) p xs \<Longrightarrow> unmap_pages p s = Some (fold unmap_one xs s)"
proof (induction xs arbitrary: p s)
  case (Cons x xs)
  have "path (page_maps (unmap_one x s)) (next_of (page_maps s x)) xs" using Cons.prems by (auto intro: path_cong)
  then show ?case using Cons by (simp add: unmap_pages.simps [of x s] Let_def)
qed (simp add: unmap_pages.simps)

lemma map_pages_path:
  "path (page_maps s) p xs \<Longrightarrow> \<forall>x\<in>set xs. in_user (va_of (page_maps s x)) \<Longrightarrow> map_pages p s = Some (Inr (fold map_one xs s))"
proof (induction xs arbitrary: p s)
  case (Cons x xs)
  have "path (page_maps (map_one x s)) (next_of (page_maps s x)) xs" using Cons.prems by (auto intro: path_cong)
  then show ?case using Cons by (simp add: map_pages.simps [of x s] Let_def)
qed (simp add: map_pages.simps)

lemma fold_unmap:
  "next_of (page_maps (fold unmap_one xs s) y) = next_of (page_maps s y) \<and> va_of (page_maps (fold unmap_one xs s) y) = va_of (page_maps s y) \<and>
   pa_of (page_maps (fold unmap_one xs s) y) = pa_of (page_maps s y) \<and> prot_of (page_maps (fold unmap_one xs s) y) = prot_of (page_maps s y) \<and>
   (is_mapped (page_maps (fold unmap_one xs s) y) \<longleftrightarrow> is_mapped (page_maps s y) \<and> y \<notin> set xs) \<and>
   vm_heads (fold unmap_one xs s) = vm_heads s \<and> cpu_vm_head (fold unmap_one xs s) = cpu_vm_head s \<and>
   vme_enable (fold unmap_one xs s) = vme_enable s \<and> pgalloc (fold unmap_one xs s) = pgalloc s \<and>
   usr (fold unmap_one xs s) = usr s \<and> am_pgsize (fold unmap_one xs s) = am_pgsize s"
  by (induction xs arbitrary: s) auto

lemma fold_map:
  "next_of (page_maps (fold map_one xs s) y) = next_of (page_maps s y) \<and> va_of (page_maps (fold map_one xs s) y) = va_of (page_maps s y) \<and>
   pa_of (page_maps (fold map_one xs s) y) = pa_of (page_maps s y) \<and> prot_of (page_maps (fold map_one xs s) y) = prot_of (page_maps s y) \<and>
   (is_mapped (page_maps (fold map_one xs s) y) \<longleftrightarrow> is_mapped (page_maps s y) \<or> y \<in> set xs) \<and>
   vm_heads (fold map_one xs s) = vm_heads s \<and> cpu_vm_head (fold map_one xs s) = cpu_vm_head s \<and>
   vme_enable (fold map_one xs s) = vme_enable s \<and> pgalloc (fold map_one xs s) = pgalloc s \<and>
   usr (fold map_one xs s) = usr s \<and> am_pgsize (fold map_one xs s) = am_pgsize s"
  by (induction xs arbitrary: s) auto

section \<open>Address spaces\<close>

text \<open>The translation a list of pages stands for.\<close>

definition trans :: "'u native \<Rightarrow> addr list \<Rightarrow> addr \<rightharpoonup> addr \<times> bool \<times> bool" where
  "trans s xs = map_of (map (\<lambda>x. (va_of (page_maps s x), pte (page_maps s x))) xs)"

lemma trans_simps [simp]:
  "trans s [] = Map.empty"
  "trans s (x # xs) = (trans s xs)(va_of (page_maps s x) \<mapsto> pte (page_maps s x))"
  by (auto simp: trans_def)

lemma trans_cong:
  assumes "\<And>x. x \<in> set xs \<Longrightarrow> va_of (page_maps s' x) = va_of (page_maps s x) \<and>
    pa_of (page_maps s' x) = pa_of (page_maps s x) \<and> prot_of (page_maps s' x) = prot_of (page_maps s x)"
  shows "trans s' xs = trans s xs"
  using assms by (induction xs) (auto simp: pte_def)

lemma trans_None_iff: "trans s xs va = None \<longleftrightarrow> va \<notin> (\<lambda>x. va_of (page_maps s x)) ` set xs"
  by (induction xs) auto

lemma os_fold_unmap:
  "distinct xs \<Longrightarrow> \<forall>x\<in>set xs. is_mapped (page_maps s x) \<Longrightarrow>
   os_map (fold unmap_one xs s) va = (if va \<in> (\<lambda>x. va_of (page_maps s x)) ` set xs then None else os_map s va)"
proof (induction xs arbitrary: s)
  case (Cons x xs)
  have "\<forall>y\<in>set xs. is_mapped (page_maps (unmap_one x s) y)" using Cons.prems by auto
  then show ?case using Cons.IH [of "unmap_one x s"] Cons.prems by (simp add: os_unmap_one)
qed simp

lemma os_fold_map:
  "distinct (map (\<lambda>x. va_of (page_maps s x)) xs) \<Longrightarrow>
   os_map (fold map_one xs s) va = (case trans s xs va of None \<Rightarrow> os_map s va | Some y \<Rightarrow> Some y)"
proof (induction xs arbitrary: s)
  case (Cons x xs)
  have t: "trans (map_one x s) xs = trans s xs" by (rule trans_cong) simp
  have "trans s xs (va_of (page_maps s x)) = None" using Cons.prems by (auto simp: trans_None_iff)
  then show ?case using Cons.IH [of "map_one x s"] Cons.prems t by (auto simp: os_map_one split: option.splits)
qed simp

text \<open>
  An address space is well formed: its list ends, has each address once, and the table finds the page of
  every address.  \<open>N\<close> gives the list of every address space; the pages that are marked as mapped are
  those of the current one, and the host has mapped just these.
\<close>

definition space_ok :: "'u native \<Rightarrow> VMHead \<Rightarrow> addr list \<Rightarrow> bool" where
  "space_ok s h xs \<longleftrightarrow>
     path (page_maps s) (first h) xs \<and> distinct xs \<and> distinct (map (\<lambda>x. va_of (page_maps s x)) xs) \<and>
     (\<forall>x\<in>set xs. in_user (va_of (page_maps s x)) \<and> va_of (page_maps s x) mod am_pgsize s = 0) \<and>
     ht_size (hash h) = unat ((USER_END - USER_START) div am_pgsize s) \<and> length (ht_entries (hash h)) = length xs \<and>
     (\<forall>k x. map_of (ht_entries (hash h)) k = Some x \<longleftrightarrow> x \<in> set xs \<and> k = key_of (va_of (page_maps s x)))"

definition native_ok :: "'u native \<Rightarrow> (addr \<Rightarrow> addr list) \<Rightarrow> bool" where
  "native_ok s N \<longleftrightarrow>
     vme_enable s \<and> am_pgsize s \<noteq> 0 \<and> unat (am_pgsize s) dvd 0x40000000 \<and> vm_heads s 0 = None \<and>
     (cpu_vm_head s \<noteq> 0 \<longrightarrow> vm_heads s (cpu_vm_head s) \<noteq> None) \<and>
     (\<forall>h. case vm_heads s h of None \<Rightarrow> N h = [] | Some vh \<Rightarrow> space_ok s vh (N h)) \<and>
     (\<forall>h k. h \<noteq> k \<longrightarrow> set (N h) \<inter> set (N k) = {}) \<and>
     (\<forall>h. \<forall>x\<in>set (N h). is_mapped (page_maps s x) \<longleftrightarrow> h = cpu_vm_head s) \<and>
     (\<forall>va. in_user va \<longrightarrow> os_map s va = trans s (N (cpu_vm_head s)) va)"

lemma native_ok_space:
  assumes "native_ok s N" "vm_heads s h = Some vh"
  shows "space_ok s vh (N h)"
proof -
  have "case vm_heads s h of None \<Rightarrow> N h = [] | Some vh \<Rightarrow> space_ok s vh (N h)"
    using assms(1) unfolding native_ok_def by blast
  then show ?thesis using assms(2) by simp
qed

lemma native_ok_none:
  assumes "native_ok s N" "vm_heads s h = None"
  shows "N h = []"
proof -
  have "case vm_heads s h of None \<Rightarrow> N h = [] | Some vh \<Rightarrow> space_ok s vh (N h)"
    using assms(1) unfolding native_ok_def by blast
  then show ?thesis using assms(2) by simp
qed

lemma space_ok_cong:
  assumes "space_ok s h xs" "am_pgsize s' = am_pgsize s"
    "\<And>x. x \<in> set xs \<Longrightarrow> next_of (page_maps s' x) = next_of (page_maps s x) \<and> va_of (page_maps s' x) = va_of (page_maps s x)"
  shows "space_ok s' h xs"
proof -
  have m: "map (\<lambda>x. va_of (page_maps s' x)) xs = map (\<lambda>x. va_of (page_maps s x)) xs" using assms(3) by simp
  show ?thesis
    using assms path_cong [of "page_maps s" "first h" xs "page_maps s'"]
    unfolding space_ok_def m by auto
qed

lemma space_okD:
  assumes "space_ok s h xs"
  shows "path (page_maps s) (first h) xs" "distinct xs" "distinct (map (\<lambda>x. va_of (page_maps s x)) xs)"
    "x \<in> set xs \<Longrightarrow> in_user (va_of (page_maps s x)) \<and> va_of (page_maps s x) mod am_pgsize s = 0"
    "ht_size (hash h) = unat ((USER_END - USER_START) div am_pgsize s)" "length (ht_entries (hash h)) = length xs"
    "map_of (ht_entries (hash h)) k = Some x \<longleftrightarrow> x \<in> set xs \<and> k = key_of (va_of (page_maps s x))"
  using assms unfolding space_ok_def by auto

lemma native_okD:
  assumes "native_ok s N"
  shows "vme_enable s" "am_pgsize s \<noteq> 0" "unat (am_pgsize s) dvd 0x40000000" "vm_heads s 0 = None"
    "cpu_vm_head s \<noteq> 0 \<Longrightarrow> vm_heads s (cpu_vm_head s) \<noteq> None"
    "h \<noteq> k \<Longrightarrow> set (N h) \<inter> set (N k) = {}"
    "x \<in> set (N h) \<Longrightarrow> is_mapped (page_maps s x) \<longleftrightarrow> h = cpu_vm_head s"
    "in_user va \<Longrightarrow> os_map s va = trans s (N (cpu_vm_head s)) va"
  using assms unfolding native_ok_def by auto

section \<open>A switch\<close>

definition is_space :: "'u native \<Rightarrow> addr \<Rightarrow> bool" where
  "is_space s h \<longleftrightarrow> h = 0 \<or> vm_heads s h \<noteq> None"

text \<open>The list of a space, or the empty one of the null pointer.\<close>

lemma space_path:
  assumes "native_ok s N" "is_space s h"
  obtains p where "(if h = 0 then Inr 0 else first_of h s) = Inr p" "path (page_maps s) p (N h)" "distinct (N h)"
    "distinct (map (\<lambda>x. va_of (page_maps s x)) (N h))" "\<forall>x\<in>set (N h). in_user (va_of (page_maps s x))"
proof (cases "h = 0")
  case True
  then show ?thesis using that [of 0] native_ok_none [OF assms(1) native_okD(4) [OF assms(1)]] by simp
next
  case False
  then obtain vh where vh: "vm_heads s h = Some vh" using assms(2) by (auto simp: is_space_def)
  note ok = native_ok_space [OF assms(1) vh]
  show ?thesis using that [of "first vh"] False vh space_okD(1-4) [OF ok] by (simp add: first_of_def)
qed

lemma am_switch_fold:
  assumes ok: "native_ok s N" and head: "is_space s head" "head \<noteq> cpu_vm_head s"
  shows "am_switch head s =
    Some (Inr ((fold map_one (N head) (fold unmap_one (N (cpu_vm_head s)) s))\<lparr>cpu_vm_head := head\<rparr>))"
proof -
  let ?now = "cpu_vm_head s"
  let ?s1 = "fold unmap_one (N ?now) s"
  have now: "is_space s ?now" using native_okD(5) [OF ok] by (auto simp: is_space_def)
  obtain p where p: "(if ?now = 0 then Inr 0 else first_of ?now s) = Inr p" "path (page_maps s) p (N ?now)"
    by (rule space_path [OF ok now])
  obtain q where q: "(if head = 0 then Inr 0 else first_of head s) = Inr q" "path (page_maps s) q (N head)"
    "\<forall>x\<in>set (N head). in_user (va_of (page_maps s x))"
    by (rule space_path [OF ok head(1)])
  have q1: "(if head = 0 then Inr 0 else first_of head ?s1) = Inr q"
    using q(1) fold_unmap [of "N ?now" s] by (simp add: first_of_def split: if_splits)
  have "path (page_maps ?s1) q (N head)" by (rule path_cong [OF q(2)]) (simp add: fold_unmap)
  moreover have "\<forall>x\<in>set (N head). in_user (va_of (page_maps ?s1 x))" using q(3) by (simp add: fold_unmap)
  ultimately have "map_pages q ?s1 = Some (Inr (fold map_one (N head) ?s1))" by (rule map_pages_path)
  then show ?thesis
    using native_okD(1) [OF ok] head(2) p(1) q1 unmap_pages_path [OF p(2)] by (simp add: am_switch_def)
qed

lemma am_switch_ok:
  assumes ok: "native_ok s N" and head: "is_space s head"
  shows "\<exists>s'. am_switch head s = Some (Inr s') \<and> native_ok s' N \<and> cpu_vm_head s' = head \<and> vm_heads s' = vm_heads s \<and>
    pgalloc s' = pgalloc s \<and> usr s' = usr s \<and> am_pgsize s' = am_pgsize s \<and> (\<forall>h. trans s' (N h) = trans s (N h)) \<and>
    (\<forall>va. \<not> in_user va \<longrightarrow> os_map s' va = os_map s va)"
proof (cases "head = cpu_vm_head s")
  case True
  then show ?thesis using ok native_okD(1) [OF ok] by (simp add: am_switch_def)
next
  case False
  let ?now = "cpu_vm_head s"
  let ?s1 = "fold unmap_one (N ?now) s"
  let ?s2 = "fold map_one (N head) ?s1"
  let ?s' = "?s2\<lparr>cpu_vm_head := head\<rparr>"
  have now: "is_space s ?now" using native_okD(5) [OF ok] by (auto simp: is_space_def)
  obtain p where p: "distinct (N ?now)" "\<forall>x\<in>set (N ?now). in_user (va_of (page_maps s x))"
    by (rule space_path [OF ok now])
  obtain q where q: "distinct (map (\<lambda>x. va_of (page_maps s x)) (N head))" "\<forall>x\<in>set (N head). in_user (va_of (page_maps s x))"
    by (rule space_path [OF ok head])
  note same = fold_unmap [of "N ?now" s] fold_map [of "N head" ?s1]
  have t: "trans ?s' xs = trans s xs" "trans ?s1 xs = trans s xs" for xs by (rule trans_cong, simp add: same)+
  have dq: "distinct (map (\<lambda>x. va_of (page_maps ?s1 x)) (N head))" using q(1) same by simp
  have os: "os_map ?s' va = (case trans s (N head) va of None \<Rightarrow>
      if va \<in> (\<lambda>x. va_of (page_maps s x)) ` set (N ?now) then None else os_map s va | Some y \<Rightarrow> Some y)" for va
    using os_fold_map [OF dq, of va] os_fold_unmap [OF p(1), of s va] native_okD(7) [OF ok] t(2) by (simp split: option.splits)
  have "native_ok ?s' N"
    unfolding native_ok_def
  proof (intro conjI allI)
    show "case vm_heads ?s' h of None \<Rightarrow> N h = [] | Some vh \<Rightarrow> space_ok ?s' vh (N h)" for h
    proof (cases "vm_heads s h")
      case None
      then show ?thesis using same native_ok_none [OF ok None] by simp
    next
      case (Some vh)
      then show ?thesis using same space_ok_cong [OF native_ok_space [OF ok Some], of ?s'] by simp
    qed
    show "h \<noteq> k \<longrightarrow> set (N h) \<inter> set (N k) = {}" for h k using native_okD(6) [OF ok] by blast
    show "\<forall>x\<in>set (N h). is_mapped (page_maps ?s' x) = (h = cpu_vm_head ?s')" for h
      using same native_okD(6) [OF ok, of h head] native_okD(7) [OF ok, of _ h] False by auto
    show "in_user va \<longrightarrow> os_map ?s' va = trans ?s' (N (cpu_vm_head ?s')) va" for va
    proof
      assume "in_user va"
      then have n: "os_map s va = trans s (N ?now) va" by (rule native_okD(8) [OF ok])
      have "trans s (N ?now) va = None" if "va \<notin> (\<lambda>x. va_of (page_maps s x)) ` set (N ?now)"
        using that by (simp only: trans_None_iff not_False_eq_True)
      then show "os_map ?s' va = trans ?s' (N (cpu_vm_head ?s')) va"
        unfolding os t(1) by (simp add: n split: option.split)
    qed
  qed (use same native_okD(1-4) [OF ok] head in \<open>auto simp: is_space_def\<close>)
  moreover have "\<forall>va. \<not> in_user va \<longrightarrow> os_map ?s' va = os_map s va"
  proof (intro allI impI)
    fix va assume "\<not> in_user va"
    then have "trans s (N head) va = None" "va \<notin> (\<lambda>x. va_of (page_maps s x)) ` set (N ?now)"
      using p(2) q(2) by (auto simp: trans_None_iff)
    then show "os_map ?s' va = os_map s va" using os [of va] by simp
  qed
  ultimately show ?thesis using am_switch_fold [OF ok head False] t(1) same by auto
qed

section \<open>Mapping a page\<close>

text \<open>There are fewer pages than the table has room for.\<close>

lemma pages_bound:
  assumes "\<forall>v\<in>V. in_user v \<and> v mod p = 0" "p \<noteq> 0" "unat p dvd 0x40000000"
  shows "finite V" "card V \<le> unat ((USER_END - USER_START) div p)"
proof -
  obtain c where c: "0x40000000 = unat p * c" using assms(3) by (elim dvdE)
  have p: "0 < unat p" using assms(2) by (simp add: unat_gt_0)
  have V: "V \<subseteq> (\<lambda>k. of_nat (unat p * k)) ` {c..<3 * c}"
  proof
    fix v assume v: "v \<in> V"
    have "unat v mod unat p = 0" using assms(1) v by (metis unat_mod unsigned_0)
    then obtain k where k: "unat v = unat p * k" by auto
    have "in_user v" using assms(1) v by blast
    then have "0x40000000 \<le> unat v" "unat v < 3 * 0x40000000"
      by (simp_all add: in_user_def USER_START_def USER_END_def word_le_nat_alt word_less_nat_alt)
    then have "unat p * c \<le> unat p * k" "unat p * k < unat p * (3 * c)" unfolding k c by (simp_all only: ac_simps)
    then have "k \<in> {c..<3 * c}" using p by (simp only: mult_le_cancel1 mult_less_cancel1) simp
    moreover have "v = of_nat (unat p * k)" using k by (metis of_nat_unat ucast_id)
    ultimately show "v \<in> (\<lambda>k. of_nat (unat p * k)) ` {c..<3 * c}" by blast
  qed
  show "finite V" by (rule finite_subset [OF V]) simp
  have "card V \<le> card {c..<3 * c}" by (rule order_trans [OF card_mono [OF _ V] card_image_le]) simp_all
  also have "\<dots> = 2 * c" by simp
  also have "\<dots> = unat ((USER_END - USER_START) div p)"
  proof -
    have "unat (USER_END - USER_START) = 2 * 0x40000000" by (simp add: USER_END_def USER_START_def)
    also have "\<dots> = unat p * (2 * c)" unfolding c by simp
    finally have "unat (USER_END - USER_START) = unat p * (2 * c)" .
    then show ?thesis using p by (simp add: unat_div)
  qed
  finally show "card V \<le> unat ((USER_END - USER_START) div p)" .
qed

lemma space_room:
  assumes ok: "native_ok s N" and vh: "vm_heads s h = Some vh"
    and va: "in_user va" "va mod am_pgsize s = 0" "trans s (N h) va = None"
  shows "length (ht_entries (hash vh)) < ht_size (hash vh)"
proof -
  note sp = space_okD [OF native_ok_space [OF ok vh]]
  let ?V = "insert va ((\<lambda>x. va_of (page_maps s x)) ` set (N h))"
  have V: "\<forall>v\<in>?V. in_user v \<and> v mod am_pgsize s = 0" using va(1,2) sp(4) by auto
  have "card ?V = Suc (card ((\<lambda>x. va_of (page_maps s x)) ` set (N h)))"
    using va(3) by (simp add: trans_None_iff)
  also have "card ((\<lambda>x. va_of (page_maps s x)) ` set (N h)) = length (N h)"
    using sp(3) distinct_card by fastforce
  finally show ?thesis
    using pages_bound(2) [OF V native_okD(2,3) [OF ok]] sp(5,6) by simp
qed

lemma find_page_new:
  assumes ok: "native_ok s N" and vh: "vm_heads s h = Some vh"
    and va: "in_user va" "va mod am_pgsize s = 0" "trans s (N h) va = None"
    and alloc: "pgalloc s = Some f" "f (usr s) = (pp, u)" "pp \<noteq> 0"
  shows "find_page va vh s = Inr (pp, vh\<lparr>hash := (hash vh)\<lparr>ht_entries := (key_of va, pp) # ht_entries (hash vh)\<rparr>, nr_page := nr_page vh + 1\<rparr>,
    s\<lparr>usr := u, page_maps := (page_maps s)(pp := (page_maps s pp)\<lparr>key_text := key_of va\<rparr>)\<rparr>)"
proof -
  note sp = space_okD [OF native_ok_space [OF ok vh]]
  have "map_of (ht_entries (hash vh)) (key_of va) = None"
  proof (rule ccontr)
    assume "map_of (ht_entries (hash vh)) (key_of va) \<noteq> None"
    then obtain x where x: "x \<in> set (N h)" "key_of va = key_of (va_of (page_maps s x))" using sp(7) by auto
    then have "va = va_of (page_maps s x)" using key_of_inj va(1) sp(4) by blast
    then show False using va(3) x(1) by (auto simp: trans_None_iff)
  qed
  then show ?thesis using alloc space_room [OF ok vh va] by (simp add: find_page_def call_pgalloc_def Let_def)
qed

text \<open>The state after a page was put in front of its list.\<close>

lemma map_page_new:
  assumes ok: "native_ok s N" and vh: "vm_heads s h = Some vh"
    and va: "in_user va" "va mod am_pgsize s = 0" "trans s (N h) va = None" "pa mod am_pgsize s = 0"
    and alloc: "pgalloc s = Some f" "f (usr s) = (pp, u)" "pp \<noteq> 0" "\<forall>k. pp \<notin> set (N k)"
  shows "\<exists>s'. map_page (Some h) va pa prot s = Inr s' \<and> native_ok s' (N(h := pp # N h)) \<and>
    usr s' = u \<and> pgalloc s' = pgalloc s \<and> am_pgsize s' = am_pgsize s \<and> cpu_vm_head s' = cpu_vm_head s \<and>
    (\<forall>k. vm_heads s' k = None \<longleftrightarrow> vm_heads s k = None) \<and>
    trans s' (pp # N h) = (trans s (N h))(va \<mapsto> (pa - PMEM_START, prot AND MMAP_READ \<noteq> 0, prot AND MMAP_WRITE \<noteq> 0)) \<and>
    (\<forall>k. k \<noteq> h \<longrightarrow> trans s' (N k) = trans s (N k)) \<and> (\<forall>v. \<not> in_user v \<longrightarrow> os_map s' v = os_map s v)"
proof -
  note sp = space_okD [OF native_ok_space [OF ok vh]]
  have h: "h \<noteq> 0" using vh native_okD(4) [OF ok] by auto
  define vh' where "vh' = vh\<lparr>hash := (hash vh)\<lparr>ht_entries := (key_of va, pp) # ht_entries (hash vh)\<rparr>, nr_page := nr_page vh + 1, first := pp\<rparr>"
  define page where "page = (page_maps s pp)\<lparr>key_text := key_of va, va_of := va, pa_of := pa, prot_of := prot, is_mapped := False, next_of := first vh\<rparr>"
  define s1 where "s1 = s\<lparr>usr := u, page_maps := (page_maps s)(pp := page), vm_heads := (vm_heads s)(h \<mapsto> vh')\<rparr>"
  define s' where "s' = (if h = cpu_vm_head s then map_one pp s1 else s1)"
  have run: "map_page (Some h) va pa prot s = Inr s'"
    using find_page_new [OF ok vh va(1-3) alloc(1-3)] va(1,2,4) vh h
    by (simp add: map_page_def s'_def s1_def page_def vh'_def Let_def)
  have other: "next_of (page_maps s' x) = next_of (page_maps s x)" "va_of (page_maps s' x) = va_of (page_maps s x)"
    "pa_of (page_maps s' x) = pa_of (page_maps s x)" "prot_of (page_maps s' x) = prot_of (page_maps s x)"
    "is_mapped (page_maps s' x) = is_mapped (page_maps s x)" if "x \<noteq> pp" for x
    using that by (simp_all add: s'_def s1_def)
  have new: "va_of (page_maps s' pp) = va" "next_of (page_maps s' pp) = first vh" "is_mapped (page_maps s' pp) \<longleftrightarrow> h = cpu_vm_head s"
    "pte (page_maps s' pp) = (pa - PMEM_START, prot AND MMAP_READ \<noteq> 0, prot AND MMAP_WRITE \<noteq> 0)"
    by (simp_all add: s'_def s1_def page_def pte_def)
  have rest: "vm_heads s' = (vm_heads s)(h \<mapsto> vh')" "usr s' = u" "pgalloc s' = pgalloc s" "am_pgsize s' = am_pgsize s"
    "cpu_vm_head s' = cpu_vm_head s" "vme_enable s' = vme_enable s"
    by (simp_all add: s'_def s1_def)
  have os: "os_map s' = (if h = cpu_vm_head s then (os_map s)(va \<mapsto> pte (page_maps s' pp)) else os_map s)"
    unfolding new(4) by (simp add: s'_def os_map_one s1_def page_def pte_def)
  have "x \<noteq> pp" if "x \<in> set (N k)" for x k using alloc(4) that by blast
  then have t: "trans s' (N k) = trans s (N k)" for k by (intro trans_cong) (simp add: other)
  have "space_ok s' vh' (pp # N h)"
  proof -
    have ne: "x \<noteq> pp" if "x \<in> set (N h)" for x using alloc(4) that by blast
    have vas: "map (\<lambda>x. va_of (page_maps s' x)) (N h) = map (\<lambda>x. va_of (page_maps s x)) (N h)" using ne other by simp
    have "path (page_maps s') (first vh) (N h)" using sp(1) path_cong ne other(1) by metis
    moreover have "va \<notin> set (map (\<lambda>x. va_of (page_maps s x)) (N h))" using va(3) by (auto simp: trans_None_iff)
    moreover have "map_of (ht_entries (hash vh')) k = Some x \<longleftrightarrow>
        x \<in> set (pp # N h) \<and> k = key_of (va_of (page_maps s' x))" for k x
    proof (cases "k = key_of va")
      case True
      have "key_of va \<noteq> key_of (va_of (page_maps s y))" if "y \<in> set (N h)" for y
        using key_of_inj [OF va(1)] sp(4) that va(3) by (auto simp: trans_None_iff)
      then have "x \<notin> set (N h) \<or> key_of va \<noteq> key_of (va_of (page_maps s' x))" using ne other(2) by metis
      then show ?thesis using True new(1) by (cases "x = pp") (auto simp: vh'_def)
    next
      case False
      then show ?thesis using sp(7) [of k x] new(1) ne other(2) by (auto simp: vh'_def)
    qed
    moreover have "pp \<notin> set (N h)" using alloc(4) by simp
    ultimately show ?thesis
      using sp(2-6) alloc(3) ne va(1,2) unfolding space_ok_def by (auto simp: vas vh'_def new rest other)
  qed
  have "native_ok s' (N(h := pp # N h))"
    unfolding native_ok_def
  proof (intro conjI allI)
    show "case vm_heads s' k of None \<Rightarrow> (N(h := pp # N h)) k = [] | Some vk \<Rightarrow> space_ok s' vk ((N(h := pp # N h)) k)" for k
    proof (cases "k = h")
      case True
      then show ?thesis using rest(1) \<open>space_ok s' vh' (pp # N h)\<close> by simp
    next
      case False
      show ?thesis
      proof (cases "vm_heads s k")
        case None
        then show ?thesis using False rest(1) native_ok_none [OF ok None] by simp
      next
        case (Some vk)
        have "space_ok s' vk (N k)"
          by (rule space_ok_cong [OF native_ok_space [OF ok Some]]) (use rest alloc(4) other in \<open>metis\<close>)+
        then show ?thesis using False rest(1) Some by simp
      qed
    qed
    show "k \<noteq> l \<longrightarrow> set ((N(h := pp # N h)) k) \<inter> set ((N(h := pp # N h)) l) = {}" for k l
      using native_okD(6) [OF ok, of k l] alloc(4) by auto
    show "\<forall>x\<in>set ((N(h := pp # N h)) k). is_mapped (page_maps s' x) = (k = cpu_vm_head s')" for k
      using native_okD(7) [OF ok, of _ k] alloc(4) new(3) other(5) rest(5) by (metis fun_upd_apply set_ConsD)
    show "in_user v \<longrightarrow> os_map s' v = trans s' ((N(h := pp # N h)) (cpu_vm_head s')) v" for v
      using native_okD(8) [OF ok, of v] os t new(1) rest(5) by auto
  qed (use rest native_okD(1-5) [OF ok] h vh in \<open>auto\<close>)
  then show ?thesis using run rest t os new va(1) vh by auto
qed

section \<open>The specification\<close>

text \<open>Address spaces as functions from addresses, one of them current.\<close>

record spaces =
  space_of :: "addr \<rightharpoonup> (addr \<rightharpoonup> addr \<times> bool \<times> bool)"
  current :: addr

datatype vm_op = Protect | Map addr addr addr u32 | Switch addr

primrec run_op :: "vm_op \<Rightarrow> 'u native \<Rightarrow> 'u native result option" where
  "run_op Protect s = Some (map_sum id snd (protect (Some \<lparr>as64_pgsize = 0, as64_area = (0, 0), as64_ptr = 0\<rparr>) s))"
| "run_op (Map h va pa prot) s = Some (map_page (Some h) va pa prot s)"
| "run_op (Switch h) s = am_switch h s"

text \<open>\<open>p\<close> is the address of the new space.\<close>

primrec spec_op :: "addr \<Rightarrow> vm_op \<Rightarrow> spaces \<Rightarrow> spaces" where
  "spec_op p Protect A = A\<lparr>space_of := (space_of A)(p \<mapsto> Map.empty)\<rparr>"
| "spec_op p (Map h va pa prot) A =
     A\<lparr>space_of := (space_of A)(h \<mapsto> (the (space_of A h))(va \<mapsto>
       (pa - PMEM_START, prot AND MMAP_READ \<noteq> 0, prot AND MMAP_WRITE \<noteq> 0)))\<rparr>"
| "spec_op p (Switch h) A = A\<lparr>current := h\<rparr>"

text \<open>The calls a client may make: it maps an aligned page of the user's area, and no page twice.\<close>

primrec legal :: "addr \<Rightarrow> spaces \<Rightarrow> vm_op \<Rightarrow> bool" where
  "legal pg A Protect \<longleftrightarrow> True"
| "legal pg A (Map h va pa prot) \<longleftrightarrow>
     in_user va \<and> va mod pg = 0 \<and> pa mod pg = 0 \<and> (case space_of A h of None \<Rightarrow> False | Some t \<Rightarrow> t va = None)"
| "legal pg A (Switch h) \<longleftrightarrow> h = 0 \<or> space_of A h \<noteq> None"

definition view :: "spaces \<Rightarrow> addr \<rightharpoonup> addr \<times> bool \<times> bool" where
  "view A va = (case space_of A (current A) of None \<Rightarrow> None | Some t \<Rightarrow> t va)"

definition vm_abs :: "'u native \<Rightarrow> (addr \<Rightarrow> addr list) \<Rightarrow> spaces" where
  "vm_abs s N = \<lparr>space_of = (\<lambda>h. if vm_heads s h = None then None else Some (trans s (N h))), current = cpu_vm_head s\<rparr>"

lemma view_abs:
  assumes "native_ok s N" "in_user va"
  shows "os_map s va = view (vm_abs s N) va"
  using native_okD(8) [OF assms] native_ok_none [OF assms(1), of "cpu_vm_head s"]
  by (auto simp: view_def vm_abs_def)

lemma protect_ok:
  assumes ok: "native_ok s N" and alloc: "pgalloc s = Some f" "f (usr s) = (p, u)" "p \<noteq> 0" "vm_heads s p = None"
  shows "\<exists>s'. run_op Protect s = Some (Inr s') \<and> native_ok s' N \<and> vm_abs s' N = spec_op p Protect (vm_abs s N)"
proof -
  define s' where "s' = s\<lparr>usr := u, vm_heads := (vm_heads s)(p \<mapsto>
    \<lparr>first = 0, hash = \<lparr>ht_size = unat ((USER_END - USER_START) div am_pgsize s), ht_entries = []\<rparr>, nr_page = 0\<rparr>)\<rparr>"
  have run: "run_op Protect s = Some (Inr s')"
    using alloc by (simp add: protect_def call_pgalloc_def s'_def Let_def)
  have N: "N p = []" using native_ok_none [OF ok alloc(4)] .
  have t: "trans s' xs = trans s xs" for xs by (rule trans_cong) (simp add: s'_def)
  have "native_ok s' N"
    unfolding native_ok_def
  proof (intro conjI allI)
    show "case vm_heads s' k of None \<Rightarrow> N k = [] | Some vk \<Rightarrow> space_ok s' vk (N k)" for k
    proof (cases "k = p")
      case True
      then show ?thesis using N by (simp add: s'_def space_ok_def)
    next
      case False
      show ?thesis
      proof (cases "vm_heads s k")
        case None
        then show ?thesis using False native_ok_none [OF ok None] by (simp add: s'_def)
      next
        case (Some vk)
        have "space_ok s' vk (N k)" by (rule space_ok_cong [OF native_ok_space [OF ok Some]]) (simp_all add: s'_def)
        then show ?thesis using False Some by (simp add: s'_def)
      qed
    qed
    show "in_user va \<longrightarrow> os_map s' va = trans s' (N (cpu_vm_head s')) va" for va
      using native_okD(8) [OF ok, of va] t by (simp add: s'_def)
    show "k \<noteq> l \<longrightarrow> set (N k) \<inter> set (N l) = {}" for k l using native_okD(6) [OF ok] by blast
    show "\<forall>x\<in>set (N h). is_mapped (page_maps s' x) = (h = cpu_vm_head s')" for h
      using native_okD(7) [OF ok] by (simp add: s'_def)
  qed (use native_okD(1-5) [OF ok] alloc(3) in \<open>auto simp: s'_def\<close>)
  moreover have "vm_abs s' N = spec_op p Protect (vm_abs s N)"
    using t N by (auto simp: vm_abs_def s'_def fun_eq_iff)
  ultimately show ?thesis using run by blast
qed

lemma native_refines_step:
  assumes ok: "native_ok s N" and alloc: "pgalloc s = Some f" "f (usr s) = (p, u)" "p \<noteq> 0" "vm_heads s p = None" "\<forall>k. p \<notin> set (N k)"
    and legal: "legal (am_pgsize s) (vm_abs s N) op"
  shows "\<exists>s' N'. run_op op s = Some (Inr s') \<and> native_ok s' N' \<and> vm_abs s' N' = spec_op p op (vm_abs s N)"
proof (cases op)
  case Protect
  then show ?thesis using protect_ok [OF ok alloc(1-4)] by blast
next
  case (Map h va pa prot)
  then obtain vh where vh: "vm_heads s h = Some vh" and l: "in_user va" "va mod am_pgsize s = 0" "pa mod am_pgsize s = 0" "trans s (N h) va = None"
    using legal by (auto simp: vm_abs_def split: if_splits)
  obtain s' where s': "map_page (Some h) va pa prot s = Inr s'" "native_ok s' (N(h := p # N h))" "cpu_vm_head s' = cpu_vm_head s"
    "\<forall>k. vm_heads s' k = None \<longleftrightarrow> vm_heads s k = None"
    "trans s' (p # N h) = (trans s (N h))(va \<mapsto> (pa - PMEM_START, prot AND MMAP_READ \<noteq> 0, prot AND MMAP_WRITE \<noteq> 0))"
    "\<forall>k. k \<noteq> h \<longrightarrow> trans s' (N k) = trans s (N k)"
    using map_page_new [OF ok vh l(1,2,4,3) alloc(1-3,5), of prot] by blast
  have "vm_abs s' (N(h := p # N h)) = spec_op p op (vm_abs s N)"
    unfolding vm_abs_def Map using s'(3-6) vh by (auto simp: fun_eq_iff simp del: trans_simps)
  then show ?thesis using s'(1,2) Map by auto
next
  case (Switch h)
  then have "is_space s h" using legal by (auto simp: vm_abs_def is_space_def split: if_splits)
  then obtain s' where s': "am_switch h s = Some (Inr s')" "native_ok s' N" "cpu_vm_head s' = h" "vm_heads s' = vm_heads s"
    "\<forall>h. trans s' (N h) = trans s (N h)"
    using am_switch_ok [OF ok] by blast
  then have "vm_abs s' N = spec_op p op (vm_abs s N)" using Switch by (simp add: vm_abs_def fun_eq_iff)
  then show ?thesis using s'(1,2) Switch by auto
qed

section \<open>Mapping a page again\<close>

lemma unmap_pages_cycle:
  assumes "unmap_pages p s = Some y"
  shows "\<forall>C. p \<in> C \<longrightarrow> 0 \<notin> C \<longrightarrow> \<not> (\<forall>z\<in>C. next_of (page_maps s z) \<in> C)"
  using assms
proof (rule unmap_pages.raw_induct [rotated])
  fix f :: "addr \<Rightarrow> 'a native \<Rightarrow> 'a native option" and p s y
  assume IH: "\<And>p s y. f p s = Some y \<Longrightarrow> \<forall>C. p \<in> C \<longrightarrow> 0 \<notin> C \<longrightarrow> \<not> (\<forall>z\<in>C. next_of (page_maps s z) \<in> C)"
    and body: "(if p = 0 then Some s else let s = unmap_one p s in f (next_of (page_maps s p)) s) = Some y"
  show "\<forall>C. p \<in> C \<longrightarrow> 0 \<notin> C \<longrightarrow> \<not> (\<forall>z\<in>C. next_of (page_maps s z) \<in> C)"
  proof (intro allI impI notI)
    fix C assume C: "p \<in> C" "0 \<notin> C" "\<forall>z\<in>C. next_of (page_maps s z) \<in> C"
    then have "f (next_of (page_maps s p)) (unmap_one p s) = Some y" using body by (auto simp: Let_def split: if_splits)
    from IH [OF this] C show False by auto
  qed
qed

lemma path_split:
  "path P p (ys @ x # zs) \<Longrightarrow> p \<in> insert x (set ys) \<and> (\<forall>y\<in>set ys. next_of (P y) \<in> insert x (set ys))"
proof (induction ys arbitrary: p)
  case (Cons y ys)
  then show ?case by auto
qed simp

lemma native_remap:
  assumes ok: "native_ok s N" and vh: "vm_heads s h = Some vh" "h = cpu_vm_head s"
    and va: "in_user va" "va mod am_pgsize s = 0" "trans s (N h) va \<noteq> None" "pa mod am_pgsize s = 0" and head: "head \<noteq> h"
  shows "\<exists>s'. map_page (Some h) va pa prot s = Inr s' \<and> am_switch head s' = None"
proof -
  note sp = space_okD [OF native_ok_space [OF ok vh(1)]]
  obtain x where x: "x \<in> set (N h)" "va_of (page_maps s x) = va" using va(3) trans_None_iff [of s "N h" va] by auto
  then have find: "find_page va vh s = Inr (x, vh, s)" using sp(7) [of "key_of va" x] by (simp add: find_page_def)
  have h: "h \<noteq> 0" using vh native_okD(4) [OF ok] by auto
  define s' where "s' = map_one x (s\<lparr>page_maps := (page_maps s)(x := (page_maps s x)
      \<lparr>va_of := va, pa_of := pa, prot_of := prot, is_mapped := False, next_of := first vh\<rparr>),
      vm_heads := (vm_heads s)(h \<mapsto> vh\<lparr>first := x\<rparr>)\<rparr>)"
  have run: "map_page (Some h) va pa prot s = Inr s'"
    using find va vh h by (simp add: map_page_def s'_def Let_def)
  obtain ys zs where N: "N h = ys @ x # zs" using x(1) split_list by fastforce
  let ?C = "insert x (set ys)"
  have p: "first vh \<in> ?C" "\<forall>y\<in>set ys. next_of (page_maps s y) \<in> ?C" using path_split sp(1) unfolding N by blast+
  have "0 \<notin> ?C" using path_0 [OF sp(1)] N by auto
  moreover have "\<forall>z\<in>?C. next_of (page_maps s' z) \<in> ?C" using p sp(2) N by (auto simp: s'_def)
  ultimately have "unmap_pages x s' = None" using unmap_pages_cycle [of x s'] by (cases "unmap_pages x s'") blast+
  moreover have "cpu_vm_head s' = h" "vme_enable s'" "first_of h s' = Inr x"
    using vh native_okD(1) [OF ok] by (simp_all add: s'_def first_of_def)
  ultimately have "am_switch head s' = None" using head h by (simp add: am_switch_def)
  then show ?thesis using run by blast
qed

section \<open>Properties\<close>

text \<open>A state with one empty space, which is current, and an allocator that counts upwards.\<close>

definition demo_native :: "addr native" where
  "demo_native = \<lparr>vm_heads = [0x2000000 \<mapsto> \<lparr>first = 0, hash = \<lparr>ht_size = 524288, ht_entries = []\<rparr>, nr_page = 0\<rparr>],
     page_maps = (\<lambda>_. \<lparr>va_of = 0, pa_of = 0, next_of = 0, prot_of = 0, is_mapped = False, key_text = []\<rparr>),
     cpu_vm_head = 0x2000000, vme_enable = True, pgalloc = Some (\<lambda>u. (u, u + 4096)), usr = 0x3000000, am_pgsize = 4096,
     os_map = Map.empty\<rparr>"

lemma demo_native_ok: "native_ok demo_native (\<lambda>_. [])"
  by (auto simp: native_ok_def demo_native_def space_ok_def USER_START_def USER_END_def)

text \<open>
  C12. The address spaces of the native platform refine their specification: if the allocator returns
  a fresh address, then creating a space, mapping a page that is not mapped yet and switching
  return, have the effect of the specification on the spaces, and leave the process with exactly
  the mappings of the current space in the area of the user.
\<close>

theorem native_refines:
  assumes "native_ok s N" "pgalloc s = Some f" "f (usr s) = (p, u)" "p \<noteq> 0" "vm_heads s p = None" "\<forall>k. p \<notin> set (N k)"
    and "legal (am_pgsize s) (vm_abs s N) op"
  shows "\<exists>s' N'. run_op op s = Some (Inr s') \<and> native_ok s' N' \<and> vm_abs s' N' = spec_op p op (vm_abs s N) \<and>
    (\<forall>va\<in>Collect in_user. os_map s' va = view (vm_abs s' N') va)"
  using native_refines_step [OF assms] view_abs by blast

lemma native_refines_witness:
  "\<exists>s'. run_op (Map 0x2000000 0x40001000 0x1005000 3) demo_native = Some (Inr s') \<and> os_map s' 0x40001000 = Some (0x5000, True, True)"
proof -
  have u: "in_user 0x40001000" by (simp add: in_user_def USER_START_def USER_END_def)
  then have l: "legal (am_pgsize demo_native) (vm_abs demo_native (\<lambda>_. [])) (Map 0x2000000 0x40001000 0x1005000 3)"
    by (simp add: demo_native_def vm_abs_def)
  have a: "pgalloc demo_native = Some (\<lambda>u. (u, u + 4096))" "(usr demo_native, usr demo_native + 4096) = (0x3000000, 0x3001000)"
    "vm_heads demo_native 0x3000000 = None" by (simp_all add: demo_native_def)
  obtain s' N' where s': "run_op (Map 0x2000000 0x40001000 0x1005000 3) demo_native = Some (Inr s')"
    "vm_abs s' N' = spec_op 0x3000000 (Map 0x2000000 0x40001000 0x1005000 3) (vm_abs demo_native (\<lambda>_. []))"
    "\<forall>va\<in>Collect in_user. os_map s' va = view (vm_abs s' N') va"
    using native_refines [OF demo_native_ok a(1,2) _ a(3) _ l] by auto
  have "os_map s' 0x40001000 = view (vm_abs s' N') 0x40001000" using s'(3) u by blast
  then show ?thesis
    using s'(1) unfolding s'(2)
    by (simp add: view_def vm_abs_def demo_native_def PMEM_START_def MMAP_READ_def MMAP_WRITE_def)
qed

text \<open>
  C24. Mapping a page of the current space a second time succeeds but closes its list to a cycle, so the
  next switch to another space never returns.
\<close>

theorem native_remap_hangs:
  assumes "native_ok s N" "vm_heads s h = Some vh" "h = cpu_vm_head s"
    and "in_user va" "va mod am_pgsize s = 0" "trans s (N h) va \<noteq> None" "pa mod am_pgsize s = 0" "head \<noteq> h"
  shows "\<exists>s'. map_page (Some h) va pa prot s = Inr s' \<and> am_switch head s' = None"
  using assms by (rule native_remap)

text \<open>The state with one page in the space.\<close>

definition demo_page :: "addr native" where
  "demo_page = demo_native
     \<lparr>vm_heads := [0x2000000 \<mapsto> \<lparr>first = 0x3000000, hash = \<lparr>ht_size = 524288, ht_entries = [(key_of 0x40001000, 0x3000000)]\<rparr>, nr_page = 1\<rparr>],
      page_maps := (\<lambda>_. \<lparr>va_of = 0x40001000, pa_of = 0x1005000, next_of = 0, prot_of = 3, is_mapped = True, key_text = key_of 0x40001000\<rparr>),
      os_map := [0x40001000 \<mapsto> (0x5000, True, True)]\<rparr>"

lemma demo_page_ok: "native_ok demo_page ((\<lambda>_. [])(0x2000000 := [0x3000000]))"
  by (auto simp: native_ok_def demo_page_def demo_native_def space_ok_def USER_START_def USER_END_def in_user_def pte_def
      PMEM_START_def MMAP_READ_def MMAP_WRITE_def)

lemma native_remap_hangs_witness:
  "\<exists>s'. map_page (Some 0x2000000) 0x40001000 0x1006000 1 demo_page = Inr s' \<and> am_switch 0 s' = None"
proof (rule native_remap_hangs [OF demo_page_ok])
  show "vm_heads demo_page 0x2000000 = Some \<lparr>first = 0x3000000, hash = \<lparr>ht_size = 524288, ht_entries = [(key_of 0x40001000, 0x3000000)]\<rparr>, nr_page = 1\<rparr>"
    by (simp add: demo_page_def)
qed (simp_all add: demo_page_def demo_native_def in_user_def USER_START_def USER_END_def)

end
