(* ===== verification/Native_Cte.thy ===== *)
theory Native_Cte
  imports Native_Vme
begin

text \<open>
  Traps and contexts of the native platform on an x86-64 host (\<open>am/src/native/cte.c\<close>, \<open>trap.S\<close> and the
  functions of \<open>platform.c\<close> they call).  Interrupts, yields and faults are signals of the host; the
  signal handler saves the interrupted registers as a context on a stack of the program and makes
  the host continue at \<open>irq_handle\<close>, which calls the client and then jumps to an address that faults,
  so that a second signal can restore the chosen context.  Of a context of the host the general
  registers and the signal mask are modelled; its floating-point part, which \<open>cte.c\<close> copies as well,
  is not.
\<close>

section \<open>State\<close>

datatype greg = RDI | RSI | RDX | RCX | RAX | RSP | RIP | OtherReg nat

datatype signal = SIGUSR1 | SIGUSR2 | SIGVTALRM | SIGSEGV | OtherSignal nat

record ucontext =
  gregs :: "greg \<Rightarrow> u64"
  uc_sigmask :: "signal set"

record Context =
  ksp :: addr
  vm_head :: addr
  uc :: ucontext

record Event64 =
  event64 :: event
  cause64 :: u64
  ref64 :: u64
  msg64 :: "signal option"

text \<open>Addresses of the program and of \<open>sigprocmask\<close>, and the size of a context on the host.\<close>

record program =
  text_start :: addr
  text_end :: addr
  irq_handle_at :: addr
  kcontext_start_at :: addr
  sigprocmask_at :: addr
  ctx_size :: u64

text \<open>
  The process: the address spaces, the other fields of \<open>thiscpu\<close>, the contexts at their addresses, the
  context saved as an example, and the registers and the signal mask the process runs with.
\<close>

record 'u host =
  vm :: "'u native"
  cpu_ksp :: addr
  cpu_ev :: Event64
  contexts :: "addr \<Rightarrow> Context"
  uc_example :: ucontext
  regs :: ucontext
  handlers :: "signal set"
  timer_hz :: nat

section \<open>The platform\<close>

definition am_intr_sigmask :: "signal set" where "am_intr_sigmask = {SIGVTALRM, SIGUSR1}"

definition is_sigmask_sti :: "signal set \<Rightarrow> bool" where
  "is_sigmask_sti m \<longleftrightarrow> SIGVTALRM \<notin> m"

definition set_context :: "addr \<Rightarrow> (Context \<Rightarrow> Context) \<Rightarrow> 'u host \<Rightarrow> 'u host" where
  "set_context c f s = s\<lparr>contexts := (contexts s)(c := f (contexts s c))\<rparr>"

definition set_greg :: "greg \<Rightarrow> u64 \<Rightarrow> ucontext \<Rightarrow> ucontext" where
  "set_greg r v u = u\<lparr>gregs := (gregs u)(r := v)\<rparr>"

section \<open>Signals\<close>

definition SYSCALL_INSTR_LEN :: u64 where "SYSCALL_INSTR_LEN = 7"
definition SEGV_MAPERR :: u64 where "SEGV_MAPERR = 1"
definition SEGV_ACCERR :: u64 where "SEGV_ACCERR = 2"

definition signal_safe :: "program \<Rightarrow> addr \<Rightarrow> 'u host \<Rightarrow> bool" where
  "signal_safe L pc s \<longleftrightarrow>
     (text_start L \<le> pc \<and> pc < text_end L) \<or> am_in_userspace pc (vm s) \<or> pc = sigprocmask_at L + 13"

definition setup_stack :: "program \<Rightarrow> event \<Rightarrow> ucontext \<Rightarrow> 'u host \<Rightarrow> ucontext \<times> 'u host" where
  "setup_stack L ev u s =
     (let pc = gregs u RIP;
          trap_from_user = am_in_userspace pc (vm s)
      in if (ev = EVENT_IRQ_IODEV \<or> ev = EVENT_IRQ_TIMER) \<and> \<not> signal_safe L pc s then (u, s)
         else
           let pc = (if ev = EVENT_SYSCALL then pc + SYSCALL_INSTR_LEN else pc);
               u = set_greg RIP pc u;
               sp = (if trap_from_user then cpu_ksp s else gregs u RSP);
               sp = sp - ctx_size L;
               sp = (if (sp + 8) mod 16 \<noteq> 0 then sp - 8 else sp);
               c = sp;
               s = set_context c (\<lambda>x. x\<lparr>uc := u\<rparr>) s;
               u = u\<lparr>uc_sigmask := am_intr_sigmask\<rparr>
           in (set_greg RSP c (set_greg RIP (irq_handle_at L) (set_greg RDI c u)), s))"

definition iret :: "ucontext \<Rightarrow> 'u host \<Rightarrow> ucontext \<times> 'u host" where
  "iret u s = (let c = gregs u RDI in (uc (contexts s c), s\<lparr>cpu_ksp := ksp (contexts s c)\<rparr>))"

text \<open>
  The signal handler.  The arguments are the signal, the fields \<open>si_code\<close> and \<open>si_addr\<close>, and the
  interrupted context, which it changes.
\<close>

definition sig_handler :: "program \<Rightarrow> signal \<Rightarrow> u64 \<Rightarrow> addr \<Rightarrow> ucontext \<Rightarrow> 'u host \<Rightarrow> (ucontext \<times> 'u host) result" where
  "sig_handler L sig si_code si_addr u s =
     (let ev = \<lparr>event64 = EVENT_ERROR, cause64 = 0, ref64 = 0, msg64 = None\<rparr>;
          finish = (\<lambda>ev.
            let ev = (if event64 ev = EVENT_ERROR then ev\<lparr>ref64 := si_addr, cause64 := si_code, msg64 := Some sig\<rparr> else ev)
            in Inr (setup_stack L (event64 ev) u (s\<lparr>cpu_ev := ev\<rparr>)))
      in case sig of
           SIGUSR1 \<Rightarrow> finish (ev\<lparr>event64 := EVENT_IRQ_IODEV\<rparr>)
         | SIGUSR2 \<Rightarrow> finish (ev\<lparr>event64 := EVENT_YIELD\<rparr>)
         | SIGVTALRM \<Rightarrow> finish (ev\<lparr>event64 := EVENT_IRQ_TIMER\<rparr>)
         | SIGSEGV \<Rightarrow>
             if si_code = SEGV_ACCERR \<and> si_addr = 0x100008 then Inr (iret u (s\<lparr>cpu_ev := ev\<rparr>))
             else
               let ev = (if si_code = SEGV_ACCERR \<and> si_addr = 0x100000 then ev\<lparr>event64 := EVENT_SYSCALL\<rparr> else ev)
               in if am_in_userspace si_addr (vm s) then
                    bindR (guardR (event64 ev = EVENT_ERROR) (Panic ''thiscpu->ev.event == EVENT_ERROR'')) (\<lambda>_.
                    bindR (guardR (si_code = SEGV_MAPERR \<or> si_code = SEGV_ACCERR) (Panic ''0'')) (\<lambda>_.
                    finish (ev\<lparr>event64 := EVENT_PAGEFAULT,
                      cause64 := ucast (if si_code = SEGV_MAPERR then MMAP_READ else MMAP_WRITE), ref64 := si_addr\<rparr>)))
                  else finish ev
         | OtherSignal n \<Rightarrow> finish ev)"

text \<open>
  \<open>irq_handle\<close> up to the magic call, with the context that call passes.  The client's handler gets the
  event and the context.
\<close>

definition irq_handle :: "(Event64 \<Rightarrow> addr \<Rightarrow> 'u host \<Rightarrow> addr \<times> 'u host) \<Rightarrow> addr \<Rightarrow> 'u host \<Rightarrow> (addr \<times> 'u host) result option" where
  "irq_handle H c s =
     (let s = set_context c (\<lambda>x. x\<lparr>vm_head := cpu_vm_head (vm s), ksp := cpu_ksp s\<rparr>) s in
      if event64 (cpu_ev s) = EVENT_ERROR then Some (Inl (Panic ''Unhandle signal''))
      else
        let (c, s) = H (cpu_ev s) c s
        in if c = 0 then Some (Inl (Panic ''c != NULL''))
           else map_option (map_sum id (\<lambda>v. (c, s\<lparr>vm := v\<rparr>))) (am_switch (vm_head (contexts s c)) (vm s)))"

text \<open>
  The host delivers a signal: the handler runs, and the process continues with the registers and the
  mask it leaves.  The call of \<open>0x100008\<close> with the context in \<open>rdi\<close> faults; the other registers
  have any value.
\<close>

definition deliver :: "program \<Rightarrow> signal \<Rightarrow> u64 \<Rightarrow> addr \<Rightarrow> 'u host \<Rightarrow> 'u host result" where
  "deliver L sig code a s = map_sum id (\<lambda>(u, s). s\<lparr>regs := u\<rparr>) (sig_handler L sig code a (regs s) s)"

definition run_irq :: "program \<Rightarrow> (Event64 \<Rightarrow> addr \<Rightarrow> 'u host \<Rightarrow> addr \<times> 'u host) \<Rightarrow> (greg \<Rightarrow> u64) \<Rightarrow> 'u host \<Rightarrow> 'u host result option" where
  "run_irq L H g s =
     Option.bind (irq_handle H (gregs (regs s) RDI) s) (\<lambda>r. Some (bindR r (\<lambda>(c, s).
       deliver L SIGSEGV SEGV_ACCERR 0x100008 (s\<lparr>regs := (regs s)\<lparr>gregs := g(RDI := c, RIP := 0x100008)\<rparr>\<rparr>))))"

section \<open>The interface\<close>

definition iset :: "bool \<Rightarrow> 'u host \<Rightarrow> 'u host" where
  "iset enable s =
     s\<lparr>regs := (regs s)\<lparr>uc_sigmask :=
       (if enable then uc_sigmask (regs s) - am_intr_sigmask else uc_sigmask (regs s) \<union> am_intr_sigmask)\<rparr>\<rparr>"

definition ienabled :: "'u host \<Rightarrow> bool" where
  "ienabled s \<longleftrightarrow> is_sigmask_sti (uc_sigmask (regs s))"

definition install_signal_handler :: "'u host \<Rightarrow> 'u host" where
  "install_signal_handler s = s\<lparr>handlers := {SIGVTALRM, SIGUSR1, SIGUSR2, SIGSEGV}\<rparr>"

definition init_timer_irq :: "'u host \<Rightarrow> 'u host" where
  "init_timer_irq s = (iset False s)\<lparr>timer_hz := 100\<rparr>"

definition cte_init :: "'u host \<Rightarrow> bool \<times> 'u host" where
  "cte_init s = (True, init_timer_irq (install_signal_handler s))"


definition kcontext :: "program \<Rightarrow> addr \<Rightarrow> addr \<Rightarrow> u64 \<Rightarrow> 'u host \<Rightarrow> addr \<times> 'u host" where
  "kcontext L kstack_end entry arg s =
     (let c = kstack_end - ctx_size L;
          u = set_greg RSP kstack_end (set_greg RIP (kcontext_start_at L) (uc_example s));
          u = u\<lparr>uc_sigmask := {}\<rparr>
      in (c, set_context c (\<lambda>x. x\<lparr>vm_head := 0, uc := set_greg RSI entry (set_greg RDI arg u)\<rparr>) s))"

definition ucontext_new :: "program \<Rightarrow> addr \<Rightarrow> addr \<Rightarrow> addr \<Rightarrow> 'u host \<Rightarrow> addr \<times> 'u host" where
  "ucontext_new L asp kstack_end entry s =
     (let c = kstack_end - ctx_size L;
          u = set_greg RSP USER_END (set_greg RIP entry (uc_example s))
      in (c, set_context c (\<lambda>x. x\<lparr>uc := u\<lparr>uc_sigmask := {}\<rparr>, vm_head := asp, ksp := kstack_end\<rparr>) s))"

text \<open>\<open>__am_kcontext_start\<close>: the stack pointer is aligned and the entry called.\<close>

definition kcontext_start :: "ucontext \<Rightarrow> ucontext" where
  "kcontext_start u = set_greg RIP (gregs u RSI) (set_greg RSP ((gregs u RSP AND NOT 15) - 8) u)"

section \<open>Traps\<close>







lemma set_greg_same [simp]: "set_greg r (gregs u r) u = u"
  by (simp add: set_greg_def)

lemma gregs_set_greg [simp]: "gregs (set_greg r v u) q = (if q = r then v else gregs u q)"
  "uc_sigmask (set_greg r v u) = uc_sigmask u"
  by (simp_all add: set_greg_def)



text \<open>\<open>irq_handle\<close> and the signal that ends it.\<close>

definition saved :: "addr \<Rightarrow> 'u host \<Rightarrow> 'u host" where
  "saved c s = set_context c (\<lambda>x. x\<lparr>vm_head := cpu_vm_head (vm s), ksp := cpu_ksp s\<rparr>) s"

lemma run_irq_switch:
  assumes "event64 (cpu_ev s) \<noteq> EVENT_ERROR" "H (cpu_ev s) (gregs (regs s) RDI) (saved (gregs (regs s) RDI) s) = (c, s3)" "c \<noteq> 0"
    and "am_switch (vm_head (contexts s3 c)) (vm s3) = Some (Inr v)"
  shows "\<exists>s'. run_irq L H g s = Some (Inr s') \<and> regs s' = uc (contexts s3 c) \<and> cpu_ksp s' = ksp (contexts s3 c) \<and>
    vm s' = v \<and> contexts s' = contexts s3"
proof -
  have "cpu_ev (saved c' s) = cpu_ev s" for c' by (simp add: saved_def set_context_def)
  then have "irq_handle H (gregs (regs s) RDI) s = Some (Inr (c, s3\<lparr>vm := v\<rparr>))"
    using assms by (simp add: irq_handle_def Let_def flip: saved_def)
  then show ?thesis by (simp add: run_irq_def deliver_def sig_handler_def Let_def iret_def)
qed


section \<open>Properties\<close>


text \<open>A process in the text of the program, with the address spaces of the example above.\<close>

definition demo_program :: program where
  "demo_program = \<lparr>text_start = 0x401000, text_end = 0x420000, irq_handle_at = 0x402000, kcontext_start_at = 0x403000,
     sigprocmask_at = 0x7fff00001000, ctx_size = 0x450\<rparr>"

definition demo_host :: "addr host" where
  "demo_host =
     (let u = \<lparr>gregs = (\<lambda>_. 0)(RIP := 0x401234, RSP := 0x10ff000, RAX := 7), uc_sigmask = {}\<rparr>
      in \<lparr>vm = demo_native, cpu_ksp = 0, cpu_ev = \<lparr>event64 = EVENT_YIELD, cause64 = 0, ref64 = 0, msg64 = None\<rparr>,
          contexts = (\<lambda>_. \<lparr>ksp = 0, vm_head = 0, uc = u\<rparr>), uc_example = u, regs = u, handlers = {}, timer_hz = 100\<rparr>)"


text \<open>
  C25. If the client's handler returns a context made by \<open>kcontext\<close>, the process continues, with
  interrupts enabled and no page of a user mapped, at \<open>__am_kcontext_start\<close>, which enters the
  function with its argument on the given stack, aligned as the ABI of the host asks for; if it
  returns one made by \<open>ucontext\<close>, the process continues at the entry of the program in its address
  space, with the kernel stack it was given.
\<close>

theorem native_contexts_enter:
  assumes "native_ok (vm s) N" "event64 (cpu_ev s) \<noteq> EVENT_ERROR" "kstack_end - ctx_size L \<noteq> 0"
    and "is_space (vm s) asp"
  shows "(\<exists>s'. run_irq L (\<lambda>ev c. kcontext L kstack_end entry arg) g s = Some (Inr s') \<and> ienabled s' \<and>
      gregs (regs s') RIP = kcontext_start_at L \<and> gregs (kcontext_start (regs s')) RIP = entry \<and> gregs (kcontext_start (regs s')) RDI = arg \<and>
      gregs (kcontext_start (regs s')) RSP = (kstack_end AND NOT 15) - 8 \<and>
      (\<forall>va\<in>Collect in_user. os_map (vm s') va = None)) \<and>
    (\<exists>s'. run_irq L (\<lambda>ev c. ucontext_new L asp kstack_end entry) g s = Some (Inr s') \<and> ienabled s' \<and>
      gregs (regs s') RIP = entry \<and> gregs (regs s') RSP = USER_END \<and> cpu_ksp s' = kstack_end \<and>
      (\<forall>va\<in>Collect in_user. os_map (vm s') va = trans (vm s) (N asp) va))"
proof
  let ?c = "gregs (regs s) RDI" and ?k = "kstack_end - ctx_size L"
  have v: "vm (saved ?c s) = vm s" by (simp add: saved_def set_context_def)
  have switch: "\<exists>v. am_switch h (vm s) = Some (Inr v) \<and> (\<forall>va\<in>Collect in_user. os_map v va = trans (vm s) (N h) va)" if h: "is_space (vm s) h" for h
  proof -
    obtain v where "am_switch h (vm s) = Some (Inr v)" "native_ok v N" "cpu_vm_head v = h" "\<forall>h. trans v (N h) = trans (vm s) (N h)"
      using am_switch_ok [OF assms(1) h] by blast
    then show ?thesis using native_okD(8) by fastforce
  qed
  show "\<exists>s'. run_irq L (\<lambda>ev c. kcontext L kstack_end entry arg) g s = Some (Inr s') \<and> ienabled s' \<and>
      gregs (regs s') RIP = kcontext_start_at L \<and> gregs (kcontext_start (regs s')) RIP = entry \<and> gregs (kcontext_start (regs s')) RDI = arg \<and>
      gregs (kcontext_start (regs s')) RSP = (kstack_end AND NOT 15) - 8 \<and>
      (\<forall>va\<in>Collect in_user. os_map (vm s') va = None)"
  proof -
    let ?s3 = "snd (kcontext L kstack_end entry arg (saved ?c s))"
    have k: "kcontext L kstack_end entry arg (saved ?c s) = (?k, ?s3)" "vm ?s3 = vm s" "vm_head (contexts ?s3 ?k) = 0"
      by (simp_all add: kcontext_def Let_def set_context_def v)
    have z: "N 0 = []" by (rule native_ok_none [OF assms(1) native_okD(4) [OF assms(1)]])
    obtain v where w: "am_switch 0 (vm s) = Some (Inr v)" "\<forall>va\<in>Collect in_user. os_map v va = None"
      using switch [of 0] z by (auto simp: is_space_def)
    then show ?thesis
      using run_irq_switch [of s "\<lambda>ev c. kcontext L kstack_end entry arg" ?k ?s3 v L g] assms(2,3) k
      by (auto simp: ienabled_def is_sigmask_sti_def kcontext_start_def kcontext_def Let_def set_context_def)
  qed
  show "\<exists>s'. run_irq L (\<lambda>ev c. ucontext_new L asp kstack_end entry) g s = Some (Inr s') \<and> ienabled s' \<and>
      gregs (regs s') RIP = entry \<and> gregs (regs s') RSP = USER_END \<and> cpu_ksp s' = kstack_end \<and>
      (\<forall>va\<in>Collect in_user. os_map (vm s') va = trans (vm s) (N asp) va)"
  proof -
    let ?s3 = "snd (ucontext_new L asp kstack_end entry (saved ?c s))"
    have k: "ucontext_new L asp kstack_end entry (saved ?c s) = (?k, ?s3)" "vm ?s3 = vm s" "vm_head (contexts ?s3 ?k) = asp"
      by (simp_all add: ucontext_new_def Let_def set_context_def v)
    obtain v where w: "am_switch asp (vm s) = Some (Inr v)" "\<forall>va\<in>Collect in_user. os_map v va = trans (vm s) (N asp) va"
      using switch [OF assms(4)] by blast
    then show ?thesis
      using run_irq_switch [of s "\<lambda>ev c. ucontext_new L asp kstack_end entry" ?k ?s3 v L g] assms(2,3) k
      by (auto simp: ienabled_def is_sigmask_sti_def ucontext_new_def Let_def set_context_def)
  qed
qed

lemma native_contexts_enter_witness:
  "(\<exists>s'. run_irq demo_program (\<lambda>ev c. kcontext demo_program 0x1010000 0x404000 42) (\<lambda>_. 0) demo_host = Some (Inr s') \<and>
      gregs (regs s') RIP = 0x403000 \<and> gregs (kcontext_start (regs s')) RIP = 0x404000 \<and> gregs (kcontext_start (regs s')) RDI = 42 \<and>
      gregs (kcontext_start (regs s')) RSP = 0x100fff8) \<and>
   (\<exists>s'. run_irq demo_program (\<lambda>ev c. ucontext_new demo_program 0x2000000 0x1010000 0x40001000) (\<lambda>_. 0) demo_host = Some (Inr s') \<and>
      gregs (regs s') RIP = 0x40001000 \<and> cpu_ksp s' = 0x1010000)"
proof -
  have h: "native_ok (vm demo_host) (\<lambda>_. [])" "event64 (cpu_ev demo_host) \<noteq> EVENT_ERROR" "0x1010000 - ctx_size demo_program \<noteq> 0"
    "is_space (vm demo_host) 0x2000000" and e: "kcontext_start_at demo_program = 0x403000"
    using demo_native_ok by (simp_all add: demo_host_def demo_program_def Let_def) (simp add: demo_native_def is_space_def)
  have "(0x1010000 AND NOT 15) - 8 = (0x100fff8 :: u64)" by simp
  then show ?thesis
    using native_contexts_enter [OF h, of "0x404000" 42 "\<lambda>_. 0", THEN conjunct1]
      native_contexts_enter [OF h, of "0x40001000" 42 "\<lambda>_. 0", THEN conjunct2] e by metis
qed

end
