(* ===== verification/Rvmini_Base.thy ===== *)
theory Rvmini_Base
  imports CMem
begin

text \<open>
  The machine below \<open>tools/rvmini/inst-replace.h\<close>: registers and memory of an RV32 core that has
  only the instructions the header of that file lists, the notation the macros are written in, and
  the tables they look results up in (\<open>tools/rvmini/gen-lut.c\<close>).  The lemmas execute macros
  symbolically on states in which the seven words below the stack pointer are told apart from the
  rest of the memory.
\<close>

section \<open>The core\<close>

type_synonym reg = nat

abbreviation (input) x0 :: reg where "x0 \<equiv> 0"
abbreviation (input) ra :: reg where "ra \<equiv> 1"
abbreviation (input) sp :: reg where "sp \<equiv> 2"
abbreviation (input) gp :: reg where "gp \<equiv> 3"
abbreviation (input) tp :: reg where "tp \<equiv> 4"
abbreviation (input) s0 :: reg where "s0 \<equiv> 8"
abbreviation (input) s1 :: reg where "s1 \<equiv> 9"

text \<open>The base instructions that do not jump; a load or store names its register, offset and base.\<close>

datatype op =
    Add reg reg reg
  | Addi reg reg "12 word"
  | Lui reg "20 word"
  | Lw reg "12 word" reg
  | Lbu reg "12 word" reg
  | Sw reg "12 word" reg
  | Sb reg "12 word" reg

record rv =
  xreg :: "reg \<Rightarrow> u32"
  xmem :: gmem

definition val :: "(reg \<Rightarrow> u32) \<Rightarrow> reg \<Rightarrow> u32" where
  "val r x = (if x = x0 then 0 else r x)"

definition upd :: "reg \<Rightarrow> u32 \<Rightarrow> (reg \<Rightarrow> u32) \<Rightarrow> reg \<Rightarrow> u32" where
  "upd x v r = (if x = x0 then r else r(x := v))"

primrec exec :: "op \<Rightarrow> rv \<Rightarrow> rv" where
  "exec (Add d a b) s = s\<lparr>xreg := upd d (val (xreg s) a + val (xreg s) b) (xreg s)\<rparr>"
| "exec (Addi d a i) s = s\<lparr>xreg := upd d (val (xreg s) a + scast i) (xreg s)\<rparr>"
| "exec (Lui d i) s = s\<lparr>xreg := upd d (push_bit 12 (ucast i)) (xreg s)\<rparr>"
| "exec (Lw d i a) s = s\<lparr>xreg := upd d (ld32 (xmem s) (val (xreg s) a + scast i)) (xreg s)\<rparr>"
| "exec (Lbu d i a) s = s\<lparr>xreg := upd d (ucast (xmem s (val (xreg s) a + scast i))) (xreg s)\<rparr>"
| "exec (Sw d i a) s = s\<lparr>xmem := st32 (val (xreg s) a + scast i) (val (xreg s) d) (xmem s)\<rparr>"
| "exec (Sb d i a) s = s\<lparr>xmem := (xmem s)(val (xreg s) a + scast i := ucast (val (xreg s) d))\<rparr>"

text \<open>Pseudo instructions of the assembler that the file does not replace.\<close>

definition mv :: "reg \<Rightarrow> reg \<Rightarrow> op list" where "mv d a = [Addi d a 0]"
definition li :: "reg \<Rightarrow> 12 word \<Rightarrow> op list" where "li d i = [Addi d x0 i]"

section \<open>Notation of the macros\<close>

definition SP_VAR_BYTE :: "nat \<Rightarrow> nat \<Rightarrow> 12 word" where "SP_VAR_BYTE n boffset = - of_nat n * 4 + of_nat boffset"
definition SP_VAR :: "nat \<Rightarrow> 12 word" where "SP_VAR n = SP_VAR_BYTE n 0"

abbreviation (input) VAR_A :: nat where "VAR_A \<equiv> 4"
abbreviation (input) VAR_B :: nat where "VAR_B \<equiv> 5"
abbreviation (input) VAR_C :: nat where "VAR_C \<equiv> 6"
abbreviation (input) VAR_D :: nat where "VAR_D \<equiv> 7"

definition PUSH :: "reg \<Rightarrow> nat \<Rightarrow> op" where "PUSH r n = Sw r (SP_VAR n) sp"
definition POP :: "reg \<Rightarrow> nat \<Rightarrow> op" where "POP r n = Lw r (SP_VAR n) sp"

text \<open>The linker's \<open>%hi\<close> and \<open>%lo\<close> and the macro \<open>la\<close>.\<close>

definition hi :: "ptr \<Rightarrow> 20 word" where "hi a = ucast (drop_bit 12 (a + 0x800))"
definition lo :: "ptr \<Rightarrow> 12 word" where "lo a = ucast a"

definition la :: "reg \<Rightarrow> ptr \<Rightarrow> op list" where "la r addr = [Lui r (hi addr), Addi r r (lo addr)]"
definition lla :: "reg \<Rightarrow> ptr \<Rightarrow> op list" where "lla r addr = la r addr"

section \<open>Tables\<close>

text \<open>The addresses of the tables, which the linker chooses.\<close>

record syms =
  check_same_array :: ptr
  same_result_table :: ptr
  check_8bit_0_table :: ptr
  slt1_table :: ptr
  sltu1_table :: ptr
  or1_table :: ptr
  logic_shift_table :: ptr

definition and8_table :: "syms \<Rightarrow> ptr" where "and8_table L = logic_shift_table L"
definition or8_table :: "syms \<Rightarrow> ptr" where "or8_table L = and8_table L + 256 * 256"
definition xor8_table :: "syms \<Rightarrow> ptr" where "xor8_table L = or8_table L + 256 * 256"
definition sll8_table :: "syms \<Rightarrow> ptr" where "sll8_table L = xor8_table L + 256 * 256"
definition srl8_table :: "syms \<Rightarrow> ptr" where "srl8_table L = sll8_table L + 32 * 256 * 4"
definition sra8_table :: "syms \<Rightarrow> ptr" where "sra8_table L = srl8_table L + 32 * 256 * 4"

definition gen_table :: "nat \<Rightarrow> nat \<Rightarrow> nat \<Rightarrow> (nat \<Rightarrow> nat \<Rightarrow> u32) \<Rightarrow> u8 list" where
  "gen_table row col entry_size expr =
     concat (map (\<lambda>j. concat (map (\<lambda>i. map (byte_of (expr j i)) [0..<entry_size]) [0..<col])) [0..<row])"

definition lut_bin :: "u8 list" where
  "lut_bin =
     gen_table 256 256 1 (\<lambda>j i. of_nat j AND of_nat i) @
     gen_table 256 256 1 (\<lambda>j i. of_nat j OR of_nat i) @
     gen_table 256 256 1 (\<lambda>j i. of_nat j XOR of_nat i) @
     gen_table 32 256 4 (\<lambda>j i. push_bit j (of_nat i)) @
     gen_table 32 256 4 (\<lambda>j i. drop_bit j (push_bit 24 (of_nat i))) @
     gen_table 32 256 4 (\<lambda>j i. signed_drop_bit j (push_bit 24 (of_nat i)))"

text \<open>The data of the file: what the assembler puts at the addresses of the tables.\<close>

definition rodata :: "syms \<Rightarrow> (ptr \<times> u8 list) list" where
  "rodata L =
     [(same_result_table L, [1, 0, 0, 0, 0, 0, 0, 0]),
      (check_8bit_0_table L, 0 # replicate 255 1),
      (slt1_table L, [0, 1, 0, 0, 1, 1, 0, 1]),
      (sltu1_table L, [0, 1, 1, 1, 0, 0, 0, 1]),
      (or1_table L, [0, 1, 1, 1]),
      (logic_shift_table L, lut_bin)]"

text \<open>
  The tables are in memory, the array that \<open>seq\<close> writes does not overlap them, and neither they nor
  the array overlap the seven words below the stack pointer.
\<close>

definition tables_loaded :: "syms \<Rightarrow> gmem \<Rightarrow> bool" where
  "tables_loaded L m \<longleftrightarrow> list_all (\<lambda>(p, xs). bytes_at m p (length xs) = xs) (rodata L)"

definition array_apart :: "syms \<Rightarrow> bool" where
  "array_apart L \<longleftrightarrow> list_all (\<lambda>(p, xs). disjoint_blocks (check_same_array L) 256 p (length xs)) (rodata L)"

definition stack_clear :: "syms \<Rightarrow> ptr \<Rightarrow> bool" where
  "stack_clear L p \<longleftrightarrow>
     list_all (\<lambda>(q, n). disjoint_blocks (p - 28) 28 q n)
       ((check_same_array L, 256) # map (\<lambda>(q, xs). (q, length xs)) (rodata L))"

lemma unat8_less: "unat (b :: u8) < 256"
  using unsigned_less [of b] by simp

section \<open>Registers\<close>

lemma val_upd [simp]: "val (upd d v r) x = (if x = d \<and> d \<noteq> 0 then v else val r x)"
  by (simp add: val_def upd_def)

lemma val_0 [simp]: "val r 0 = 0"
  by (simp add: val_def)

lemma upd_0 [simp]: "upd 0 v r = r"
  by (simp add: upd_def)

lemma upd_upd [simp]: "upd d v (upd d w r) = upd d v r"
  by (simp add: upd_def)

lemma upd_at [simp]: "x \<noteq> d \<Longrightarrow> upd d v r x = r x"
  by (simp add: upd_def)

lemma upd_upd_other [simp]: "d \<noteq> e \<Longrightarrow> upd d v (upd e x (upd d w r)) = upd d v (upd e x r)"
  by (auto simp: upd_def)

lemma upd_val [simp]: "upd d (val r d) r = r"
  by (simp add: upd_def val_def)

section \<open>The words below the stack pointer\<close>

definition outside :: "ptr \<Rightarrow> ptr \<Rightarrow> bool" where
  "outside p a \<longleftrightarrow> 28 \<le> unat (a - (p - 28))"

definition with_scratch :: "ptr \<Rightarrow> (nat \<Rightarrow> u8) \<Rightarrow> gmem \<Rightarrow> gmem" where
  "with_scratch p f m = (\<lambda>a. if outside p a then m a else f (unat (a - (p - 28))))"

text \<open>The state with registers \<open>r\<close>, the bytes \<open>f\<close> in the 28 below the stack pointer, and \<open>m\<close> elsewhere.\<close>

definition St :: "(reg \<Rightarrow> u32) \<Rightarrow> (nat \<Rightarrow> u8) \<Rightarrow> gmem \<Rightarrow> rv" where
  "St r f m = \<lparr>xreg = r, xmem = with_scratch (r sp) f m\<rparr>"

definition putw :: "nat \<Rightarrow> u32 \<Rightarrow> (nat \<Rightarrow> u8) \<Rightarrow> nat \<Rightarrow> u8" where
  "putw n w f = f(28 - 4 * n := byte_of w 0, 29 - 4 * n := byte_of w 1, 30 - 4 * n := byte_of w 2, 31 - 4 * n := byte_of w 3)"

definition getw :: "nat \<Rightarrow> (nat \<Rightarrow> u8) \<Rightarrow> u32" where
  "getw n f = le_word (f (28 - 4 * n)) (f (29 - 4 * n)) (f (30 - 4 * n)) (f (31 - 4 * n))"

lemma St_ex: "\<exists>f. s = St (xreg s) f (xmem s)"
proof
  show "s = St (xreg s) (\<lambda>i. xmem s (xreg s sp - 28 + of_nat i)) (xmem s)"
    by (auto simp: St_def with_scratch_def intro!: rv.equality)
qed

lemma xreg_St [simp]: "xreg (St r f m) = r"
  by (simp add: St_def)

lemma xmem_St: "outside (r sp) a \<Longrightarrow> xmem (St r f m) a = m a"
  by (simp add: St_def with_scratch_def)

lemma SP_VAR_BYTE_scast:
  assumes "1 \<le> n" "n \<le> 7" "k < 4"
  shows "(scast (SP_VAR_BYTE n k) :: u32) = of_nat (28 - 4 * n + k) - 28"
proof -
  let ?x = "int k - 4 * int n"
  have "SP_VAR_BYTE n k = of_int ?x" by (simp add: SP_VAR_BYTE_def)
  moreover have "sint (of_int ?x :: 12 word) = ?x"
    using assms by (simp add: signed_of_int signed_take_bit_int_eq_self del: of_int_diff)
  moreover have "of_int ?x = (of_nat (28 - 4 * n + k) - 28 :: u32)"
    using assms by (simp add: of_nat_diff)
  ultimately show ?thesis by (simp add: scast_eq del: of_int_diff)
qed

lemma scratch_offset: "p + (x - 28) - (p - 28) = (x :: ptr)" "a = p + (x - 28) \<longleftrightarrow> a - (p - 28) = x"
  by (auto simp: algebra_simps)

lemma with_scratch_at: "i < 28 \<Longrightarrow> with_scratch p f m (p + (of_nat i - 28)) = f i"
  unfolding with_scratch_def outside_def scratch_offset by (simp add: unat_of_nat)

lemma with_scratch_upd: "i < 28 \<Longrightarrow> (with_scratch p f m)(p + (of_nat i - 28) := v) = with_scratch p (f(i := v)) m"
proof
  fix a assume i: "i < 28"
  have "a = p + (of_nat i - 28) \<longleftrightarrow> a - (p - 28) = of_nat i" by (rule scratch_offset)
  also have "\<dots> \<longleftrightarrow> unat (a - (p - 28)) = i" using i by (auto simp: word_unat_eq_iff unat_of_nat)
  finally show "((with_scratch p f m)(p + (of_nat i - 28) := v)) a = with_scratch p (f(i := v)) m a"
    using i by (auto simp: with_scratch_def outside_def)
qed

section \<open>Execution of one instruction\<close>

lemma exec_Add [simp]: "d \<noteq> sp \<Longrightarrow> exec (Add d a b) (St r f m) = St (upd d (val r a + val r b) r) f m"
  by (simp add: St_def)

lemma exec_Addi [simp]: "d \<noteq> sp \<Longrightarrow> exec (Addi d a i) (St r f m) = St (upd d (val r a + scast i) r) f m"
  by (simp add: St_def)

lemma exec_Lui [simp]: "d \<noteq> sp \<Longrightarrow> exec (Lui d i) (St r f m) = St (upd d (push_bit 12 (ucast i)) r) f m"
  by (simp add: St_def)

lemma exec_Sb_var:
  assumes "1 \<le> n" "n \<le> 7" "k < 4"
  shows "exec (Sb a (SP_VAR_BYTE n k) sp) (St r f m) = St r (f(28 - 4 * n + k := ucast (val r a))) m"
  using assms by (simp add: St_def SP_VAR_BYTE_scast val_def with_scratch_upd del: of_nat_add of_nat_diff)

lemma exec_Lbu_var:
  assumes "1 \<le> n" "n \<le> 7" "k < 4" "d \<noteq> sp"
  shows "exec (Lbu d (SP_VAR_BYTE n k) sp) (St r f m) = St (upd d (ucast (f (28 - 4 * n + k))) r) f m"
  using assms by (simp add: St_def SP_VAR_BYTE_scast val_def [of r 2] with_scratch_at del: of_nat_add of_nat_diff)

lemma var_word:
  assumes "1 \<le> n" "n \<le> 7"
  shows "scast (SP_VAR n) = (of_nat (28 - 4 * n) - 28 :: u32)"
    and "p + (of_nat (28 - 4 * n) - 28) + 1 = p + (of_nat (29 - 4 * n) - 28 :: u32)"
    and "p + (of_nat (28 - 4 * n) - 28) + 2 = p + (of_nat (30 - 4 * n) - 28 :: u32)"
    and "p + (of_nat (28 - 4 * n) - 28) + 3 = p + (of_nat (31 - 4 * n) - 28 :: u32)"
proof -
  show "scast (SP_VAR n) = (of_nat (28 - 4 * n) - 28 :: u32)"
    using SP_VAR_BYTE_scast [of n 0] assms by (simp add: SP_VAR_def)
  have "29 - 4 * n = Suc (28 - 4 * n)" "30 - 4 * n = Suc (Suc (28 - 4 * n))" "31 - 4 * n = Suc (Suc (Suc (28 - 4 * n)))"
    using assms by linarith+
  then show "p + (of_nat (28 - 4 * n) - 28) + 1 = p + (of_nat (29 - 4 * n) - 28 :: u32)"
    "p + (of_nat (28 - 4 * n) - 28) + 2 = p + (of_nat (30 - 4 * n) - 28 :: u32)"
    "p + (of_nat (28 - 4 * n) - 28) + 3 = p + (of_nat (31 - 4 * n) - 28 :: u32)"
    by (simp_all add: algebra_simps)
qed

lemma exec_Sw_var:
  assumes "1 \<le> n" "n \<le> 7"
  shows "exec (Sw a (SP_VAR n) sp) (St r f m) = St r (putw n (val r a) f) m"
  using assms
  by (simp add: St_def val_def [of r 2] st32_def var_word with_scratch_upd putw_def
      del: of_nat_diff)

lemma exec_Lw_var:
  assumes "1 \<le> n" "n \<le> 7" "d \<noteq> sp"
  shows "exec (Lw d (SP_VAR n) sp) (St r f m) = St (upd d (getw n f) r) f m"
  using assms
  by (simp add: St_def val_def [of r 2] ld32_def var_word with_scratch_at getw_def
      del: of_nat_diff)

lemma exec_Lbu_mem:
  assumes "outside (r sp) (val r a + scast i)" "d \<noteq> sp"
  shows "exec (Lbu d i a) (St r f m) = St (upd d (ucast (m (val r a + scast i))) r) f m"
  using assms by (simp add: St_def with_scratch_def)

lemma exec_Lw_mem:
  assumes "\<And>k. k < 4 \<Longrightarrow> outside (r sp) (val r a + scast i + of_nat k)" "d \<noteq> sp"
  shows "exec (Lw d i a) (St r f m) = St (upd d (ld32 m (val r a + scast i)) r) f m"
  using assms(2) assms(1) [of 0] assms(1) [of 1] assms(1) [of 2] assms(1) [of 3]
  by (simp add: St_def with_scratch_def ld32_def)

lemma exec_Sb_mem:
  assumes "outside (r sp) (val r a + scast i)"
  shows "exec (Sb d i a) (St r f m) = St r f (m(val r a + scast i := ucast (val r d)))"
  using assms by (auto simp: St_def with_scratch_def)

declare exec.simps [simp del]

lemmas exec_rules = exec_Sb_var exec_Lbu_var exec_Sw_var exec_Lw_var

lemma hi_lo: "push_bit 12 (ucast (hi a)) + scast (lo a) = a"
proof -
  have "push_bit 12 (ucast (hi a)) = push_bit 12 (drop_bit 12 (a + 0x800))"
    by (rule bit_word_eqI) (auto simp: hi_def bit_simps)
  moreover have "scast (lo a) = take_bit 12 (a + 0x800) - 0x800"
  proof -
    have "sint (lo a) = take_bit 12 (uint a + 2048) - 2048"
      by (simp add: lo_def unsigned_ucast_eq signed_ucast_eq signed_take_bit_eq_take_bit_shift)
    moreover have "(of_int (take_bit 12 (uint a + 2048)) :: u32) = take_bit 12 (a + 2048)"
      by (simp add: of_int_take_bit)
    ultimately show ?thesis by (simp add: scast_eq)
  qed
  ultimately have "push_bit 12 (ucast (hi a)) + scast (lo a) =
    push_bit 12 (drop_bit 12 (a + 0x800)) + take_bit 12 (a + 0x800) - 0x800" by simp
  also have "\<dots> = a" by (simp only: bits_ident) simp
  finally show ?thesis .
qed

lemma exec_la [simp]: "d \<noteq> sp \<Longrightarrow> fold exec (la d a) (St r f m) = St (upd d a r) f m"
  using hi_lo [of a] by (cases "d = 0") (simp_all add: la_def)

section \<open>The table file\<close>

lemma length_concat_uniform: "(\<And>i. length (g i) = n) \<Longrightarrow> length (concat (map g [0..<k])) = k * n"
  by (induction k) simp_all

lemma nth_concat_uniform:
  assumes "\<And>i. length (g i) = n" "i < k" "j < n"
  shows "concat (map g [0..<k]) ! (i * n + j) = g i ! j"
  using assms(2)
proof (induction k)
  case (Suc k)
  have l: "length (concat (map g [0..<k])) = k * n" by (rule length_concat_uniform [OF assms(1)])
  show ?case
  proof (cases "i < k")
    case True
    have "i * n + j < Suc i * n" using assms(3) by simp
    also have "\<dots> \<le> k * n" using True by (intro mult_right_mono) simp_all
    finally show ?thesis using Suc True l by (simp add: nth_append)
  next
    case False
    then have "i = k" using Suc.prems by simp
    then show ?thesis using l by (simp add: nth_append)
  qed
qed simp

lemma length_gen_table [simp]: "length (gen_table row col sz e) = row * (col * sz)"
  unfolding gen_table_def by (rule length_concat_uniform) (rule length_concat_uniform, simp)

lemma nth_gen_table:
  assumes "j < row" "i < col" "k < sz"
  shows "gen_table row col sz e ! (j * (col * sz) + (i * sz + k)) = byte_of (e j i) k"
proof -
  let ?g = "\<lambda>j i. map (byte_of (e j i)) [0..<sz]"
  have "length (concat (map (?g j) [0..<col])) = col * sz" for j by (rule length_concat_uniform) simp
  moreover have "i * sz + k < col * sz"
  proof -
    have "i * sz + k < Suc i * sz" using assms(3) by simp
    also have "\<dots> \<le> col * sz" using assms(2) by (intro mult_right_mono) simp_all
    finally show ?thesis .
  qed
  ultimately have "gen_table row col sz e ! (j * (col * sz) + (i * sz + k)) =
    concat (map (?g j) [0..<col]) ! (i * sz + k)"
    unfolding gen_table_def using assms(1) by (intro nth_concat_uniform) simp_all
  also have "\<dots> = ?g j i ! k" using assms by (intro nth_concat_uniform) simp_all
  finally show ?thesis using assms(3) by simp
qed

lemma length_lut_bin [simp]: "length lut_bin = 294912"
  by (simp add: lut_bin_def)

text \<open>The tables as functions of their indices: of bytes and of words.\<close>

definition tab8 :: "ptr \<Rightarrow> gmem \<Rightarrow> ptr \<Rightarrow> (nat \<Rightarrow> nat \<Rightarrow> u32) \<Rightarrow> bool" where
  "tab8 p m t g \<longleftrightarrow> (\<forall>a<256. \<forall>b<256. m (t + of_nat (a * 256 + b)) = byte_of (g a b) 0 \<and> outside p (t + of_nat (a * 256 + b)))"

definition tab32 :: "ptr \<Rightarrow> gmem \<Rightarrow> ptr \<Rightarrow> (nat \<Rightarrow> nat \<Rightarrow> u32) \<Rightarrow> bool" where
  "tab32 p m t g \<longleftrightarrow> (\<forall>j<32. \<forall>i<256. ld32 m (t + of_nat (j * 1024 + i * 4)) = g j i \<and>
     (\<forall>k<4. outside p (t + of_nat (j * 1024 + i * 4) + of_nat k)))"

lemma tab8D:
  assumes "tab8 p m t g" "a < 256" "b < 256"
  shows "m (t + of_nat (a * 256 + b)) = byte_of (g a b) 0" and "outside p (t + of_nat (a * 256 + b))"
  using assms by (auto simp: tab8_def)

lemma tab32D:
  assumes "tab32 p m t g" "j < 32" "i < 256"
  shows "ld32 m (t + of_nat (j * 1024 + i * 4)) = g j i"
    and "k < 4 \<Longrightarrow> outside p (t + of_nat (j * 1024 + i * 4) + of_nat k)"
  using assms by (auto simp: tab32_def)

definition env :: "syms \<Rightarrow> ptr \<Rightarrow> gmem \<Rightarrow> bool" where
  "env L p m \<longleftrightarrow> tables_loaded L m \<and> array_apart L \<and> stack_clear L p"

lemma clear_outside:
  assumes "disjoint_blocks (p - 28) 28 q n" "i < n"
  shows "outside p (q + of_nat i)"
proof (rule ccontr)
  assume "\<not> outside p (q + of_nat i)"
  then have lt: "unat (q + of_nat i - (p - 28)) < 28" by (simp add: outside_def)
  have "p - 28 + of_nat (unat (q + of_nat i - (p - 28))) = q + of_nat i" by simp
  then show False using assms lt unfolding disjoint_blocks_def by blast
qed

lemma env_byte:
  assumes "env L p m" "(q, xs) \<in> set (rodata L)" "i < length xs"
  shows "m (q + of_nat i) = xs ! i" and "outside p (q + of_nat i)"
proof -
  have "bytes_at m q (length xs) = xs" using assms(1,2) by (auto simp: env_def tables_loaded_def list_all_iff)
  then show "m (q + of_nat i) = xs ! i" using assms(3) nth_bytes_at by metis
  have "disjoint_blocks (p - 28) 28 q (length xs)"
    using assms(1,2) by (fastforce simp: env_def stack_clear_def list_all_iff)
  then show "outside p (q + of_nat i)" using assms(3) by (rule clear_outside)
qed

lemma env_array: "env L p m \<Longrightarrow> outside p (check_same_array L + ucast (b :: u8))"
  using clear_outside [of p "check_same_array L" 256 "unat b"] unsigned_less [of b]
  by (simp add: env_def stack_clear_def)

text \<open>The array that \<open>seq\<close> writes.\<close>

definition in_array :: "syms \<Rightarrow> ptr \<Rightarrow> bool" where
  "in_array L a \<longleftrightarrow> unat (a - check_same_array L) < 256"

lemma in_array [simp]: "in_array L (check_same_array L + ucast (b :: u8))"
proof -
  have "unat b < 256" using unsigned_less [of b] by simp
  then show ?thesis by (simp add: in_array_def unat_ucast)
qed

lemma env_cong:
  assumes "env L p m" "\<And>a. outside p a \<Longrightarrow> \<not> in_array L a \<Longrightarrow> m' a = m a"
  shows "env L p m'"
proof -
  have "bytes_at m' q (length xs) = xs" if x: "(q, xs) \<in> set (rodata L)" for q xs
  proof -
    have d: "disjoint_blocks (check_same_array L) 256 q (length xs)"
      using assms(1) x by (fastforce simp: env_def array_apart_def list_all_iff)
    have "\<not> in_array L (q + of_nat i)" if "i < length xs" for i
    proof
      assume "in_array L (q + of_nat i)"
      then have "unat (q + of_nat i - check_same_array L) < 256" by (simp add: in_array_def)
      moreover have "check_same_array L + of_nat (unat (q + of_nat i - check_same_array L)) = q + of_nat i" by simp
      ultimately show False using d that unfolding disjoint_blocks_def by blast
    qed
    then have "bytes_at m' q (length xs) = bytes_at m q (length xs)"
      using env_byte(2) [OF assms(1) x] by (intro bytes_at_cong assms(2)) simp_all
    then show ?thesis using assms(1) x by (fastforce simp: env_def tables_loaded_def list_all_iff)
  qed
  then show ?thesis using assms(1) by (auto simp: env_def tables_loaded_def list_all_iff)
qed

lemma env_lut:
  assumes "env L p m" "lut_bin = pre @ t @ post" "i < length t"
  shows "m (logic_shift_table L + of_nat (length pre) + of_nat i) = t ! i"
    and "outside p (logic_shift_table L + of_nat (length pre) + of_nat i)"
proof -
  have "(logic_shift_table L, lut_bin) \<in> set (rodata L)" by (simp add: rodata_def)
  moreover have "length pre + i < length lut_bin" using assms(3) by (simp add: assms(2) del: length_lut_bin)
  moreover have "lut_bin ! (length pre + i) = t ! i" using assms(3) by (simp add: assms(2) nth_append)
  ultimately show "m (logic_shift_table L + of_nat (length pre) + of_nat i) = t ! i"
    "outside p (logic_shift_table L + of_nat (length pre) + of_nat i)"
    using env_byte [OF assms(1), of "logic_shift_table L" lut_bin "length pre + i"]
    by (simp_all add: add.assoc)
qed

lemma tab8_part:
  assumes "env L p m" "lut_bin = pre @ gen_table 256 256 1 g @ post"
  shows "tab8 p m (logic_shift_table L + of_nat (length pre)) g"
  unfolding tab8_def
proof (intro allI impI conjI)
  fix a b :: nat assume "a < 256" "b < 256"
  then have "a * 256 + b < 256 * (256 * 1)" "gen_table 256 256 1 g ! (a * 256 + b) = byte_of (g a b) 0"
    using nth_gen_table [of a 256 b 256 0 1 g] by (simp_all add: )
  then show "m (logic_shift_table L + of_nat (length pre) + of_nat (a * 256 + b)) = byte_of (g a b) 0"
    "outside p (logic_shift_table L + of_nat (length pre) + of_nat (a * 256 + b))"
    using env_lut [OF assms, of "a * 256 + b"] by simp_all
qed

lemma tab32_part:
  assumes "env L p m" "lut_bin = pre @ gen_table 32 256 4 g @ post"
  shows "tab32 p m (logic_shift_table L + of_nat (length pre)) g"
  unfolding tab32_def
proof (intro allI impI conjI)
  fix j i :: nat assume ji: "j < 32" "i < 256"
  have at: "j * 1024 + i * 4 + k < length (gen_table 32 256 4 g)"
    "gen_table 32 256 4 g ! (j * 1024 + i * 4 + k) = byte_of (g j i) k" if "k < 4" for k
    using nth_gen_table [of j 32 i 256 k 4 g] ji that by (simp_all add: add.assoc)
  note * = env_lut [OF assms at(1)]
  have "m (logic_shift_table L + of_nat (length pre) + of_nat (j * 1024 + i * 4) + of_nat k) = byte_of (g j i) k" if "k < 4" for k
    using *(1) [OF that] at(2) [OF that] by (simp add: add.assoc)
  from this [of 0] this [of 1] this [of 2] this [of 3]
  show "ld32 m (logic_shift_table L + of_nat (length pre) + of_nat (j * 1024 + i * 4)) = g j i"
    using le_word_byte_of [of "g j i"] by (simp add: ld32_def del: of_nat_add of_nat_mult le_word_byte_of)
  show "outside p (logic_shift_table L + of_nat (length pre) + of_nat (j * 1024 + i * 4) + of_nat k)" if "k < 4" for k
    using *(2) [OF that] by (simp add: add.assoc)
qed

lemma env_tables:
  assumes "env L p m"
  shows "tab8 p m (and8_table L) (\<lambda>j i. of_nat j AND of_nat i)"
    and "tab8 p m (or8_table L) (\<lambda>j i. of_nat j OR of_nat i)"
    and "tab8 p m (xor8_table L) (\<lambda>j i. of_nat j XOR of_nat i)"
    and "tab32 p m (sll8_table L) (\<lambda>j i. push_bit j (of_nat i))"
    and "tab32 p m (srl8_table L) (\<lambda>j i. drop_bit j (push_bit 24 (of_nat i)))"
    and "tab32 p m (sra8_table L) (\<lambda>j i. signed_drop_bit j (push_bit 24 (of_nat i)))"
proof -
  let ?a = "gen_table 256 256 1 (\<lambda>j i. of_nat j AND of_nat i)"
  let ?o = "gen_table 256 256 1 (\<lambda>j i. of_nat j OR of_nat i)"
  let ?x = "gen_table 256 256 1 (\<lambda>j i. of_nat j XOR of_nat i)"
  let ?l = "gen_table 32 256 4 (\<lambda>j i. push_bit j (of_nat i))"
  let ?r = "gen_table 32 256 4 (\<lambda>j i. drop_bit j (push_bit 24 (of_nat i)))"
  let ?s = "gen_table 32 256 4 (\<lambda>j i. signed_drop_bit j (push_bit 24 (of_nat i)))"
  note defs = and8_table_def or8_table_def xor8_table_def sll8_table_def srl8_table_def sra8_table_def lut_bin_def
  show "tab8 p m (and8_table L) (\<lambda>j i. of_nat j AND of_nat i)"
    using tab8_part [OF assms, of "[]" "\<lambda>j i. of_nat j AND of_nat i" "?o @ ?x @ ?l @ ?r @ ?s"] by (simp add: defs add.commute)
  show "tab8 p m (or8_table L) (\<lambda>j i. of_nat j OR of_nat i)"
    using tab8_part [OF assms, of "?a" "\<lambda>j i. of_nat j OR of_nat i" "?x @ ?l @ ?r @ ?s"] by (simp add: defs add.commute)
  show "tab8 p m (xor8_table L) (\<lambda>j i. of_nat j XOR of_nat i)"
    using tab8_part [OF assms, of "?a @ ?o" "\<lambda>j i. of_nat j XOR of_nat i" "?l @ ?r @ ?s"] by (simp add: defs add.commute)
  show "tab32 p m (sll8_table L) (\<lambda>j i. push_bit j (of_nat i))"
    using tab32_part [OF assms, of "?a @ ?o @ ?x" "\<lambda>j i. push_bit j (of_nat i)" "?r @ ?s"] by (simp add: defs add.commute)
  show "tab32 p m (srl8_table L) (\<lambda>j i. drop_bit j (push_bit 24 (of_nat i)))"
    using tab32_part [OF assms, of "?a @ ?o @ ?x @ ?l" "\<lambda>j i. drop_bit j (push_bit 24 (of_nat i))" "?s"] by (simp add: defs add.commute)
  show "tab32 p m (sra8_table L) (\<lambda>j i. signed_drop_bit j (push_bit 24 (of_nat i)))"
    using tab32_part [OF assms, of "?a @ ?o @ ?x @ ?l @ ?r" "\<lambda>j i. signed_drop_bit j (push_bit 24 (of_nat i))" "[]"] by (simp add: defs add.commute)
qed

end
