(* ===== verification/Rvmini_Alu.thy ===== *)
theory Rvmini_Alu
  imports Rvmini_Base Words32
begin

text \<open>
  The macros for bytes, subtraction, comparison and bitwise logic of
  \<open>tools/rvmini/inst-replace.h\<close>, each a function from its operands to the instructions it expands
  to, and the proofs that the expansion computes the instruction it replaces.
\<close>

section \<open>Macros\<close>

definition getbyte :: "reg \<Rightarrow> reg \<Rightarrow> nat \<Rightarrow> op list" where
  "getbyte d a byte = [Sw a (SP_VAR VAR_C) sp, Lbu d (SP_VAR_BYTE VAR_C byte) sp]"

text \<open>A store of a half word; \<open>addr\<close> is the offset \<open>i\<close> from register \<open>b\<close>.\<close>

definition sh :: "reg \<Rightarrow> 12 word \<Rightarrow> reg \<Rightarrow> op list" where
  "sh a i b = [Sb a i b] @ getbyte tp a 1 @ [Sb tp (1 + i) b]"

fun slli :: "reg \<Rightarrow> reg \<Rightarrow> nat \<Rightarrow> op list" where
  "slli d a imm =
     (if imm = 0 then (if d \<noteq> a then mv d a else [])
      else if imm \<ge> 24 then
        [Sw x0 (SP_VAR VAR_A) sp, Sb a (SP_VAR_BYTE VAR_A 3) sp, Lw d (SP_VAR VAR_A) sp] @ slli d d (imm - 24)
      else if imm \<ge> 16 then
        [Sw x0 (SP_VAR VAR_A) sp] @ sh a (SP_VAR_BYTE VAR_A 2) sp @ [Lw d (SP_VAR VAR_A) sp] @ slli d d (imm - 16)
      else Add d a a # replicate (imm - 1) (Add d d d))"

declare slli.simps [simp del]

definition msb :: "reg \<Rightarrow> reg \<Rightarrow> op list" where
  "msb d a = getbyte d a 3 @ slli d d 1 @ getbyte d d 1"

definition not_byte :: "nat \<Rightarrow> op list" where
  "not_byte k = [Lbu gp (SP_VAR_BYTE VAR_C k) sp, Add gp gp tp, Lbu gp 0 gp, Sb gp (SP_VAR_BYTE VAR_D k) sp]"

definition not_rv :: "syms \<Rightarrow> reg \<Rightarrow> reg \<Rightarrow> op list" where
  "not_rv L d a =
     [PUSH gp 3, Sw a (SP_VAR VAR_C) sp] @ la tp (xor8_table L + 0xff00) @
     not_byte 3 @ not_byte 2 @ not_byte 1 @ not_byte 0 @ [POP gp 3, Lw d (SP_VAR VAR_D) sp]"

definition sub :: "syms \<Rightarrow> reg \<Rightarrow> reg \<Rightarrow> reg \<Rightarrow> op list" where
  "sub L d a b = not_rv L tp b @ [Add d a tp, Addi d d 1]"

definition slt_template :: "syms \<Rightarrow> ptr \<Rightarrow> reg \<Rightarrow> reg \<Rightarrow> reg \<Rightarrow> op list" where
  "slt_template L lut d a b =
     [PUSH s0 1, PUSH s1 2, Sw b (SP_VAR VAR_A) sp] @ mv s0 a @ [Lw s1 (SP_VAR VAR_A) sp] @
     msb gp s0 @ slli gp gp 1 @ msb tp s1 @ [Add gp gp tp] @ slli gp gp 1 @
     sub L tp s0 s1 @ msb tp tp @ [Add gp gp tp] @
     la tp lut @ [Add tp tp gp, POP s1 2, POP s0 1, Lbu d 0 tp]"

definition slt :: "syms \<Rightarrow> reg \<Rightarrow> reg \<Rightarrow> reg \<Rightarrow> op list" where
  "slt L d a b = slt_template L (slt1_table L) d a b"

definition sltu :: "syms \<Rightarrow> reg \<Rightarrow> reg \<Rightarrow> reg \<Rightarrow> op list" where
  "sltu L d a b = slt_template L (sltu1_table L) d a b"

definition logic8_byte_internal :: "reg \<Rightarrow> nat \<Rightarrow> op list" where
  "logic8_byte_internal lut_reg k =
     [Lbu tp (SP_VAR_BYTE VAR_A k) sp, Sb tp (SP_VAR_BYTE VAR_D 1) sp,
      Lbu tp (SP_VAR_BYTE VAR_B k) sp, Sb tp (SP_VAR_BYTE VAR_D 0) sp,
      Lw tp (SP_VAR VAR_D) sp, Add tp lut_reg tp, Lbu tp 0 tp, Sb tp (SP_VAR_BYTE VAR_C k) sp]"

text \<open>\<open>None\<close> is the \<open>.abort\<close> of the assembler.\<close>

definition logic :: "ptr \<Rightarrow> reg \<Rightarrow> reg \<Rightarrow> reg \<Rightarrow> op list option" where
  "logic lut d a b =
     (if d = x0 then Some []
      else if d = sp \<or> a = sp \<or> b = sp then None
      else if d = gp \<or> a = gp \<or> b = gp then None
      else if d = tp \<or> a = tp then None
      else Some
        ([Sw a (SP_VAR VAR_A) sp, Sw b (SP_VAR VAR_B) sp] @ la d lut @ [Sw x0 (SP_VAR VAR_D) sp] @
         logic8_byte_internal d 3 @ logic8_byte_internal d 2 @ logic8_byte_internal d 1 @ logic8_byte_internal d 0 @
         [Lw d (SP_VAR VAR_C) sp]))"

definition and_rv :: "syms \<Rightarrow> reg \<Rightarrow> reg \<Rightarrow> reg \<Rightarrow> op list option" where "and_rv L = logic (and8_table L)"
definition or_rv :: "syms \<Rightarrow> reg \<Rightarrow> reg \<Rightarrow> reg \<Rightarrow> op list option" where "or_rv L = logic (or8_table L)"
definition xor_rv :: "syms \<Rightarrow> reg \<Rightarrow> reg \<Rightarrow> reg \<Rightarrow> op list option" where "xor_rv L = logic (xor8_table L)"

definition check_8bit_same :: "reg \<Rightarrow> reg \<Rightarrow> nat \<Rightarrow> op list" where
  "check_8bit_same table d k =
     [Lbu d (SP_VAR_BYTE VAR_A k) sp, Add tp table d, Addi d x0 1, Sb d 0 tp,
      Lbu d (SP_VAR_BYTE VAR_B k) sp, Add d table d, Sb x0 0 d, Lbu d 0 tp]"

definition seq :: "syms \<Rightarrow> reg \<Rightarrow> reg \<Rightarrow> reg \<Rightarrow> op list" where
  "seq L d a b =
     [Sw a (SP_VAR VAR_A) sp, Sw b (SP_VAR VAR_B) sp, PUSH s0 1, PUSH s1 2] @
     la s0 (check_same_array L) @ check_8bit_same s0 gp 0 @
     check_8bit_same s0 s1 1 @ [Add gp gp s1] @ check_8bit_same s0 s1 2 @ [Add gp gp s1] @
     check_8bit_same s0 s1 3 @ [Add gp gp s1] @
     la tp (same_result_table L) @ [Add tp tp gp, Lbu d 0 tp, POP s1 2, POP s0 1]"

definition check_8bit_0 :: "reg \<Rightarrow> reg \<Rightarrow> nat \<Rightarrow> op list" where
  "check_8bit_0 table d k = [Lbu d (SP_VAR_BYTE VAR_A k) sp, Add d table d, Lbu d 0 d]"

definition seqz :: "syms \<Rightarrow> reg \<Rightarrow> reg \<Rightarrow> op list" where
  "seqz L d a =
     [Sw a (SP_VAR VAR_A) sp, PUSH s0 1] @ la s0 (check_8bit_0_table L) @ check_8bit_0 s0 gp 0 @
     check_8bit_0 s0 tp 1 @ [Add gp gp tp] @ check_8bit_0 s0 tp 2 @ [Add gp gp tp] @
     check_8bit_0 s0 tp 3 @ [Add gp gp tp] @
     la tp (same_result_table L) @ [Add tp tp gp, Lbu d 0 tp, POP s0 1]"

section \<open>Bytes\<close>

lemma ucast_ucast8 [simp]: "ucast (ucast b :: u32) = (b :: u8)"
  by (rule bit_word_eqI) (auto simp: bit_simps)

lemma putw_at:
  assumes "1 \<le> n" "n \<le> 7" "k < 4"
  shows "putw n w f (28 - 4 * n + k) = byte_of w k"
proof -
  have "n \<in> {1, 2, 3, 4, 5, 6, 7}" "k \<in> {0, 1, 2, 3}" using assms by auto
  then show ?thesis by (auto simp: putw_def)
qed

lemma exec_getbyte:
  "d \<noteq> sp \<Longrightarrow> k < 4 \<Longrightarrow>
   fold exec (getbyte d a k) (St r f m) = St (upd d (ucast (byte_of (val r a) k)) r) (putw 6 (val r a) f) m"
  using putw_at [of 6 k "val r a" f] by (simp add: getbyte_def exec_rules)

lemma slli_1 [simp]: "slli d a 1 = [Add d a a]" "slli d a (Suc 0) = [Add d a a]"
  by (simp_all add: slli.simps)

lemma slli_2 [simp]: "slli d a 2 = [Add d a a, Add d d d]"
  by (simp add: slli.simps)

lemma putw_putw [simp]: "putw n w (putw n v f) = putw n w f"
  by (auto simp: putw_def)

definition sign :: "u32 \<Rightarrow> u32" where
  "sign w = of_bool (bit w 31)"

lemma msb_bit: "ucast (byte_of (2 * ucast (byte_of w 3)) (Suc 0)) = sign w"
proof -
  have "2 * ucast (byte_of w 3) = (push_bit 1 (ucast (byte_of w 3)) :: u32)" by simp
  then show ?thesis by (intro bit_word_eqI) (auto simp: sign_def byte_of_def bit_simps)
qed

lemma exec_msb:
  "d \<noteq> sp \<Longrightarrow> d \<noteq> x0 \<Longrightarrow> fold exec (msb d a) (St r f m) =
   St (upd d (sign (val r a)) r) (putw 6 (2 * ucast (byte_of (val r a) 3)) f) m"
  by (simp add: msb_def exec_getbyte msb_bit)

section \<open>Subtraction\<close>

lemma xor8_not:
  assumes "tab8 p m t (\<lambda>j i. of_nat j XOR of_nat i)"
  shows "m (ucast b + (t + 0xff00)) = NOT b" and "outside p (ucast b + (t + 0xff00))"
proof -
  have at: "ucast b + (t + 0xff00) = t + of_nat (255 * 256 + unat b)" by simp
  have l: "unat b < 256" using unsigned_less [of b] by simp
  have "byte_of (mask 8 XOR ucast b) 0 = NOT b"
    by (rule bit_word_eqI) (auto simp: byte_of_def bit_simps)
  moreover have "(of_nat 255 :: u32) = mask 8" "of_nat (unat b) = (ucast b :: u32)"
    by (simp_all add: mask_eq_exp_minus_1)
  ultimately have "byte_of (of_nat 255 XOR of_nat (unat b)) 0 = NOT b" by (simp only:)
  then show "m (ucast b + (t + 0xff00)) = NOT b" "outside p (ucast b + (t + 0xff00))"
    unfolding at using tab8D [OF assms, of 255 "unat b"] l by simp_all
qed

lemma exec_not_byte:
  assumes "tab8 (r sp) m (xor8_table L) (\<lambda>j i. of_nat j XOR of_nat i)" "val r tp = xor8_table L + 0xff00" "k < 4"
  shows "fold exec (not_byte k) (St r f m) =
    St (upd gp (ucast (NOT (f (4 + k)))) r) (f(k := NOT (f (4 + k)))) m"
  using xor8_not [OF assms(1)] assms(2,3) by (simp add: not_byte_def exec_rules exec_Lbu_mem)

lemma byte_of_NOT [simp]: "k < 4 \<Longrightarrow> byte_of (NOT w) k = NOT (byte_of w k)"
  by (rule bit_word_eqI) (auto simp: byte_of_def bit_simps)

lemma not_bytes:
  assumes "g = putw 6 w h"
  shows "g(3 := NOT (g 7), 2 := NOT (g 6), Suc 0 := NOT (g 5), 0 := NOT (g 4)) = putw 7 (NOT w) g"
  unfolding assms by (rule ext) (simp add: putw_def)

lemma var_cases: "1 \<le> n \<Longrightarrow> n \<le> 7 \<Longrightarrow> n \<in> {1, 2, 3, 4, 5, 6, 7}" for n :: nat
  by auto

lemma getw_putw [simp]: "1 \<le> n \<Longrightarrow> n \<le> 7 \<Longrightarrow> getw n (putw n w f) = w"
  by (drule (1) var_cases) (elim insertE emptyE; simp add: getw_def putw_def le_word_byte_of [unfolded One_nat_def])

lemma getw_putw_other [simp]:
  "1 \<le> n \<Longrightarrow> n \<le> 7 \<Longrightarrow> 1 \<le> k \<Longrightarrow> k \<le> 7 \<Longrightarrow> n \<noteq> k \<Longrightarrow> getw n (putw k w f) = getw n f"
  by (drule (1) var_cases, drule (1) var_cases) (elim insertE emptyE; simp add: getw_def putw_def)

lemma upd_idem: "v = val r d \<Longrightarrow> upd d v r = r"
  by simp

lemma exec_not:
  assumes "tab8 (r sp) m (xor8_table L) (\<lambda>j i. of_nat j XOR of_nat i)" "d \<noteq> sp"
  shows "fold exec (not_rv L d a) (St r f m) =
    St (upd d (NOT (val r a)) (upd tp (xor8_table L + 0xff00) r))
      (putw 7 (NOT (val r a)) (putw 6 (val r a) (putw 3 (val r gp) f))) m"
  using assms by (simp add: not_rv_def PUSH_def POP_def exec_rules exec_not_byte not_bytes [OF refl] upd_idem)

text \<open>\<open>sub\<close> leaves the complement of its second operand in \<open>tp\<close>.\<close>

lemma exec_sub:
  assumes "tab8 (r sp) m (xor8_table L) (\<lambda>j i. of_nat j XOR of_nat i)" "d \<noteq> sp" "a \<noteq> tp"
  shows "fold exec (sub L d a b) (St r f m) =
    St (upd d (val r a - val r b) (upd tp (NOT (val r b)) r))
      (putw 7 (NOT (val r b)) (putw 6 (val r b) (putw 3 (val r gp) f))) m"
  using assms by (simp add: sub_def exec_not not_eq_complement)

section \<open>What a macro promises\<close>

text \<open>
  The code puts \<open>v\<close> into register \<open>d\<close>; the other registers keep their values except \<open>gp\<close> and
  \<open>tp\<close>, and the memory keeps its contents except for the seven words below the stack pointer.
\<close>

definition computes :: "op list \<Rightarrow> reg \<Rightarrow> u32 \<Rightarrow> (reg \<Rightarrow> u32) \<Rightarrow> gmem \<Rightarrow> bool" where
  "computes code d v r m \<longleftrightarrow>
     (\<forall>f. \<exists>r' f'. fold exec code (St r f m) = St r' f' m \<and> val r' d = (if d = x0 then 0 else v) \<and>
       (\<forall>x. x \<notin> {d, gp, tp} \<longrightarrow> val r' x = val r x))"

lemma computesI:
  assumes "\<And>f. \<exists>r' f'. fold exec code (St r f m) = St r' f' m \<and> val r' d = (if d = x0 then 0 else v) \<and>
       (\<forall>x. x \<notin> {d, gp, tp} \<longrightarrow> val r' x = val r x)"
  shows "computes code d v r m"
  using assms by (simp add: computes_def)

lemma computes_sub:
  assumes "env L (r sp) m" "d \<noteq> sp" "a \<noteq> tp"
  shows "computes (sub L d a b) d (val r a - val r b) r m"
  by (rule computesI, subst exec_sub, rule env_tables(3) [OF assms(1)], rule assms(2), rule assms(3),
      intro exI conjI, rule refl) simp_all

section \<open>Comparison\<close>

lemma scast_0_12 [simp]: "scast (0 :: 12 word) = (0 :: u32)"
  by (rule scast_0)

lemma exec_Lbu_table:
  assumes "env L (r sp) m" "(t, xs) \<in> set (rodata L)" "val r a = t + of_nat i" "i < length xs" "d \<noteq> sp"
  shows "exec (Lbu d 0 a) (St r f m) = St (upd d (ucast (xs ! i)) r) f m"
  using env_byte [OF assms(1,2,4)] assms(3,5) by (simp add: exec_Lbu_mem)

definition sign_index :: "u32 \<Rightarrow> u32 \<Rightarrow> nat" where
  "sign_index a b = 4 * of_bool (bit a 31) + 2 * of_bool (bit b 31) + of_bool (bit (a - b) 31)"

lemma sign_index: "4 * sign a + 2 * sign b + sign (a - b) = of_nat (sign_index a b)"
  by (simp add: sign_index_def sign_def)

lemma computes_slt_template:
  assumes "env L (r sp) m" "(lut, xs) \<in> set (rodata L)" "length xs = 8" "d \<noteq> sp"
  shows "computes (slt_template L lut d a b) d (ucast (xs ! sign_index (val r a) (val r b))) r m"
proof (rule computesI)
  have i: "sign_index (val r a) (val r b) < length xs" using assms(3) by (simp add: sign_index_def)
  note env_tables(3) [OF assms(1), simp]
  fix f
  show "\<exists>r' f'. fold exec (slt_template L lut d a b) (St r f m) = St r' f' m \<and>
    val r' d = (if d = x0 then 0 else ucast (xs ! sign_index (val r a) (val r b))) \<and>
    (\<forall>x. x \<notin> {d, gp, tp} \<longrightarrow> val r' x = val r x)"
    using assms
    by (simp add: slt_template_def PUSH_def POP_def mv_def exec_rules exec_msb exec_sub exec_Lbu_table [OF _ assms(2) _ i] sign_index,
        intro conjI impI exI, (rule refl | simp)+)
qed

text \<open>The sign bits of two words and of their difference decide both comparisons.\<close>

lemma slt_table: "[0, 1, 0, 0, 1, 1, 0, 1] ! sign_index a b = (of_bool (a <s b) :: u8)"
proof -
  obtain x y where "uint a = x" "0 \<le> x" "x < 2 ^ 32" "uint b = y" "0 \<le> y" "y < 2 ^ 32"
    by (metis uint_bounds)
  then show ?thesis by (simp add: sign_index_def bit31_iff word_sless_alt sint32_cases uint_minus32 of_bool_def)
qed

lemma sltu_table: "[0, 1, 1, 1, 0, 0, 0, 1] ! sign_index a b = (of_bool (a < b) :: u8)"
proof -
  obtain x y where "uint a = x" "0 \<le> x" "x < 2 ^ 32" "uint b = y" "0 \<le> y" "y < 2 ^ 32"
    by (metis uint_bounds)
  then show ?thesis by (simp add: sign_index_def bit31_iff word_less_def uint_minus32 of_bool_def)
qed

lemma ucast_of_bool [simp]: "ucast (of_bool P :: u8) = (of_bool P :: u32)"
  by (cases P) simp_all

lemma computes_slt:
  assumes "env L (r sp) m" "d \<noteq> sp"
  shows "computes (slt L d a b) d (of_bool (val r a <s val r b)) r m"
  using computes_slt_template [of L r m "slt1_table L" "[0, 1, 0, 0, 1, 1, 0, 1]" d a b] assms
  by (simp add: slt_def slt_table rodata_def del: of_bool_eq_iff)

lemma computes_sltu:
  assumes "env L (r sp) m" "d \<noteq> sp"
  shows "computes (sltu L d a b) d (of_bool (val r a < val r b)) r m"
  using computes_slt_template [of L r m "sltu1_table L" "[0, 1, 1, 1, 0, 0, 0, 1]" d a b] assms
  by (simp add: sltu_def sltu_table rodata_def)

section \<open>Bitwise logic\<close>

lemma le_word_2: "le_word b a 0 0 = of_nat (unat a * 256 + unat b)"
proof -
  have "le_word b a 0 0 = push_bit 8 (ucast a) OR ucast b"
    by (rule bit_word_eqI) (auto simp: le_word_def bit_simps)
  also have "\<dots> = push_bit 8 (ucast a) + ucast b"
    by (rule disjunctive_add [symmetric]) (auto simp: bit_simps dest: bit_imp_le_length)
  finally show ?thesis by (simp add: push_bit_eq_mult)
qed

text \<open>An operation on words that works byte by byte, as the tables give it.\<close>

definition bytewise :: "(u32 \<Rightarrow> u32 \<Rightarrow> u32) \<Rightarrow> bool" where
  "bytewise h \<longleftrightarrow> (\<forall>x y. \<forall>k<4. byte_of (h (ucast (byte_of x k)) (ucast (byte_of y k))) 0 = byte_of (h x y) k)"

lemma bytewise_logic: "bytewise (AND)" "bytewise (OR)" "bytewise (XOR)"
  unfolding bytewise_def by (intro allI impI; rule bit_word_eqI; auto simp: byte_of_def bit_simps)+

lemma exec_logic8:
  assumes t: "tab8 (r sp) m t (\<lambda>j i. h (of_nat j) (of_nat i))" and r: "val r d = t" "d \<notin> {sp, tp}" and k: "k < 4"
    and f: "f 2 = 0" "f 3 = 0"
  shows "fold exec (logic8_byte_internal d k) (St r f m) =
    St (upd tp (ucast (byte_of (h (ucast (f (12 + k))) (ucast (f (8 + k)))) 0)) r)
      (f(1 := f (12 + k), 0 := f (8 + k), 4 + k := byte_of (h (ucast (f (12 + k))) (ucast (f (8 + k)))) 0)) m"
proof -
  let ?a = "f (12 + k)" and ?b = "f (8 + k)"
  have l: "unat ?a < 256" "unat ?b < 256" using unsigned_less [of ?a] unsigned_less [of ?b] by simp_all
  have g: "getw 7 (f(Suc 0 := ?a, 0 := ?b)) = of_nat (unat ?a * 256 + unat ?b)"
    using f by (simp add: getw_def le_word_2)
  show ?thesis
    using tab8D [OF t l] r k by (simp add: logic8_byte_internal_def exec_rules g exec_Lbu_mem)
qed

lemma logic_bytes:
  assumes "bytewise h" "\<And>k. k < 4 \<Longrightarrow> c k = byte_of (h (ucast (byte_of x k)) (ucast (byte_of y k))) 0"
  shows "le_word (c 0) (c 1) (c 2) (c 3) = h x y"
  using assms le_word_byte_of [of "h x y"] by (simp add: bytewise_def)

lemma byte_of_0 [simp]: "byte_of 0 k = 0"
  by (simp add: byte_of_def)

lemma computes_logic:
  assumes t: "tab8 (r sp) m t (\<lambda>j i. h (of_nat j) (of_nat i))" and h: "bytewise h" and c: "logic t d a b = Some code"
  shows "computes code d (h (val r a) (val r b)) r m"
proof (cases "d = x0")
  case True
  then show ?thesis using c by (intro computesI) (auto simp: logic_def)
next
  case False
  then have d: "d \<notin> {sp, gp, tp, x0}" and code: "code = [Sw a (SP_VAR VAR_A) sp, Sw b (SP_VAR VAR_B) sp] @ la d t @
    [Sw x0 (SP_VAR VAR_D) sp] @ logic8_byte_internal d 3 @ logic8_byte_internal d 2 @ logic8_byte_internal d 1 @
    logic8_byte_internal d 0 @ [Lw d (SP_VAR VAR_C) sp]"
    using c by (auto simp: logic_def split: if_splits)
  show ?thesis
  proof (rule computesI)
    fix f
    show "\<exists>r' f'. fold exec code (St r f m) = St r' f' m \<and> val r' d = (if d = x0 then 0 else h (val r a) (val r b)) \<and>
      (\<forall>x. x \<notin> {d, gp, tp} \<longrightarrow> val r' x = val r x)"
      using t d logic_bytes [OF h refl, of "val r a" "val r b"]
      by (simp add: code exec_rules exec_logic8 [where t = t and h = h] putw_def getw_def,
          intro conjI impI exI, (rule refl | simp)+)
  qed
qed

lemma computes_and: "env L (r sp) m \<Longrightarrow> and_rv L d a b = Some code \<Longrightarrow> computes code d (val r a AND val r b) r m"
  unfolding and_rv_def by (rule computes_logic [OF env_tables(1) bytewise_logic(1)])

lemma computes_or: "env L (r sp) m \<Longrightarrow> or_rv L d a b = Some code \<Longrightarrow> computes code d (val r a OR val r b) r m"
  unfolding or_rv_def by (rule computes_logic [OF env_tables(2) bytewise_logic(2)])

lemma computes_xor: "env L (r sp) m \<Longrightarrow> xor_rv L d a b = Some code \<Longrightarrow> computes code d (val r a XOR val r b) r m"
  unfolding xor_rv_def by (rule computes_logic [OF env_tables(3) bytewise_logic(3)])

section \<open>Equality\<close>

definition nz :: "u8 \<Rightarrow> u32" where
  "nz b = of_bool (b \<noteq> 0)"

lemma nth_Cons_replicate: "n < Suc k \<Longrightarrow> (x # replicate k y) ! n = (if n = 0 then x else y)"
  by (cases n) simp_all

lemma table_0:
  assumes "env L (r sp) m" "val r a = check_8bit_0_table L + ucast (b :: u8)" "d \<noteq> sp"
  shows "exec (Lbu d 0 a) (St r f m) = St (upd d (nz b) r) f m"
proof -
  have b: "unat b < 256" using unsigned_less [of b] by simp
  have "(check_8bit_0_table L, 0 # replicate 255 1) \<in> set (rodata L)" by (simp add: rodata_def)
  moreover have "val r a = check_8bit_0_table L + of_nat (unat b)" using assms(2) by simp
  moreover have "ucast ((0 # replicate 255 (1 :: u8)) ! unat b) = nz b"
    using b nth_Cons_replicate [of "unat b" 255 0 "1 :: u8"] by (simp add: nz_def unat_eq_0)
  ultimately show ?thesis
    using exec_Lbu_table [of L r m "check_8bit_0_table L" _ a "unat b" d f] assms(1,3) b
    by simp
qed

lemma exec_check_8bit_0:
  assumes "env L (r sp) m" "val r s0 = check_8bit_0_table L" "d \<notin> {sp, s0, x0}" "k < 4"
  shows "fold exec (check_8bit_0 s0 d k) (St r f m) = St (upd d (nz (f (12 + k))) r) f m"
  using assms by (simp add: check_8bit_0_def exec_rules table_0 [where L = L])

text \<open>The last step of \<open>seq\<close> and \<open>seqz\<close>: none of four bytes differs.\<close>

lemma exec_same_result:
  assumes "env L (r sp) m" "val r a = same_result_table L + (nz b0 + nz b1 + nz b2 + nz b3)" "d \<noteq> sp"
  shows "exec (Lbu d 0 a) (St r f m) = St (upd d (of_bool (b0 = 0 \<and> b1 = 0 \<and> b2 = 0 \<and> b3 = 0)) r) f m"
proof -
  let ?i = "of_bool (b0 \<noteq> 0) + of_bool (b1 \<noteq> 0) + of_bool (b2 \<noteq> 0) + of_bool (b3 \<noteq> 0) :: nat"
  have "(same_result_table L, [1, 0, 0, 0, 0, 0, 0, 0]) \<in> set (rodata L)" by (simp add: rodata_def)
  moreover have "val r a = same_result_table L + of_nat ?i" using assms(2) by (simp add: nz_def)
  moreover have "?i < length [1, 0, 0, 0, 0, 0, 0, 0 :: u8]" by simp
  moreover have "[1, 0, 0, 0, 0, 0, 0, 0 :: u8] ! ?i = of_bool (b0 = 0 \<and> b1 = 0 \<and> b2 = 0 \<and> b3 = 0)" by simp
  ultimately show ?thesis using exec_Lbu_table [of L r m "same_result_table L" _ a ?i d f] assms(1,3) by (metis ucast_of_bool)
qed

lemma word_zero_bytes: "byte_of w 0 = 0 \<and> byte_of w (Suc 0) = 0 \<and> byte_of w 2 = 0 \<and> byte_of w 3 = 0 \<longleftrightarrow> w = 0"
  using le_word_byte_of [of w] by (auto simp: le_word_def)

lemma computes_seqz:
  assumes "env L (r sp) m" "d \<notin> {sp, s0}"
  shows "computes (seqz L d a) d (of_bool (val r a = 0)) r m"
proof (rule computesI)
  fix f
  show "\<exists>r' f'. fold exec (seqz L d a) (St r f m) = St r' f' m \<and> val r' d = (if d = x0 then 0 else of_bool (val r a = 0)) \<and>
    (\<forall>x. x \<notin> {d, gp, tp} \<longrightarrow> val r' x = val r x)"
    using assms
    by (simp add: seqz_def PUSH_def POP_def exec_rules exec_check_8bit_0 [where L = L] exec_same_result [where L = L]
          putw_def getw_def word_zero_bytes le_word_byte_of [unfolded One_nat_def],
        intro conjI impI exI, (rule refl | simp)+)
qed

text \<open>
  The result of \<open>seqz\<close> is lost when its destination is \<open>s0\<close>: the macro restores that register after
  it has written the result.
\<close>

lemma seqz_s0_lost:
  assumes "env L (r sp) m"
  shows "\<exists>r' f'. fold exec (seqz L s0 a) (St r f m) = St r' f' m \<and> val r' s0 = val r s0"
  using assms
  by (simp add: seqz_def PUSH_def POP_def exec_rules exec_check_8bit_0 [where L = L] exec_same_result [where L = L]
        putw_def getw_def word_zero_bytes le_word_byte_of [unfolded One_nat_def],
      intro conjI impI exI, (rule refl | simp)+)

text \<open>The memory after the comparison of two bytes, and the comparison.\<close>

definition marked :: "syms \<Rightarrow> u8 \<Rightarrow> u8 \<Rightarrow> gmem \<Rightarrow> gmem" where
  "marked L x y m = m(check_same_array L + ucast x := 1, check_same_array L + ucast y := 0)"

lemma marked_other: "\<not> in_array L a \<Longrightarrow> marked L x y m a = m a"
  by (auto simp: marked_def)

lemma env_marked [simp]: "env L p m \<Longrightarrow> env L p (marked L x y m)"
  by (erule env_cong) (simp add: marked_other)

lemma exec_check_8bit_same:
  assumes "env L (r sp) m" "val r s0 = check_same_array L" "d \<notin> {sp, s0, tp, x0}" "k < 4"
  shows "fold exec (check_8bit_same s0 d k) (St r f m) =
    St (upd d (nz (f (12 + k) - f (8 + k))) (upd tp (check_same_array L + ucast (f (12 + k))) r)) f
      (marked L (f (12 + k)) (f (8 + k)) m)"
proof -
  have i: "(ucast x = (ucast y :: u32)) = (x = y)" for x y :: u8
    by (metis ucast_ucast8)
  show ?thesis using assms env_array [OF assms(1)]
    by (auto simp: check_8bit_same_def exec_rules exec_Lbu_mem exec_Sb_mem marked_def nz_def i)
qed

lemma byte_of_diff_0: "byte_of x k - byte_of y k = 0 \<longleftrightarrow> byte_of x k = byte_of y k"
  by simp

lemma word_same_bytes:
  "byte_of x 0 = byte_of y 0 \<and> byte_of x (Suc 0) = byte_of y (Suc 0) \<and> byte_of x 2 = byte_of y 2 \<and> byte_of x 3 = byte_of y 3
   \<longleftrightarrow> x = y"
  by (metis One_nat_def le_word_byte_of)

text \<open>\<open>seq\<close> computes equality, and writes only the array besides.\<close>

lemma exec_seq:
  assumes "env L (r sp) m" "d \<notin> {sp, s0, s1, x0}"
  shows "\<exists>r' f' m'. fold exec (seq L d a b) (St r f m) = St r' f' m' \<and> val r' d = of_bool (val r a = val r b) \<and>
    (\<forall>x. x \<notin> {d, gp, tp} \<longrightarrow> val r' x = val r x) \<and> (\<forall>p. \<not> in_array L p \<longrightarrow> m' p = m p)"
  using assms
  by (simp add: seq_def PUSH_def POP_def exec_rules exec_check_8bit_same [where L = L] exec_same_result [where L = L]
        putw_def getw_def le_word_byte_of [unfolded One_nat_def] word_same_bytes,
      intro conjI impI exI, (rule refl | simp add: marked_other)+)

end
