(* ===== verification/Rvmini_Shift.thy ===== *)
theory Rvmini_Shift
  imports Rvmini_Alu
begin

text \<open>
  The macros for shifts and for loads and stores of bytes and half words of
  \<open>tools/rvmini/inst-replace.h\<close>.  A shift works on the four bytes of its operand, looks each of them
  up in a table of shifted bytes and puts the results together.
\<close>

section \<open>Macros\<close>

definition getshamt :: "syms \<Rightarrow> reg \<Rightarrow> reg \<Rightarrow> op list" where
  "getshamt L d a =
     [Sb a (SP_VAR_BYTE VAR_B 0) sp, Lbu d (SP_VAR_BYTE VAR_B 0) sp] @ la tp (and8_table L + push_bit 8 0x1f) @
     [Add d d tp, Lbu d 0 d]"

definition get_shift_byte_in_tp :: "reg \<Rightarrow> nat \<Rightarrow> op list" where
  "get_shift_byte_in_tp base k =
     [Lbu tp (SP_VAR_BYTE VAR_A k) sp] @ slli tp tp 2 @ [Add tp base tp, Lw tp 0 tp]"

definition sll :: "syms \<Rightarrow> reg \<Rightarrow> reg \<Rightarrow> reg \<Rightarrow> op list" where
  "sll L d a b =
     [PUSH s0 1, Sw a (SP_VAR VAR_A) sp] @ getshamt L s0 b @
     [Sw x0 (SP_VAR VAR_B) sp, Sb s0 (SP_VAR_BYTE VAR_B 1) sp, Lw s0 (SP_VAR VAR_B) sp] @ slli s0 s0 2 @
     la tp (sll8_table L) @ [Add s0 s0 tp] @
     [Sw x0 (SP_VAR VAR_B) sp] @ get_shift_byte_in_tp s0 3 @
     [Sb tp (SP_VAR_BYTE VAR_B 3) sp, Lw gp (SP_VAR VAR_B) sp] @
     get_shift_byte_in_tp s0 2 @ sh tp (SP_VAR_BYTE VAR_B 2) sp @ [Lw tp (SP_VAR VAR_B) sp, Add gp gp tp] @
     get_shift_byte_in_tp s0 1 @ slli tp tp 8 @ [Add gp gp tp] @
     get_shift_byte_in_tp s0 0 @ [POP s0 1, Add d gp tp]"

text \<open>The second operand of a shift to the right is a register or an immediate.\<close>

datatype rs2 = Reg reg | Imm nat

text \<open>The bytes are looked up at \<open>s0\<close> and put together.\<close>

definition combine_bytes :: "syms \<Rightarrow> reg \<Rightarrow> bool \<Rightarrow> op list" where
  "combine_bytes L d is_arith =
     get_shift_byte_in_tp s0 2 @ [Sw tp (SP_VAR VAR_B) sp] @
     get_shift_byte_in_tp s0 1 @ [Sw tp (SP_VAR VAR_C) sp] @
     get_shift_byte_in_tp s0 0 @ [Sw tp (SP_VAR VAR_D) sp] @
     [Lbu gp (SP_VAR_BYTE VAR_B 1) sp, Lbu tp (SP_VAR_BYTE VAR_C 2) sp, Add gp gp tp,
      Lbu tp (SP_VAR_BYTE VAR_D 3) sp, Add gp gp tp, Sw gp (SP_VAR VAR_D) sp] @
     [Lbu gp (SP_VAR_BYTE VAR_B 2) sp, Lbu tp (SP_VAR_BYTE VAR_C 3) sp, Add gp gp tp,
      Sb gp (SP_VAR_BYTE VAR_D 1) sp] @
     [Lbu gp (SP_VAR_BYTE VAR_B 3) sp, Sb gp (SP_VAR_BYTE VAR_D 2) sp] @
     [Lw gp (SP_VAR VAR_D) sp] @
     (if is_arith then la tp (sra8_table L - srl8_table L) @ [Add s0 s0 tp] else []) @
     get_shift_byte_in_tp s0 3 @ [POP s0 1, Add d gp tp]"

text \<open>The row of the table for the amount, in \<open>s0\<close>.\<close>

definition table_row :: "syms \<Rightarrow> rs2 \<Rightarrow> op list" where
  "table_row L b =
     (case b of
        Reg b \<Rightarrow>
          getshamt L s0 b @
          [Sw x0 (SP_VAR VAR_B) sp, Sb s0 (SP_VAR_BYTE VAR_B 1) sp, Lw s0 (SP_VAR VAR_B) sp] @ slli s0 s0 2 @
          la tp (srl8_table L) @ [Add s0 s0 tp]
      | Imm n \<Rightarrow> la s0 (srl8_table L + push_bit 10 (of_nat n)))"

definition shift_right_template :: "syms \<Rightarrow> reg \<Rightarrow> reg \<Rightarrow> rs2 \<Rightarrow> bool \<Rightarrow> op list" where
  "shift_right_template L d a b is_arith =
     (if b = Imm 24 then
        (if is_arith then
           [Sw a (SP_VAR VAR_A) sp] @ la tp (sra8_table L + push_bit 10 24) @
           [Lbu d (SP_VAR_BYTE VAR_A 3) sp] @ slli d d 2 @ [Add tp tp d, Lw d 0 tp]
         else getbyte d a 3)
      else
        [PUSH s0 1, Sw a (SP_VAR VAR_A) sp] @ table_row L b @ combine_bytes L d is_arith)"

definition srl :: "syms \<Rightarrow> reg \<Rightarrow> reg \<Rightarrow> reg \<Rightarrow> op list" where
  "srl L d a b = shift_right_template L d a (Reg b) False"

definition sra :: "syms \<Rightarrow> reg \<Rightarrow> reg \<Rightarrow> reg \<Rightarrow> op list" where
  "sra L d a b = shift_right_template L d a (Reg b) True"

definition srli :: "syms \<Rightarrow> reg \<Rightarrow> reg \<Rightarrow> nat \<Rightarrow> op list" where
  "srli L d a imm = shift_right_template L d a (Imm imm) False"

definition srai :: "syms \<Rightarrow> reg \<Rightarrow> reg \<Rightarrow> nat \<Rightarrow> op list" where
  "srai L d a imm = shift_right_template L d a (Imm imm) True"

text \<open>Loads; the address is the offset \<open>i\<close> from register \<open>b\<close>.\<close>

definition lb :: "syms \<Rightarrow> reg \<Rightarrow> 12 word \<Rightarrow> reg \<Rightarrow> op list" where
  "lb L d i b =
     [Sw x0 (SP_VAR VAR_A) sp, Lbu d i b, Sb d (SP_VAR_BYTE VAR_A 3) sp, Lw d (SP_VAR VAR_A) sp] @ srai L d d 24"

definition lhu :: "reg \<Rightarrow> 12 word \<Rightarrow> reg \<Rightarrow> op list" where
  "lhu d i b =
     [Sw x0 (SP_VAR VAR_A) sp, Lbu tp (1 + i) b, Sb tp (SP_VAR_BYTE VAR_A 1) sp, Lw tp (SP_VAR VAR_A) sp,
      Lbu d i b, Add d d tp]"

definition lh :: "syms \<Rightarrow> reg \<Rightarrow> 12 word \<Rightarrow> reg \<Rightarrow> op list" where
  "lh L d i b =
     [Sw x0 (SP_VAR VAR_A) sp, Lbu gp (1 + i) b, Sb gp (SP_VAR_BYTE VAR_A 3) sp, Lw gp (SP_VAR VAR_A) sp] @
     srai L gp gp 16 @ [Lbu d i b, Add d d gp]"

section \<open>Shifts to the left by a constant\<close>

lemma exec_doubles:
  "d \<noteq> sp \<Longrightarrow> fold exec (replicate n (Add d d d)) (St r f m) = St (upd d (push_bit n (val r d)) r) f m"
proof (induction n arbitrary: r)
  case (Suc n)
  then show ?case by (cases "d = 0") (simp_all add: push_bit_Suc mult.commute del: fold_replicate)
qed simp

lemma exec_slli_small:
  assumes "d \<noteq> sp" "imm < 16"
  shows "fold exec (slli d a imm) (St r f m) = St (upd d (push_bit imm (val r a)) r) f m"
proof (cases imm)
  case 0
  then show ?thesis using assms by (simp add: slli.simps [of d a] mv_def)
next
  case (Suc n)
  then show ?thesis using assms exec_doubles [of d n "upd d (val r a + val r a) r" f m]
    by (cases "d = 0") (simp_all add: slli.simps [of d a] slli.simps [of 0 a] push_bit_Suc mult.commute del: fold_replicate)
qed

text \<open>A half word stored into the stack.\<close>

lemma SP_VAR_BYTE_Suc: "1 + SP_VAR_BYTE n k = SP_VAR_BYTE n (Suc k)"
  by (simp add: SP_VAR_BYTE_def)

lemma exec_sh_var:
  assumes "1 \<le> n" "n \<le> 5" "k < 3"
  shows "fold exec (sh a (SP_VAR_BYTE n k) sp) (St r f m) =
    St (upd tp (ucast (byte_of (val r a) 1)) r)
      ((putw 6 (val r a) (f(28 - 4 * n + k := byte_of (val r a) 0)))(28 - 4 * n + Suc k := byte_of (val r a) 1)) m"
  using assms
  by (cases "a = tp") (simp_all add: sh_def SP_VAR_BYTE_Suc exec_rules exec_getbyte byte_of_def)

lemma le_word_byte3: "le_word 0 0 0 (ucast w) = push_bit 24 w" for w :: u32
  by (rule bit_word_eqI) (auto simp: le_word_def bit_simps)

lemma le_word_byte23: "le_word 0 0 (byte_of w 0) (byte_of w 1) = push_bit 16 w"
proof (rule bit_word_eqI)
  fix n assume "n < LENGTH(32)"
  then have "n < 16 \<or> (\<exists>i<8. n = 16 + i) \<or> (\<exists>i<8. n = 24 + i)" by simp presburger
  then show "bit (le_word 0 0 (byte_of w 0) (byte_of w 1)) n \<longleftrightarrow> bit (push_bit 16 w) n"
    by (elim disjE exE conjE) (simp_all add: le_word_def bit_simps bit_byte_of)
qed

lemma le_word_top: "le_word 0 0 0 b = push_bit 24 (ucast b)"
  by (rule bit_word_eqI) (auto simp: le_word_def bit_simps)

lemma computes_slli:
  assumes "d \<noteq> sp" "imm < 32"
  shows "computes (slli d a imm) d (push_bit imm (val r a)) r m"
proof (rule computesI)
  fix f
  have hi: "imm < 16 \<or> (\<exists>n<8. imm = n + 16) \<or> (\<exists>n<8. imm = n + 24)"
    using assms(2) by presburger
  have "slli d a (n + 16) = [Sw x0 (SP_VAR VAR_A) sp] @ sh a (SP_VAR_BYTE VAR_A 2) sp @ [Lw d (SP_VAR VAR_A) sp] @ slli d d n"
    if "n < 8" for n using that by (subst slli.simps) simp
  moreover have "slli d a (n + 24) = [Sw x0 (SP_VAR VAR_A) sp, Sb a (SP_VAR_BYTE VAR_A 3) sp, Lw d (SP_VAR VAR_A) sp] @ slli d d n"
    for n by (subst slli.simps) simp
  moreover have "push_bit (n + k) w = push_bit n (push_bit k w)" for n k and w :: u32 by simp
  ultimately show "\<exists>r' f'. fold exec (slli d a imm) (St r f m) = St r' f' m \<and>
    val r' d = (if d = x0 then 0 else push_bit imm (val r a)) \<and> (\<forall>x. x \<notin> {d, gp, tp} \<longrightarrow> val r' x = val r x)"
    using hi assms(1)
    by (elim disjE exE conjE)
      (simp_all add: exec_slli_small exec_rules exec_sh_var putw_def getw_def le_word_byte3 le_word_byte23 [unfolded One_nat_def]
        del: push_bit_push_bit, (intro conjI impI exI, (rule refl | simp)+)+)
qed

section \<open>Table lookups\<close>

lemma tab8_shamt:
  assumes "tab8 p m t (\<lambda>j i. of_nat j AND of_nat i)"
  shows "m (ucast b + (t + 0x1f00)) = b AND 0x1f" and "outside p (ucast b + (t + 0x1f00))"
proof -
  have at: "ucast b + (t + 0x1f00) = t + of_nat (31 * 256 + unat b)" by simp
  have l: "unat b < 256" using unsigned_less [of b] by simp
  have "byte_of (0x1f AND ucast b) 0 = b AND 0x1f"
    by (rule bit_word_eqI) (auto simp: byte_of_def bit_simps)
  moreover have "(of_nat 31 :: u32) = 0x1f" "of_nat (unat b) = (ucast b :: u32)" by simp_all
  ultimately have "byte_of (of_nat 31 AND of_nat (unat b)) 0 = b AND 0x1f" by (simp only:)
  then show "m (ucast b + (t + 0x1f00)) = b AND 0x1f" "outside p (ucast b + (t + 0x1f00))"
    unfolding at using tab8D [OF assms, of 31 "unat b"] l by simp_all
qed

lemma exec_getshamt:
  assumes "env L (r sp) m" "d \<notin> {sp, tp, x0}"
  shows "fold exec (getshamt L d a) (St r f m) =
    St (upd d (ucast (ucast (val r a) AND (0x1f :: u8))) (upd tp (and8_table L + 0x1f00) r)) (f(8 := ucast (val r a))) m"
  using assms tab8_shamt [OF env_tables(1) [OF assms(1)]]
  by (simp add: getshamt_def exec_rules exec_Lbu_mem)

lemma exec_shift_byte:
  assumes "tab32 (r sp) m t g" "val r b = t + ucast j * 1024" "b \<notin> {tp}" "unat (j :: u8) < 32" "k < 4"
  shows "fold exec (get_shift_byte_in_tp b k) (St r f m) = St (upd tp (g (unat j) (unat (f (12 + k)))) r) f m"
proof -
  have l: "unat (f (12 + k)) < 256" using unsigned_less [of "f (12 + k)"] by simp
  have e: "t + ucast j * 1024 + 4 * ucast (f (12 + k)) = t + of_nat (unat j * 1024 + unat (f (12 + k)) * 4)" by simp
  show ?thesis
    using assms tab32D [OF assms(1) assms(4) l]
    by (simp add: get_shift_byte_in_tp_def exec_rules exec_Lw_mem e del: of_nat_add of_nat_mult)
qed

definition shamt :: "u32 \<Rightarrow> u8" where
  "shamt w = ucast w AND 0x1f"

lemma shamt_take_bit: "shamt w = take_bit 5 (ucast w)" "w AND 0x1f = take_bit 5 w"
  by (simp_all add: shamt_def take_bit_eq_mask mask_eq_exp_minus_1)

lemma unat_shamt: "unat (shamt w) = unat (w AND 0x1f)"
  by (simp add: shamt_take_bit unat_take_bit_eq unat_ucast mod_mod_cancel)

lemma shamt_less: "unat (shamt w) < 32"
  by (simp add: shamt_take_bit unat_take_bit_eq)

lemma shamt_row: "4 * le_word 0 b 0 0 = ucast b * 1024"
proof -
  have "le_word 0 b 0 0 = push_bit 8 (ucast b)"
    by (rule bit_word_eqI) (auto simp: le_word_def bit_simps)
  then show ?thesis by (simp add: push_bit_eq_mult)
qed

section \<open>Shifts to the left\<close>

lemma le_word_sum: "le_word a b c d = push_bit 24 (ucast d) + push_bit 16 (ucast c) + push_bit 8 (ucast b) + ucast a"
proof -
  have "le_word a b c d = ucast a OR push_bit 8 (ucast b) OR push_bit 16 (ucast c) OR push_bit 24 (ucast d)"
    by (rule bit_word_eqI) (auto simp: le_word_def bit_simps)
  also have "\<dots> = ucast a + (push_bit 8 (ucast b) + (push_bit 16 (ucast c) + push_bit 24 (ucast d)))"
    by (subst disjunctive_add, force simp: bit_simps dest: bit_imp_le_length)+ (rule refl)
  finally show ?thesis by (simp add: ac_simps)
qed

lemma sll_bytes:
  "push_bit (24 + j) (ucast b3) + push_bit (16 + j) (ucast b2) + push_bit (8 + j) (ucast b1) + push_bit j (ucast b0) =
   push_bit j (le_word b0 b1 b2 b3)"
  by (simp add: le_word_sum push_bit_add add.commute)

lemma computes_sll:
  assumes "env L (r sp) m" "d \<noteq> sp"
  shows "computes (sll L d a b) d (push_bit (unat (val r b AND 0x1f)) (val r a)) r m"
proof (rule computesI)
  fix f
  note t = env_tables(4) [OF assms(1)]
  show "\<exists>r' f'. fold exec (sll L d a b) (St r f m) = St r' f' m \<and>
    val r' d = (if d = x0 then 0 else push_bit (unat (val r b AND 0x1f)) (val r a)) \<and>
    (\<forall>x. x \<notin> {d, gp, tp} \<longrightarrow> val r' x = val r x)"
    using assms t shamt_less [of "val r b"]
    apply (simp add: sll_def PUSH_def POP_def exec_rules exec_getshamt [where L = L] flip: shamt_def)
    by (simp add: exec_shift_byte [where t = "sll8_table L" and j = "shamt (val r b)"] getw_def putw_def shamt_row
          exec_rules exec_sh_var exec_slli_small le_word_byte3 le_word_byte23 [unfolded One_nat_def] sll_bytes
          le_word_byte_of [unfolded One_nat_def] unat_shamt,
        intro conjI impI exI, (rule refl | simp)+)
qed

section \<open>Shifts to the right\<close>

text \<open>A byte at the top of a word, shifted, and the low three bytes of a word, shifted.\<close>

definition shr8 :: "nat \<Rightarrow> u8 \<Rightarrow> u32" where
  "shr8 j b = drop_bit j (push_bit 24 (ucast b))"

definition shr24 :: "nat \<Rightarrow> u32 \<Rightarrow> u32" where
  "shr24 j w = drop_bit j (take_bit 24 w)"

lemma bit_shr8: "bit (shr8 j (byte_of w k)) n \<longleftrightarrow> n + j < 32 \<and> 24 \<le> n + j \<and> bit w (8 * k + (n + j - 24))"
  by (auto simp: shr8_def byte_of_def bit_simps ac_simps)

lemma bit_shr24: "bit (shr24 j w) n \<longleftrightarrow> n + j < 24 \<and> bit w (n + j)"
  by (auto simp: shr24_def bit_simps ac_simps)

lemma shr_byte0:
  "ucast (byte_of (shr8 j (byte_of w 2)) (Suc 0)) + ucast (byte_of (shr8 j (byte_of w (Suc 0))) 2) +
   ucast (byte_of (shr8 j (byte_of w 0)) 3) = take_bit 8 (shr24 j w)"
proof -
  let ?a = "ucast (byte_of (shr8 j (byte_of w 2)) (Suc 0)) :: u32" and ?b = "ucast (byte_of (shr8 j (byte_of w (Suc 0))) 2) :: u32"
    and ?c = "ucast (byte_of (shr8 j (byte_of w 0)) 3) :: u32"
  have "?a + ?b = ?a OR ?b" by (rule disjunctive_add) (auto simp: bit_simps bit_byte_of bit_shr8)
  moreover have "(?a OR ?b) + ?c = ?a OR ?b OR ?c"
    unfolding or.assoc [symmetric] by (rule disjunctive_add) (auto simp: bit_simps bit_byte_of bit_shr8)
  moreover have "?a OR ?b OR ?c = take_bit 8 (shr24 j w)"
  proof (rule bit_word_eqI)
    fix n
    have "n + j < 8 \<or> 8 \<le> n + j \<and> n + j < 16 \<or> 16 \<le> n + j \<and> n + j < 24 \<or> 24 \<le> n + j" by linarith
    then show "bit (?a OR ?b OR ?c) n \<longleftrightarrow> bit (take_bit 8 (shr24 j w)) n"
      by (auto simp: bit_simps bit_byte_of bit_shr8 bit_shr24)
  qed
  ultimately show ?thesis by simp
qed

lemma shr_byte1:
  "ucast (ucast (byte_of (shr8 j (byte_of w 2)) 2) + ucast (byte_of (shr8 j (byte_of w (Suc 0))) 3) :: u32) = byte_of (shr24 j w) 1"
proof -
  let ?a = "ucast (byte_of (shr8 j (byte_of w 2)) 2) :: u32" and ?b = "ucast (byte_of (shr8 j (byte_of w (Suc 0))) 3) :: u32"
  have "?a + ?b = ?a OR ?b" by (rule disjunctive_add) (auto simp: bit_simps bit_byte_of bit_shr8)
  moreover have "ucast (?a OR ?b) = byte_of (shr24 j w) 1"
  proof (rule bit_word_eqI)
    fix n
    have "n + j < 8 \<or> 8 \<le> n + j \<and> n + j < 16 \<or> 16 \<le> n + j" by linarith
    then show "bit (ucast (?a OR ?b) :: u8) n \<longleftrightarrow> bit (byte_of (shr24 j w) 1) n"
      by (auto simp: bit_simps bit_byte_of bit_shr8 bit_shr24 ac_simps)
  qed
  ultimately show ?thesis by simp
qed

lemma shr_byte2: "byte_of (shr8 j (byte_of w 2)) 3 = byte_of (shr24 j w) 2"
  by (rule bit_word_eqI) (auto simp: bit_byte_of bit_shr8 bit_shr24 ac_simps)

lemma shr_low: "le_word (byte_of (take_bit 8 (shr24 j w)) 0) (byte_of (shr24 j w) (Suc 0)) (byte_of (shr24 j w) 2)
    (byte_of (take_bit 8 (shr24 j w)) 3) = shr24 j w"
proof -
  have "byte_of (take_bit 8 (shr24 j w)) 0 = byte_of (shr24 j w) 0"
    "byte_of (take_bit 8 (shr24 j w)) 3 = byte_of (shr24 j w) 3"
    by (rule bit_word_eqI; auto simp: bit_byte_of bit_simps bit_shr24)+
  then show ?thesis by (simp add: le_word_byte_of [unfolded One_nat_def])
qed

lemma srl_bytes: "shr24 j w + shr8 j (byte_of w 3) = drop_bit j w"
proof -
  have "shr24 j w + shr8 j (byte_of w 3) = shr24 j w OR shr8 j (byte_of w 3)"
    by (rule disjunctive_add) (auto simp: bit_shr8 bit_shr24)
  also have "\<dots> = drop_bit j w"
    by (rule bit_word_eqI) (auto simp: bit_shr8 bit_shr24 bit_simps ac_simps dest: bit_imp_le_length)
  finally show ?thesis .
qed

lemma bit_sra: "bit (signed_drop_bit j w) n \<longleftrightarrow> n < 32 \<and> bit w (min (n + j) 31)" for w :: u32
proof -
  have top: "LENGTH(32) = (32 :: nat)" "32 - 1 = (31 :: nat)" by simp_all
  have "bit (signed_drop_bit j w) n = bit w (if 32 - j \<le> n \<and> n < 32 then 31 else j + n)"
    unfolding bit_signed_drop_bit_iff top ..
  then show ?thesis by (auto simp: min_def add.commute dest: bit_imp_le_length)
qed

lemma sra_bytes: "shr24 j w + signed_drop_bit j (push_bit 24 (ucast (byte_of w 3))) = signed_drop_bit j w"
proof -
  let ?s = "signed_drop_bit j (push_bit 24 (ucast (byte_of w 3))) :: u32"
  have "shr24 j w + ?s = shr24 j w OR ?s"
    by (rule disjunctive_add) (auto simp: bit_shr24 bit_sra bit_or_iff bit_push_bit_iff bit_unsigned_iff bit_byte_of min_def)
  also have "\<dots> = signed_drop_bit j w"
    by (rule bit_word_eqI) (auto simp: bit_shr24 bit_sra bit_or_iff bit_push_bit_iff bit_unsigned_iff bit_byte_of min_def)
  finally show ?thesis .
qed

definition right :: "bool \<Rightarrow> nat \<Rightarrow> u32 \<Rightarrow> u32" where
  "right is_arith n w = (if is_arith then signed_drop_bit n w else drop_bit n w)"

lemma exec_combine_bytes:
  assumes "env L (r sp) m" "d \<noteq> sp" "val r s0 = srl8_table L + ucast (j :: u8) * 1024" "unat j < 32" "getw 4 f = w"
  shows "\<exists>r' f'. fold exec (combine_bytes L d is_arith) (St r f m) = St r' f' m \<and>
    val r' d = (if d = x0 then 0 else right is_arith (unat j) w) \<and> (d \<noteq> s0 \<longrightarrow> val r' s0 = getw 1 f) \<and>
    (\<forall>x. x \<notin> {d, gp, tp, s0} \<longrightarrow> val r' x = val r x)"
proof -
  have A: "f 12 = byte_of w 0" "f 13 = byte_of w (Suc 0)" "f 14 = byte_of w 2" "f 15 = byte_of w 3"
    using assms(5) by (auto simp: getw_def)
  have g: "tab32 (r sp) m (srl8_table L) (\<lambda>j i. drop_bit j (push_bit 24 (of_nat i)))"
    "tab32 (r sp) m (sra8_table L) (\<lambda>j i. signed_drop_bit j (push_bit 24 (of_nat i)))"
    using env_tables [OF assms(1)] by simp_all
  have y: "drop_bit j (push_bit 24 (ucast b)) = shr8 j b" for j b by (simp add: shr8_def)
  have arith: "srl8_table L + ucast j * 1024 + (sra8_table L - srl8_table L) = sra8_table L + ucast j * 1024" by simp
  show ?thesis
    using assms(2-4) g
    by (cases is_arith; simp add: combine_bytes_def POP_def exec_rules
        exec_shift_byte [where t = "srl8_table L" and j = j] exec_shift_byte [where t = "sra8_table L" and j = j] y arith
        putw_def getw_def A shr_byte0 shr_byte1 shr_byte2 shr_low right_def)
      (intro conjI impI exI, (rule refl | simp add: srl_bytes sra_bytes)+)+
qed

definition shift_amount :: "(reg \<Rightarrow> u32) \<Rightarrow> rs2 \<Rightarrow> nat" where
  "shift_amount r b = (case b of Reg b \<Rightarrow> unat (val r b AND 0x1f) | Imm n \<Rightarrow> n)"

definition amount8 :: "(reg \<Rightarrow> u32) \<Rightarrow> rs2 \<Rightarrow> u8" where
  "amount8 r b = (case b of Reg b \<Rightarrow> shamt (val r b) | Imm n \<Rightarrow> of_nat n)"

definition imm_ok :: "rs2 \<Rightarrow> bool" where
  "imm_ok b \<longleftrightarrow> (case b of Reg b \<Rightarrow> True | Imm n \<Rightarrow> n < 32)"

lemma unat_amount8:
  assumes "imm_ok b"
  shows "unat (amount8 r b) = shift_amount r b" and "shift_amount r b < 32"
  using assms shamt_less by (auto simp: amount8_def imm_ok_def shift_amount_def unat_shamt unat_of_nat split: rs2.splits)

lemma imm_row: "n < 32 \<Longrightarrow> push_bit 10 (of_nat n) = ucast (of_nat n :: u8) * (1024 :: u32)"
  by (rule word_unat_eq_iff [THEN iffD2])
    (simp add: unat_push_bit unat_word_ariths unat_ucast unat_of_nat)

lemma St_result:
  "s = S \<Longrightarrow> S = St R F m \<Longrightarrow> P R F \<Longrightarrow> \<exists>r' f'. s = St r' f' m \<and> P r' f'"
  by blast

lemma exec_row_prefix:
  assumes "env L (r sp) m" "imm_ok b"
  shows "\<exists>r' f'. fold exec ([PUSH s0 1, Sw a (SP_VAR VAR_A) sp] @ table_row L b) (St r f m) = St r' f' m \<and>
      r' sp = r sp \<and> val r' s0 = srl8_table L + ucast (amount8 r b) * 1024 \<and>
      getw 1 f' = val r s0 \<and> getw 4 f' = val r a \<and> (\<forall>x. x \<notin> {s0, tp} \<longrightarrow> val r' x = val r x)"
proof (cases b)
  case (Reg c)
  show ?thesis unfolding Reg
    by (insert assms, rule St_result, simp add: PUSH_def table_row_def exec_rules exec_getshamt [where L = L] flip: shamt_def, rule refl)
      (simp add: getw_def putw_def shamt_row le_word_byte_of [unfolded One_nat_def] amount8_def)
next
  case (Imm n)
  then have "n < 32" using assms(2) by (simp add: imm_ok_def)
  show ?thesis unfolding Imm
    by (insert \<open>n < 32\<close>, rule St_result, simp add: PUSH_def table_row_def exec_rules imm_row del: push_bit_of_nat, rule refl)
      (simp add: getw_def putw_def le_word_byte_of [unfolded One_nat_def] amount8_def)
qed

text \<open>The fast path for a shift by 24.\<close>

lemma exec_shift_24:
  assumes "env L (r sp) m" "d \<noteq> sp" "d \<noteq> tp"
  shows "\<exists>r' f'. fold exec (shift_right_template L d a (Imm 24) True) (St r f m) = St r' f' m \<and>
    val r' d = (if d = x0 then 0 else signed_drop_bit 24 (val r a)) \<and> (\<forall>x. x \<notin> {d, gp, tp} \<longrightarrow> val r' x = val r x)"
proof -
  define i where "i = (if d = x0 then 0 else unat (byte_of (val r a) 3))"
  have l: "i < 256" using unat8_less [of "byte_of (val r a) 3"] by (simp add: i_def)
  have e: "d = x0 \<Longrightarrow> sra8_table L + 0x6000 = sra8_table L + of_nat (24576 + i * 4)"
    "d \<noteq> x0 \<Longrightarrow> sra8_table L + 0x6000 + 4 * ucast (byte_of (val r a) 3) = sra8_table L + of_nat (24576 + i * 4)"
    by (simp_all add: i_def)
  note t = tab32D [OF env_tables(6) [OF assms(1)] _ l, of 24]
  have load: "exec (Lw d 0 tp) (St r1 f1 m) = St (upd d (signed_drop_bit 24 (push_bit 24 (of_nat i))) r1) f1 m"
    if "val r1 tp = sra8_table L + of_nat (24576 + i * 4)" "r1 sp = r sp" for r1 f1
    using exec_Lw_mem [of r1 tp 0 d f1 m] that t assms(2) by simp
  have top: "signed_drop_bit 24 (push_bit 24 (ucast (byte_of w 3))) = (signed_drop_bit 24 w :: u32)" for w
    by (rule bit_word_eqI) (auto simp: bit_sra bit_push_bit_iff bit_unsigned_iff bit_byte_of min_def)
  have b: "putw 4 w f 15 = byte_of w 3" for w using putw_at [of 4 3 w f] by simp
  show ?thesis
  proof (cases "d = x0")
    case True
    show ?thesis unfolding True
      by (insert assms(2,3), rule St_result,
          simp add: shift_right_template_def exec_rules load [unfolded True] e(1) [OF True] b del: of_nat_add of_nat_mult, rule refl)
        (simp add: True)
  next
    case False
    show ?thesis
      by (insert assms(2,3) False, rule St_result,
          simp add: shift_right_template_def exec_rules load e(2) b del: of_nat_add of_nat_mult, rule refl)
        (simp add: i_def top)
  qed
qed

lemma computes_shift_right:
  assumes "env L (r sp) m" "d \<noteq> sp" "d \<noteq> tp \<or> b \<noteq> Imm 24" "imm_ok b"
  shows "computes (shift_right_template L d a b is_arith) d (right is_arith (shift_amount r b) (val r a)) r m"
proof (rule computesI)
  fix f
  show "\<exists>r' f'. fold exec (shift_right_template L d a b is_arith) (St r f m) = St r' f' m \<and>
    val r' d = (if d = x0 then 0 else right is_arith (shift_amount r b) (val r a)) \<and>
    (\<forall>x. x \<notin> {d, gp, tp} \<longrightarrow> val r' x = val r x)"
  proof (cases "b = Imm 24")
    case True
    show ?thesis
    proof (cases is_arith)
      case True
      then have e: "is_arith = True" "right True (shift_amount r (Imm 24)) = signed_drop_bit 24"
        by (simp_all add: right_def shift_amount_def fun_eq_iff)
      have "d \<noteq> tp" using assms(3) \<open>b = Imm 24\<close> by simp
      then show ?thesis unfolding \<open>b = Imm 24\<close> e by (rule exec_shift_24 [of L r m, OF assms(1,2)])
    next
      case False
      have top: "ucast (byte_of w 3) = (drop_bit 24 w :: u32)" for w
        by (rule bit_word_eqI) (auto simp: byte_of_def bit_simps dest: bit_imp_le_length)
      show ?thesis unfolding True
        by (insert assms(2) False, rule St_result, simp add: shift_right_template_def exec_getbyte, rule refl)
          (simp add: right_def shift_amount_def top)
    qed
  next
    case False
    obtain r1 f1 where 1: "fold exec ([PUSH s0 1, Sw a (SP_VAR VAR_A) sp] @ table_row L b) (St r f m) = St r1 f1 m"
      "r1 sp = r sp" "val r1 s0 = srl8_table L + ucast (amount8 r b) * 1024"
      "getw 1 f1 = val r s0" "getw 4 f1 = val r a" "\<forall>x. x \<notin> {s0, tp} \<longrightarrow> val r1 x = val r x"
      using exec_row_prefix [of L r m b a f] assms(1,4) by blast
    have env1: "env L (r1 sp) m" using assms(1) 1(2) by simp
    have j: "unat (amount8 r b) = shift_amount r b" "unat (amount8 r b) < 32"
      using unat_amount8 [OF assms(4)] by simp_all
    obtain r2 f2 where 2: "fold exec (combine_bytes L d is_arith) (St r1 f1 m) = St r2 f2 m"
      "val r2 d = (if d = x0 then 0 else right is_arith (shift_amount r b) (val r a))" "d \<noteq> s0 \<longrightarrow> val r2 s0 = getw 1 f1"
      "\<forall>x. x \<notin> {d, gp, tp, s0} \<longrightarrow> val r2 x = val r1 x"
      using exec_combine_bytes [of L r1 m d "amount8 r b" f1 "val r a" is_arith] env1 assms(2) 1(3,5) j(2) unfolding j(1) by blast
    have "fold exec (shift_right_template L d a b is_arith) (St r f m) = St r2 f2 m"
      using False 1(1) 2(1) unfolding shift_right_template_def by simp
    moreover have "val r2 x = val r x" if "x \<notin> {d, gp, tp}" for x
      using that 2(3,4) 1(4,6) by (cases "x = s0") auto
    ultimately show ?thesis using 2(2) by blast
  qed
qed

lemma computes_after:
  assumes "\<And>f. \<exists>r1 f1. fold exec pre (St r f m) = St r1 f1 m \<and> computes code d v r1 m \<and> (\<forall>x. x \<notin> {d, gp, tp} \<longrightarrow> val r1 x = val r x)"
  shows "computes (pre @ code) d v r m"
proof (rule computesI)
  fix f
  obtain r1 f1 where 1: "fold exec pre (St r f m) = St r1 f1 m" "computes code d v r1 m" "\<forall>x. x \<notin> {d, gp, tp} \<longrightarrow> val r1 x = val r x"
    using assms by blast
  then obtain r2 f2 where "fold exec code (St r1 f1 m) = St r2 f2 m" "val r2 d = (if d = x0 then 0 else v)"
    "\<forall>x. x \<notin> {d, gp, tp} \<longrightarrow> val r2 x = val r1 x"
    unfolding computes_def by blast
  then show "\<exists>r' f'. fold exec (pre @ code) (St r f m) = St r' f' m \<and> val r' d = (if d = x0 then 0 else v) \<and>
      (\<forall>x. x \<notin> {d, gp, tp} \<longrightarrow> val r' x = val r x)"
    using 1 by (intro exI conjI) auto
qed

lemma computes_srl:
  assumes "env L (r sp) m" "d \<noteq> sp"
  shows "computes (srl L d a b) d (drop_bit (unat (val r b AND 0x1f)) (val r a)) r m"
  using computes_shift_right [of L r m d "Reg b" a False] assms
  by (simp add: srl_def right_def shift_amount_def imm_ok_def)

lemma computes_sra:
  assumes "env L (r sp) m" "d \<noteq> sp"
  shows "computes (sra L d a b) d (signed_drop_bit (unat (val r b AND 0x1f)) (val r a)) r m"
  using computes_shift_right [of L r m d "Reg b" a True] assms
  by (simp add: sra_def right_def shift_amount_def imm_ok_def)

lemma computes_srli:
  assumes "env L (r sp) m" "d \<noteq> sp" "d \<noteq> tp \<or> n \<noteq> 24" "n < 32"
  shows "computes (srli L d a n) d (drop_bit n (val r a)) r m"
  using computes_shift_right [of L r m d "Imm n" a False] assms
  by (simp add: srli_def right_def shift_amount_def imm_ok_def)

lemma computes_srai:
  assumes "env L (r sp) m" "d \<noteq> sp" "d \<noteq> tp \<or> n \<noteq> 24" "n < 32"
  shows "computes (srai L d a n) d (signed_drop_bit n (val r a)) r m"
  using computes_shift_right [of L r m d "Imm n" a True] assms
  by (simp add: srai_def right_def shift_amount_def imm_ok_def)

section \<open>Loads\<close>

lemma exec_Lbu_user:
  "outside (r sp) (val r b + scast i) \<Longrightarrow> d \<noteq> sp \<Longrightarrow>
   exec (Lbu d i b) (St r f m) = St (upd d (ucast (m (val r b + scast i))) r) f m"
  by (rule exec_Lbu_mem)

lemma sra_push: "signed_drop_bit 24 (push_bit 24 (ucast b)) = (scast b :: u32)" for b :: u8
  by (rule bit_word_eqI) (auto simp: bit_sra bit_simps min_def)

lemma computes_lb:
  assumes "env L (r sp) m" "d \<notin> {sp, tp}" "outside (r sp) (val r b + scast i)"
  shows "computes (lb L d i b) d (scast (m (val r b + scast i))) r m"
  unfolding lb_def
proof (rule computes_after)
  fix f
  let ?w = "push_bit 24 (ucast (m (val r b + scast i))) :: u32"
  have c: "computes (srai L d d 24) d (scast (m (val r b + scast i))) (upd d ?w r) m"
    using computes_srai [of L "upd d ?w r" m d 24 d] assms(1,2) sra_push by (cases "d = x0") (auto simp: computes_def)
  show "\<exists>r1 f1. fold exec [Sw x0 (SP_VAR VAR_A) sp, Lbu d i b, Sb d (SP_VAR_BYTE VAR_A 3) sp, Lw d (SP_VAR VAR_A) sp] (St r f m) = St r1 f1 m \<and>
    computes (srai L d d 24) d (scast (m (val r b + scast i))) r1 m \<and> (\<forall>x. x \<notin> {d, gp, tp} \<longrightarrow> val r1 x = val r x)"
    by (insert assms(2,3) c, rule St_result, simp add: exec_rules exec_Lbu_user, rule refl)
      (cases "d = x0"; simp add: getw_def putw_def le_word_top)
qed

text \<open>Half words in memory.\<close>

definition ld16 :: "gmem \<Rightarrow> ptr \<Rightarrow> u16" where
  "ld16 m a = ucast (le_word (m a) (m (a + 1)) 0 0)"

lemma scast_Suc:
  assumes "i \<noteq> 0x7ff"
  shows "scast (1 + i :: 12 word) = (scast i + 1 :: u32)"
proof -
  have "sint i \<noteq> 2047"
  proof
    assume "sint i = 2047"
    then have "(of_int (sint i) :: 12 word) = of_int 2047" by simp
    then show False using assms by simp
  qed
  then have "- 2048 \<le> sint i" "sint i < 2047" using sint_ge [of i] sint_lt [of i] by simp_all
  then have "signed_take_bit 11 (1 + sint i) = 1 + sint i" by (intro signed_take_bit_int_eq_self) simp_all
  then have "sint (of_int (1 + sint i) :: 12 word) = 1 + sint i"
    by (simp add: signed_of_int del: of_int_add)
  moreover have "1 + i = of_int (1 + sint i)" unfolding of_int_add of_int_sint by simp
  ultimately have "sint (1 + i) = 1 + sint i" by (simp only:)
  then show ?thesis unfolding scast_eq by (simp only: of_int_add of_int_1 add.commute)
qed

lemma computes_lhu:
  assumes "env L (r sp) m" "d \<notin> {sp, tp}" "b \<notin> {gp, tp}" "i \<noteq> 0x7ff"
    and "outside (r sp) (val r b + scast i)" "outside (r sp) (val r b + scast i + 1)"
  shows "computes (lhu d i b) d (ucast (ld16 m (val r b + scast i))) r m"
proof (rule computesI)
  fix f
  have w: "ucast x + le_word 0 y 0 0 = (ucast (ucast (le_word x y 0 0) :: u16) :: u32)" for x y
  proof -
    have "ucast x + le_word 0 y 0 0 = ucast x OR le_word 0 y 0 0"
      by (rule disjunctive_add) (auto simp: le_word_def bit_simps dest: bit_imp_le_length)
    also have "\<dots> = ucast (ucast (le_word x y 0 0) :: u16)"
      by (rule bit_word_eqI) (auto simp: le_word_def bit_simps dest: bit_imp_le_length)
    finally show ?thesis .
  qed
  show "\<exists>r' f'. fold exec (lhu d i b) (St r f m) = St r' f' m \<and>
    val r' d = (if d = x0 then 0 else ucast (ld16 m (val r b + scast i))) \<and> (\<forall>x. x \<notin> {d, gp, tp} \<longrightarrow> val r' x = val r x)"
    by (insert assms, rule St_result, simp add: lhu_def exec_rules exec_Lbu_user scast_Suc add.assoc [symmetric], rule refl)
      (cases "d = x0"; simp add: getw_def putw_def ld16_def w)
qed

lemma computes_lh:
  assumes "env L (r sp) m" "d \<notin> {sp, gp, tp}" "b \<notin> {gp, tp}" "i \<noteq> 0x7ff"
    and "outside (r sp) (val r b + scast i)" "outside (r sp) (val r b + scast i + 1)"
  shows "computes (lh L d i b) d (scast (ld16 m (val r b + scast i))) r m"
proof (rule computesI)
  fix f
  let ?lo = "m (val r b + scast i)" and ?hi = "m (val r b + scast i + 1)"
  let ?pre = "[Sw x0 (SP_VAR VAR_A) sp, Lbu gp (1 + i) b, Sb gp (SP_VAR_BYTE VAR_A 3) sp, Lw gp (SP_VAR VAR_A) sp]"
  have pre: "\<exists>r1 f1. fold exec ?pre (St r f m) = St r1 f1 m \<and> val r1 gp = push_bit 24 (ucast ?hi) \<and> r1 sp = r sp \<and>
    (\<forall>x. x \<noteq> gp \<longrightarrow> val r1 x = val r x)"
    by (insert assms, rule St_result, simp add: exec_rules exec_Lbu_user scast_Suc add.assoc [symmetric], rule refl)
      (simp add: getw_def putw_def le_word_top)
  then obtain r1 f1 where 1: "fold exec ?pre (St r f m) = St r1 f1 m" "val r1 gp = push_bit 24 (ucast ?hi)" "r1 sp = r sp"
    "\<And>x. x \<noteq> gp \<Longrightarrow> val r1 x = val r x" by blast
  have "env L (r1 sp) m" using assms(1) 1(3) by simp
  then have "computes (srai L gp gp 16) gp (signed_drop_bit 16 (push_bit 24 (ucast ?hi))) r1 m"
    using computes_srai [of L r1 m gp 16 gp] 1(2) by simp
  then obtain r2 f2 where 2: "fold exec (srai L gp gp 16) (St r1 f1 m) = St r2 f2 m"
    "val r2 gp = signed_drop_bit 16 (push_bit 24 (ucast ?hi))" "\<And>x. x \<notin> {gp, tp} \<Longrightarrow> val r2 x = val r1 x"
    unfolding computes_def by fastforce
  have sp: "r2 sp = r sp" using 2(3) [of sp] 1(3) by (simp add: val_def)
  have b: "val r2 b = val r b" using 1(4) [of b] 2(3) [of b] assms(3) by auto
  have v: "ucast x + signed_drop_bit 16 (push_bit 24 (ucast y)) = (scast (ucast (le_word x y 0 0) :: u16) :: u32)" for x y :: u8
  proof -
    have "ucast x + signed_drop_bit 16 (push_bit 24 (ucast y)) = ucast x OR (signed_drop_bit 16 (push_bit 24 (ucast y)) :: u32)"
      by (rule disjunctive_add) (auto simp: bit_sra bit_simps min_def dest: bit_imp_le_length)
    also have "\<dots> = scast (ucast (le_word x y 0 0) :: u16)"
      by (rule bit_word_eqI) (auto simp: le_word_def bit_sra bit_simps min_def dest: bit_imp_le_length)
    finally show ?thesis .
  qed
  have "fold exec (lh L d i b) (St r f m) = fold exec [Lbu d i b, Add d d gp] (St r2 f2 m)"
    using 1(1) 2(1) by (simp add: lh_def)
  also have "\<dots> = St (upd d (ucast ?lo + val r2 gp) r2) f2 m"
    using assms(2,5) sp b by (cases "d = x0") (simp_all add: exec_Lbu_user)
  finally show "\<exists>r' f'. fold exec (lh L d i b) (St r f m) = St r' f' m \<and>
    val r' d = (if d = x0 then 0 else scast (ld16 m (val r b + scast i))) \<and> (\<forall>x. x \<notin> {d, gp, tp} \<longrightarrow> val r' x = val r x)"
    by (intro exI conjI) (auto simp: 2(2,3) 1(4) v ld16_def)
qed

end
