(* ===== verification/Rvmini_Branch.thy ===== *)
theory Rvmini_Branch
  imports Rvmini_Shift
begin

text \<open>
  The macros for branches, jumps and calls of \<open>tools/rvmini/inst-replace.h\<close>.  The only jump of the
  core is \<open>jalr\<close>: a branch computes its condition into \<open>tp\<close>, stores the two addresses below the
  stack pointer, loads one of them at an offset that depends on the condition, and jumps there.
\<close>

section \<open>Macros\<close>

text \<open>Instructions followed by \<open>jalr d, a\<close>: the code and the two registers.\<close>

type_synonym jump_code = "op list \<times> reg \<times> reg"

text \<open>Running it at address \<open>pc\<close> gives the next address and the state.\<close>

definition run_jump :: "ptr \<Rightarrow> jump_code \<Rightarrow> rv \<Rightarrow> ptr \<times> rv" where
  "run_jump pc c s =
     (case c of (ops, d, a) \<Rightarrow>
        let s = fold exec ops s
        in (val (xreg s) a AND NOT 1, s\<lparr>xreg := upd d (pc + 4 * of_nat (length ops) + 4) (xreg s)\<rparr>))"

definition jr :: "reg \<Rightarrow> reg \<times> reg" where "jr a = (x0, a)"

definition call_template :: "reg \<Rightarrow> ptr \<Rightarrow> jump_code" where
  "call_template r addr = (la r addr, r, r)"

definition j :: "ptr \<Rightarrow> jump_code" where "j addr = call_template tp addr"

definition jal :: "reg \<Rightarrow> ptr \<Rightarrow> jump_code" where
  "jal d addr = (if d = x0 then j addr else call_template d addr)"

definition call :: "ptr \<Rightarrow> jump_code" where "call addr = call_template ra addr"

definition tail :: "ptr \<Rightarrow> jump_code" where "tail addr = (la tp addr, jr tp)"

text \<open>The address of the label behind the branch is an argument.\<close>

definition branch_resolve :: "ptr \<Rightarrow> bool \<Rightarrow> ptr \<Rightarrow> jump_code" where
  "branch_resolve target is_tp_high_sel_target non_taken =
     (slli tp tp 2 @ [Add tp sp tp] @
      (if is_tp_high_sel_target then
         la gp target @ [Sw gp (SP_VAR VAR_A) sp] @ la gp non_taken @ [Sw gp (SP_VAR VAR_B) sp]
       else
         la gp non_taken @ [Sw gp (SP_VAR VAR_A) sp] @ la gp target @ [Sw gp (SP_VAR VAR_B) sp]) @
      [Lw tp (- of_nat VAR_B * 4) tp], jr tp)"

definition then_jump :: "op list \<Rightarrow> jump_code \<Rightarrow> jump_code" where
  "then_jump ops c = (ops @ fst c, snd c)"

function beq :: "syms \<Rightarrow> reg \<Rightarrow> reg \<Rightarrow> ptr \<Rightarrow> ptr \<Rightarrow> jump_code" where
  "beq L a b target non_taken =
     (if b = x0 then then_jump (seqz L tp a) (branch_resolve target True non_taken)
      else if a = x0 then beq L b a target non_taken
      else then_jump (seq L tp a b) (branch_resolve target True non_taken))"
  by pat_completeness auto
termination by (relation "measure (\<lambda>(_, _, b, _, _). b)") auto

function bne :: "syms \<Rightarrow> reg \<Rightarrow> reg \<Rightarrow> ptr \<Rightarrow> ptr \<Rightarrow> jump_code" where
  "bne L a b target non_taken =
     (if b = x0 then then_jump (seqz L tp a) (branch_resolve target False non_taken)
      else if a = x0 then bne L b a target non_taken
      else then_jump (seq L tp a b) (branch_resolve target False non_taken))"
  by pat_completeness auto
termination by (relation "measure (\<lambda>(_, _, b, _, _). b)") auto

declare beq.simps [simp del] bne.simps [simp del]

text \<open>Whether \<open>b\<close> is at most 0, for the branches that compare 0 with it.\<close>

definition not_positive :: "syms \<Rightarrow> reg \<Rightarrow> op list" where
  "not_positive L b =
     msb gp b @ [Addi tp b (- 1)] @ msb tp tp @ [Add gp gp tp] @ la tp (or1_table L) @ [Add tp gp tp, Lbu tp 0 tp]"

definition blt :: "syms \<Rightarrow> reg \<Rightarrow> reg \<Rightarrow> ptr \<Rightarrow> ptr \<Rightarrow> jump_code" where
  "blt L a b target non_taken =
     (if b = x0 then then_jump (msb tp a) (branch_resolve target True non_taken)
      else if a = x0 then then_jump (not_positive L b) (branch_resolve target False non_taken)
      else then_jump (slt L tp a b) (branch_resolve target True non_taken))"

definition bltu :: "syms \<Rightarrow> reg \<Rightarrow> reg \<Rightarrow> ptr \<Rightarrow> ptr \<Rightarrow> jump_code" where
  "bltu L a b target non_taken = then_jump (sltu L tp a b) (branch_resolve target True non_taken)"

definition bge :: "syms \<Rightarrow> reg \<Rightarrow> reg \<Rightarrow> ptr \<Rightarrow> ptr \<Rightarrow> jump_code" where
  "bge L a b target non_taken =
     (if a = x0 then then_jump (not_positive L b) (branch_resolve target True non_taken)
      else then_jump (slt L tp a b) (branch_resolve target False non_taken))"

definition bgeu :: "syms \<Rightarrow> reg \<Rightarrow> reg \<Rightarrow> ptr \<Rightarrow> ptr \<Rightarrow> jump_code" where
  "bgeu L a b target non_taken = then_jump (sltu L tp a b) (branch_resolve target False non_taken)"

text \<open>The branches that compare with 0 or exchange the operands.\<close>

definition beqz :: "syms \<Rightarrow> reg \<Rightarrow> ptr \<Rightarrow> ptr \<Rightarrow> jump_code" where "beqz L a = beq L a x0"
definition bnez :: "syms \<Rightarrow> reg \<Rightarrow> ptr \<Rightarrow> ptr \<Rightarrow> jump_code" where "bnez L a = bne L a x0"
definition blez :: "syms \<Rightarrow> reg \<Rightarrow> ptr \<Rightarrow> ptr \<Rightarrow> jump_code" where "blez L a = bge L x0 a"
definition bgez :: "syms \<Rightarrow> reg \<Rightarrow> ptr \<Rightarrow> ptr \<Rightarrow> jump_code" where "bgez L a = bge L a x0"
definition bltz :: "syms \<Rightarrow> reg \<Rightarrow> ptr \<Rightarrow> ptr \<Rightarrow> jump_code" where "bltz L a = blt L a x0"
definition bgtz :: "syms \<Rightarrow> reg \<Rightarrow> ptr \<Rightarrow> ptr \<Rightarrow> jump_code" where "bgtz L a = blt L x0 a"
definition bgt :: "syms \<Rightarrow> reg \<Rightarrow> reg \<Rightarrow> ptr \<Rightarrow> ptr \<Rightarrow> jump_code" where "bgt L a b = blt L b a"
definition ble :: "syms \<Rightarrow> reg \<Rightarrow> reg \<Rightarrow> ptr \<Rightarrow> ptr \<Rightarrow> jump_code" where "ble L a b = bge L b a"
definition bgtu :: "syms \<Rightarrow> reg \<Rightarrow> reg \<Rightarrow> ptr \<Rightarrow> ptr \<Rightarrow> jump_code" where "bgtu L a b = bltu L b a"
definition bleu :: "syms \<Rightarrow> reg \<Rightarrow> reg \<Rightarrow> ptr \<Rightarrow> ptr \<Rightarrow> jump_code" where "bleu L a b = bgeu L b a"

section \<open>The choice of the address\<close>

lemma exec_Lw_scratch:
  assumes "val r a + scast i = r sp + (of_nat k - 28)" "k + 3 < 28" "d \<noteq> sp"
  shows "exec (Lw d i a) (St r f m) = St (upd d (le_word (f k) (f (k + 1)) (f (k + 2)) (f (k + 3))) r) f m"
proof -
  have s: "r sp + (of_nat k - 28) + 1 = r sp + (of_nat (k + 1) - 28)" "r sp + (of_nat k - 28) + 2 = r sp + (of_nat (k + 2) - 28)"
    "r sp + (of_nat k - 28) + 3 = r sp + (of_nat (k + 3) - 28)" by simp_all
  show ?thesis using assms(2,3)
    by (simp add: St_def exec.simps assms(1) ld32_def s with_scratch_at del: of_nat_add of_nat_Suc)
qed

lemma exec_branch_resolve:
  assumes "val r tp = of_bool c"
  shows "\<exists>r' f'. fold exec (fst (branch_resolve target high non_taken)) (St r f m) = St r' f' m \<and>
    val r' tp = (if c = high then target else non_taken) \<and> (\<forall>x. x \<notin> {gp, tp} \<longrightarrow> val r' x = val r x)"
proof -
  have sel: "exec (Lw tp (- 20) tp) (St r1 (putw 5 y (putw 4 x f1)) m) = St (upd tp x r1) (putw 5 y (putw 4 x f1)) m"
    if "val r1 tp = r1 sp + 4" for r1 x y f1
    using that by (subst exec_Lw_scratch [where k = 12]) (simp_all add: putw_def le_word_byte_of [unfolded One_nat_def])
  have sel': "exec (Lw tp (- 20) tp) (St r1 (putw 5 y (putw 4 x f1)) m) = St (upd tp y r1) (putw 5 y (putw 4 x f1)) m"
    if "val r1 tp = r1 sp" for r1 x y f1
    using that by (subst exec_Lw_scratch [where k = 8]) (simp_all add: putw_def le_word_byte_of [unfolded One_nat_def])
  have "val r 2 = r sp" by (simp add: val_def)
  then show ?thesis
    by (cases c; cases high; insert assms)
      (rule St_result, simp add: branch_resolve_def exec_rules sel sel', rule refl, simp)+
qed

section \<open>Branches\<close>

text \<open>The promise of a macro that may also write the array of \<open>seq\<close>.\<close>

definition computes_on :: "syms \<Rightarrow> op list \<Rightarrow> reg \<Rightarrow> u32 \<Rightarrow> (reg \<Rightarrow> u32) \<Rightarrow> gmem \<Rightarrow> bool" where
  "computes_on L code d v r m \<longleftrightarrow>
     (\<forall>f. \<exists>r' f' m'. fold exec code (St r f m) = St r' f' m' \<and> val r' d = (if d = x0 then 0 else v) \<and>
       (\<forall>x. x \<notin> {d, gp, tp} \<longrightarrow> val r' x = val r x) \<and> (\<forall>p. \<not> in_array L p \<longrightarrow> m' p = m p))"

lemma computes_on: "computes code d v r m \<Longrightarrow> computes_on L code d v r m"
  unfolding computes_def computes_on_def by blast

lemma computes_seq:
  assumes "env L (r sp) m" "d \<notin> {sp, s0, s1, x0}"
  shows "computes_on L (seq L d a b) d (of_bool (val r a = val r b)) r m"
  unfolding computes_on_def using exec_seq [of L r m d a b] assms by simp

text \<open>The state a jump leaves: the next address, and what it may change.\<close>

definition jumps :: "syms \<Rightarrow> jump_code \<Rightarrow> ptr \<Rightarrow> (reg \<Rightarrow> u32) \<Rightarrow> gmem \<Rightarrow> bool" where
  "jumps L c target r m \<longleftrightarrow>
     (\<forall>pc f. \<exists>r' f' m'. run_jump pc c (St r f m) = (target AND NOT 1, St r' f' m') \<and>
       (\<forall>x. x \<notin> {gp, tp} \<longrightarrow> val r' x = val r x) \<and> (\<forall>p. \<not> in_array L p \<longrightarrow> m' p = m p))"

lemma jumps_branch:
  assumes "computes_on L ops tp (of_bool c) r m"
  shows "jumps L (then_jump ops (branch_resolve target high non_taken)) (if c = high then target else non_taken) r m"
  unfolding jumps_def
proof (intro allI)
  fix pc f
  obtain r1 f1 m1 where 1: "fold exec ops (St r f m) = St r1 f1 m1" "val r1 tp = of_bool c"
    "\<forall>x. x \<notin> {tp, gp} \<longrightarrow> val r1 x = val r x" "\<forall>p. \<not> in_array L p \<longrightarrow> m1 p = m p"
    using assms by (fastforce simp: computes_on_def)
  obtain r2 f2 where 2: "fold exec (fst (branch_resolve target high non_taken)) (St r1 f1 m1) = St r2 f2 m1"
    "val r2 tp = (if c = high then target else non_taken)" "\<forall>x. x \<notin> {gp, tp} \<longrightarrow> val r2 x = val r1 x"
    using exec_branch_resolve [OF 1(2)] by blast
  have "snd (branch_resolve target high non_taken) = (x0, tp)" by (simp add: branch_resolve_def jr_def)
  then have "run_jump pc (then_jump ops (branch_resolve target high non_taken)) (St r f m) =
    ((if c = high then target else non_taken) AND NOT 1, St r2 f2 m1)"
    using 1(1) 2(1,2) by (simp add: run_jump_def then_jump_def)
  then show "\<exists>r' f' m'. run_jump pc (then_jump ops (branch_resolve target high non_taken)) (St r f m) =
      ((if c = high then target else non_taken) AND NOT 1, St r' f' m') \<and>
      (\<forall>x. x \<notin> {gp, tp} \<longrightarrow> val r' x = val r x) \<and> (\<forall>p. \<not> in_array L p \<longrightarrow> m' p = m p)"
    using 1(3,4) 2(3) by auto
qed

lemma computes_msb: "d \<noteq> sp \<Longrightarrow> d \<noteq> x0 \<Longrightarrow> computes (msb d a) d (of_bool (val r a <s 0)) r m"
proof (rule computesI)
  fix f assume d: "d \<noteq> sp" "d \<noteq> x0"
  have sign: "sign w = of_bool (w <s 0)" for w :: u32
    using uint_lt2p [of w] by (simp add: sign_def bit31_iff word_sless_alt sint32_cases)
  show "\<exists>r' f'. fold exec (msb d a) (St r f m) = St r' f' m \<and> val r' d = (if d = x0 then 0 else of_bool (val r a <s 0)) \<and>
    (\<forall>x. x \<notin> {d, gp, tp} \<longrightarrow> val r' x = val r x)"
    by (insert d, rule St_result, simp add: exec_msb sign, rule refl) simp
qed

lemma computes_not_positive:
  assumes "env L (r sp) m" "b \<notin> {gp, tp}"
  shows "computes (not_positive L b) tp (of_bool (val r b <s 0 \<or> val r b = 0)) r m"
proof (rule computesI)
  fix f
  define i where "i = (if bit (val r b) 31 then 1 else 0) + (if bit (val r b - 1) 31 then 1 else 0 :: nat)"
  have t: "(or1_table L, [0, 1, 1, 1]) \<in> set (rodata L)" by (simp add: rodata_def)
  have i: "sign (val r b) + sign (val r b - 1) = of_nat i" by (simp add: i_def sign_def)
  obtain x where x: "uint (val r b) = x" "0 \<le> x" "x < 2 ^ 32" by (rule uint_bounds)
  then have v: "[0, 1, 1, 1] ! i = (of_bool (val r b <s 0 \<or> val r b = 0) :: u8)"
    by (simp add: i_def bit31_iff word_sless_alt sint32_cases uint_minus32 word_uint_eq_iff [of "val r b"] of_bool_def)
  have l: "i < length [0, 1, 1, 1 :: u8]" by (simp add: i_def)
  show "\<exists>r' f'. fold exec (not_positive L b) (St r f m) = St r' f' m \<and>
    val r' tp = (if tp = x0 then 0 else of_bool (val r b <s 0 \<or> val r b = 0)) \<and> (\<forall>x. x \<notin> {tp, gp, tp} \<longrightarrow> val r' x = val r x)"
    by (insert assms, rule St_result, simp add: not_positive_def exec_msb exec_Lbu_table [OF _ t _ l] i add.commute, rule refl)
      (simp add: v)
qed

datatype cond = EQ | NE | LT | GE | LTU | GEU

primrec holds :: "cond \<Rightarrow> u32 \<Rightarrow> u32 \<Rightarrow> bool" where
  "holds EQ x y \<longleftrightarrow> x = y"
| "holds NE x y \<longleftrightarrow> x \<noteq> y"
| "holds LT x y \<longleftrightarrow> x <s y"
| "holds GE x y \<longleftrightarrow> y \<le>s x"
| "holds LTU x y \<longleftrightarrow> x < y"
| "holds GEU x y \<longleftrightarrow> y \<le> x"

primrec branch :: "syms \<Rightarrow> cond \<Rightarrow> reg \<Rightarrow> reg \<Rightarrow> ptr \<Rightarrow> ptr \<Rightarrow> jump_code" where
  "branch L EQ = beq L"
| "branch L NE = bne L"
| "branch L LT = blt L"
| "branch L GE = bge L"
| "branch L LTU = bltu L"
| "branch L GEU = bgeu L"

lemma computes_swap: "computes code d (of_bool c) r m \<Longrightarrow> c = c' \<Longrightarrow> computes_on L code d (of_bool c') r m"
  by (simp add: computes_on)

text \<open>The recursive calls of the macros unfolded.\<close>

lemma beq_unfold:
  "beq L a b target non_taken =
     (if b = x0 then then_jump (seqz L tp a) (branch_resolve target True non_taken)
      else if a = x0 then then_jump (seqz L tp b) (branch_resolve target True non_taken)
      else then_jump (seq L tp a b) (branch_resolve target True non_taken))"
  by (simp add: beq.simps [of L a b] beq.simps [of L b x0])

lemma bne_unfold:
  "bne L a b target non_taken =
     (if b = x0 then then_jump (seqz L tp a) (branch_resolve target False non_taken)
      else if a = x0 then then_jump (seqz L tp b) (branch_resolve target False non_taken)
      else then_jump (seq L tp a b) (branch_resolve target False non_taken))"
  by (simp add: bne.simps [of L a b] bne.simps [of L b x0])

lemma jumps_eq:
  assumes "env L (r sp) m" "a \<notin> {gp, tp}" "b \<notin> {gp, tp}"
  shows "jumps L (beq L a b target non_taken) (if val r a = val r b then target else non_taken) r m"
    and "jumps L (bne L a b target non_taken) (if val r a \<noteq> val r b then target else non_taken) r m"
proof -
  have nz: "computes_on L (seqz L tp x) tp (of_bool (val r x = 0)) r m" for x
    using computes_on [OF computes_seqz [of L r m tp x]] assms(1) by simp
  have s: "computes_on L (seq L tp a b) tp (of_bool (val r a = val r b)) r m"
    using computes_seq [of L r m tp a b] assms(1) by simp
  show "jumps L (beq L a b target non_taken) (if val r a = val r b then target else non_taken) r m"
    using jumps_branch [OF nz, of a target True non_taken] jumps_branch [OF nz, of b target True non_taken]
      jumps_branch [OF s, of target True non_taken]
    by (cases "b = x0"; cases "a = x0") (simp_all add: beq_unfold eq_commute [of 0])
  show "jumps L (bne L a b target non_taken) (if val r a \<noteq> val r b then target else non_taken) r m"
    using jumps_branch [OF nz, of a target False non_taken] jumps_branch [OF nz, of b target False non_taken]
      jumps_branch [OF s, of target False non_taken]
    by (cases "b = x0"; cases "a = x0") (simp_all add: bne_unfold eq_commute [of 0])
qed

lemma jumps_branch_all:
  assumes "env L (r sp) m" "a \<notin> {gp, tp}" "b \<notin> {gp, tp}"
  shows "jumps L (branch L c a b target non_taken) (if holds c (val r a) (val r b) then target else non_taken) r m"
proof -
  have slt: "computes_on L (slt L tp a b) tp (of_bool (val r a <s val r b)) r m"
    and sltu: "computes_on L (sltu L tp a b) tp (of_bool (val r a < val r b)) r m"
    using computes_on [OF computes_slt [of L r m tp a b]] computes_on [OF computes_sltu [of L r m tp a b]] assms(1) by simp_all
  have msb: "computes_on L (msb tp a) tp (of_bool (val r a <s 0)) r m"
    by (rule computes_on [OF computes_msb]) simp_all
  have np: "computes_on L (not_positive L b) tp (of_bool (val r b <s 0 \<or> val r b = 0)) r m"
    using computes_on [OF computes_not_positive [of L r m b]] assms by simp
  have le: "(val r b <s 0 \<or> val r b = 0) = (\<not> 0 <s val r b)"
    by (auto simp: word_sless_alt word_sle_eq signed_eq_0_iff not_less order_le_less)
  show ?thesis
  proof (cases c)
    case LT
    then show ?thesis
      using jumps_branch [OF msb, of target True non_taken] jumps_branch [OF np, of target False non_taken]
        jumps_branch [OF slt, of target True non_taken] le
      by (auto simp: blt_def split: if_splits)
  next
    case GE
    then show ?thesis
      using jumps_branch [OF np, of target True non_taken] jumps_branch [OF slt, of target False non_taken] le
      by (auto simp: bge_def split: if_splits)
  next
    case LTU
    then show ?thesis using jumps_branch [OF sltu, of target True non_taken] by (simp add: bltu_def)
  next
    case GEU
    then show ?thesis using jumps_branch [OF sltu, of target False non_taken] by (simp add: bgeu_def not_less)
  qed (use jumps_eq [of L r m a b target non_taken] assms in simp_all)
qed

text \<open>All branches with one register or with exchanged operands are among the six.\<close>

datatype pcond = EQZ reg | NEZ reg | LEZ reg | GEZ reg | LTZ reg | GTZ reg | GT reg reg | LEQ reg reg | GTU reg reg | LEU reg reg

primrec pbranch :: "syms \<Rightarrow> pcond \<Rightarrow> ptr \<Rightarrow> ptr \<Rightarrow> jump_code" where
  "pbranch L (EQZ a) = beqz L a"
| "pbranch L (NEZ a) = bnez L a"
| "pbranch L (LEZ a) = blez L a"
| "pbranch L (GEZ a) = bgez L a"
| "pbranch L (LTZ a) = bltz L a"
| "pbranch L (GTZ a) = bgtz L a"
| "pbranch L (GT a b) = bgt L a b"
| "pbranch L (LEQ a b) = ble L a b"
| "pbranch L (GTU a b) = bgtu L a b"
| "pbranch L (LEU a b) = bleu L a b"

primrec pholds :: "pcond \<Rightarrow> (reg \<Rightarrow> u32) \<Rightarrow> bool" where
  "pholds (EQZ a) v \<longleftrightarrow> v a = 0"
| "pholds (NEZ a) v \<longleftrightarrow> v a \<noteq> 0"
| "pholds (LEZ a) v \<longleftrightarrow> v a \<le>s 0"
| "pholds (GEZ a) v \<longleftrightarrow> 0 \<le>s v a"
| "pholds (LTZ a) v \<longleftrightarrow> v a <s 0"
| "pholds (GTZ a) v \<longleftrightarrow> 0 <s v a"
| "pholds (GT a b) v \<longleftrightarrow> v b <s v a"
| "pholds (LEQ a b) v \<longleftrightarrow> v a \<le>s v b"
| "pholds (GTU a b) v \<longleftrightarrow> v b < v a"
| "pholds (LEU a b) v \<longleftrightarrow> v a \<le> v b"

primrec pregs :: "pcond \<Rightarrow> reg set" where
  "pregs (EQZ a) = {a}" | "pregs (NEZ a) = {a}" | "pregs (LEZ a) = {a}" | "pregs (GEZ a) = {a}" | "pregs (LTZ a) = {a}"
| "pregs (GTZ a) = {a}" | "pregs (GT a b) = {a, b}" | "pregs (LEQ a b) = {a, b}" | "pregs (GTU a b) = {a, b}" | "pregs (LEU a b) = {a, b}"

lemma pbranch_branch:
  "\<exists>c a b. pbranch L p = branch L c a b \<and> {a, b} \<subseteq> insert x0 (pregs p) \<and> (\<forall>r. holds c (val r a) (val r b) = pholds p (val r))"
proof (cases p)
  case (EQZ a) then show ?thesis by (intro exI [of _ EQ] exI [of _ a] exI [of _ x0]) (simp add: beqz_def)
next
  case (NEZ a) then show ?thesis by (intro exI [of _ NE] exI [of _ a] exI [of _ x0]) (simp add: bnez_def)
next
  case (LEZ a) then show ?thesis by (intro exI [of _ GE] exI [of _ x0] exI [of _ a]) (simp add: blez_def)
next
  case (GEZ a) then show ?thesis by (intro exI [of _ GE] exI [of _ a] exI [of _ x0]) (simp add: bgez_def)
next
  case (LTZ a) then show ?thesis by (intro exI [of _ LT] exI [of _ a] exI [of _ x0]) (simp add: bltz_def)
next
  case (GTZ a) then show ?thesis by (intro exI [of _ LT] exI [of _ x0] exI [of _ a]) (simp add: bgtz_def)
next
  case (GT a b) then show ?thesis by (intro exI [of _ LT] exI [of _ b] exI [of _ a]) (simp add: bgt_def)
next
  case (LEQ a b) then show ?thesis by (intro exI [of _ GE] exI [of _ b] exI [of _ a]) (simp add: ble_def)
next
  case (GTU a b) then show ?thesis by (intro exI [of _ LTU] exI [of _ b] exI [of _ a]) (simp add: bgtu_def)
next
  case (LEU a b) then show ?thesis by (intro exI [of _ GEU] exI [of _ b] exI [of _ a]) (simp add: bleu_def)
qed

end
