(* ===== verification/Rvmini_Prog.thy ===== *)
theory Rvmini_Prog
  imports Rvmini_Branch
begin

text \<open>
  The instructions that \<open>tools/rvmini/inst-replace.h\<close> replaces, what they do on an RV32 core, and
  the expansion of programs: every run of a program is a run of its expansion, if the program keeps to
  what the header of that file assumes (\<open>gp\<close> and \<open>tp\<close> are not used, nor is the stack below \<open>sp\<close>) and
  to the few conditions that turned out to be needed besides (\<open>ok\<close>).  The stack pointer may be moved:
  what the expansion leaves behind below it is not among the bytes the program may rely on.
\<close>

section \<open>Instructions with an immediate, and pseudo instructions\<close>

definition slti :: "syms \<Rightarrow> reg \<Rightarrow> reg \<Rightarrow> 12 word \<Rightarrow> op list" where "slti L d a imm = li tp imm @ slt L d a tp"
definition sltiu :: "syms \<Rightarrow> reg \<Rightarrow> reg \<Rightarrow> 12 word \<Rightarrow> op list" where "sltiu L d a imm = li tp imm @ sltu L d a tp"
definition andi :: "syms \<Rightarrow> reg \<Rightarrow> reg \<Rightarrow> 12 word \<Rightarrow> op list option" where
  "andi L d a imm = map_option ((@) (li tp imm)) (and_rv L d a tp)"
definition ori :: "syms \<Rightarrow> reg \<Rightarrow> reg \<Rightarrow> 12 word \<Rightarrow> op list option" where
  "ori L d a imm = map_option ((@) (li tp imm)) (or_rv L d a tp)"
definition xori :: "syms \<Rightarrow> reg \<Rightarrow> reg \<Rightarrow> 12 word \<Rightarrow> op list option" where
  "xori L d a imm = map_option ((@) (li tp imm)) (xor_rv L d a tp)"

definition neg :: "syms \<Rightarrow> reg \<Rightarrow> reg \<Rightarrow> op list" where "neg L d a = sub L d x0 a"
definition snez :: "syms \<Rightarrow> reg \<Rightarrow> reg \<Rightarrow> op list" where "snez L d a = sltu L d x0 a"
definition sltz :: "reg \<Rightarrow> reg \<Rightarrow> op list" where "sltz d a = msb d a"
definition sgt :: "syms \<Rightarrow> reg \<Rightarrow> reg \<Rightarrow> reg \<Rightarrow> op list" where "sgt L d a b = slt L d b a"
definition sgtu :: "syms \<Rightarrow> reg \<Rightarrow> reg \<Rightarrow> reg \<Rightarrow> op list" where "sgtu L d a b = sltu L d b a"
definition sgtz :: "syms \<Rightarrow> reg \<Rightarrow> reg \<Rightarrow> op list" where "sgtz L d a = slt L d x0 a"

section \<open>Source instructions\<close>

datatype rop = SUB | SLT | SLTU | ANDR | ORR | XORR | SLL | SRL | SRA | SGT | SGTU

datatype iop = SLTI | SLTIU | ANDI | ORI | XORI

datatype shop = SLLI | SRLI | SRAI

datatype uop = NOTR | NEG | SEQZ | SNEZ | SLTZ | SGTZ

datatype lop = LB | LH | LHU

datatype rv32 =
    R rop reg reg reg
  | I iop reg reg "12 word"
  | Shift shop reg reg nat
  | U uop reg reg
  | Load lop reg "12 word" reg
  | StoreH reg "12 word" reg
  | Base op

text \<open>
  The expansion of an instruction; a base instruction stands for itself.  The access to the second byte of a
  half word has the offset \<open>1 + i\<close>, which the assembler rejects when it does not fit into 12 bits.
\<close>

fun expand :: "syms \<Rightarrow> rv32 \<Rightarrow> op list option" where
  "expand L (R SUB d a b) = Some (sub L d a b)"
| "expand L (R SLT d a b) = Some (slt L d a b)"
| "expand L (R SLTU d a b) = Some (sltu L d a b)"
| "expand L (R ANDR d a b) = and_rv L d a b"
| "expand L (R ORR d a b) = or_rv L d a b"
| "expand L (R XORR d a b) = xor_rv L d a b"
| "expand L (R SLL d a b) = Some (sll L d a b)"
| "expand L (R SRL d a b) = Some (srl L d a b)"
| "expand L (R SRA d a b) = Some (sra L d a b)"
| "expand L (R SGT d a b) = Some (sgt L d a b)"
| "expand L (R SGTU d a b) = Some (sgtu L d a b)"
| "expand L (I SLTI d a i) = Some (slti L d a i)"
| "expand L (I SLTIU d a i) = Some (sltiu L d a i)"
| "expand L (I ANDI d a i) = andi L d a i"
| "expand L (I ORI d a i) = ori L d a i"
| "expand L (I XORI d a i) = xori L d a i"
| "expand L (Shift SLLI d a n) = Some (slli d a n)"
| "expand L (Shift SRLI d a n) = Some (srli L d a n)"
| "expand L (Shift SRAI d a n) = Some (srai L d a n)"
| "expand L (U NOTR d a) = Some (not_rv L d a)"
| "expand L (U NEG d a) = Some (neg L d a)"
| "expand L (U SEQZ d a) = Some (seqz L d a)"
| "expand L (U SNEZ d a) = Some (snez L d a)"
| "expand L (U SLTZ d a) = Some (sltz d a)"
| "expand L (U SGTZ d a) = Some (sgtz L d a)"
| "expand L (Load LB d i b) = Some (lb L d i b)"
| "expand L (Load LH d i b) = (if i = 0x7ff then None else Some (lh L d i b))"
| "expand L (Load LHU d i b) = (if i = 0x7ff then None else Some (lhu d i b))"
| "expand L (StoreH a i b) = (if i = 0x7ff then None else Some (sh a i b))"
| "expand L (Base x) = Some [x]"

section \<open>What the instructions do on a full core\<close>

primrec rop_val :: "rop \<Rightarrow> u32 \<Rightarrow> u32 \<Rightarrow> u32" where
  "rop_val SUB x y = x - y"
| "rop_val SLT x y = of_bool (x <s y)"
| "rop_val SLTU x y = of_bool (x < y)"
| "rop_val ANDR x y = x AND y"
| "rop_val ORR x y = x OR y"
| "rop_val XORR x y = x XOR y"
| "rop_val SLL x y = push_bit (unat (y AND 0x1f)) x"
| "rop_val SRL x y = drop_bit (unat (y AND 0x1f)) x"
| "rop_val SRA x y = signed_drop_bit (unat (y AND 0x1f)) x"
| "rop_val SGT x y = of_bool (y <s x)"
| "rop_val SGTU x y = of_bool (y < x)"

primrec iop_val :: "iop \<Rightarrow> u32 \<Rightarrow> u32 \<Rightarrow> u32" where
  "iop_val SLTI x y = of_bool (x <s y)"
| "iop_val SLTIU x y = of_bool (x < y)"
| "iop_val ANDI x y = x AND y"
| "iop_val ORI x y = x OR y"
| "iop_val XORI x y = x XOR y"

primrec shop_val :: "shop \<Rightarrow> u32 \<Rightarrow> nat \<Rightarrow> u32" where
  "shop_val SLLI x n = push_bit n x"
| "shop_val SRLI x n = drop_bit n x"
| "shop_val SRAI x n = signed_drop_bit n x"

primrec uop_val :: "uop \<Rightarrow> u32 \<Rightarrow> u32" where
  "uop_val NOTR x = NOT x"
| "uop_val NEG x = - x"
| "uop_val SEQZ x = of_bool (x = 0)"
| "uop_val SNEZ x = of_bool (x \<noteq> 0)"
| "uop_val SLTZ x = of_bool (x <s 0)"
| "uop_val SGTZ x = of_bool (0 <s x)"

primrec lop_val :: "lop \<Rightarrow> gmem \<Rightarrow> ptr \<Rightarrow> u32" where
  "lop_val LB m a = scast (m a)"
| "lop_val LH m a = scast (ld16 m a)"
| "lop_val LHU m a = ucast (ld16 m a)"

definition st16 :: "ptr \<Rightarrow> u32 \<Rightarrow> gmem \<Rightarrow> gmem" where
  "st16 a w m = m(a := byte_of w 0, a + 1 := byte_of w 1)"

definition set_reg :: "reg \<Rightarrow> u32 \<Rightarrow> rv \<Rightarrow> rv" where
  "set_reg d v s = s\<lparr>xreg := upd d v (xreg s)\<rparr>"

primrec rv32_step :: "rv32 \<Rightarrow> rv \<Rightarrow> rv" where
  "rv32_step (R f d a b) s = set_reg d (rop_val f (val (xreg s) a) (val (xreg s) b)) s"
| "rv32_step (I f d a i) s = set_reg d (iop_val f (val (xreg s) a) (scast i)) s"
| "rv32_step (Shift f d a n) s = set_reg d (shop_val f (val (xreg s) a) n) s"
| "rv32_step (U f d a) s = set_reg d (uop_val f (val (xreg s) a)) s"
| "rv32_step (Load f d i b) s = set_reg d (lop_val f (xmem s) (val (xreg s) b + scast i)) s"
| "rv32_step (StoreH a i b) s = s\<lparr>xmem := st16 (val (xreg s) b + scast i) (val (xreg s) a) (xmem s)\<rparr>"
| "rv32_step (Base x) s = exec x s"

section \<open>What the file assumes of a program\<close>

definition user :: "reg \<Rightarrow> bool" where
  "user x \<longleftrightarrow> x \<notin> {gp, tp}"

text \<open>Memory of the program: neither below the stack pointer, nor the array of \<open>seq\<close>, nor a table.\<close>

definition readable :: "syms \<Rightarrow> rv \<Rightarrow> ptr \<Rightarrow> bool" where
  "readable L s a \<longleftrightarrow> outside (xreg s sp) a \<and> \<not> in_array L a"

definition writable :: "syms \<Rightarrow> rv \<Rightarrow> ptr \<Rightarrow> bool" where
  "writable L s a \<longleftrightarrow> readable L s a \<and> list_all (\<lambda>(q, xs). length xs \<le> unat (a - q)) (rodata L)"

definition address :: "rv \<Rightarrow> reg \<Rightarrow> 12 word \<Rightarrow> ptr" where
  "address s b i = val (xreg s) b + scast i"

text \<open>The registers an instruction names, and the bytes it reads and writes.\<close>

fun regs_named :: "rv32 \<Rightarrow> reg set" where
  "regs_named (R f d a b) = {d, a, b}"
| "regs_named (I f d a i) = {d, a}"
| "regs_named (Shift f d a n) = {d, a}"
| "regs_named (U f d a) = {d, a}"
| "regs_named (Load f d i b) = {d, b}"
| "regs_named (StoreH a i b) = {a, b}"
| "regs_named (Base (Add d a b)) = {d, a, b}"
| "regs_named (Base (Addi d a i)) = {d, a}"
| "regs_named (Base (Lui d i)) = {d}"
| "regs_named (Base (Lw d i b)) = {d, b}"
| "regs_named (Base (Lbu d i b)) = {d, b}"
| "regs_named (Base (Sw a i b)) = {a, b}"
| "regs_named (Base (Sb a i b)) = {a, b}"

fun bytes_read :: "rv \<Rightarrow> rv32 \<Rightarrow> ptr set" where
  "bytes_read t (Load f d i b) = (if f = LB then {address t b i} else {address t b i, address t b i + 1})"
| "bytes_read t (Base (Lw d i b)) = {address t b i, address t b i + 1, address t b i + 2, address t b i + 3}"
| "bytes_read t (Base (Lbu d i b)) = {address t b i}"
| "bytes_read t _ = {}"

fun bytes_written :: "rv \<Rightarrow> rv32 \<Rightarrow> ptr set" where
  "bytes_written t (StoreH a i b) = {address t b i, address t b i + 1}"
| "bytes_written t (Base (Sw a i b)) = {address t b i, address t b i + 1, address t b i + 2, address t b i + 3}"
| "bytes_written t (Base (Sb a i b)) = {address t b i}"
| "bytes_written t _ = {}"

text \<open>
  The instructions the assembler accepts: \<open>logic\<close> stops on the stack pointer, the second byte of a half word
  is in reach, and the amount of a shift has five bits.
\<close>

fun assembles :: "rv32 \<Rightarrow> bool" where
  "assembles (R f d a b) \<longleftrightarrow> (f \<in> {ANDR, ORR, XORR} \<longrightarrow> d = x0 \<or> d \<noteq> sp \<and> a \<noteq> sp \<and> b \<noteq> sp)"
| "assembles (I f d a i) \<longleftrightarrow> (f \<in> {ANDI, ORI, XORI} \<longrightarrow> d = x0 \<or> d \<noteq> sp \<and> a \<noteq> sp)"
| "assembles (Shift f d a n) \<longleftrightarrow> n < 32"
| "assembles (Load f d i b) \<longleftrightarrow> f = LB \<or> i \<noteq> 0x7ff"
| "assembles (StoreH a i b) \<longleftrightarrow> i \<noteq> 0x7ff"
| "assembles _ \<longleftrightarrow> True"

lemma assembles_expand:
  assumes "\<forall>x\<in>regs_named i. user x" "\<And>f d a n. i \<noteq> Shift f d a n"
  shows "assembles i \<longleftrightarrow> expand L i \<noteq> None"
proof (cases i)
  case (R f d a b)
  then show ?thesis using assms(1)
    by (cases f) (auto simp: and_rv_def or_rv_def xor_rv_def logic_def user_def)
next
  case (I f d a k)
  then show ?thesis using assms(1)
    by (cases f) (auto simp: andi_def ori_def xori_def and_rv_def or_rv_def xor_rv_def logic_def user_def)
next
  case (U f d a)
  then show ?thesis by (cases f) auto
next
  case (Load f d k b)
  then show ?thesis by (cases f) auto
qed (use assms(2) in auto)

text \<open>The instructions, besides those that are not replaced, that may have the stack pointer as result: only \<open>sub\<close>.\<close>

fun sets_sp :: "rv32 \<Rightarrow> bool" where
  "sets_sp (R f d a b) \<longleftrightarrow> d = sp \<and> f \<noteq> SUB"
| "sets_sp (I f d a i) \<longleftrightarrow> d = sp"
| "sets_sp (Shift f d a n) \<longleftrightarrow> d = sp"
| "sets_sp (U f d a) \<longleftrightarrow> d = sp"
| "sets_sp (Load f d i b) \<longleftrightarrow> d = sp"
| "sets_sp _ \<longleftrightarrow> False"

text \<open>
  What is assumed of an instruction that runs in the state \<open>t\<close> when the program may rely on the bytes \<open>V\<close>: it
  assembles; it does not name \<open>gp\<close> or \<open>tp\<close>; it reads bytes of \<open>V\<close> and writes neither below the stack pointer nor
  into the data of the macros; it is not \<open>seqz s0\<close>; and the stack pointer is moved by a base instruction or
  \<open>sub\<close>, and not to where the 28 bytes below it are data of the macros.
\<close>

definition ok :: "syms \<Rightarrow> ptr set \<Rightarrow> rv \<Rightarrow> rv32 \<Rightarrow> bool" where
  "ok L V t i \<longleftrightarrow> assembles i \<and> (\<forall>x\<in>regs_named i. user x) \<and>
     bytes_read t i \<subseteq> V \<and> (\<forall>a\<in>bytes_written t i. writable L t a) \<and>
     (\<forall>a. i \<noteq> U SEQZ s0 a) \<and> \<not> sets_sp i \<and> stack_clear L (xreg (rv32_step i t) sp)"

text \<open>
  The bytes the program may rely on after the instruction: those written are added, and when the stack pointer
  is moved the 28 bytes below it are given up.
\<close>

definition defined_after :: "ptr set \<Rightarrow> rv \<Rightarrow> rv32 \<Rightarrow> ptr set" where
  "defined_after V t i = (V \<union> bytes_written t i) \<inter> {a. outside (xreg (rv32_step i t) sp) a}"

text \<open>
  A state of the expansion stands for a state of the program: the registers agree except for \<open>gp\<close> and
  \<open>tp\<close>, the memory agrees on the bytes \<open>V\<close>, none of which is below the stack pointer or in the array, and
  the tables are loaded.  The largest such \<open>V\<close> gives \<open>simulates\<close>.
\<close>

definition stands :: "syms \<Rightarrow> ptr set \<Rightarrow> rv \<Rightarrow> rv \<Rightarrow> bool" where
  "stands L V s t \<longleftrightarrow>
     env L (xreg t sp) (xmem s) \<and> (\<forall>x. user x \<longrightarrow> val (xreg s) x = val (xreg t) x) \<and>
     (\<forall>a\<in>V. readable L t a \<and> xmem s a = xmem t a)"

definition simulates :: "syms \<Rightarrow> rv \<Rightarrow> rv \<Rightarrow> bool" where
  "simulates L s t \<longleftrightarrow>
     env L (xreg t sp) (xmem s) \<and> (\<forall>x. user x \<longrightarrow> val (xreg s) x = val (xreg t) x) \<and>
     (\<forall>a. readable L t a \<longrightarrow> xmem s a = xmem t a)"

lemma simulates_stands: "simulates L s t \<longleftrightarrow> stands L {a. readable L t a} s t"
  by (auto simp: simulates_def stands_def)

section \<open>One instruction\<close>

lemma stands_sp: "stands L V s t \<Longrightarrow> xreg s sp = xreg t sp"
  unfolding stands_def user_def by (drule conjunct2, drule conjunct1, drule spec [where x = sp]) (simp add: val_def)

lemma stands_computes:
  assumes "stands L V s t" "computes_on L code d v (xreg s) (xmem s)" "d \<noteq> sp" "user d"
  shows "stands L V (fold exec code s) (set_reg d v t)"
proof -
  obtain f where s: "s = St (xreg s) f (xmem s)" using St_ex by blast
  obtain r' f' m' where 1: "fold exec code s = St r' f' m'" "val r' d = (if d = x0 then 0 else v)"
    "\<forall>x. x \<notin> {d, gp, tp} \<longrightarrow> val r' x = val (xreg s) x" "\<forall>p. \<not> in_array L p \<longrightarrow> m' p = xmem s p"
    using assms(2) s unfolding computes_on_def by metis
  have sp': "r' sp = xreg t sp" "xreg (set_reg d v t) sp = xreg t sp"
    using 1(3) [rule_format, of sp] assms(3) stands_sp [OF assms(1)] by (simp_all add: val_def set_reg_def)
  have m': "xmem (St r' f' m') a = xmem s a" if "outside (xreg t sp) a" "\<not> in_array L a" for a
    using xmem_St [of r' a f' m'] that sp'(1) 1(4) by simp
  have "env L (xreg t sp) (xmem (St r' f' m'))"
    using assms(1) m' env_cong unfolding stands_def by blast
  moreover have "val r' x = val (upd d v (xreg t)) x" if "user x" for x
    using 1(2,3) that assms(1) by (cases "x = x0") (auto simp: user_def stands_def)
  moreover have "readable L (set_reg d v t) a \<and> xmem (St r' f' m') a = xmem t a" if "a \<in> V" for a
    using m' that assms(1) sp'(2) by (auto simp: readable_def stands_def)
  ultimately show ?thesis
    unfolding stands_def 1(1) sp'(2) by (simp add: set_reg_def)
qed

lemma logic_Some:
  assumes "d = x0 \<or> d \<notin> {sp, gp, tp} \<and> a \<notin> {sp, gp, tp} \<and> b \<notin> {sp, gp}"
  shows "\<exists>code. logic t d a b = Some code"
  using assms by (auto simp: logic_def)

lemma computes_R:
  assumes "env L (r sp) m" "user d" "d \<noteq> sp" "user a" "user b" "assembles (R f d a b)"
  shows "\<exists>code. expand L (R f d a b) = Some code \<and> computes code d (rop_val f (val r a) (val r b)) r m"
proof (cases "f \<in> {ANDR, ORR, XORR}")
  case True
  have l: "\<exists>code. logic t d a b = Some code" for t
    using logic_Some [of d a b t] assms(2-6) True by (auto simp: user_def)
  show ?thesis
    using True l [of "and8_table L"] l [of "or8_table L"] l [of "xor8_table L"]
      computes_and [of L r m d a b] computes_or [of L r m d a b] computes_xor [of L r m d a b] assms(1)
    by (auto simp: and_rv_def or_rv_def xor_rv_def)
next
  case False
  then show ?thesis
    using assms computes_sub [of L r m d a b] computes_slt [of L r m d a b] computes_sltu [of L r m d a b]
      computes_sll [of L r m d a b] computes_srl [of L r m d a b] computes_sra [of L r m d a b]
      computes_slt [of L r m d b a] computes_sltu [of L r m d b a]
    by (cases f) (auto simp: user_def sgt_def sgtu_def)
qed

lemma computes_li:
  assumes "\<And>r. r sp = q sp \<Longrightarrow> val r a = val q a \<Longrightarrow> val r tp = scast i \<Longrightarrow> computes code d v r m" "a \<noteq> tp"
  shows "computes (li tp i @ code) d v q m"
proof (rule computes_after)
  fix f
  show "\<exists>r1 f1. fold exec (li tp i) (St q f m) = St r1 f1 m \<and> computes code d v r1 m \<and> (\<forall>x. x \<notin> {d, gp, tp} \<longrightarrow> val r1 x = val q x)"
    by (insert assms, rule St_result, simp add: li_def, rule refl) simp
qed

lemma computes_I:
  assumes "env L (r sp) m" "user d" "d \<noteq> sp" "user a" "assembles (I f d a i)"
  shows "\<exists>code. expand L (I f d a i) = Some code \<and> computes code d (iop_val f (val r a) (scast i)) r m"
proof -
  have a: "a \<noteq> tp" using assms(4) by (simp add: user_def)
  have slt: "computes (slti L d a i) d (of_bool (val r a <s scast i)) r m" and sltu: "computes (sltiu L d a i) d (of_bool (val r a < scast i)) r m"
    unfolding slti_def sltiu_def
    by (rule computes_li [OF _ a], use computes_slt [of L _ m d a tp] computes_sltu [of L _ m d a tp] assms(1,3) in \<open>metis\<close>)+
  show ?thesis
  proof (cases "f \<in> {ANDI, ORI, XORI}")
    case True
    have l: "\<exists>code. logic t d a tp = Some code" for t
      using logic_Some [of d a tp t] assms(2-5) True by (auto simp: user_def)
    obtain c1 c2 c3 where c: "and_rv L d a tp = Some c1" "or_rv L d a tp = Some c2" "xor_rv L d a tp = Some c3"
      using l [of "and8_table L"] l [of "or8_table L"] l [of "xor8_table L"] by (auto simp: and_rv_def or_rv_def xor_rv_def)
    have "computes (li tp i @ c1) d (val r a AND scast i) r m" "computes (li tp i @ c2) d (val r a OR scast i) r m"
      "computes (li tp i @ c3) d (val r a XOR scast i) r m"
      by (rule computes_li [OF _ a], use computes_and [of L _ m d a tp c1] computes_or [of L _ m d a tp c2]
        computes_xor [of L _ m d a tp c3] assms(1) c in \<open>metis\<close>)+
    then show ?thesis using True c by (auto simp: andi_def ori_def xori_def)
  next
    case False
    then show ?thesis using slt sltu by (cases f) auto
  qed
qed

lemma computes_Shift:
  assumes "env L (r sp) m" "user d" "d \<noteq> sp" "n < 32"
  shows "\<exists>code. expand L (Shift f d a n) = Some code \<and> computes code d (shop_val f (val r a) n) r m"
  using computes_slli [of d n a r m] computes_srli [of L r m d n a] computes_srai [of L r m d n a] assms
  by (cases f) (auto simp: user_def)

lemma computes_not:
  assumes "env L (r sp) m" "d \<noteq> sp"
  shows "computes (not_rv L d a) d (NOT (val r a)) r m"
  by (rule computesI, rule St_result, rule exec_not [of r m L d, OF env_tables(3) [OF assms(1)] assms(2)], rule refl) simp

lemma computes_U:
  assumes "env L (r sp) m" "user d" "d \<noteq> sp" "f = SEQZ \<longrightarrow> d \<noteq> s0" "user a"
  shows "\<exists>code. expand L (U f d a) = Some code \<and> computes code d (uop_val f (val r a)) r m"
proof -
  have z: "(0 < val r a) = (val r a \<noteq> 0)" by (simp add: word_neq_0_conv)
  show ?thesis
  proof (cases "f = SLTZ \<and> d = x0")
    case True
    have "computes (msb d a) d 0 r m"
      by (rule computesI, rule St_result, simp add: True msb_def exec_getbyte, rule refl) (simp add: True)
    then show ?thesis using True by (simp add: sltz_def computes_def)
  next
    case False
    then show ?thesis
      using assms computes_not [of L r m d a] computes_sub [of L r m d x0 a] computes_seqz [of L r m d a]
        computes_sltu [of L r m d x0 a] computes_msb [of d a r m] computes_slt [of L r m d x0 a] z
      by (cases f) (auto simp: neg_def snez_def sltz_def sgtz_def user_def)
  qed
qed

text \<open>Loads and stores.\<close>

lemma stands_mem: "stands L V s t \<Longrightarrow> a \<in> V \<Longrightarrow> xmem s a = xmem t a"
  by (simp add: stands_def)

lemma stands_val: "stands L V s t \<Longrightarrow> user x \<Longrightarrow> val (xreg s) x = val (xreg t) x"
  by (simp add: stands_def)

lemma stands_env: "stands L V s t \<Longrightarrow> env L (xreg s sp) (xmem s)"
  by (simp only: stands_sp) (simp add: stands_def)

lemma stands_outside: "stands L V s t \<Longrightarrow> a \<in> V \<Longrightarrow> outside (xreg s sp) a"
  by (simp only: stands_sp) (auto simp: readable_def stands_def)

lemma simulates_env: "simulates L s t \<Longrightarrow> env L (xreg s sp) (xmem s)"
  unfolding simulates_stands by (rule stands_env)

lemma simulates_val: "simulates L s t \<Longrightarrow> user x \<Longrightarrow> val (xreg s) x = val (xreg t) x"
  by (simp add: simulates_def)

lemma computes_one:
  "(\<And>f. exec x (St r f m) = St (upd d v r) f m) \<Longrightarrow> computes [x] d v r m"
  by (rule computesI, rule St_result, simp, rule refl) simp

lemma stands_load:
  assumes sim: "stands L V s t" and ok: "ok L V t (Load f d i b)"
  shows "\<exists>code. expand L (Load f d i b) = Some code \<and> stands L V (fold exec code s) (rv32_step (Load f d i b) t)"
proof -
  let ?a = "address t b i"
  have u: "d \<notin> {sp, gp, tp}" "b \<notin> {gp, tp}" "f \<noteq> LB \<longrightarrow> i \<noteq> 0x7ff" "?a \<in> V" "f \<noteq> LB \<longrightarrow> ?a + 1 \<in> V"
    using ok by (auto simp: user_def ok_def split: if_splits)
  have a: "val (xreg s) b + scast i = ?a" using stands_val [OF sim, of b] u(2) by (simp add: address_def user_def)
  have o: "outside (xreg s sp) ?a" "f \<noteq> LB \<longrightarrow> outside (xreg s sp) (?a + 1)"
    using stands_outside [OF sim] u(4,5) by blast+
  have v: "lop_val f (xmem s) ?a = lop_val f (xmem t) ?a"
    using stands_mem [OF sim u(4)] stands_mem [OF sim, of "?a + 1"] u(5) by (cases f) (auto simp: ld16_def)
  obtain code where c: "expand L (Load f d i b) = Some code" "computes code d (lop_val f (xmem s) ?a) (xreg s) (xmem s)"
    using computes_lb [of L "xreg s" "xmem s" d b i] computes_lh [of L "xreg s" "xmem s" d b i]
      computes_lhu [of L "xreg s" "xmem s" d b i] stands_env [OF sim] u o a
    by (cases f) auto
  have "stands L V (fold exec code s) (set_reg d (lop_val f (xmem s) ?a) t)"
    using stands_computes [OF sim computes_on [OF c(2)]] u(1) by (simp add: user_def)
  then show ?thesis using c(1) v by (simp add: address_def)
qed

lemma env_upd:
  assumes "env L p m" "list_all (\<lambda>(q, xs). length xs \<le> unat (a - q)) (rodata L)"
  shows "env L p (m(a := v))"
proof -
  have "bytes_at (m(a := v)) q (length xs) = xs" if x: "(q, xs) \<in> set (rodata L)" for q xs
  proof -
    have "q + of_nat i \<noteq> a" if "i < length xs" for i
    proof
      assume "q + of_nat i = a"
      then have "a - q = of_nat i" by auto
      then have "unat (a - q) \<le> i" by (simp add: unat_of_nat)
      moreover have "length xs \<le> unat (a - q)" using assms(2) x by (auto simp: list_all_iff)
      ultimately show False using that by simp
    qed
    then have "bytes_at (m(a := v)) q (length xs) = bytes_at m q (length xs)" by (intro bytes_at_cong) simp
    then show ?thesis using assms(1) x by (fastforce simp: env_def tables_loaded_def list_all_iff)
  qed
  then show ?thesis using assms(1) by (auto simp: env_def tables_loaded_def list_all_iff)
qed

definition store :: "ptr \<Rightarrow> u8 \<Rightarrow> rv \<Rightarrow> rv" where
  "store a v s = s\<lparr>xmem := (xmem s)(a := v)\<rparr>"

lemma store_simps [simp]: "xreg (store a v s) = xreg s" "xmem (store a v s) = (xmem s)(a := v)"
  "readable L (store a v s) = readable L s" "writable L (store a v s) = writable L s"
  by (simp_all add: store_def readable_def writable_def fun_eq_iff)

lemma stands_store: "stands L V s t \<Longrightarrow> writable L t a \<Longrightarrow> stands L (insert a V) (store a v s) (store a v t)"
  by (auto simp: stands_def writable_def env_upd)

lemma stands_scratch:
  assumes "stands L V s t" "\<And>f. \<exists>r' f'. fold exec code (St (xreg s) f (xmem s)) = St r' f' (xmem s) \<and> (\<forall>x. user x \<longrightarrow> val r' x = val (xreg s) x)"
  shows "stands L V (fold exec code s) t"
proof -
  obtain f where s: "s = St (xreg s) f (xmem s)" using St_ex by blast
  obtain r' f' where 1: "fold exec code s = St r' f' (xmem s)" "\<forall>x. user x \<longrightarrow> val r' x = val (xreg s) x"
    using assms(2) [of f] s by metis
  have sp': "r' sp = xreg t sp" using 1(2) [rule_format, of sp] stands_sp [OF assms(1)] by (simp add: val_def user_def)
  have m': "xmem (St r' f' (xmem s)) a = xmem s a" if "outside (xreg t sp) a" for a
    using xmem_St [of r' a f' "xmem s"] that sp' by simp
  have "env L (xreg t sp) (xmem (St r' f' (xmem s)))"
    using assms(1) m' env_cong unfolding stands_def by blast
  then show ?thesis using assms(1) 1 m' by (auto simp: stands_def readable_def)
qed

lemma stands_storeh:
  assumes sim: "stands L V s t" and ok: "ok L V t (StoreH a i b)"
  shows "stands L (V \<union> bytes_written t (StoreH a i b)) (fold exec (sh a i b) s) (rv32_step (StoreH a i b) t)"
proof -
  let ?p = "address t b i" and ?w = "val (xreg t) a"
  have u: "user a" "user b" "i \<noteq> 0x7ff" "writable L t ?p" "writable L t (?p + 1)" using ok by (auto simp: ok_def)
  have v: "val (xreg s) a = ?w" "val (xreg s) b + scast i = ?p"
    using stands_val [OF sim] u by (simp_all add: address_def)
  have "exec (Sb a i b) s = store ?p (ucast ?w) s" by (simp add: exec.simps v store_def)
  moreover have "ucast ?w = byte_of ?w 0" by (simp add: byte_of_def)
  ultimately have 1: "stands L (insert ?p V) (exec (Sb a i b) s) (store ?p (byte_of ?w 0) t)" (is "stands L _ ?s1 ?t1")
    using stands_store [OF sim u(4)] by simp
  have r1: "xreg ?s1 = xreg s" by (simp add: exec.simps)
  have 2: "stands L (insert ?p V) (fold exec (getbyte tp a 1) ?s1) ?t1" (is "stands L _ ?s2 _")
    by (rule stands_scratch [OF 1], rule St_result, rule exec_getbyte, simp, simp, rule refl) (simp add: user_def)
  obtain f where "?s1 = St (xreg ?s1) f (xmem ?s1)" using St_ex by blast
  then obtain f' where "?s2 = St (upd tp (ucast (byte_of (val (xreg s) a) 1)) (xreg s)) f' (xmem ?s1)"
    using exec_getbyte [of tp 1 a "xreg ?s1" f "xmem ?s1"] r1 by auto
  then have tp: "val (xreg ?s2) tp = ucast (byte_of ?w 1)" "val (xreg ?s2) b = val (xreg s) b"
    using v(1) u(2) by (simp_all add: user_def)
  have "exec (Sb tp (1 + i) b) ?s2 = store (?p + 1) (byte_of ?w 1) ?s2"
    using tp v(2) u(3) by (simp add: exec.simps store_def scast_Suc add.assoc [symmetric])
  moreover have "fold exec (sh a i b) s = exec (Sb tp (1 + i) b) ?s2" by (simp add: sh_def)
  ultimately have "stands L (insert (?p + 1) (insert ?p V)) (fold exec (sh a i b) s) (store (?p + 1) (byte_of ?w 1) ?t1)"
    using stands_store [OF 2, of "?p + 1"] u(5) by simp
  moreover have "insert (?p + 1) (insert ?p V) = V \<union> bytes_written t (StoreH a i b)" by auto
  ultimately show ?thesis by (simp add: store_def st16_def address_def)
qed

text \<open>Setting a register in both states; when it is the stack pointer, the bytes below it are given up.\<close>

lemma stands_set:
  assumes "stands L V s t" "stack_clear L (xreg (set_reg d w t) sp)"
  shows "stands L (V \<inter> {a. outside (xreg (set_reg d w t) sp) a}) (set_reg d w s) (set_reg d w t)"
  using assms by (auto simp: stands_def env_def set_reg_def readable_def)

lemma stands_given_up: "stands L V s t \<Longrightarrow> V \<inter> {a. outside (xreg t sp) a} = V"
  by (auto simp: stands_def readable_def)

lemma stands_set_reg:
  assumes "stands L V s t" "d \<noteq> sp"
  shows "stands L V (set_reg d v s) (set_reg d v t)"
  using assms by (auto simp: stands_def set_reg_def readable_def)

lemma stands_base:
  assumes sim: "stands L V s t" and ok: "ok L V t (Base x)"
  shows "stands L (defined_after V t (Base x)) (exec x s) (exec x t)"
proof -
  note val = stands_val [OF sim] and mem = stands_mem [OF sim]
  note ok' = ok [unfolded ok_def]
  have reg: ?thesis if "exec x s = set_reg d w s" "exec x t = set_reg d w t" "bytes_written t (Base x) = {}" for d w
    using stands_set [OF sim, of d w] ok' that by (simp add: defined_after_def)
  have wr: ?thesis if "stands L (V \<union> bytes_written t (Base x)) (exec x s) (exec x t)"
    using that stands_given_up [OF that] by (simp add: defined_after_def)
  show ?thesis
  proof (cases x)
    case (Add d a b)
    then show ?thesis using ok' val by (intro reg [of d "val (xreg t) a + val (xreg t) b"]) (simp_all add: exec.simps set_reg_def)
  next
    case (Addi d a i)
    then show ?thesis using ok' val by (intro reg [of d "val (xreg t) a + scast i"]) (simp_all add: exec.simps set_reg_def)
  next
    case (Lui d i)
    then show ?thesis by (intro reg [of d "push_bit 12 (ucast i)"]) (simp_all add: exec.simps set_reg_def)
  next
    case (Lw d i b)
    have "val (xreg s) b = val (xreg t) b" using val ok' Lw by simp
    moreover have "ld32 (xmem s) (address t b i) = ld32 (xmem t) (address t b i)"
      using mem ok' Lw by (simp add: ld32_def)
    ultimately show ?thesis using Lw
      by (intro reg [of d "ld32 (xmem t) (address t b i)"]) (simp_all add: exec.simps set_reg_def address_def)
  next
    case (Lbu d i b)
    have "val (xreg s) b = val (xreg t) b" "xmem s (address t b i) = xmem t (address t b i)" using val mem ok' Lbu by simp_all
    then show ?thesis using Lbu
      by (intro reg [of d "ucast (xmem t (address t b i))"]) (simp_all add: exec.simps set_reg_def address_def)
  next
    case (Sw a i b)
    let ?p = "address t b i" and ?w = "val (xreg t) a"
    have "val (xreg s) b + scast i = ?p" "val (xreg s) a = ?w" using val ok' Sw by (simp_all add: address_def)
    then have e: "exec x u = store (?p + 3) (byte_of ?w 3) (store (?p + 2) (byte_of ?w 2) (store (?p + 1) (byte_of ?w 1) (store ?p (byte_of ?w 0) u)))"
      if "u = s \<or> u = t" for u
      using Sw that by (auto simp: exec.simps store_def st32_def address_def)
    have "writable L t ?p" "writable L t (?p + 1)" "writable L t (?p + 2)" "writable L t (?p + 3)" using ok' Sw by simp_all
    then have "stands L (insert (?p + 3) (insert (?p + 2) (insert (?p + 1) (insert ?p V)))) (exec x s) (exec x t)"
      unfolding e [OF disjI1, OF refl] e [OF disjI2, OF refl] by (intro stands_store) (simp_all add: sim)
    moreover have "insert (?p + 3) (insert (?p + 2) (insert (?p + 1) (insert ?p V))) = V \<union> bytes_written t (Base x)"
      using Sw by auto
    ultimately show ?thesis by (intro wr) simp
  next
    case (Sb a i b)
    let ?p = "address t b i"
    have "val (xreg s) b + scast i = ?p" "val (xreg s) a = val (xreg t) a" using val ok' Sb by (simp_all add: address_def)
    then have e: "exec x s = store ?p (ucast (val (xreg t) a)) s" "exec x t = store ?p (ucast (val (xreg t) a)) t"
      using Sb by (simp_all add: exec.simps store_def address_def)
    have "writable L t ?p" using ok' Sb by simp
    then have "stands L (insert ?p V) (exec x s) (exec x t)" unfolding e by (rule stands_store [OF sim])
    then show ?thesis using Sb by (intro wr) simp
  qed
qed

text \<open>\<open>sub\<close> with the stack pointer as result: it is written only after the last access to the stack.\<close>

lemma stands_sub_sp:
  assumes sim: "stands L V s t" and ok: "ok L V t (R SUB sp a b)"
  shows "stands L (defined_after V t (R SUB sp a b)) (fold exec (sub L sp a b) s) (rv32_step (R SUB sp a b) t)"
proof -
  let ?w = "val (xreg t) a - val (xreg t) b" and ?n = "NOT (val (xreg s) b)"
  have u: "user a" "user b" "stack_clear L ?w" using ok by (simp_all add: ok_def set_reg_def upd_def)
  note v = stands_val [OF sim u(1)] stands_val [OF sim u(2)]
  have nt: "\<exists>r' f'. fold exec (not_rv L tp b) (St (xreg s) f (xmem s)) = St r' f' (xmem s) \<and>
      (\<forall>x. x \<noteq> tp \<longrightarrow> val r' x = val (xreg s) x) \<and> val r' tp = ?n" for f
    using exec_not [of "xreg s" "xmem s" L tp b f, OF env_tables(3) [OF stands_env [OF sim]]] by auto
  let ?s = "fold exec (not_rv L tp b) s"
  have "stands L V ?s t" using nt by (intro stands_scratch [OF sim]) (force simp: user_def)
  moreover have "val (xreg ?s) tp = ?n \<and> val (xreg ?s) a = val (xreg t) a"
  proof -
    obtain f where "s = St (xreg s) f (xmem s)" using St_ex by blast
    then show ?thesis using nt [of f] u(1) v(1) by (metis user_def insertI1 insertI2 xreg_St)
  qed
  then have "fold exec (sub L sp a b) s = set_reg sp ?w ?s"
  proof -
    have "val (xreg t) a + ?n + 1 = ?w" using minus_eq_not_plus_1 [of "val (xreg t) b"] v(2) by (simp add: add.assoc)
    then show ?thesis using \<open>val (xreg ?s) tp = ?n \<and> _\<close> by (simp add: sub_def exec.simps set_reg_def add.assoc)
  qed
  ultimately show ?thesis
    using stands_set [of L V ?s t sp ?w] u(3) by (simp add: defined_after_def set_reg_def upd_def)
qed

lemma stands_step:
  assumes sim: "stands L V s t" and ok: "ok L V t i"
  shows "\<exists>code. expand L i = Some code \<and> stands L (defined_after V t i) (fold exec code s) (rv32_step i t)"
proof -
  note ok' = ok [unfolded ok_def]
  have keep: ?thesis if "\<exists>code. expand L i = Some code \<and> stands L (V \<union> bytes_written t i) (fold exec code s) (rv32_step i t)"
    using that stands_given_up by (fastforce simp: defined_after_def)
  have reg: "\<exists>code. expand L i = Some code \<and> stands L V (fold exec code s) (set_reg d v t)"
    if "\<exists>code. expand L i = Some code \<and> computes code d v (xreg s) (xmem s)" "user d" "d \<noteq> sp" for d v
    using that stands_computes [OF sim computes_on] by blast
  note env = stands_env [OF sim] and val = stands_val [OF sim]
  show ?thesis
  proof (cases i)
    case (R f d a b)
    show ?thesis
    proof (cases "d = sp")
      case True
      then have "f = SUB" using ok' R by simp
      then show ?thesis using stands_sub_sp [OF sim] ok R True by simp
    next
      case False
      then show ?thesis using reg [OF computes_R [of L "xreg s" "xmem s" d a b f, folded R]] env ok' val R
        by (intro keep) simp
    qed
  next
    case (I f d a k)
    then show ?thesis using reg [OF computes_I [of L "xreg s" "xmem s" d a f k, folded I]] env ok' val
      by (intro keep) auto
  next
    case (Shift f d a n)
    then show ?thesis using reg [OF computes_Shift [of L "xreg s" "xmem s" d n f a, folded Shift]] env ok' val
      by (intro keep) simp
  next
    case (U f d a)
    then show ?thesis using reg [OF computes_U [of L "xreg s" "xmem s" d f a, folded U]] env ok' val
      by (intro keep) auto
  next
    case (Load f d k b)
    then show ?thesis using stands_load [OF sim] ok by (intro keep) simp
  next
    case (StoreH a k b)
    then have "k \<noteq> 0x7ff" using ok' by simp
    then show ?thesis using stands_storeh [OF sim] ok StoreH by (intro keep) simp
  next
    case (Base x)
    then show ?thesis using stands_base [OF sim] ok by simp
  qed
qed

section \<open>Programs\<close>

fun expand_all :: "syms \<Rightarrow> rv32 list \<Rightarrow> op list option" where
  "expand_all L [] = Some []"
| "expand_all L (i # is) =
     (case (expand L i, expand_all L is) of (Some c, Some cs) \<Rightarrow> Some (c @ cs) | _ \<Rightarrow> None)"

text \<open>A sequence of instructions that keeps to the assumptions, and the bytes the program may rely on after it.\<close>

fun ok_run :: "syms \<Rightarrow> ptr set \<Rightarrow> rv \<Rightarrow> rv32 list \<Rightarrow> bool" where
  "ok_run L V t [] \<longleftrightarrow> True"
| "ok_run L V t (i # is) \<longleftrightarrow> ok L V t i \<and> ok_run L (defined_after V t i) (rv32_step i t) is"

fun defined_run :: "ptr set \<Rightarrow> rv \<Rightarrow> rv32 list \<Rightarrow> ptr set" where
  "defined_run V t [] = V"
| "defined_run V t (i # is) = defined_run (defined_after V t i) (rv32_step i t) is"

text \<open>
  A program is a list of blocks: instructions, and a last one that names the block it continues with.
\<close>

datatype last =
    Branch cond reg reg nat
  | Jal reg nat
  | Ret reg

type_synonym block = "rv32 list \<times> last"

text \<open>
  A layout gives the address of each block.  The step of a program runs the block at an address; the
  return address of a jump is the address of the next block.
\<close>

definition last_step :: "(nat \<Rightarrow> ptr) \<Rightarrow> nat \<Rightarrow> last \<Rightarrow> rv \<Rightarrow> ptr \<times> rv" where
  "last_step addr n l t =
     (case l of
        Branch c a b k \<Rightarrow> (if holds c (val (xreg t) a) (val (xreg t) b) then addr k else addr (n + 1), t)
      | Jal d k \<Rightarrow> (addr k, set_reg d (addr (n + 1)) t)
      | Ret a \<Rightarrow> (val (xreg t) a AND NOT 1, t))"

definition block_step :: "(nat \<Rightarrow> ptr) \<Rightarrow> nat \<Rightarrow> block \<Rightarrow> rv \<Rightarrow> ptr \<times> rv" where
  "block_step addr n b t = last_step addr n (snd b) (fold rv32_step (fst b) t)"

definition expand_last :: "syms \<Rightarrow> (nat \<Rightarrow> ptr) \<Rightarrow> nat \<Rightarrow> last \<Rightarrow> jump_code" where
  "expand_last L addr n l =
     (case l of
        Branch c a b k \<Rightarrow> branch L c a b (addr k) (addr (n + 1))
      | Jal d k \<Rightarrow> jal d (addr k)
      | Ret a \<Rightarrow> ([], jr a))"

definition expand_block :: "syms \<Rightarrow> (nat \<Rightarrow> ptr) \<Rightarrow> nat \<Rightarrow> block \<Rightarrow> jump_code option" where
  "expand_block L addr n b = map_option (\<lambda>ops. then_jump ops (expand_last L addr n (snd b))) (expand_all L (fst b))"

text \<open>The blocks lie behind each other, at even addresses.\<close>

definition laid_out :: "syms \<Rightarrow> (nat \<Rightarrow> ptr) \<Rightarrow> block list \<Rightarrow> bool" where
  "laid_out L addr P \<longleftrightarrow>
     (\<forall>n. even (addr n)) \<and>
     (\<forall>n<length P. \<forall>c. expand_block L addr n (P ! n) = Some c \<longrightarrow>
        addr (n + 1) = addr n + 4 * of_nat (length (fst c)) + 4)"

definition last_ok :: "last \<Rightarrow> bool" where
  "last_ok l \<longleftrightarrow>
     (case l of Branch c a b k \<Rightarrow> user a \<and> user b | Jal d k \<Rightarrow> user d \<and> d \<noteq> sp | Ret a \<Rightarrow> user a)"

definition block_ok :: "syms \<Rightarrow> ptr set \<Rightarrow> rv \<Rightarrow> block \<Rightarrow> bool" where
  "block_ok L V t b \<longleftrightarrow> ok_run L V t (fst b) \<and> last_ok (snd b)"

lemma stands_run:
  assumes "stands L V s t" "ok_run L V t is"
  shows "\<exists>code. expand_all L is = Some code \<and> stands L (defined_run V t is) (fold exec code s) (fold rv32_step is t)"
  using assms
proof (induction "is" arbitrary: V s t)
  case (Cons i "is")
  obtain c where c: "expand L i = Some c" "stands L (defined_after V t i) (fold exec c s) (rv32_step i t)"
    using stands_step Cons.prems by (metis ok_run.simps(2))
  then obtain cs where "expand_all L is = Some cs"
      "stands L (defined_run V t (i # is)) (fold exec cs (fold exec c s)) (fold rv32_step is (rv32_step i t))"
    using Cons.IH [OF c(2)] Cons.prems(2) by auto
  then show ?case using c(1) by auto
qed simp

lemma stands_jumps:
  assumes "stands L V s t" "jumps L c target (xreg s) (xmem s)"
  shows "\<exists>s'. run_jump pc c s = (target AND NOT 1, s') \<and> stands L V s' t"
proof -
  obtain f where s: "s = St (xreg s) f (xmem s)" using St_ex by blast
  obtain r' f' m' where 1: "run_jump pc c s = (target AND NOT 1, St r' f' m')"
    "\<forall>x. x \<notin> {gp, tp} \<longrightarrow> val r' x = val (xreg s) x" "\<forall>p. \<not> in_array L p \<longrightarrow> m' p = xmem s p"
    using assms(2) s unfolding jumps_def by metis
  have sp': "r' sp = xreg t sp" using 1(2) [rule_format, of sp] stands_sp [OF assms(1)] by (simp add: val_def)
  have m': "xmem (St r' f' m') a = xmem s a" if "outside (xreg t sp) a" "\<not> in_array L a" for a
    using xmem_St [of r' a f' m'] that sp' 1(3) by simp
  have "env L (xreg t sp) (xmem (St r' f' m'))"
    using assms(1) m' env_cong unfolding stands_def by blast
  then have "stands L V (St r' f' m') t"
    using assms(1) 1(2) m' by (auto simp: stands_def readable_def user_def)
  then show ?thesis using 1(1) by blast
qed

lemma simulates_jumps:
  "simulates L s t \<Longrightarrow> jumps L c target (xreg s) (xmem s) \<Longrightarrow>
   \<exists>s'. run_jump pc c s = (target AND NOT 1, s') \<and> simulates L s' t"
  unfolding simulates_stands by (rule stands_jumps)

lemma run_jump_jal:
  assumes "stands L V s t" "user d" "d \<noteq> sp"
  shows "\<exists>s'. run_jump pc (jal d target) s = (target AND NOT 1, s') \<and> stands L V s' (set_reg d (pc + 12) t)"
proof -
  let ?r = "if d = x0 then tp else d"
  have r: "?r \<noteq> sp" "?r \<noteq> x0" using assms(3) by auto
  have "fold exec (la ?r target) s = set_reg ?r target s"
    using r(2) hi_lo [of target] by (simp add: la_def exec.simps set_reg_def)
  then have j: "run_jump pc (jal d target) s = (target AND NOT 1, set_reg ?r (pc + 12) s)"
    using r by (auto simp: run_jump_def jal_def j_def call_template_def set_reg_def la_def add.commute)
  have "stands L V (set_reg ?r (pc + 12) s) (set_reg d (pc + 12) t)"
  proof (cases "d = x0")
    case True
    then show ?thesis using assms(1) by (auto simp: stands_def set_reg_def user_def)
  next
    case False
    then show ?thesis using stands_set_reg [OF assms(1,3)] by simp
  qed
  then show ?thesis using j by blast
qed

lemma even_clear: "even (w :: u32) \<Longrightarrow> w AND NOT 1 = w"
  by (rule bit_word_eqI) (auto simp: bit_simps even_bit_succ_iff bit_0 gr0_conv_Suc)

lemma then_jump_run: "run_jump pc (then_jump ops c) s = run_jump (pc + 4 * of_nat (length ops)) c (fold exec ops s)"
  by (cases c) (simp add: run_jump_def then_jump_def Let_def algebra_simps)

lemma stands_block:
  assumes sim: "stands L V s t" and ok: "block_ok L V t (P ! n)" and lay: "laid_out L addr P" and n: "n < length P"
  shows "\<exists>c s'. expand_block L addr n (P ! n) = Some c \<and>
    run_jump (addr n) c s = (fst (block_step addr n (P ! n) t), s') \<and> stands L (defined_run V t (fst (P ! n))) s' (snd (block_step addr n (P ! n) t))"
proof -
  obtain body l where b: "P ! n = (body, l)" by fastforce
  have ok': "ok_run L V t body" "last_ok l" using ok b by (simp_all add: block_ok_def)
  obtain code where code: "expand_all L body = Some code" "stands L (defined_run V t body) (fold exec code s) (fold rv32_step body t)"
    using stands_run [OF sim ok'(1)] by blast
  let ?t = "fold rv32_step body t" and ?s = "fold exec code s" and ?pc = "addr n + 4 * of_nat (length code)"
  have c: "expand_block L addr n (P ! n) = Some (then_jump code (expand_last L addr n l))"
    using code(1) b by (simp add: expand_block_def)
  then have nxt: "addr (n + 1) = addr n + 4 * of_nat (length (code @ fst (expand_last L addr n l))) + 4"
    using lay n by (auto simp: laid_out_def then_jump_def)
  have ev: "addr k AND NOT 1 = addr k" for k using lay even_clear by (auto simp: laid_out_def)
  have "\<exists>s'. run_jump ?pc (expand_last L addr n l) ?s = (fst (last_step addr n l ?t), s') \<and>
    stands L (defined_run V t body) s' (snd (last_step addr n l ?t))"
  proof (cases l)
    case (Branch c a b k)
    then have u: "user a" "user b" using ok'(2) by (simp_all add: last_ok_def)
    let ?target = "if holds c (val (xreg ?t) a) (val (xreg ?t) b) then addr k else addr (n + 1)"
    have "jumps L (branch L c a b (addr k) (addr (n + 1))) ?target (xreg ?s) (xmem ?s)"
      using jumps_branch_all [of L "xreg ?s" "xmem ?s" a b c "addr k" "addr (n + 1)"] stands_env [OF code(2)] u
      by (simp add: user_def stands_val [OF code(2)] cong: if_cong)
    from stands_jumps [OF code(2) this]
    obtain s' where s': "run_jump ?pc (branch L c a b (addr k) (addr (n + 1))) ?s = (?target AND NOT 1, s')" "stands L (defined_run V t body) s' ?t"
      by blast
    have "?target AND NOT 1 = ?target" using ev by auto
    then show ?thesis using s' Branch by (simp only: last_step_def expand_last_def last.case fst_conv snd_conv) blast
  next
    case (Jal d k)
    then have "addr (n + 1) = ?pc + 12" using nxt by (auto simp: expand_last_def jal_def j_def call_template_def la_def algebra_simps)
    then show ?thesis
      using run_jump_jal [OF code(2), of d ?pc "addr k"] ok'(2) Jal ev by (simp add: last_step_def expand_last_def last_ok_def)
  next
    case (Ret a)
    then show ?thesis
      using code(2) ok'(2) stands_val [OF code(2)] by (simp add: last_step_def expand_last_def last_ok_def run_jump_def jr_def)
  qed
  then show ?thesis using c by (simp add: then_jump_run block_step_def b)
qed

end
