(* ===== verification/Rvmini_Run.thy ===== *)
theory Rvmini_Run
  imports Rvmini_Prog
begin

text \<open>
  Runs of whole programs: the expansion of a program, laid out in memory, takes the same path as the
  program, block by block.  The theory also states the properties of \<open>tools/rvmini\<close> and applies them
  to a memory image with the tables.
\<close>

section \<open>Programs in memory\<close>

text \<open>
  A step of a program that keeps to the assumptions, with the bytes it may rely on, and a step of its
  expansion.
\<close>

inductive source_step :: "syms \<Rightarrow> (nat \<Rightarrow> ptr) \<Rightarrow> block list \<Rightarrow> ptr \<times> rv \<times> ptr set \<Rightarrow> ptr \<times> rv \<times> ptr set \<Rightarrow> bool"
  for L addr P where
  block: "n < length P \<Longrightarrow> block_ok L V t (P ! n) \<Longrightarrow> block_step addr n (P ! n) t = (pc', t') \<Longrightarrow>
    source_step L addr P (addr n, t, V) (pc', t', defined_run V t (fst (P ! n)))"

inductive target_step :: "syms \<Rightarrow> (nat \<Rightarrow> ptr) \<Rightarrow> block list \<Rightarrow> ptr \<times> rv \<Rightarrow> ptr \<times> rv \<Rightarrow> bool"
  for L addr P where
  code: "n < length P \<Longrightarrow> expand_block L addr n (P ! n) = Some c \<Longrightarrow> target_step L addr P (addr n, s) (run_jump (addr n) c s)"

inductive_cases source_stepE: "source_step L addr P (pc, t, V) x"
inductive_cases target_stepE: "target_step L addr P (pc, s) x"

definition distinct_blocks :: "(nat \<Rightarrow> ptr) \<Rightarrow> block list \<Rightarrow> bool" where
  "distinct_blocks addr P \<longleftrightarrow> distinct (map addr [0..<length P])"

lemma target_step_unique:
  assumes "distinct_blocks addr P" "target_step L addr P (pc, s) x" "target_step L addr P (pc, s) y"
  shows "x = y"
proof -
  obtain n c where n: "pc = addr n" "n < length P" "expand_block L addr n (P ! n) = Some c" "x = run_jump (addr n) c s"
    using assms(2) by (rule target_stepE) blast
  obtain k d where k: "pc = addr k" "k < length P" "expand_block L addr k (P ! k) = Some d" "y = run_jump (addr k) d s"
    using assms(3) by (rule target_stepE) blast
  have "n = k" using assms(1) n(1,2) k(1,2) by (auto simp: distinct_blocks_def distinct_map inj_on_def)
  then show ?thesis using n k by simp
qed

lemma stands_program_step:
  assumes "laid_out L addr P" "stands L V s t" "source_step L addr P (pc, t, V) (pc', t', V')"
  shows "\<exists>s'. target_step L addr P (pc, s) (pc', s') \<and> stands L V' s' t'"
proof -
  obtain n where n: "pc = addr n" "n < length P" "block_ok L V t (P ! n)" "(pc', t') = block_step addr n (P ! n) t"
    "V' = defined_run V t (fst (P ! n))"
    using assms(3) by (rule source_stepE) auto
  then show ?thesis
    using stands_block [OF assms(2) n(3) assms(1) n(2)] target_step.code [of n P L addr]
    by (metis fst_conv snd_conv)
qed

lemma stands_program:
  assumes "laid_out L addr P" "distinct_blocks addr P"
    and "(source_step L addr P ^^ n) (pc, t, V) (pc', t', V')" "stands L V s t"
  shows "\<exists>s'. stands L V' s' t' \<and> (\<forall>x. (target_step L addr P ^^ n) (pc, s) x \<longleftrightarrow> x = (pc', s'))"
  using assms(3)
proof (induction n arbitrary: pc' t' V')
  case 0
  then show ?case using assms(4) by auto
next
  case (Suc n)
  then obtain pc1 t1 V1 where 1: "(source_step L addr P ^^ n) (pc, t, V) (pc1, t1, V1)"
    "source_step L addr P (pc1, t1, V1) (pc', t', V')"
    by auto
  then obtain s1 where s1: "stands L V1 s1 t1" "\<And>x. (target_step L addr P ^^ n) (pc, s) x \<longleftrightarrow> x = (pc1, s1)"
    using Suc.IH by blast
  then obtain s' where s': "target_step L addr P (pc1, s1) (pc', s')" "stands L V' s' t'"
    using stands_program_step [OF assms(1) s1(1) 1(2)] by blast
  have "(target_step L addr P ^^ Suc n) (pc, s) x \<longleftrightarrow> x = (pc', s')" for x
    using s1(2) s'(1) target_step_unique [OF assms(2) s'(1), of x] by (auto simp: relcompp_apply)
  then show ?case using s'(2) by blast
qed

section \<open>A memory image\<close>

lemma disjoint_blocksI:
  assumes "unat p + n \<le> unat q" "unat q + k \<le> 2 ^ 32"
  shows "disjoint_blocks p n q k"
  unfolding disjoint_blocks_def
proof (intro allI impI)
  fix i j assume ij: "i < n" "j < k"
  have u: "unat (w + of_nat l) = unat w + l" if "unat w + l < 2 ^ 32" for w :: ptr and l
    using that by (simp add: unat_word_ariths unat_of_nat mod_add_right_eq)
  show "p + of_nat i \<noteq> q + of_nat j"
  proof
    assume "p + of_nat i = q + of_nat j"
    then have "unat p + i = unat q + j" using u [of p i] u [of q j] assms ij by simp
    then show False using assms(1) ij(1) by linarith
  qed
qed

lemma bytes_at_put_disjoint:
  "disjoint_blocks p (length xs) q n \<Longrightarrow> bytes_at (put_bytes m p xs) q n = bytes_at m q n"
  by (rule bytes_at_cong) (rule put_bytes_disjoint)

text \<open>Storing blocks that do not overlap.\<close>

definition load :: "(ptr \<times> u8 list) list \<Rightarrow> gmem \<Rightarrow> gmem" where
  "load xs m = fold (\<lambda>(p, ys) m. put_bytes m p ys) xs m"

fun apart :: "(ptr \<times> u8 list) list \<Rightarrow> bool" where
  "apart [] \<longleftrightarrow> True"
| "apart ((p, ys) # xs) \<longleftrightarrow> length ys \<le> 2 ^ 32 \<and> list_all (\<lambda>(q, zs). disjoint_blocks q (length zs) p (length ys)) xs \<and> apart xs"

lemma load_other: "list_all (\<lambda>(q, zs). disjoint_blocks q (length zs) p n) xs \<Longrightarrow> bytes_at (load xs m) p n = bytes_at m p n"
  by (induction xs arbitrary: m) (auto simp: load_def bytes_at_put_disjoint)

lemma bytes_at_load: "apart xs \<Longrightarrow> list_all (\<lambda>(p, ys). bytes_at (load xs m) p (length ys) = ys) xs"
proof (induction xs arbitrary: m)
  case (Cons x xs)
  obtain p ys where x: "x = (p, ys)" by fastforce
  have l: "load (x # xs) m = load xs (put_bytes m p ys)" by (simp add: load_def x)
  then show ?case using Cons load_other [of p "length ys" xs "put_bytes m p ys"] by (simp add: x)
qed simp

definition demo_syms :: syms where
  "demo_syms = \<lparr>check_same_array = 0x1000, same_result_table = 0x1100, check_8bit_0_table = 0x1200,
     slt1_table = 0x1300, sltu1_table = 0x1308, or1_table = 0x1310, logic_shift_table = 0x2000\<rparr>"

definition demo_mem :: gmem where
  "demo_mem = load (rodata demo_syms) (\<lambda>_. 0)"

text \<open>The state: the stack pointer is \<open>0x80000\<close>, \<open>a1\<close> holds -1 and \<open>a2\<close> holds 5.\<close>

definition demo_rv :: rv where
  "demo_rv = \<lparr>xreg = (\<lambda>_. 0)(sp := 0x80000, 11 := - 1, 12 := 5), xmem = demo_mem\<rparr>"

lemma demo_val: "val (xreg demo_rv) x = (if x = sp then 0x80000 else if x = 11 then - 1 else if x = 12 then 5 else 0)"
  by (simp add: demo_rv_def val_def)

text \<open>A loop of one block, which saves \<open>a1\<close> on the stack and reads it back into \<open>a0\<close>.\<close>

definition demo_prog :: "block list" where
  "demo_prog = [([Base (Addi sp sp (- 16)), Base (Sw 11 12 sp), U NOTR 13 11, Base (Lw 10 12 sp), R SUB 10 10 12,
     Base (Addi sp sp 16)], Branch LT 11 12 0)]"

definition demo_addr :: "nat \<Rightarrow> ptr" where
  "demo_addr n = (if n = 0 then 0x4000 else 0x41cc)"

lemma clear_demo: "p = 0x80000 \<or> p = 0x7fff0 \<Longrightarrow> stack_clear demo_syms p"
  unfolding stack_clear_def rodata_def
  by (auto simp: demo_syms_def disjoint_blocks_sym [OF disjoint_blocksI])

lemma env_demo: "env demo_syms 0x80000 demo_mem"
proof -
  have "apart (rodata demo_syms)"
    by (simp add: rodata_def demo_syms_def disjoint_blocks_sym [OF disjoint_blocksI])
  then have t: "tables_loaded demo_syms demo_mem" by (simp add: tables_loaded_def demo_mem_def bytes_at_load)
  have a: "array_apart demo_syms"
    unfolding array_apart_def rodata_def by (simp add: demo_syms_def disjoint_blocksI)
  then show ?thesis using t clear_demo by (simp add: env_def)
qed

lemma simulates_refl: "env L (xreg t sp) (xmem t) \<Longrightarrow> simulates L t t"
  by (simp add: simulates_def)

lemma simulates_demo: "simulates demo_syms demo_rv demo_rv"
  using env_demo by (intro simulates_refl) (simp add: demo_rv_def)

section \<open>Properties\<close>

text \<open>
  C6. The expansion of an instruction has the effect of the instruction: for every instruction the
  file replaces and every base instruction that is \<open>ok\<close>, the macro assembles, and running its code from
  a state that stands for a state of the program ends in one that stands for the state after the
  instruction, on all registers but \<open>gp\<close> and \<open>tp\<close> and on all bytes the program may rely on.  Not
  \<open>ok\<close>, besides what the header of the file excludes (\<open>gp\<close> and \<open>tp\<close>, memory below the stack pointer
  and the data of the macros), are: a logic operation on the stack pointer and a half word at offset
  \<open>0x7ff\<close>, which do not assemble; \<open>seqz s0\<close>, which loses its result; a stack pointer computed by another
  replaced instruction than \<open>sub\<close>; and a byte below the place the stack pointer was moved to, before it is
  written.
\<close>

theorem rvmini_instruction:
  assumes "stands L V s t" "ok L V t i"
  shows "\<exists>code. expand L i = Some code \<and> stands L (defined_after V t i) (fold exec code s) (rv32_step i t)"
  using assms by (rule stands_step)

lemma stands_demo: "stands demo_syms {} demo_rv demo_rv"
  using env_demo by (simp add: stands_def demo_rv_def)

lemma rvmini_instruction_witness:
  "\<exists>code. expand demo_syms (R SLT 10 11 12) = Some code \<and> val (xreg (fold exec code demo_rv)) 10 = 1"
proof -
  have u: "user 10" by (simp add: user_def)
  have "ok demo_syms {} demo_rv (R SLT 10 11 12)"
    using clear_demo [of "0x80000"] by (simp add: ok_def user_def set_reg_def upd_def demo_rv_def)
  then obtain code where c: "expand demo_syms (R SLT 10 11 12) = Some code"
    "stands demo_syms (defined_after {} demo_rv (R SLT 10 11 12)) (fold exec code demo_rv) (rv32_step (R SLT 10 11 12) demo_rv)"
    using rvmini_instruction [OF stands_demo] by blast
  then show ?thesis using stands_val [OF c(2) u] by (simp add: set_reg_def demo_val word_sless_alt)
qed

text \<open>
  C21. A branch goes to its target exactly when its condition holds for the values of the two registers,
  and to the label behind it otherwise, without an effect the program can see; this holds for the six
  branches with two registers, also where one of them is the zero register, and for the branches
  that compare with 0 or exchange the operands.
\<close>

theorem rvmini_branches:
  assumes "simulates L s t" "user a" "user b" "\<forall>x\<in>pregs p. user x"
  shows "(\<exists>s'. run_jump pc (branch L c a b target non_taken) s =
      ((if holds c (val (xreg t) a) (val (xreg t) b) then target else non_taken) AND NOT 1, s') \<and> simulates L s' t) \<and>
    (\<exists>s'. run_jump pc (pbranch L p target non_taken) s =
      ((if pholds p (val (xreg t)) then target else non_taken) AND NOT 1, s') \<and> simulates L s' t)"
proof
  have *: "\<exists>s'. run_jump pc (branch L c a b target non_taken) s =
      ((if holds c (val (xreg t) a) (val (xreg t) b) then target else non_taken) AND NOT 1, s') \<and> simulates L s' t"
    if "user a" "user b" for a b c
    using simulates_jumps [OF assms(1) jumps_branch_all [of L "xreg s" "xmem s" a b c target non_taken]]
      simulates_env [OF assms(1)] simulates_val [OF assms(1)] that by (simp add: user_def cong: if_cong)
  show "\<exists>s'. run_jump pc (branch L c a b target non_taken) s =
      ((if holds c (val (xreg t) a) (val (xreg t) b) then target else non_taken) AND NOT 1, s') \<and> simulates L s' t"
    using * assms(2,3) .
  obtain c' a' b' where p: "pbranch L p = branch L c' a' b'" "{a', b'} \<subseteq> insert x0 (pregs p)"
    "\<And>r. holds c' (val r a') (val r b') = pholds p (val r)"
    using pbranch_branch by metis
  have "user x0" by (simp add: user_def)
  then have "user a'" "user b'" using p(2) assms(4) by blast+
  then show "\<exists>s'. run_jump pc (pbranch L p target non_taken) s =
      ((if pholds p (val (xreg t)) then target else non_taken) AND NOT 1, s') \<and> simulates L s' t"
    using * [of a' b' c'] unfolding p(1) p(3) [of "xreg t", symmetric] by blast
qed

lemma rvmini_branches_witness:
  "fst (run_jump 0x4000 (branch demo_syms LT 11 12 0x5000 0x4100) demo_rv) = 0x5000 \<and>
   fst (run_jump 0x4000 (branch demo_syms LTU 11 12 0x5000 0x4100) demo_rv) = 0x4100 \<and>
   fst (run_jump 0x4000 (pbranch demo_syms (LEZ 11) 0x5000 0x4100) demo_rv) = 0x5000"
proof -
  have u: "user 11" "user 12" "\<forall>x\<in>pregs (LEZ 11). user x" by (simp_all add: user_def)
  have s: "- 1 <s (5 :: u32)" "\<not> - 1 < (5 :: u32)" "- 1 \<le>s (0 :: u32)" by (simp_all add: word_sless_alt word_sle_eq)
  have even: "0x5000 AND NOT 1 = (0x5000 :: u32)" "0x4100 AND NOT 1 = (0x4100 :: u32)" by simp_all
  have v: "val (xreg demo_rv) 11 = - 1" "val (xreg demo_rv) 12 = 5" by (simp_all add: demo_val)
  note * = rvmini_branches [OF simulates_demo u, of "0x4000" _ "0x5000" "0x4100", unfolded pholds.simps v]
  obtain s1 s2 s3 where
    "run_jump 0x4000 (branch demo_syms LT 11 12 0x5000 0x4100) demo_rv = ((if holds LT (- 1) 5 then 0x5000 else 0x4100) AND NOT 1, s1)"
    "run_jump 0x4000 (branch demo_syms LTU 11 12 0x5000 0x4100) demo_rv = ((if holds LTU (- 1) 5 then 0x5000 else 0x4100) AND NOT 1, s2)"
    "run_jump 0x4000 (pbranch demo_syms (LEZ 11) 0x5000 0x4100) demo_rv = ((if - 1 \<le>s (0 :: u32) then 0x5000 else 0x4100) AND NOT 1, s3)"
    using * [of LT] * [of LTU] by blast
  then show ?thesis by (simp only: fst_conv holds.simps s if_True if_False even simp_thms)
qed

text \<open>
  C5. A run of the expansion of a program: if the blocks lie behind each other in memory, then every run
  of \<open>n\<close> blocks of the program in which every instruction is \<open>ok\<close> where it is executed (see C6), and
  in which no jump or branch names \<open>gp\<close> or \<open>tp\<close> or links into the stack pointer, is matched by its
  expansion, whose run of \<open>n\<close> blocks is unique, is at the same address afterwards, and is in a state that
  stands for the state of the program.  The program may move the stack pointer, as a prologue does.
\<close>

theorem rvmini_program:
  assumes "laid_out L addr P" "distinct_blocks addr P"
    and "(source_step L addr P ^^ n) (pc, t, V) (pc', t', V')" "stands L V s t"
  shows "\<exists>s'. stands L V' s' t' \<and> (\<forall>x. (target_step L addr P ^^ n) (pc, s) x \<longleftrightarrow> x = (pc', s'))"
  using assms by (rule stands_program)

lemma demo_step:
  assumes "xreg t sp = 0x80000" "xreg t 11 = - 1" "xreg t 12 = 5"
  shows "\<exists>t' V'. source_step demo_syms demo_addr demo_prog (0x4000, t, V) (0x4000, t', V') \<and>
    xreg t' sp = 0x80000 \<and> xreg t' 11 = - 1 \<and> xreg t' 12 = 5 \<and> xreg t' 10 = - 6"
proof -
  let ?b = "demo_prog ! 0"
  have "\<not> in_array demo_syms a \<and> list_all (\<lambda>(q, xs). length xs \<le> unat (a - q)) (rodata demo_syms)"
    if "a \<in> {0x7fffc, 0x7fffd, 0x7fffe, 0x7ffff}" for a
    using that by (auto simp: in_array_def rodata_def demo_syms_def)
  then have o: "block_ok demo_syms V t ?b"
    using assms clear_demo
    by (simp add: demo_prog_def block_ok_def last_ok_def ok_def user_def address_def val_def upd_def set_reg_def
        defined_after_def exec.simps writable_def readable_def outside_def)
  moreover have "block_step demo_addr 0 ?b t = (0x4000, snd (block_step demo_addr 0 ?b t))"
    using assms by (simp add: demo_prog_def block_step_def last_step_def demo_addr_def exec.simps val_def upd_def set_reg_def word_sless_alt)
  ultimately have "source_step demo_syms demo_addr demo_prog (0x4000, t, V)
      (0x4000, snd (block_step demo_addr 0 ?b t), defined_run V t (fst ?b))"
    using source_step.block [of 0 demo_prog demo_syms V t demo_addr] by (simp add: demo_prog_def demo_addr_def)
  moreover have "xreg (snd (block_step demo_addr 0 ?b t)) x =
      (if x = 10 then - 6 else if x = 13 then 0 else xreg t x)" for x
    using assms by (simp add: demo_prog_def block_step_def last_step_def exec.simps val_def upd_def set_reg_def)
  ultimately show ?thesis using assms by (intro exI conjI) (assumption, simp_all)
qed

lemma rvmini_program_witness:
  "\<exists>s'. val (xreg s') 10 = - 6 \<and> (\<forall>x. (target_step demo_syms demo_addr demo_prog ^^ 2) (0x4000, demo_rv) x \<longleftrightarrow> x = (0x4000, s'))"
proof -
  have lay: "laid_out demo_syms demo_addr demo_prog"
    by (simp add: laid_out_def demo_prog_def demo_addr_def expand_block_def expand_last_def blt_def slt_def slt_template_def sub_def
        not_rv_def not_byte_def la_def slli.simps msb_def getbyte_def mv_def branch_resolve_def then_jump_def)
  have dist: "distinct_blocks demo_addr demo_prog" by (simp add: distinct_blocks_def demo_prog_def)
  have "xreg demo_rv sp = 0x80000" "xreg demo_rv 11 = - 1" "xreg demo_rv 12 = 5" by (simp_all add: demo_rv_def)
  then obtain t1 V1 t2 V2 where "source_step demo_syms demo_addr demo_prog (0x4000, demo_rv, {}) (0x4000, t1, V1)"
    "source_step demo_syms demo_addr demo_prog (0x4000, t1, V1) (0x4000, t2, V2)" and v: "xreg t2 10 = - 6"
    using demo_step [of demo_rv "{}"] demo_step by metis
  then have run: "(source_step demo_syms demo_addr demo_prog ^^ 2) (0x4000, demo_rv, {}) (0x4000, t2, V2)"
    by (auto simp: numeral_2_eq_2)
  obtain s' where s': "stands demo_syms V2 s' t2"
    "\<forall>x. (target_step demo_syms demo_addr demo_prog ^^ 2) (0x4000, demo_rv) x \<longleftrightarrow> x = (0x4000, s')"
    using rvmini_program [OF lay dist run stands_demo] by blast
  have "val (xreg s') 10 = - 6" using stands_val [OF s'(1), of 10] v by (simp add: user_def val_def)
  then show ?thesis using s'(2) by blast
qed

text \<open>
  C37. \<open>seqz\<close> has no effect when its destination is \<open>s0\<close>: the register is restored from the stack after
  the result was written to it, so the result is lost.
\<close>

theorem rvmini_seqz_s0:
  assumes "env L (xreg s sp) (xmem s)"
  shows "val (xreg (fold exec (seqz L s0 a) s)) s0 = val (xreg s) s0"
proof -
  obtain f where "s = St (xreg s) f (xmem s)" using St_ex by blast
  then show ?thesis using seqz_s0_lost [of L "xreg s" "xmem s" a f] assms by (metis xreg_St)
qed

lemma rvmini_seqz_s0_witness:
  "val (xreg demo_rv) 10 = 0 \<and> val (xreg (fold exec (seqz demo_syms s0 10) demo_rv)) s0 = 0 \<and>
   val (xreg (rv32_step (U SEQZ s0 10) demo_rv)) s0 = 1"
proof -
  have "env demo_syms (xreg demo_rv sp) (xmem demo_rv)" using env_demo by (simp add: demo_rv_def)
  from rvmini_seqz_s0 [OF this, of 10] show ?thesis by (simp add: set_reg_def demo_val)
qed

end
