(* ===== verification/Spec2Isabelle.thy ===== *)
theory Spec2Isabelle
  imports Int64_Div Libgcc_Mul Libgcc_Div Klib_String Klib_Stdlib Npc_Main Am_Jyd Am_Cte X86_Trm X86_Boot Native_Ioe Native_Cte Rvmini_Run
begin

text \<open>
  \<^bold>\<open>The program.\<close>  The repository holds a 32-bit RISC-V core in Verilog, a simulator that runs the
  translated core (\<open>core/csrc\<close>), and the runtime of the programs that run on it
  (\<open>abstract-machine\<close>): a small C library (\<open>klib\<close>), the abstract machine with its platforms (\<open>am\<close>),
  and a tool that replaces instructions a reduced core does not have (\<open>tools/rvmini\<close>).  The simulator
  loads an image, runs the core cycle by cycle, serves its memory accesses and devices, compares it
  with a reference model after every instruction, and is driven by a debugger on the command line.
  A guest program prints by storing bytes to the UART of the simulator, which is where the two halves
  meet: \<open>Am_Jyd\<close> runs the guest's driver against the simulator's devices.

  \<^bold>\<open>Shared theories.\<close>
  \<^item> \<open>Prelude\<close>: the machine integers, shifts and conditions of C, little-endian words, the collections of
    simplification rules; \<open>Words32\<close>: the sign and the numbers of a 32-bit word.
  \<^item> \<open>Result\<close>: an operation gives a value (\<open>Inr\<close>) or ends the process (\<open>Inl\<close>) by a failed assertion, a
    panic, or something C leaves undefined.
  \<^item> \<open>CMem\<close>: the memory of the 32-bit guest, blocks of bytes and zero-terminated strings in it.

  \<^bold>\<open>The simulator\<close>, \<open>core/csrc\<close>.
  \<^item> \<open>Npc_Device\<close> (\<open>device/\<close>): timer, UART and the dispatch of device addresses.
  \<^item> \<open>Npc_Memory\<close> (\<open>memory.cpp\<close>): the image, the callbacks of the core with their bound checks, and the
    globals of \<open>cpu.cpp\<close> they touch, in one record.
  \<^item> \<open>Npc_Regs\<close> (\<open>cpu.cpp\<close>): registers by number and name, the state given to the reference.
  \<^item> \<open>Expr_Lex\<close>, \<open>Expr\<close> (\<open>infrastructure/expr.c\<close>): tokens, the search for the main operator, evaluation,
    and a tree semantics of expressions that the evaluator is shown to implement.
  \<^item> \<open>Watchpoint\<close> (\<open>watchpoint.c\<close>): the pool with its two linked lists; the contract of the pool is the locale
    \<open>node_pool\<close>.
  \<^item> \<open>Trace\<close> (\<open>trace.c\<close>): the symbols of the ELF file, calls and returns, the ring buffer.
  \<^item> \<open>Difftest\<close> (\<open>difftest.c\<close>): the comparison with the reference model.
  \<^item> \<open>Npc_Cpu\<close> (\<open>cpu.cpp\<close>, \<open>utils/wavemanager.cpp\<close>): the cycle, instruction and run loops and the states of
    a run; \<open>Sdb\<close> (\<open>sdb.c\<close>): the commands and the main loop of the debugger; \<open>Npc_Main\<close> (\<open>npc.cpp\<close>): options,
    initialisation and exit.

  \<^bold>\<open>The runtime\<close>, \<open>abstract-machine\<close>.
  \<^item> \<open>Klib_String\<close>, \<open>Klib_Stdio\<close>, \<open>Klib_Stdlib\<close>, \<open>Int64_Count\<close>, \<open>Int64_Div\<close> (\<open>klib/src\<close>): strings, formatted output
    against an abstract specification of the text (the locale \<open>char_sink\<close>), numbers and the allocator,
    and the 64-bit routines of the compiler.
  \<^item> \<open>Libgcc_Mul\<close>, \<open>Libgcc_Div\<close> (\<open>am/src/riscv/npc/libgcc\<close>): multiplication, shift and division for cores
    without the M extension.
  \<^item> \<open>Am_Types\<close> (\<open>am/include\<close>): the registers of the abstract machine and their structures; the locales
    \<open>io_table\<close> and \<open>typed_io_table\<close> are the contract of a table of handlers.
  \<^item> \<open>Am_Jyd\<close>, \<open>Am_Cte\<close> (\<open>am/src/riscv\<close>): the platform of this core, on a bus (locale \<open>uart_bus\<close>) that is
    interpreted on the devices of the simulator, before and after the reset of the simulation time,
    and its traps and contexts.
  \<^item> \<open>X86_Ioe\<close>, \<open>X86_Vme\<close>, \<open>X86_Desc\<close>, \<open>X86_Cte\<close>, \<open>X86_Trm\<close>, \<open>X86_Boot\<close> (\<open>am/src/x86/qemu\<close>, 32-bit variant): devices,
    page tables (the locale \<open>page_source\<close> is the contract of the client's allocator), descriptors,
    interrupts, start of the processors, and the boot loader.
  \<^item> \<open>Native_Vme\<close>, \<open>Native_Cte\<close>, \<open>Native_Ioe\<close> (\<open>am/src/native\<close>): the platform that is a process on an x86-64
    host: address spaces made of mappings, traps made of signals, keyboard, sound and disk.
  \<^item> \<open>Rvmini_Base\<close>, \<open>Rvmini_Alu\<close>, \<open>Rvmini_Shift\<close>, \<open>Rvmini_Branch\<close>, \<open>Rvmini_Prog\<close>, \<open>Rvmini_Run\<close> (\<open>tools/rvmini\<close>): the
    instructions of the reduced core, each macro as the list of instructions it expands to, and runs
    of a program against runs of its expansion.  What a program must keep to is the predicate \<open>ok\<close> of
    \<open>Rvmini_Prog\<close>: it assembles (no logic operation on the stack pointer, no half word at offset
    \<open>0x7ff\<close>), names neither \<open>gp\<close> nor \<open>tp\<close>, does not touch the data of the macros or memory below the
    stack pointer, does not read a byte that was below it before writing it, has no \<open>seqz s0\<close>, and
    moves the stack pointer only with base instructions and \<open>sub\<close>.

  \<^bold>\<open>How the code is translated.\<close>  A structure is a record, an enumeration a datatype, an integer a word
  of its width.  Guest code is the code for RV32: 32-bit pointers and \<open>char\<close> without sign.  A function
  that changes state takes and returns it.  A loop that need not end is a \<open>partial_function\<close> in the
  option monad, so \<open>None\<close> says that the code never returns; no model has fuel (\<open>valid_fuel\<close> of
  \<open>Npc_Cpu\<close> is a means of proof, shown to agree with the loop).  Loops bounded by the code are
  recursive functions on that bound.  Results that are an error stay values, so each theorem
  says which of the cases it excludes; where a property needs the call to return it states that the
  result is \<open>Some\<close>.  Undefined behaviour (an index out of range, a null pointer, an \<open>int\<close> that overflows)
  is a result of its own.  Processors that share memory are an inductive relation with one rule for each
  access (\<open>mp_act\<close>), labelled with the processor, and a run is an infinite sequence of states.

  The structure a device handler gets through a \<open>void *\<close> is tagged in the model with the register it belongs
  to, and a handler called with another one is undefined (\<open>wrong_buf\<close>); the tags are not in the code,
  and nothing is claimed about them.

  \<^bold>\<open>Parameters.\<close>  Code that is not in the repository is an argument: the translated core and its step
  function, the shared library of the reference model, the disassembler, the ports and disk of x86,
  the client's handler, allocator and thread entries, the addresses the linker chooses.  What is
  assumed of them is a named hypothesis (\<open>disk_holds\<close>, \<open>io_table\<close>, \<open>page_source\<close>, \<open>uart_bus\<close>), and each is met by a
  concrete instance in the same theory.

  \<^bold>\<open>What the lemmas show.\<close>
  \<^item> Evaluation, formatting, page tables, address spaces, keyboard queue and instruction replacement refine an
    abstract specification; the arithmetic routines compute what the C or RISC-V operators specify.
  \<^item> Invariants: the lists of the watchpoint pool and the state of a debugger session through every
    command, with the order of the wave files; the order in which processors start.
  \<^item> Round trips: traps and interrupts restore all registers the models have (on x86 \<open>es\<close>, which the
    frame does not hold, becomes \<open>ds\<close>); stores are read back; numbers printed are read again.
  \<^item> Loops end: the run loop on a core that completes instructions; the start of all processors in
    every run in which each processor that can step does so in the end; the boot loader on a disk
    that answers.
  \<^item> Where the code does not do what it should, the theorem states what it does: \<open>memmove\<close> upwards never
    ends, \<open>yield\<close> never returns, \<open>seqz s0\<close> loses its result, remapping a page of the native platform makes
    its list a cycle, writes that the host takes in part are played twice, and what a guest prints is dropped
    after the simulator has reset its time, until the time has caught up.

  \<^bold>\<open>Not modelled.\<close>  The Verilog sources and netlists, which are another language; the vendored
  disassembler; logging and the opening of files, which only call the host; the set-up of the process
  of the native platform (\<open>platform.c\<close>, \<open>mpe.c\<close>) and its window, which call the host and SDL; the
  platforms of other simulators and processors (NPC and NEMU apart from the event handlers and libgcc,
  Spike, MIPS, LoongArch), which are stubs or repeat the code of the modelled ones with other addresses;
  the 64-bit variant of x86; the test programs, which are inputs of the simulator; the build scripts.
  Of what is modelled: the floating-point part of a host context (\<open>Native_Cte\<close> keeps the general
  registers and the signal mask); the segment registers of x86 besides \<open>cs\<close>, \<open>ds\<close>, \<open>es\<close> and \<open>ss\<close>; an
  overflow of the \<open>int\<close> sums of lengths in \<open>vsnprintf\<close>, which only a width or precision near \<open>2 ^ 31\<close>
  reaches; steps of other processors in the middle of \<open>percpu_init\<close>, which
  writes only the tables and the interrupt controller of its own processor; the variants of the
  64-bit routines for 64-bit cores.
\<close>

end
